(* ===== verification/Prelude.thy ===== *)
theory Prelude
  imports Main "HOL-Library.Word" "HOL-Library.Code_Target_Nat"
begin

text \<open>
  Shared vocabulary of the development: machine integers and byte buffers, the errors the Go code
  returns, the byte-slice functions of the Go standard library that the sources call
  (\<open>bytes.Index\<close>, \<open>bytes.IndexByte\<close>, \<open>bytes.Count\<close>, \<open>bytes.ReplaceAll\<close>,
  \<open>binary.BigEndian\<close>), and the generic lemmas the component theories share.
  A Go slice is a list: the model is about the values a slice holds, never about the sharing of
  its backing array.
\<close>

section \<open>Types\<close>

type_synonym byte = "8 word"
type_synonym bytes = "byte list"
type_synonym u16 = "16 word"
type_synonym u32 = "32 word"
type_synonym u64 = "64 word"

text \<open>
  Errors. The first constructors are the sentinel values the sources compare with or create;
  \<open>ErrText\<close> is an error made from a message, \<open>ErrWrap\<close> is \<open>fmt.Errorf("...: %w", err)\<close>,
  which keeps the cause for \<open>errors.Is\<close>, and \<open>ErrFlat\<close> is \<open>fmt.Errorf("...: %v", err)\<close>,
  which keeps only its text.
\<close>

datatype go_error =
    ErrEOF
  | ErrUnexpectedEOF
  | ErrNetClosed
  | ErrClosedPipe
  | ErrShortBuffer
  | ErrShortWrite
  | ErrQuicStream nat
  | ErrText string
  | ErrWrap string go_error
  | ErrFlat string go_error

type_synonym 'a result = "go_error + 'a"

section \<open>Strings as bytes\<close>

definition c2b :: "char \<Rightarrow> byte" where
  "c2b c = word_of_nat (of_char c)"

definition b2c :: "byte \<Rightarrow> char" where
  "b2c b = char_of (unat b)"

definition str_bytes :: "string \<Rightarrow> bytes" where
  "str_bytes s = map c2b s"

definition bytes_str :: "bytes \<Rightarrow> string" where
  "bytes_str b = map b2c b"

section \<open>Big-endian integers\<close>

text \<open>\<open>be_bytes n v\<close> are the \<open>n\<close> bytes \<open>binary.BigEndian\<close> stores for \<open>v\<close>, \<open>be_nat\<close> reads them.\<close>

fun be_bytes :: "nat \<Rightarrow> nat \<Rightarrow> bytes" where
  "be_bytes 0 v = []"
| "be_bytes (Suc n) v = word_of_nat (v div 256 ^ n) # be_bytes n v"

definition be_nat :: "bytes \<Rightarrow> nat" where
  "be_nat bs = foldl (\<lambda>a b. a * 256 + unat b) 0 bs"

definition put_u16 :: "u16 \<Rightarrow> bytes" where
  "put_u16 w = be_bytes 2 (unat w)"

definition put_u32 :: "u32 \<Rightarrow> bytes" where
  "put_u32 w = be_bytes 4 (unat w)"

definition put_u64 :: "u64 \<Rightarrow> bytes" where
  "put_u64 w = be_bytes 8 (unat w)"

definition get_u16 :: "bytes \<Rightarrow> u16" where
  "get_u16 bs = word_of_nat (be_nat (take 2 bs))"

definition get_u32 :: "bytes \<Rightarrow> u32" where
  "get_u32 bs = word_of_nat (be_nat (take 4 bs))"

definition get_u64 :: "bytes \<Rightarrow> u64" where
  "get_u64 bs = word_of_nat (be_nat (take 8 bs))"

section \<open>Searching slices\<close>

definition has_prefix :: "'a list \<Rightarrow> 'a list \<Rightarrow> bool" where
  "has_prefix s p \<longleftrightarrow> take (length p) s = p"

fun index_sub :: "'a list \<Rightarrow> 'a list \<Rightarrow> nat option" where
  "index_sub [] p = (if p = [] then Some 0 else None)"
| "index_sub (x # xs) p =
     (if has_prefix (x # xs) p then Some 0 else map_option Suc (index_sub xs p))"

fun index_elem :: "'a list \<Rightarrow> 'a \<Rightarrow> nat option" where
  "index_elem [] b = None"
| "index_elem (x # xs) b = (if x = b then Some 0 else map_option Suc (index_elem xs b))"

text \<open>\<open>bytes.ReplaceAll(s, p, "")\<close> for a non-empty \<open>p\<close>: the leftmost non-overlapping occurrences go.\<close>

function remove_sub :: "'a list \<Rightarrow> 'a list \<Rightarrow> 'a list" where
  "remove_sub s p =
     (if p = [] \<or> s = [] then s
      else if has_prefix s p then remove_sub (drop (length p) s) p
      else hd s # remove_sub (tl s) p)"
  by pat_completeness auto
termination
  by (relation "measure (\<lambda>(s, p). length s)") auto

declare remove_sub.simps [simp del]

section \<open>Lemmas on strings and integers\<close>

lemma pair3_exhaust:
  obtains a b c where "x = ((a, b), c)"
  by (cases x; cases "fst x") auto

lemma unat_bound: "unat (w :: 'a::len word) < 2 ^ LENGTH('a)"
  by (rule unsigned_less)

named_theorems codec_simps \<open>evaluation of the wire codecs\<close>

lemma b2c_c2b [simp]: "b2c (c2b c) = c"
  by (simp add: b2c_def c2b_def unat_of_nat take_bit_eq_mod)

lemma c2b_b2c [simp]: "c2b (b2c b) = b"
proof -
  have "unat b mod 256 = unat b"
    using unat_bound [of b] by simp
  then show ?thesis by (simp add: b2c_def c2b_def)
qed

lemma bytes_str_str_bytes [simp]: "bytes_str (str_bytes s) = s"
  by (simp add: bytes_str_def str_bytes_def comp_def)

lemma str_bytes_bytes_str [simp]: "str_bytes (bytes_str b) = b"
  by (simp add: bytes_str_def str_bytes_def comp_def)

lemma length_str_bytes [simp]: "length (str_bytes s) = length s"
  by (simp add: str_bytes_def)

lemma str_bytes_inj [simp]: "str_bytes s = str_bytes t \<longleftrightarrow> s = t"
  by (metis bytes_str_str_bytes)

lemma length_be_bytes [simp]: "length (be_bytes n v) = n"
  by (induction n) auto

lemma be_nat_Nil [simp]: "be_nat [] = 0"
  by (simp add: be_nat_def)

lemma be_nat_acc: "foldl (\<lambda>a b. a * 256 + unat b) a bs = a * 256 ^ length bs + be_nat bs"
  for bs :: bytes
proof (induction bs arbitrary: a)
  case Nil
  then show ?case by simp
next
  case (Cons b bs)
  have "be_nat (b # bs) = unat b * 256 ^ length bs + be_nat bs"
    using Cons [of "unat b"] by (simp add: be_nat_def)
  with Cons [of "a * 256 + unat b"] show ?case
    by (simp add: algebra_simps)
qed

lemma be_nat_Cons [simp]: "be_nat (b # bs) = unat b * 256 ^ length bs + be_nat bs"
  using be_nat_acc [of "unat b" bs] by (simp add: be_nat_def)

lemma be_nat_less: "be_nat bs < 256 ^ length bs"
proof (induction bs)
  case Nil
  then show ?case by simp
next
  case (Cons b bs)
  have "unat b \<le> 255"
    using unat_bound [of b] by simp
  then have "unat b * 256 ^ length bs \<le> 255 * 256 ^ length bs"
    by (rule mult_le_mono1)
  with Cons have "unat b * 256 ^ length bs + be_nat bs < 255 * 256 ^ length bs + 256 ^ length bs"
    by (intro add_le_less_mono)
  then show ?case by simp
qed

lemma be_nat_be_bytes: "be_nat (be_bytes n v) = v mod 256 ^ n"
proof (induction n)
  case 0
  then show ?case by simp
next
  case (Suc n)
  have "unat (word_of_nat (v div 256 ^ n) :: byte) = v div 256 ^ n mod 256"
    by (simp add: unat_of_nat)
  with Suc show ?case
    using mod_mult2_eq [of v "256 ^ n" 256] by (simp add: mult.commute)
qed

lemma get_put_u16 [simp]: "get_u16 (put_u16 w @ r) = w"
  using unat_bound [of w] by (simp add: get_u16_def put_u16_def be_nat_be_bytes)

lemma get_put_u32 [simp]: "get_u32 (put_u32 w @ r) = w"
  using unat_bound [of w] by (simp add: get_u32_def put_u32_def be_nat_be_bytes)

lemma get_put_u64 [simp]: "get_u64 (put_u64 w @ r) = w"
  using unat_bound [of w] by (simp add: get_u64_def put_u64_def be_nat_be_bytes)

lemma get_put_exact [simp]:
  "get_u16 (put_u16 a) = a" "get_u32 (put_u32 b) = b" "get_u64 (put_u64 c) = c"
  using get_put_u16 [of a "[]"] get_put_u32 [of b "[]"] get_put_u64 [of c "[]"] by simp_all

lemma length_put [simp]:
  "length (put_u16 a) = 2" "length (put_u32 b) = 4" "length (put_u64 c) = 8"
  by (simp_all add: put_u16_def put_u32_def put_u64_def)

section \<open>Lemmas on searching\<close>

lemma has_prefix_append [simp]: "has_prefix (p @ r) p"
  by (simp add: has_prefix_def)

lemma has_prefix_Nil [simp]: "has_prefix s []"
  by (simp add: has_prefix_def)

lemma has_prefixE:
  assumes "has_prefix s p"
  obtains r where "s = p @ r"
  using assms by (metis append_take_drop_id has_prefix_def)

lemma index_sub_Some:
  "index_sub s p = Some i \<Longrightarrow> i + length p \<le> length s \<and> s = take i s @ p @ drop (i + length p) s"
proof (induction s arbitrary: i)
  case Nil
  then show ?case by (auto split: if_splits)
next
  case (Cons x xs)
  show ?case
  proof (cases "has_prefix (x # xs) p")
    case True
    then obtain r where "x # xs = p @ r"
      by (rule has_prefixE)
    moreover from this have "length p \<le> length (x # xs)"
      by simp
    moreover from True Cons.prems have "i = 0"
      by simp
    ultimately show ?thesis by simp
  next
    case False
    with Cons.prems obtain j where j: "index_sub xs p = Some j" "i = Suc j"
      by auto
    from Cons.IH [OF j(1)] j(2) show ?thesis by auto
  qed
qed

lemma index_sub_None: "index_sub s p = None \<longleftrightarrow> (\<nexists>a b. s = a @ p @ b)"
proof (induction s)
  case Nil
  then show ?case by auto
next
  case (Cons x xs)
  have "(\<exists>a b. x # xs = a @ p @ b) \<longleftrightarrow> has_prefix (x # xs) p \<or> (\<exists>a b. xs = a @ p @ b)"
  proof
    assume "\<exists>a b. x # xs = a @ p @ b"
    then obtain a b where ab: "x # xs = a @ p @ b" by blast
    then show "has_prefix (x # xs) p \<or> (\<exists>a b. xs = a @ p @ b)"
      by (cases a) auto
  next
    assume "has_prefix (x # xs) p \<or> (\<exists>a b. xs = a @ p @ b)"
    then show "\<exists>a b. x # xs = a @ p @ b"
      by (metis append_Cons append_Nil has_prefixE)
  qed
  with Cons show ?case by auto
qed

lemma index_elem_Some:
  "index_elem s b = Some i \<Longrightarrow> i < length s \<and> s ! i = b \<and> b \<notin> set (take i s)"
  by (induction s arbitrary: i) (auto split: if_splits)

lemma index_elem_None: "index_elem s b = None \<longleftrightarrow> b \<notin> set s"
  by (induction s) auto

lemma remove_sub_Nil [simp]: "remove_sub [] p = []"
  by (subst remove_sub.simps) simp

lemma length_remove_sub: "length (remove_sub s p) \<le> length s"
proof (induction s p rule: remove_sub.induct)
  case (1 s p)
  show ?case
  proof (cases "p = [] \<or> s = []")
    case True
    then show ?thesis by (subst remove_sub.simps) auto
  next
    case False
    then have "Suc (length (tl s)) = length s"
      by simp
    with False 1 show ?thesis
      by (auto simp: remove_sub.simps [of s p] simp del: length_tl)
  qed
qed

end
