(* ===== verification/Codec.thy ===== *)
theory Codec
  imports Go_Strings
begin

text \<open>
  The wire codec of \<open>proto.go\<close> and \<open>proxy.go\<close>: length-prefixed commands, JSON messages, the
  error replies and the 16-bit framed packets, over a reader and a writer that may split the data
  in any way the \<open>io.Reader\<close> and \<open>io.Writer\<close> contracts allow.

  A reader is the list of chunks its \<open>Read\<close> calls return, then the error they end with. A writer
  has the bytes it took so far and a schedule: how many bytes each coming \<open>Write\<close> takes and whether
  it fails; past the schedule a write takes everything. \<open>json.Marshal\<close> and \<open>json.Unmarshal\<close> are
  parameters (\<open>marshal\<close>, \<open>unmarshal\<close>) of the functions that use them.
\<close>

section \<open>Readers and writers\<close>

record reader =
  rd_chunks :: "bytes list"
  rd_end :: go_error

fun rd_read :: "nat \<Rightarrow> reader \<Rightarrow> (bytes \<times> go_error option) \<times> reader" where
  "rd_read n r =
     (case rd_chunks r of
        [] \<Rightarrow> (([], Some (rd_end r)), r)
      | c # cs \<Rightarrow>
          if length c \<le> n then ((c, None), r\<lparr>rd_chunks := cs\<rparr>)
          else ((take n c, None), r\<lparr>rd_chunks := drop n c # cs\<rparr>))"

declare rd_read.simps [simp del]

lemma rd_read_decr:
  assumes "rd_read (Suc n) r = ((buf, None), r')"
  shows "length (rd_chunks r') + length (concat (rd_chunks r')) < length (rd_chunks r) + length (concat (rd_chunks r))"
  using assms by (auto simp: rd_read.simps split: list.splits if_splits)

text \<open>\<open>io.ReadFull\<close>: no \<open>Read\<close> at all once the buffer is full, \<open>EOF\<close> only at a frame boundary.\<close>

fun read_full_chunks :: "nat \<Rightarrow> bytes \<Rightarrow> go_error \<Rightarrow> bytes list \<Rightarrow> bytes result \<times> bytes list" where
  "read_full_chunks n acc e [] =
     (if n \<le> length acc then (Inr acc, [])
      else (Inl (if acc \<noteq> [] \<and> e = ErrEOF then ErrUnexpectedEOF else e), []))"
| "read_full_chunks n acc e (c # cs) =
     (if n \<le> length acc then (Inr acc, c # cs)
      else let need = n - length acc
        in if length c \<le> need then read_full_chunks n (acc @ c) e cs
           else (Inr (acc @ take need c), drop need c # cs))"

definition read_full :: "nat \<Rightarrow> reader \<Rightarrow> bytes result \<times> reader" where
  "read_full n r =
     (case read_full_chunks n [] (rd_end r) (rd_chunks r) of
        (res, cs) \<Rightarrow> (res, r\<lparr>rd_chunks := cs\<rparr>))"

datatype wr_out = WrOk nat | WrErr nat go_error

record writer =
  w_sink :: bytes
  w_sched :: "wr_out list"

definition w_write :: "bytes \<Rightarrow> writer \<Rightarrow> (nat \<times> go_error option) \<times> writer" where
  "w_write b w =
     (case w_sched w of
        [] \<Rightarrow> ((length b, None), w\<lparr>w_sink := w_sink w @ b\<rparr>)
      | WrOk k # s \<Rightarrow>
          ((min k (length b), None), w\<lparr>w_sink := w_sink w @ take k b, w_sched := s\<rparr>)
      | WrErr k e # s \<Rightarrow>
          ((min k (length b), Some e), w\<lparr>w_sink := w_sink w @ take k b, w_sched := s\<rparr>))"

lemma w_write_decr:
  assumes "w_write d w = ((n, None), w')" "d \<noteq> []"
  shows "length (w_sched w') < length (w_sched w)
    \<or> length (w_sched w') = length (w_sched w) \<and> length (drop n d) < length d"
proof (cases "w_sched w")
  case Nil
  with assms have "n = length d" "w' = w\<lparr>w_sink := w_sink w @ d\<rparr>"
    by (simp_all add: w_write_def)
  with assms show ?thesis by simp
next
  case (Cons x s)
  with assms show ?thesis by (cases x) (auto simp: w_write_def)
qed

function writeAll :: "bytes \<Rightarrow> writer \<Rightarrow> go_error option \<times> writer" where
  "writeAll data w =
     (if data = [] then (None, w)
      else (case w_write data w of
          ((n, err), w') \<Rightarrow>
            (case err of Some e \<Rightarrow> (Some e, w') | None \<Rightarrow> writeAll (drop n data) w')))"
  by pat_completeness auto
termination
proof (relation "measures [\<lambda>(d, w). length (w_sched w), \<lambda>(d, w). length d]")
  fix data w x w' n err
  assume "data \<noteq> []" "(x, w') = w_write data w" "(n, err) = x" "err = None"
  then show "((drop n data, w'), data, w)
      \<in> measures [\<lambda>(d, w). length (w_sched w), \<lambda>(d, w). length d]"
    using w_write_decr [of data w n w'] by auto
qed simp

declare writeAll.simps [simp del]

section \<open>Commands\<close>

definition sendCommand :: "string \<Rightarrow> writer \<Rightarrow> go_error option \<times> writer" where
  "sendCommand command w =
     (if command = [] then (Some (ErrText ''send command is empty''), w)
      else if length command > 255 then (Some (ErrText (''send command too long: '' @ command)), w)
      else case writeAll (word_of_nat (length command) # str_bytes command) w of
          (Some e, w') \<Rightarrow> (Some (ErrWrap ''send command write buffer failed'' e), w')
        | (None, w') \<Rightarrow> (None, w'))"

text \<open>The length byte is read by one \<open>Read\<close>: an empty read leaves the zero of \<open>make([]byte, 1)\<close>.\<close>

definition recvCommand :: "reader \<Rightarrow> string result \<times> reader" where
  "recvCommand r =
     (case rd_read 1 r of
        ((_, Some e), r1) \<Rightarrow> (Inl (ErrWrap ''recv command read length failed'' e), r1)
      | ((bs, None), r1) \<Rightarrow>
          (case read_full (case bs of [] \<Rightarrow> 0 | b # _ \<Rightarrow> unat b) r1 of
             (Inl e, r2) \<Rightarrow> (Inl (ErrWrap ''recv command read buffer failed'' e), r2)
           | (Inr c, r2) \<Rightarrow> (Inr (bytes_str c), r2)))"

section \<open>Messages\<close>

definition sendMessage ::
  "('m \<Rightarrow> bytes result) \<Rightarrow> 'm \<Rightarrow> writer \<Rightarrow> go_error option \<times> writer" where
  "sendMessage marshal msg w =
     (case marshal msg of
        Inl e \<Rightarrow> (Some (ErrWrap ''send message marshal failed'' e), w)
      | Inr buf \<Rightarrow>
          (case writeAll (put_u32 (word_of_nat (length buf)) @ buf) w of
             (Some e, w') \<Rightarrow> (Some (ErrWrap ''send message write buffer failed'' e), w')
           | (None, w') \<Rightarrow> (None, w')))"

definition recvMessage ::
  "(bytes \<Rightarrow> 'm result) \<Rightarrow> reader \<Rightarrow> 'm result \<times> reader" where
  "recvMessage unmarshal r =
     (case read_full 4 r of
        (Inl e, r1) \<Rightarrow> (Inl (ErrWrap ''recv message read length failed'' e), r1)
      | (Inr lenBuf, r1) \<Rightarrow>
          (case read_full (unat (get_u32 lenBuf)) r1 of
             (Inl e, r2) \<Rightarrow> (Inl (ErrWrap ''recv message read buffer failed'' e), r2)
           | (Inr msgBuf, r2) \<Rightarrow>
               (case unmarshal msgBuf of
                  Inl e \<Rightarrow> (Inl (ErrWrap ''recv message unmarshal failed'' e), r2)
                | Inr m \<Rightarrow> (Inr m, r2))))"

definition sendCommandAndMessage ::
  "('m \<Rightarrow> bytes result) \<Rightarrow> string \<Rightarrow> 'm \<Rightarrow> writer \<Rightarrow> go_error option \<times> writer" where
  "sendCommandAndMessage marshal command msg w =
     (if command = [] then (Some (ErrText ''send command is empty''), w)
      else if length command > 255 then (Some (ErrText (''send command too long: '' @ command)), w)
      else case marshal msg of
        Inl e \<Rightarrow> (Some (ErrWrap ''send message marshal failed'' e), w)
      | Inr buf \<Rightarrow>
          (case writeAll (word_of_nat (length command) # str_bytes command
                 @ put_u32 (word_of_nat (length buf)) @ buf) w of
             (Some e, w') \<Rightarrow> (Some (ErrWrap ''send command and message failed'' e), w')
           | (None, w') \<Rightarrow> (None, w')))"

section \<open>Error replies\<close>

definition kNoErrorMsg :: string where
  "kNoErrorMsg = ''_TSSHD_NO_ERROR_''"

definition ErrProhibited :: int where "ErrProhibited = 101"

definition ErrNotPty :: int where "ErrNotPty = 102"

definition ErrCode_String :: "int \<Rightarrow> string" where
  "ErrCode_String c =
     (if c = ErrProhibited then ''ErrProhibited''
      else if c = ErrNotPty then ''ErrNotPty''
      else ''ErrCode('' @ int_str c @ '')'')"

record errorMessage =
  em_Code :: int
  em_Msg :: string

text \<open>The public error type \<open>Error{Code, Msg}\<close> and its rendering.\<close>

definition Error_Error :: "int \<Rightarrow> string \<Rightarrow> string" where
  "Error_Error code msg = (if code = 0 then msg else ErrCode_String code @ '': '' @ msg)"

datatype recv_outcome = RecvOk | RecvFailed go_error | RecvError int string

fun err_text :: "go_error \<Rightarrow> string" where
  "err_text ErrEOF = ''EOF''"
| "err_text ErrUnexpectedEOF = ''unexpected EOF''"
| "err_text ErrNetClosed = ''use of closed network connection''"
| "err_text ErrClosedPipe = ''io: read/write on closed pipe''"
| "err_text ErrShortBuffer = ''short buffer''"
| "err_text ErrShortWrite = ''short write''"
| "err_text (ErrQuicStream n) = ''stream canceled with error code '' @ nat_str n"
| "err_text (ErrText s) = s"
| "err_text (ErrWrap s e) = s @ '': '' @ err_text e"
| "err_text (ErrFlat s e) = s @ '': '' @ err_text e"

definition sendError ::
  "(errorMessage \<Rightarrow> bytes result) \<Rightarrow> go_error \<Rightarrow> writer \<Rightarrow> writer" where
  "sendError marshal err w = snd (sendMessage marshal \<lparr>em_Code = 0, em_Msg = err_text err\<rparr> w)"

definition sendErrorCode ::
  "(errorMessage \<Rightarrow> bytes result) \<Rightarrow> int \<Rightarrow> string \<Rightarrow> writer \<Rightarrow> writer" where
  "sendErrorCode marshal code msg w = snd (sendMessage marshal \<lparr>em_Code = code, em_Msg = msg\<rparr> w)"

definition sendSuccess ::
  "(errorMessage \<Rightarrow> bytes result) \<Rightarrow> writer \<Rightarrow> go_error option \<times> writer" where
  "sendSuccess marshal w = sendMessage marshal \<lparr>em_Code = 0, em_Msg = kNoErrorMsg\<rparr> w"

definition recvError ::
  "(bytes \<Rightarrow> errorMessage result) \<Rightarrow> reader \<Rightarrow> recv_outcome \<times> reader" where
  "recvError unmarshal r =
     (case recvMessage unmarshal r of
        (Inl e, r1) \<Rightarrow> (RecvFailed (ErrWrap ''recv error failed'' e), r1)
      | (Inr m, r1) \<Rightarrow>
          (if em_Msg m \<noteq> kNoErrorMsg then RecvError (em_Code m) (em_Msg m) else RecvOk, r1))"

text \<open>
  A response is a message with an embedded error message: \<open>setErr\<close> and \<open>getErr\<close> are the access
  the interface \<open>errorResponder\<close> gives to it.
\<close>

definition sendResponse ::
  "('r \<Rightarrow> bytes result) \<Rightarrow> ((errorMessage \<Rightarrow> errorMessage) \<Rightarrow> 'r \<Rightarrow> 'r) \<Rightarrow> 'r \<Rightarrow> writer
     \<Rightarrow> go_error option \<times> writer" where
  "sendResponse marshal mapErr resp w =
     sendMessage marshal (mapErr (\<lambda>m. m\<lparr>em_Msg := kNoErrorMsg\<rparr>) resp) w"

definition recvResponse ::
  "(bytes \<Rightarrow> 'r result) \<Rightarrow> ('r \<Rightarrow> errorMessage) \<Rightarrow> reader \<Rightarrow> (recv_outcome \<times> 'r option) \<times> reader" where
  "recvResponse unmarshal getErr r =
     (case recvMessage unmarshal r of
        (Inl e, r1) \<Rightarrow> ((RecvFailed (ErrWrap ''recv response failed'' e), None), r1)
      | (Inr m, r1) \<Rightarrow>
          (if em_Msg (getErr m) \<noteq> kNoErrorMsg
           then ((RecvError (em_Code (getErr m)) (em_Msg (getErr m)), Some m), r1)
           else ((RecvOk, Some m), r1)))"

section \<open>Framed packets\<close>

definition sendUdpPacket :: "bytes \<Rightarrow> writer \<Rightarrow> go_error option \<times> writer" where
  "sendUdpPacket data w =
     (let buf = put_u16 (word_of_nat (length data)) @ data
      in case w_write buf w of
           ((n, Some e), w') \<Rightarrow> (Some e, w')
         | ((n, None), w') \<Rightarrow> if n \<noteq> length buf then (Some ErrShortWrite, w') else (None, w'))"

text \<open>\<open>blen\<close> is the length of the caller's buffer; the result is what \<open>data[:n]\<close> holds.\<close>

definition recvUdpPacket :: "nat \<Rightarrow> reader \<Rightarrow> bytes result \<times> reader" where
  "recvUdpPacket blen r =
     (case read_full 2 r of
        (Inl e, r1) \<Rightarrow> (Inl e, r1)
      | (Inr buf, r1) \<Rightarrow>
          let n = unat (get_u16 buf)
          in if n > blen
             then (Inl (ErrText (''decoded frame length out of range: length='' @ nat_str n
                      @ '', buffer='' @ nat_str blen)), r1)
             else read_full n r1)"

section \<open>Closed connections\<close>

text \<open>\<open>errors.Is\<close> follows the \<open>%w\<close> chain only; the last test looks at the rendered text.\<close>

fun error_causes :: "go_error \<Rightarrow> go_error list" where
  "error_causes (ErrWrap s e) = ErrWrap s e # error_causes e"
| "error_causes e = [e]"

definition IsClosedError :: "go_error option \<Rightarrow> bool" where
  "IsClosedError err =
     (case err of None \<Rightarrow> False
      | Some e \<Rightarrow>
          ErrEOF \<in> set (error_causes e) \<or> ErrNetClosed \<in> set (error_causes e)
          \<or> ErrClosedPipe \<in> set (error_causes e) \<or> ErrQuicStream 0 \<in> set (error_causes e)
          \<or> contains_sub (err_text e) ''io: read/write on closed pipe'')"

section \<open>What a reader still holds\<close>

definition rd_bytes :: "reader \<Rightarrow> bytes" where
  "rd_bytes r = concat (rd_chunks r)"

text \<open>No \<open>Read\<close> returns zero bytes without an error.\<close>

definition rd_wf :: "reader \<Rightarrow> bool" where
  "rd_wf r \<longleftrightarrow> [] \<notin> set (rd_chunks r)"

definition command_frame :: "string \<Rightarrow> bytes" where
  "command_frame c = word_of_nat (length c) # str_bytes c"

definition message_frame :: "bytes \<Rightarrow> bytes" where
  "message_frame b = put_u32 (word_of_nat (length b)) @ b"

definition packet_frame :: "bytes \<Rightarrow> bytes" where
  "packet_frame d = put_u16 (word_of_nat (length d)) @ d"

text \<open>Receiving a number of frames one after the other, stopping at the first error.\<close>

fun recv_many :: "(reader \<Rightarrow> 'm result \<times> reader) \<Rightarrow> nat \<Rightarrow> reader \<Rightarrow> 'm list result \<times> reader" where
  "recv_many dec 0 r = (Inr [], r)"
| "recv_many dec (Suc n) r =
     (case dec r of
        (Inl e, r1) \<Rightarrow> (Inl e, r1)
      | (Inr m, r1) \<Rightarrow>
          (case recv_many dec n r1 of
             (Inl e, r2) \<Rightarrow> (Inl e, r2)
           | (Inr ms, r2) \<Rightarrow> (Inr (m # ms), r2)))"

fun send_many ::
  "('m \<Rightarrow> writer \<Rightarrow> go_error option \<times> writer) \<Rightarrow> 'm list \<Rightarrow> writer \<Rightarrow> go_error option \<times> writer" where
  "send_many send [] w = (None, w)"
| "send_many send (m # ms) w =
     (case send m w of
        (Some e, w1) \<Rightarrow> (Some e, w1)
      | (None, w1) \<Rightarrow> send_many send ms w1)"

text \<open>A writer whose writes may be short but never fail.\<close>

definition w_reliable :: "writer \<Rightarrow> bool" where
  "w_reliable w \<longleftrightarrow> (\<forall>x \<in> set (w_sched w). case x of WrOk k \<Rightarrow> True | WrErr _ _ \<Rightarrow> False)"

text \<open>What a reader is after a read that left \<open>rest\<close>.\<close>

definition rd_after :: "reader \<Rightarrow> bytes \<Rightarrow> reader \<Rightarrow> bool" where
  "rd_after r rest r' \<longleftrightarrow> rd_bytes r' = rest \<and> rd_end r' = rd_end r \<and> (rd_wf r \<longrightarrow> rd_wf r')"

section \<open>Lemmas: reading\<close>

lemma read_full_chunks_ok:
  assumes "length acc \<le> n" "n \<le> length acc + length (concat cs)"
  shows "\<exists>cs'. read_full_chunks n acc e cs = (Inr (take n (acc @ concat cs)), cs')
    \<and> concat cs' = drop n (acc @ concat cs) \<and> ([] \<notin> set cs \<longrightarrow> [] \<notin> set cs')"
  using assms
proof (induction cs arbitrary: acc)
  case Nil
  then show ?case by simp
next
  case (Cons c cs)
  show ?case
  proof (cases "n \<le> length acc")
    case True
    with Cons.prems show ?thesis by simp
  next
    case False
    let ?need = "n - length acc"
    show ?thesis
    proof (cases "length c \<le> ?need")
      case True
      with Cons.prems False have "length (acc @ c) \<le> n"
        "n \<le> length (acc @ c) + length (concat cs)" by auto
      from Cons.IH [OF this] True False show ?thesis
        by (auto simp: Let_def)
    next
      case False
      with \<open>\<not> n \<le> length acc\<close> show ?thesis
        by (auto simp: Let_def)
    qed
  qed
qed

lemma read_full_chunks_short:
  "length acc + length (concat cs) < n \<Longrightarrow>
   read_full_chunks n acc e cs =
     (Inl (if acc @ concat cs \<noteq> [] \<and> e = ErrEOF then ErrUnexpectedEOF else e), [])"
  by (induction cs arbitrary: acc) (auto simp: Let_def)

lemma read_full_ok:
  assumes "n \<le> length (rd_bytes r)"
  obtains r' where "read_full n r = (Inr (take n (rd_bytes r)), r')"
    "rd_after r (drop n (rd_bytes r)) r'"
proof -
  from assms obtain cs' where
    "read_full_chunks n [] (rd_end r) (rd_chunks r) = (Inr (take n (rd_bytes r)), cs')"
    "concat cs' = drop n (rd_bytes r)" "[] \<notin> set (rd_chunks r) \<longrightarrow> [] \<notin> set cs'"
    using read_full_chunks_ok [of "[]" n "rd_chunks r" "rd_end r"] by (auto simp: rd_bytes_def)
  then show ?thesis
    using that [of "r\<lparr>rd_chunks := cs'\<rparr>"]
    by (simp add: read_full_def rd_after_def rd_bytes_def rd_wf_def)
qed

lemma read_full_short:
  assumes "length (rd_bytes r) < n"
  shows "read_full n r =
    (Inl (if rd_bytes r \<noteq> [] \<and> rd_end r = ErrEOF then ErrUnexpectedEOF else rd_end r),
     r\<lparr>rd_chunks := []\<rparr>)"
  using read_full_chunks_short [of "[]" "rd_chunks r" n "rd_end r"] assms
  by (simp add: read_full_def rd_bytes_def)

lemma rd_read_bytes:
  assumes "rd_read n r = ((buf, err), r')"
  shows "rd_bytes r = buf @ rd_bytes r'" "err \<noteq> None \<Longrightarrow> rd_bytes r' = []"
  using assms by (auto simp: rd_read.simps rd_bytes_def split: list.splits if_splits)

lemma rd_read_one:
  assumes "rd_wf r" "rd_bytes r = b # rest"
  obtains r' where "rd_read 1 r = (([b], None), r')" "rd_after r rest r'" "rd_wf r'"
proof (cases "rd_chunks r")
  case Nil
  with assms show ?thesis by (simp add: rd_bytes_def)
next
  case (Cons c cs)
  with assms obtain d where d: "c = b # d"
    by (cases c) (auto simp: rd_wf_def rd_bytes_def)
  show ?thesis
  proof (cases "d = []")
    case True
    with Cons d assms show ?thesis
      using that [of "r\<lparr>rd_chunks := cs\<rparr>"]
      by (simp add: rd_read.simps rd_after_def rd_bytes_def rd_wf_def)
  next
    case False
    then have "\<not> length c \<le> 1"
      using d by simp
    with Cons d assms False show ?thesis
      using that [of "r\<lparr>rd_chunks := d # cs\<rparr>"]
      by (simp add: rd_read.simps rd_after_def rd_bytes_def rd_wf_def)
  qed
qed

lemma rd_after_trans: "rd_after r a r1 \<Longrightarrow> rd_after r1 b r2 \<Longrightarrow> rd_after r b r2"
  by (simp add: rd_after_def)

lemma rd_afterD:
  assumes "rd_after r rest r'"
  shows "rd_bytes r' = rest" "rd_end r' = rd_end r" "rd_wf r \<Longrightarrow> rd_wf r'"
  using assms by (simp_all add: rd_after_def)

lemma read_full_append:
  assumes "rd_bytes r = b @ rest"
  obtains r' where "read_full (length b) r = (Inr b, r')" "rd_after r rest r'"
  using read_full_ok [of "length b" r] assms by (metis append_eq_conv_conj le_add1 length_append)

section \<open>Lemmas: writing\<close>

lemma w_write_sink:
  assumes "w_write b w = ((n, e), w')"
  shows "n \<le> length b \<and> w_sink w' = w_sink w @ take n b \<and> (w_sched w = [] \<longrightarrow> n = length b \<and> e = None)"
proof (cases "w_sched w")
  case Nil
  with assms have "n = length b" "e = None" "w' = w\<lparr>w_sink := w_sink w @ b\<rparr>"
    by (simp_all add: w_write_def)
  then show ?thesis by simp
next
  case (Cons x s)
  then show ?thesis
    using assms by (cases x) (auto simp: w_write_def min_def)
qed

text \<open>\<open>writeAll\<close> hands over a prefix of its data, and all of it exactly when it reports no error.\<close>

lemma writeAll_sink:
  "writeAll data w = (e, w') \<Longrightarrow>
   \<exists>k \<le> length data. w_sink w' = w_sink w @ take k data \<and> (e = None \<longrightarrow> k = length data)"
proof (induction data w arbitrary: e w' rule: writeAll.induct)
  case (1 data w)
  show ?case
  proof (cases "data = []")
    case True
    with "1.prems" show ?thesis by (simp add: writeAll.simps)
  next
    case False
    obtain n err w1 where w1: "w_write data w = ((n, err), w1)"
      by (rule pair3_exhaust)
    note sink = w_write_sink [OF w1]
    show ?thesis
    proof (cases err)
      case (Some x)
      with False w1 "1.prems" have "e = Some x" "w' = w1"
        by (simp_all add: writeAll.simps [of data w])
      with sink show ?thesis
        by (intro exI [of _ n]) simp
    next
      case None
      with False w1 "1.prems" have "writeAll (drop n data) w1 = (e, w')"
        by (simp add: writeAll.simps [of data w])
      from "1.IH" [OF False w1 [symmetric] refl None this] obtain k where
        "k \<le> length data - n" "w_sink w' = w_sink w1 @ take k (drop n data)"
        "e = None \<longrightarrow> k = length data - n" by auto
      with sink show ?thesis
        by (intro exI [of _ "n + k"]) (simp add: take_add; linarith)
    qed
  qed
qed

lemma w_write_reliable:
  assumes "w_reliable w"
  shows "snd (fst (w_write b w)) = None \<and> w_reliable (snd (w_write b w))"
proof (cases "w_sched w")
  case Nil
  with assms show ?thesis by (simp add: w_write_def w_reliable_def)
next
  case (Cons x s)
  with assms show ?thesis by (cases x) (simp_all add: w_write_def w_reliable_def)
qed

lemma writeAll_reliable: "w_reliable w \<Longrightarrow> fst (writeAll data w) = None \<and> w_reliable (snd (writeAll data w))"
proof (induction data w rule: writeAll.induct)
  case (1 data w)
  show ?case
  proof (cases "data = []")
    case True
    with "1.prems" show ?thesis by (simp add: writeAll.simps)
  next
    case False
    obtain n err w1 where w1: "w_write data w = ((n, err), w1)"
      by (rule pair3_exhaust)
    with "1.prems" have "err = None" "w_reliable w1"
      using w_write_reliable [of w data] by simp_all
    with "1.IH" [OF False w1 [symmetric] refl] False w1 show ?thesis
      by (simp add: writeAll.simps [of data w])
  qed
qed

section \<open>Framed channels\<close>

text \<open>
  The contract of a framing: a decoder that gets back what the encoder framed, whatever chunks the
  stream arrives in, and consumes exactly that frame.
\<close>

locale framed =
  fixes enc :: "'m \<Rightarrow> bytes"
    and dec :: "reader \<Rightarrow> 'm result \<times> reader"
    and ok :: "'m \<Rightarrow> bool"
  assumes dec_enc: "\<lbrakk>ok m; rd_wf r; rd_bytes r = enc m @ rest\<rbrakk>
    \<Longrightarrow> \<exists>r'. dec r = (Inr m, r') \<and> rd_after r rest r'"
begin

lemma dec_many:
  "\<lbrakk>list_all ok ms; rd_wf r; rd_bytes r = concat (map enc ms) @ rest\<rbrakk>
    \<Longrightarrow> \<exists>r'. recv_many dec (length ms) r = (Inr ms, r') \<and> rd_after r rest r'"
proof (induction ms arbitrary: r)
  case Nil
  then show ?case by (simp add: rd_after_def)
next
  case (Cons m ms)
  then obtain r1 where r1: "dec r = (Inr m, r1)" "rd_after r (concat (map enc ms) @ rest) r1"
    using dec_enc [of m r "concat (map enc ms) @ rest"] by auto
  with Cons.prems have "rd_wf r1" "rd_bytes r1 = concat (map enc ms) @ rest"
    by (auto dest: rd_afterD)
  with Cons obtain r2 where "recv_many dec (length ms) r1 = (Inr ms, r2)" "rd_after r1 rest r2"
    by auto
  with r1 show ?case by (auto intro: rd_after_trans)
qed

lemma enc_unambiguous:
  assumes "ok m" "ok m'" "enc m @ x = enc m' @ y"
  shows "m = m' \<and> x = y"
proof -
  let ?b = "enc m @ x"
  define r where "r = \<lparr>rd_chunks = (if ?b = [] then [] else [?b]), rd_end = ErrEOF\<rparr>"
  have "rd_wf r" "rd_bytes r = ?b" by (auto simp: r_def rd_wf_def rd_bytes_def)
  with dec_enc [of m r x] dec_enc [of m' r y] assms show ?thesis
    by (auto simp: rd_after_def)
qed

end

text \<open>A sender for the framing: what it hands to the writer when it reports no error.\<close>

locale framed_channel = framed enc dec ok
  for enc :: "'m \<Rightarrow> bytes"
    and dec :: "reader \<Rightarrow> 'm result \<times> reader"
    and ok :: "'m \<Rightarrow> bool" +
  fixes send :: "'m \<Rightarrow> writer \<Rightarrow> go_error option \<times> writer"
  assumes send_frame: "\<lbrakk>ok m; send m w = (None, w')\<rbrakk> \<Longrightarrow> w_sink w' = w_sink w @ enc m"
begin

lemma send_many_frames:
  "\<lbrakk>list_all ok ms; send_many send ms w = (None, w')\<rbrakk>
    \<Longrightarrow> w_sink w' = w_sink w @ concat (map enc ms)"
proof (induction ms arbitrary: w)
  case (Cons m ms)
  then obtain w1 where "send m w = (None, w1)" "send_many send ms w1 = (None, w')"
    by (auto split: prod.splits option.splits)
  with Cons show ?case using send_frame [of m w w1] by simp
qed simp

lemma send_recv_many:
  assumes "list_all ok ms" "send_many send ms w = (None, w')" "w_sink w = []"
    and "rd_wf r" "rd_bytes r = w_sink w'"
  shows "\<exists>r'. recv_many dec (length ms) r = (Inr ms, r') \<and> rd_after r [] r'"
  using dec_many [of ms r "[]"] send_many_frames [of ms w w'] assms by simp

end

lemma unat_of_length: "n < 2 ^ LENGTH('a) \<Longrightarrow> unat (word_of_nat n :: 'a::len word) = n"
  by (simp add: unsigned_of_nat take_bit_nat_eq_self)

lemma read_full_nat:
  assumes "rd_bytes r = b @ rest" "n = length b"
  shows "\<exists>r'. read_full n r = (Inr b, r') \<and> rd_after r rest r'"
  using read_full_append [OF assms(1)] assms(2) by metis

lemma recvCommand_frame:
  assumes "length c \<le> 255" "rd_wf r" "rd_bytes r = command_frame c @ rest"
  shows "\<exists>r'. recvCommand r = (Inr c, r') \<and> rd_after r rest r'"
proof -
  let ?n = "word_of_nat (length c) :: byte"
  have "rd_bytes r = ?n # (str_bytes c @ rest)"
    using assms by (simp add: command_frame_def)
  then obtain r1 where r1: "rd_read 1 r = (([?n], None), r1)"
      "rd_after r (str_bytes c @ rest) r1"
    using assms rd_read_one by metis
  have "unat ?n = length (str_bytes c)"
    using assms by (simp add: unat_of_length)
  with r1 obtain r2 where "read_full (unat ?n) r1 = (Inr (str_bytes c), r2)" "rd_after r1 rest r2"
    using read_full_nat [OF rd_afterD(1) [OF r1(2)]] by metis
  with r1 show ?thesis
    by (auto simp: recvCommand_def intro: rd_after_trans)
qed

lemma recvMessage_bytes:
  "recvMessage unmarshal r =
     (case recvMessage Inr r of
        (Inl e, r') \<Rightarrow> (Inl e, r')
      | (Inr b, r') \<Rightarrow>
          (case unmarshal b of
             Inl e \<Rightarrow> (Inl (ErrWrap ''recv message unmarshal failed'' e), r')
           | Inr m \<Rightarrow> (Inr m, r')))"
  by (auto simp: recvMessage_def split: prod.splits sum.splits)

lemma recvMessage_frame:
  assumes "length b < 2 ^ 32" "rd_bytes r = message_frame b @ rest"
  shows "\<exists>r'. recvMessage Inr r = (Inr b, r') \<and> rd_after r rest r'"
proof -
  let ?n = "word_of_nat (length b) :: u32"
  have "rd_bytes r = put_u32 ?n @ (b @ rest)"
    using assms by (simp add: message_frame_def)
  then obtain r1 where r1: "read_full 4 r = (Inr (put_u32 ?n), r1)" "rd_after r (b @ rest) r1"
    using read_full_nat [of r "put_u32 ?n" "b @ rest" 4] by (auto simp: length_put)
  have "unat ?n = length b"
    using assms by (simp add: unat_of_length)
  with r1 obtain r2 where "read_full (unat ?n) r1 = (Inr b, r2)" "rd_after r1 rest r2"
    using read_full_nat [OF rd_afterD(1) [OF r1(2)]] by metis
  with r1 show ?thesis
    by (auto simp: recvMessage_def intro: rd_after_trans)
qed

lemma recvUdpPacket_frame:
  assumes "length d \<le> blen" "length d < 2 ^ 16" "rd_bytes r = packet_frame d @ rest"
  shows "\<exists>r'. recvUdpPacket blen r = (Inr d, r') \<and> rd_after r rest r'"
proof -
  let ?n = "word_of_nat (length d) :: u16"
  have "rd_bytes r = put_u16 ?n @ (d @ rest)"
    using assms by (simp add: packet_frame_def)
  then obtain r1 where r1: "read_full 2 r = (Inr (put_u16 ?n), r1)" "rd_after r (d @ rest) r1"
    using read_full_nat [of r "put_u16 ?n" "d @ rest" 2] by (auto simp: length_put)
  have n: "unat ?n = length d"
    using assms by (simp add: unat_of_length)
  with r1 obtain r2 where "read_full (unat ?n) r1 = (Inr d, r2)" "rd_after r1 rest r2"
    using read_full_nat [OF rd_afterD(1) [OF r1(2)]] by metis
  with r1 n assms show ?thesis
    by (auto simp: recvUdpPacket_def Let_def intro: rd_after_trans)
qed

lemma sendCommand_frame:
  assumes "sendCommand c w = (None, w')"
  shows "w_sink w' = w_sink w @ command_frame c \<and> c \<noteq> [] \<and> length c \<le> 255"
proof -
  from assms have c: "c \<noteq> []" "length c \<le> 255" and "writeAll (command_frame c) w = (None, w')"
    by (auto simp: sendCommand_def command_frame_def split: if_splits prod.splits option.splits)
  with writeAll_sink [of "command_frame c" w None w'] show ?thesis by auto
qed

lemma sendMessage_frame:
  assumes "sendMessage marshal m w = (None, w')"
  shows "\<exists>b. marshal m = Inr b \<and> w_sink w' = w_sink w @ message_frame b"
proof -
  from assms obtain b where b: "marshal m = Inr b" "writeAll (message_frame b) w = (None, w')"
    by (auto simp: sendMessage_def message_frame_def split: sum.splits prod.splits option.splits)
  with writeAll_sink [of "message_frame b" w None w'] show ?thesis by auto
qed

lemma sendUdpPacket_frame:
  assumes "sendUdpPacket d w = (None, w')"
  shows "w_sink w' = w_sink w @ packet_frame d"
proof -
  obtain n e w1 where w1: "w_write (packet_frame d) w = ((n, e), w1)"
    by (rule pair3_exhaust)
  with assms have "e = None" "w' = w1" "n = length (packet_frame d)"
    by (auto simp: sendUdpPacket_def packet_frame_def Let_def split: option.splits if_splits)
  with w_write_sink [OF w1] show ?thesis by simp
qed

lemma sendCommandAndMessage_frame:
  assumes "sendCommandAndMessage marshal c m w = (None, w')"
  shows "\<exists>b. marshal m = Inr b \<and> w_sink w' = w_sink w @ command_frame c @ message_frame b
    \<and> c \<noteq> [] \<and> length c \<le> 255"
proof -
  from assms obtain b where b: "marshal m = Inr b" "c \<noteq> []" "length c \<le> 255"
      "writeAll (command_frame c @ message_frame b) w = (None, w')"
    by (auto simp: sendCommandAndMessage_def message_frame_def command_frame_def
        split: if_splits sum.splits prod.splits option.splits)
  with writeAll_sink [of "command_frame c @ message_frame b" w None w'] show ?thesis by auto
qed

lemma sendMessage_reliable:
  assumes "w_reliable w" "marshal m = Inr b"
  shows "\<exists>w'. sendMessage marshal m w = (None, w') \<and> w_sink w' = w_sink w @ message_frame b"
proof -
  obtain w' where w': "writeAll (message_frame b) w = (None, w')"
    using writeAll_reliable [OF assms(1), of "message_frame b"] by (metis prod.collapse)
  then have "sendMessage marshal m w = (None, w')"
    using assms by (simp add: sendMessage_def message_frame_def)
  with sendMessage_frame [OF this] assms show ?thesis by auto
qed

lemma recvMessage_sent:
  assumes "unmarshal b = Inr m" "length b < 2 ^ 32" "rd_bytes r = message_frame b @ rest"
  shows "\<exists>r'. recvMessage unmarshal r = (Inr m, r') \<and> rd_after r rest r'"
  using recvMessage_frame [OF assms(2,3)] assms(1) by (auto simp: recvMessage_bytes [of unmarshal])

lemma recvError_sent:
  assumes "w_reliable w" "w_sink w = []" "rd_bytes r = w_sink (snd (sendMessage marshal m w))"
    and "marshal m = Inr b" "unmarshal b = Inr m" "length b < 2 ^ 32"
  shows "fst (recvError unmarshal r) =
    (if em_Msg m = kNoErrorMsg then RecvOk else RecvError (em_Code m) (em_Msg m))"
  using sendMessage_reliable [of w marshal m b, OF assms(1,4)] recvMessage_sent [of unmarshal b m r "[]", OF assms(5,6)] assms(2,3)
  by (auto simp: recvError_def)

interpretation cmd: framed_channel command_frame recvCommand "\<lambda>c. length c \<le> 255" sendCommand
  by unfold_locales (use recvCommand_frame sendCommand_frame in blast)+

interpretation msg: framed_channel message_frame "recvMessage Inr" "\<lambda>b. length b < 2 ^ 32" "sendMessage Inr"
  by unfold_locales (use recvMessage_frame sendMessage_frame [of Inr] in fastforce)+

interpretation udp: framed_channel packet_frame "recvUdpPacket blen"
    "\<lambda>d. length d \<le> blen \<and> length d < 2 ^ 16" sendUdpPacket for blen
  by unfold_locales (use recvUdpPacket_frame sendUdpPacket_frame in blast)+

section \<open>Properties\<close>

text \<open>
  Commands survive the stream: when sending a list of non-empty commands of at most 255 bytes
  succeeds, however short the single writes were, a peer that receives the bytes in any chunks
  reads back exactly these commands, in order, and consumes nothing else.
\<close>

lemma command_channel_roundtrip:
  assumes "list_all (\<lambda>c. length c \<le> 255) cs"
    and "send_many sendCommand cs w = (None, w')" "w_sink w = []"
    and "rd_wf r" "rd_bytes r = w_sink w'"
  shows "\<exists>r'. recv_many recvCommand (length cs) r = (Inr cs, r') \<and> rd_bytes r' = []"
  using cmd.send_recv_many [OF assms] by (auto simp: rd_after_def)

lemma command_channel_roundtrip_witness:
  "\<exists>r'. recv_many recvCommand (length [''bus'', ''x11!''])
       \<lparr>rd_chunks = [[3, 98], [117, 115, 4, 120], [49, 49, 33]], rd_end = ErrEOF\<rparr>
     = (Inr [''bus'', ''x11!''], r') \<and> rd_bytes r' = []"
  by (rule command_channel_roundtrip
      [where w = "\<lparr>w_sink = [], w_sched = [WrOk 2, WrOk 0, WrOk 1]\<rparr>"
         and w' = "\<lparr>w_sink = [3, 98, 117, 115, 4, 120, 49, 49, 33], w_sched = []\<rparr>"];
      code_simp)

text \<open>
  A request is a command and a JSON message sent in one piece. When the peer's decoder inverts
  the encoder on the message and the encoding fits the 32-bit length field, a receiver that reads
  a command and then a message gets both back, under any fragmentation of the stream.
\<close>

lemma request_roundtrip:
  assumes "sendCommandAndMessage marshal c m w = (None, w')" "w_sink w = []"
    and "\<And>b. marshal m = Inr b \<Longrightarrow> unmarshal b = Inr m \<and> length b < 2 ^ 32"
    and "rd_wf r" "rd_bytes r = w_sink w'"
  shows "\<exists>r1 r2. recvCommand r = (Inr c, r1) \<and> recvMessage unmarshal r1 = (Inr m, r2) \<and> rd_bytes r2 = []"
proof -
  obtain b where b: "marshal m = Inr b" "w_sink w' = w_sink w @ command_frame c @ message_frame b"
    and c: "length c \<le> 255"
    using sendCommandAndMessage_frame [OF assms(1)] by blast
  with assms obtain r1 where r1: "recvCommand r = (Inr c, r1)" "rd_after r (message_frame b) r1"
    using cmd.dec_enc [of c r "message_frame b"] by auto
  then obtain r2 where "recvMessage Inr r1 = (Inr b, r2)" "rd_after r1 [] r2"
    using recvMessage_frame [of b r1 "[]"] assms(3) [OF b(1)] by (auto dest: rd_afterD)
  with r1 assms(3) [OF b(1)] show ?thesis
    by (auto simp: recvMessage_bytes [of unmarshal] dest: rd_afterD)
qed

lemma request_roundtrip_witness:
  "\<exists>r1 r2. recvCommand \<lparr>rd_chunks = [[1], [120, 0, 0], [0, 2, 123, 125]], rd_end = ErrEOF\<rparr> = (Inr ''x'', r1)
     \<and> recvMessage (\<lambda>b. if b = [123, 125] then Inr () else Inl ErrEOF) r1 = (Inr (), r2) \<and> rd_bytes r2 = []"
  by (rule request_roundtrip
      [where w = "\<lparr>w_sink = [], w_sched = [WrOk 3]\<rparr>" and marshal = "\<lambda>_. Inr [123, 125]"
         and w' = "\<lparr>w_sink = [1, 120, 0, 0, 0, 2, 123, 125], w_sched = []\<rparr>"];
      (fastforce | code_simp))

text \<open>
  Framed packets survive a stream transport: packets of less than 65536 bytes that were sent
  without error come out of \<open>recvUdpPacket\<close> as the same packets, boundaries kept, whenever the
  receiver's buffer holds the largest of them.
\<close>

lemma packet_channel_roundtrip:
  assumes "list_all (\<lambda>d. length d \<le> blen \<and> length d < 2 ^ 16) ds"
    and "send_many sendUdpPacket ds w = (None, w')" "w_sink w = []"
    and "rd_wf r" "rd_bytes r = w_sink w'"
  shows "\<exists>r'. recv_many (recvUdpPacket blen) (length ds) r = (Inr ds, r') \<and> rd_bytes r' = []"
  using udp.send_recv_many [OF assms] by (auto simp: rd_after_def)

lemma packet_channel_roundtrip_witness:
  "\<exists>r'. recv_many (recvUdpPacket 1500) (length [[7, 8, 9], [], [5 :: byte]])
      \<lparr>rd_chunks = [[0], [3, 7, 8], [9, 0, 0, 0, 1], [5]], rd_end = ErrEOF\<rparr>
     = (Inr [[7, 8, 9], [], [5]], r') \<and> rd_bytes r' = []"
  by (rule packet_channel_roundtrip
      [where w = "\<lparr>w_sink = [], w_sched = []\<rparr>"
         and w' = "\<lparr>w_sink = [0, 3, 7, 8, 9, 0, 0, 0, 1, 5], w_sched = []\<rparr>"];
      code_simp)

text \<open>A codec for small error messages, to evaluate the functions that take one as parameter.\<close>

definition sample_marshal :: "errorMessage \<Rightarrow> bytes result" where
  "sample_marshal m = Inr (word_of_int (em_Code m) # str_bytes (em_Msg m))"

definition sample_unmarshal :: "bytes \<Rightarrow> errorMessage result" where
  "sample_unmarshal b =
     (case b of [] \<Rightarrow> Inl ErrEOF | c # t \<Rightarrow> Inr \<lparr>em_Code = uint c, em_Msg = bytes_str t\<rparr>)"

text \<open>
  Error replies carry their meaning: over a writer that never fails, the peer's \<open>recvError\<close>
  reads a success as success, an error code as that code and text, and an error as its text with
  code 0, unless the text is the success marker itself.
\<close>

lemma error_reply_roundtrip:
  assumes "w_reliable w" "w_sink w = []"
    and json: "\<And>m. m \<in> {\<lparr>em_Code = 0, em_Msg = kNoErrorMsg\<rparr>, \<lparr>em_Code = code, em_Msg = msg\<rparr>,
        \<lparr>em_Code = 0, em_Msg = err_text e\<rparr>}
      \<Longrightarrow> \<exists>b. marshal m = Inr b \<and> unmarshal b = Inr m \<and> length b < 2 ^ 32"
    and "msg \<noteq> kNoErrorMsg"
  shows "(rd_bytes r = w_sink (snd (sendSuccess marshal w)) \<longrightarrow> fst (recvError unmarshal r) = RecvOk)
    \<and> (rd_bytes r = w_sink (sendErrorCode marshal code msg w) \<longrightarrow>
         fst (recvError unmarshal r) = RecvError code msg)
    \<and> (rd_bytes r = w_sink (sendError marshal e w) \<longrightarrow> fst (recvError unmarshal r) =
         (if err_text e = kNoErrorMsg then RecvOk else RecvError 0 (err_text e)))"
proof -
  have *: "fst (recvError unmarshal r) =
      (if em_Msg m = kNoErrorMsg then RecvOk else RecvError (em_Code m) (em_Msg m))"
    if "rd_bytes r = w_sink (snd (sendMessage marshal m w))"
      "\<exists>b. marshal m = Inr b \<and> unmarshal b = Inr m \<and> length b < 2 ^ 32" for m
    using recvError_sent [OF assms(1,2) that(1)] that(2) by blast
  show ?thesis
    using * [OF _ json [of "\<lparr>em_Code = 0, em_Msg = kNoErrorMsg\<rparr>"]]
      * [OF _ json [of "\<lparr>em_Code = code, em_Msg = msg\<rparr>"]]
      * [OF _ json [of "\<lparr>em_Code = 0, em_Msg = err_text e\<rparr>"]] assms(4)
    by (simp add: sendSuccess_def sendErrorCode_def sendError_def)
qed

lemma error_reply_roundtrip_witness:
  "fst (recvError sample_unmarshal \<lparr>rd_chunks = [[0, 0, 0, 3, 101], [110, 111]], rd_end = ErrEOF\<rparr>)
     = RecvError 101 ''no''"
proof -
  have "\<exists>b. sample_marshal m = Inr b \<and> sample_unmarshal b = Inr m \<and> length b < 2 ^ 32"
    if "m \<in> {\<lparr>em_Code = 0, em_Msg = kNoErrorMsg\<rparr>, \<lparr>em_Code = 101, em_Msg = ''no''\<rparr>,
      \<lparr>em_Code = 0, em_Msg = err_text ErrEOF\<rparr>}" for m
    using that
    by (auto simp: sample_marshal_def sample_unmarshal_def bytes_str_str_bytes kNoErrorMsg_def)
  note * = error_reply_roundtrip [where w = "\<lparr>w_sink = [], w_sched = [WrOk 1]\<rparr>"
      and code = 101 and msg = "''no''" and e = ErrEOF, OF _ _ this]
  show ?thesis
    by (rule * [THEN conjunct2, THEN conjunct1, THEN mp]; (assumption | code_simp))
qed

text \<open>
  A stream that ends inside a command is never taken for a command, and it counts as an
  orderly close exactly when at most the length byte had arrived: a longer torn command is an
  unexpected end of the stream, which \<open>IsClosedError\<close> does not accept.
\<close>

lemma torn_command:
  assumes "length c \<le> 255" "k \<le> length c"
    and "rd_wf r" "rd_end r = ErrEOF" "rd_bytes r = take k (command_frame c)"
  shows "\<exists>e r'. recvCommand r = (Inl e, r') \<and> (IsClosedError (Some e) \<longleftrightarrow> k \<le> 1)"
proof (cases k)
  case 0
  with assms have "rd_chunks r = []"
    by (cases "rd_chunks r") (auto simp: rd_bytes_def rd_wf_def)
  with 0 assms show ?thesis
    by (simp add: recvCommand_def rd_read.simps IsClosedError_def)
next
  case (Suc j)
  let ?n = "word_of_nat (length c) :: byte"
  have "rd_bytes r = ?n # take j (str_bytes c)"
    using assms Suc by (simp add: command_frame_def)
  then obtain r1 where r1: "rd_read 1 r = (([?n], None), r1)" "rd_after r (take j (str_bytes c)) r1"
    using assms rd_read_one by metis
  have n: "unat ?n = length c"
    using assms by (simp add: unat_of_length)
  note r1b = rd_afterD(1) [OF r1(2)] rd_afterD(2) [OF r1(2)]
  have j: "length (rd_bytes r1) = j" "length (rd_bytes r1) < unat ?n"
    using r1b n assms Suc by simp_all
  then have "rd_bytes r1 = [] \<longleftrightarrow> j = 0"
    by auto
  with j have "read_full (unat ?n) r1
      = (Inl (if j \<noteq> 0 then ErrUnexpectedEOF else ErrEOF), r1\<lparr>rd_chunks := []\<rparr>)"
    using read_full_short [of r1 "unat ?n"] r1b assms(4) by simp
  moreover have "\<not> contains_sub (err_text (ErrWrap ''recv command read buffer failed'' ErrUnexpectedEOF))
      ''io: read/write on closed pipe''"
    by code_simp
  ultimately show ?thesis
    using r1 Suc by (cases "j = 0") (simp_all add: recvCommand_def IsClosedError_def)
qed

lemma torn_command_witness:
  "\<exists>e r'. recvCommand \<lparr>rd_chunks = [[3, 98], [117]], rd_end = ErrEOF\<rparr> = (Inl e, r')
     \<and> (IsClosedError (Some e) \<longleftrightarrow> 3 \<le> (1::nat))"
  by (rule torn_command [where c = "''bus''"]; code_simp)

end
