(* ===== verification/Machine.thy ===== *)
theory Machine
  imports Prelude
begin

text \<open>
  Components whose goroutines interleave are machines: a partial function \<open>exec a s\<close> performs the
  action \<open>a\<close> of one goroutine (\<open>None\<close>: it is blocked there), a schedule is a list of actions, and
  what holds of a component is what holds after every schedule.
\<close>

section \<open>Schedules\<close>

fun run_acts :: "('a \<Rightarrow> 's \<Rightarrow> 's option) \<Rightarrow> 'a list \<Rightarrow> 's \<Rightarrow> 's option" where
  "run_acts exec [] s = Some s"
| "run_acts exec (a # as) s =
     (case exec a s of None \<Rightarrow> None | Some s' \<Rightarrow> run_acts exec as s')"

section \<open>Invariants of machines\<close>

lemma run_acts_append:
  "run_acts exec (as @ bs) s =
     (case run_acts exec as s of None \<Rightarrow> None | Some s' \<Rightarrow> run_acts exec bs s')"
  by (induction as arbitrary: s) (auto split: option.splits)

lemma run_acts_snoc:
  "run_acts exec as s = Some s1 \<Longrightarrow> exec a s1 = Some s2 \<Longrightarrow> run_acts exec (as @ [a]) s = Some s2"
  by (simp add: run_acts_append)

text \<open>A machine with a predicate that every action preserves.\<close>

locale machine =
  fixes exec :: "'a \<Rightarrow> 's \<Rightarrow> 's option"
    and inv :: "'s \<Rightarrow> bool"
  assumes exec_inv: "\<lbrakk>inv s; exec a s = Some s'\<rbrakk> \<Longrightarrow> inv s'"
begin

lemma run_inv: "\<lbrakk>inv s; run_acts exec as s = Some s'\<rbrakk> \<Longrightarrow> inv s'"
  by (induction as arbitrary: s) (auto split: option.splits dest: exec_inv)

end

text \<open>A machine in which, in addition, every action only moves forward in a preorder.\<close>

locale progress_machine = machine exec inv
  for exec :: "'a \<Rightarrow> 's \<Rightarrow> 's option" and inv :: "'s \<Rightarrow> bool" +
  fixes rel :: "'s \<Rightarrow> 's \<Rightarrow> bool"
  assumes rel_refl: "rel s s"
    and rel_trans: "\<lbrakk>rel s t; rel t u\<rbrakk> \<Longrightarrow> rel s u"
    and exec_rel: "\<lbrakk>inv s; exec a s = Some s'\<rbrakk> \<Longrightarrow> rel s s'"
begin

lemma run_rel: "\<lbrakk>inv s; run_acts exec as s = Some s'\<rbrakk> \<Longrightarrow> rel s s'"
proof (induction as arbitrary: s)
  case Nil
  then show ?case by (simp add: rel_refl)
next
  case (Cons a as)
  then obtain s1 where "exec a s = Some s1" "run_acts exec as s1 = Some s'"
    by (auto split: option.splits)
  with Cons show ?case by (blast intro: rel_trans exec_rel exec_inv)
qed

end

end
