(* ===== verification/SessionInput.thy ===== *)
theory SessionInput
  imports Codec
begin

unbundle bit_operations_syntax

text \<open>
  The input side of a session (\<open>session.go\<close>): after a reconnect the server drops what the client had
  typed before, up to a marker that the client puts into the stream. The standard input of the
  command is a writer, the stream of the client a list of reads.
\<close>

section \<open>Markers\<close>

definition marker_byte :: "u32 \<Rightarrow> nat \<Rightarrow> u32" where
  "marker_byte idx i = drop_bit (i * 8) idx AND 0xFF"

text \<open>The loop over the bytes: the index after the first byte that is \<open>;\<close> or a carriage return.\<close>

fun marker_skip :: "nat list \<Rightarrow> u32 \<Rightarrow> u32" where
  "marker_skip [] idx = idx"
| "marker_skip (i # is) idx =
     (if marker_byte idx i = 0x3B \<or> marker_byte idx i = 0x0D
      then push_bit (i * 8) (drop_bit (i * 8) idx + 1)
      else marker_skip is idx)"

definition getNextDiscardMarkerIndex :: "u32 \<Rightarrow> u32" where
  "getNextDiscardMarkerIndex current = marker_skip [3, 2, 1, 0] (current + 1)"

definition discard_marker :: "u32 \<Rightarrow> bytes" where
  "discard_marker idx = [0xFF, 0xC0, 0xC1, 0xFF] @ put_u32 idx"

section \<open>Sessions\<close>

text \<open>
  \<open>i_server\<close> is the server the session is attached to, \<open>i_marker\<close> the marker with the number of its
  object (which \<open>CompareAndSwap\<close> compares), \<open>i_reports\<close> what was reported to which server.
\<close>

record session_in =
  i_server :: "nat option"
  i_marker :: "(nat \<times> bytes) option"
  i_discarded :: bytes
  i_stdin :: writer
  i_reports :: "(nat \<times> bytes) list"
  i_ended :: bool

definition discardPendingInput :: "nat \<Rightarrow> bytes \<Rightarrow> nat \<times> bytes \<Rightarrow> session_in \<Rightarrow> session_in \<times> go_error option" where
  "discardPendingInput server buf marker c =
     (let acc = i_discarded c @ buf; c1 = c\<lparr>i_discarded := acc\<rparr>
      in case index_sub acc (snd marker) of
           None \<Rightarrow> (c1, None)
         | Some pos \<Rightarrow>
             (case writeAll (drop (pos + length (snd marker)) acc) (i_stdin c1) of
                (Some e, w) \<Rightarrow> (c1\<lparr>i_stdin := w\<rparr>, Some e)
              | (None, w) \<Rightarrow>
                  (c1\<lparr>i_stdin := w,
                     i_reports := (if pos > 0 then i_reports c1 @ [(server, take pos acc)] else i_reports c1),
                     i_discarded := [],
                     i_marker := (case i_marker c1 of
                         Some m \<Rightarrow> if fst m = fst marker then None else Some m | None \<Rightarrow> None)\<rparr>, None)))"

text \<open>One round of \<open>forwardInput\<close> on what \<open>Read\<close> returned; \<open>i_ended\<close> when it returns.\<close>

definition forwardInput :: "bytes \<Rightarrow> go_error option \<Rightarrow> session_in \<Rightarrow> session_in" where
  "forwardInput buf err c =
     (if i_ended c then c
      else if buf = [] then (if err = None then c else c\<lparr>i_ended := True\<rparr>)
      else (case i_server c of
          None \<Rightarrow> c
        | Some server \<Rightarrow>
            (case i_marker c of
               Some marker \<Rightarrow>
                 (case discardPendingInput server buf marker c of
                    (c', Some e) \<Rightarrow> c'\<lparr>i_ended := True\<rparr>
                  | (c', None) \<Rightarrow> c')
             | None \<Rightarrow>
                 (case writeAll buf (i_stdin c) of
                    (Some e, w) \<Rightarrow> c\<lparr>i_stdin := w, i_ended := True\<rparr>
                  | (None, w) \<Rightarrow> c\<lparr>i_stdin := w, i_ended := (err \<noteq> None)\<rparr>))))"

text \<open>
  What \<open>enablePendingInputDiscard\<close> does to one session, with the index it drew as the number of the
  marker object.
\<close>

definition store_marker :: "nat \<Rightarrow> u32 \<Rightarrow> session_in \<Rightarrow> session_in" where
  "store_marker server idx c =
     (if i_server c \<noteq> Some server then c else c\<lparr>i_marker := Some (unat idx, discard_marker idx)\<rparr>)"

text \<open>What detaching and attaching do to the input side.\<close>

definition detach_input :: "session_in \<Rightarrow> session_in" where
  "detach_input c = c\<lparr>i_marker := None, i_server := None\<rparr>"

definition attach_input :: "nat \<Rightarrow> session_in \<Rightarrow> session_in" where
  "attach_input server c = c\<lparr>i_server := Some server\<rparr>"

definition forward_all :: "bytes list \<Rightarrow> session_in \<Rightarrow> session_in" where
  "forward_all bufs c = fold (\<lambda>b c. forwardInput b None c) bufs c"

section \<open>Lemmas\<close>

lemma exp_bytes: "(2::nat) ^ (i * 8) = 256 ^ i"
  using power_mult [of "2::nat" 8 i] by (simp add: mult.commute)

lemma unat_marker_byte: "unat (marker_byte idx i) = unat idx div 256 ^ i mod 256"
proof -
  have "marker_byte idx i = take_bit 8 (drop_bit (i * 8) idx)"
    by (simp add: marker_byte_def take_bit_eq_mask mask_eq_exp_minus_1 del: take_bit_drop_bit)
  then have "unat (marker_byte idx i) = take_bit 8 (drop_bit (i * 8) (take_bit 32 (unat idx)))"
    by (simp only: unsigned_take_bit_eq unsigned_drop_bit_eq) simp
  also have "take_bit 32 (unat idx) = unat idx"
    using unat_bound [of idx] by (simp add: take_bit_eq_mod)
  also have "take_bit 8 (drop_bit (i * 8) (unat idx)) = unat idx div 2 ^ (i * 8) mod 2 ^ 8"
    by (simp only: take_bit_eq_mod drop_bit_eq_div)
  finally show ?thesis by (simp add: exp_bytes)
qed

definition nbyte :: "nat \<Rightarrow> nat \<Rightarrow> nat" where
  "nbyte v k = v div 256 ^ k mod 256"

definition clean :: "nat \<Rightarrow> bool" where
  "clean b \<longleftrightarrow> b \<noteq> 59 \<and> b \<noteq> 13"

lemma marker_byte_special: "marker_byte idx i = 0x3B \<or> marker_byte idx i = 0x0D \<longleftrightarrow> \<not> clean (nbyte (unat idx) i)"
proof -
  have "marker_byte idx i = w \<longleftrightarrow> nbyte (unat idx) i = unat w" for w
    by (simp add: word_unat_eq_iff unat_marker_byte nbyte_def)
  then show ?thesis by (simp add: clean_def)
qed

text \<open>Raising one byte that is not 255 and clearing the ones below it.\<close>

lemma raise_byte:
  assumes "nbyte v i \<noteq> 255"
  shows "k < i \<Longrightarrow> nbyte ((v div 256 ^ i + 1) * 256 ^ i) k = 0"
    "nbyte ((v div 256 ^ i + 1) * 256 ^ i) i = nbyte v i + 1"
    "i < k \<Longrightarrow> nbyte ((v div 256 ^ i + 1) * 256 ^ i) k = nbyte v k"
proof -
  let ?w = "v div 256 ^ i"
  have w: "?w mod 256 \<noteq> 255" using assms by (simp add: nbyte_def)
  have suc: "x mod 256 \<noteq> 255 \<Longrightarrow> (x + 1) mod 256 = x mod 256 + 1 \<and> (x + 1) div 256 = x div 256" for x :: nat
    by (simp add: mod_Suc div_Suc)
  show "nbyte ((?w + 1) * 256 ^ i) k = 0" if "k < i"
  proof -
    have "i = k + 1 + (i - k - 1)" using that by simp
    then have "(256::nat) ^ i = 256 ^ k * 256 * 256 ^ (i - k - 1)" by (metis power_add power_one_right)
    moreover have "x * (256 ^ k * 256 * c) div 256 ^ k mod 256 = 0" for x c :: nat
    proof -
      have "x * (256 ^ k * 256 * c) = 256 ^ k * (256 * (x * c))" by (simp add: ac_simps)
      then show ?thesis by simp
    qed
    ultimately show ?thesis unfolding nbyte_def by metis
  qed
  have self: "(?w + 1) * 256 ^ i div 256 ^ i = ?w + 1" by simp
  show "nbyte ((?w + 1) * 256 ^ i) i = nbyte v i + 1"
    unfolding nbyte_def self using suc [OF w] by simp
  show "nbyte ((?w + 1) * 256 ^ i) k = nbyte v k" if "i < k"
  proof -
    have k: "(256::nat) ^ k = 256 ^ i * (256 * 256 ^ (k - i - 1))"
      using that by (metis Suc_diff_Suc diff_Suc_eq_diff_pred diff_Suc_1 le_add_diff_inverse less_imp_le power_Suc power_add)
    have "(?w + 1) div 256 = ?w div 256" using suc [OF w] by simp
    then have "(?w + 1) div (256 * 256 ^ (k - i - 1)) = ?w div (256 * 256 ^ (k - i - 1))"
      by (simp only: div_mult2_eq)
    then show ?thesis unfolding nbyte_def k by (simp only: div_mult2_eq self)
  qed
qed

lemma unat_raise:
  assumes "\<not> clean (nbyte (unat idx) i)" "i < 4"
  shows "unat (push_bit (i * 8) (drop_bit (i * 8) (idx :: u32) + 1)) = (unat idx div 256 ^ i + 1) * 256 ^ i"
proof -
  let ?v = "unat idx" and ?w = "unat idx div 256 ^ i"
  have v: "?v < 256 ^ 4" using unat_bound [of idx] by simp
  have low: "?w mod 256 < 255" using assms(1) by (auto simp: clean_def nbyte_def)
  have pow: "(256::nat) ^ 4 = 256 ^ (4 - i) * 256 ^ i" using assms(2) by (simp flip: power_add)
  then have "?w < 256 ^ (4 - i)" using v by (simp add: less_mult_imp_div_less)
  moreover obtain m where m: "(256::nat) ^ (4 - i) = 256 * m" using assms(2) by (metis Suc_diff_Suc power_Suc)
  moreover have "?w + 1 \<noteq> 256 * m"
  proof
    assume "?w + 1 = 256 * m"
    then have "(?w + 1) mod 256 = 0" by simp
    with low show False by (simp add: mod_Suc split: if_split_asm)
  qed
  ultimately have top: "?w + 1 < 256 ^ (4 - i)" by simp
  then have fit: "(?w + 1) * 256 ^ i < 256 ^ 4" unfolding pow by (simp only: mult_less_cancel2) simp
  have "unat (drop_bit (i * 8) idx) = drop_bit (i * 8) (take_bit 32 ?v)"
    by (simp only: unsigned_drop_bit_eq) simp
  also have "\<dots> = ?w" using v by (simp add: drop_bit_eq_div take_bit_eq_mod exp_bytes)
  finally have drop: "unat (drop_bit (i * 8) idx) = ?w" .
  have "256 ^ (4 - i) \<le> (256::nat) ^ 4" by (rule power_increasing) simp_all
  with top have "unat (drop_bit (i * 8) idx + 1) = ?w + 1"
    by (subst unat_add_lem [THEN iffD1]) (simp_all add: drop)
  moreover have "unat (push_bit (i * 8) x) = take_bit 32 (push_bit (i * 8) (unat x))" for x :: u32
    by (simp only: unsigned_push_bit_eq) simp
  ultimately show ?thesis
    using fit by (simp add: push_bit_eq_mult take_bit_eq_mod exp_bytes)
qed

lemma marker_skip_step:
  assumes "\<forall>k. i < k \<and> k < 4 \<longrightarrow> clean (nbyte (unat idx) k)" "i < 4"
  shows "\<not> clean (nbyte (unat idx) i) \<Longrightarrow> k < 4 \<Longrightarrow>
      clean (nbyte (unat (push_bit (i * 8) (drop_bit (i * 8) (idx :: u32) + 1))) k)"
    and "\<not> clean (nbyte (unat idx) i) \<Longrightarrow> unat idx < unat (push_bit (i * 8) (drop_bit (i * 8) idx + 1))"
proof -
  assume nc: "\<not> clean (nbyte (unat idx) i)"
  note u = unat_raise [OF nc assms(2)]
  have ne: "nbyte (unat idx) i \<noteq> 255" using nc by (auto simp: clean_def)
  have up: "clean (nbyte (unat idx) i + 1)" using nc by (auto simp: clean_def)
  show "clean (nbyte (unat (push_bit (i * 8) (drop_bit (i * 8) idx + 1))) k)" if "k < 4"
    using raise_byte(1,3) [OF ne, of k] raise_byte(2) [OF ne] up assms(1) that unfolding u
    by (cases k i rule: linorder_cases) (simp_all add: clean_def)
  have "unat idx < (unat idx div 256 ^ i + 1) * 256 ^ i"
    using dividend_less_times_div [of "256 ^ i" "unat idx"] by (simp add: algebra_simps)
  then show "unat idx < unat (push_bit (i * 8) (drop_bit (i * 8) idx + 1))" unfolding u .
qed

lemma marker_skip_spec:
  "(k < 4 \<longrightarrow> clean (nbyte (unat (marker_skip [3, 2, 1, 0] idx)) k)) \<and> unat idx \<le> unat (marker_skip [3, 2, 1, 0] idx)"
proof -
  have four: "k < 4 \<longleftrightarrow> k = 0 \<or> k = 1 \<or> k = 2 \<or> k = (3::nat)" for k by auto
  consider "\<not> clean (nbyte (unat idx) 3)"
    | "clean (nbyte (unat idx) 3)" "\<not> clean (nbyte (unat idx) 2)"
    | "clean (nbyte (unat idx) 3)" "clean (nbyte (unat idx) 2)" "\<not> clean (nbyte (unat idx) 1)"
    | "clean (nbyte (unat idx) 3)" "clean (nbyte (unat idx) 2)" "clean (nbyte (unat idx) 1)" "\<not> clean (nbyte (unat idx) 0)"
    | "\<forall>k<4. clean (nbyte (unat idx) k)"
    by (auto simp: four)
  then show ?thesis
  proof cases
    case 1
    have "\<forall>k. 3 < k \<and> k < 4 \<longrightarrow> clean (nbyte (unat idx) k)" by auto
    with 1 marker_skip_step(1) [of 3 idx k] marker_skip_step(2) [of 3 idx] show ?thesis by (auto simp: marker_byte_special less_imp_le)
  next
    case 2
    then have "\<forall>k. 2 < k \<and> k < 4 \<longrightarrow> clean (nbyte (unat idx) k)" by (auto simp: four)
    with 2 marker_skip_step(1) [of 2 idx k] marker_skip_step(2) [of 2 idx] show ?thesis by (auto simp: marker_byte_special less_imp_le)
  next
    case 3
    then have "\<forall>k. 1 < k \<and> k < 4 \<longrightarrow> clean (nbyte (unat idx) k)" by (auto simp: four)
    with 3 marker_skip_step(1) [of 1 idx k] marker_skip_step(2) [of 1 idx] show ?thesis by (auto simp: marker_byte_special less_imp_le)
  next
    case 4
    then have "\<forall>k. 0 < k \<and> k < 4 \<longrightarrow> clean (nbyte (unat idx) k)" by (auto simp: four)
    with 4 marker_skip_step(1) [of 0 idx k] marker_skip_step(2) [of 0 idx] show ?thesis by (auto simp: marker_byte_special less_imp_le)
  next
    case 5
    then show ?thesis by (auto simp: marker_byte_special four)
  qed
qed

lemma put_u32_bytes: "b \<in> set (put_u32 w) \<Longrightarrow> \<exists>k<4. unat b = nbyte (unat w) k"
proof -
  assume b: "b \<in> set (put_u32 w)"
  let ?ks = "[Suc (Suc (Suc 0)), Suc (Suc 0), Suc 0, 0]"
  have four: "(4::nat) = Suc (Suc (Suc (Suc 0)))" by simp
  have "put_u32 w = map (\<lambda>k. word_of_nat (unat w div 256 ^ k)) ?ks"
    unfolding put_u32_def four by (simp only: be_bytes.simps list.map)
  with b obtain k where k: "k \<in> set ?ks" "b = word_of_nat (unat w div 256 ^ k)"
    by (metis (no_types, lifting) imageE set_map)
  have "unat b = nbyte (unat w) k" unfolding k(2) nbyte_def by (simp add: unat_of_nat)
  with k(1) show ?thesis by (intro exI [of _ k]) auto
qed

text \<open>The first occurrence of a marker stays where it is when more arrives.\<close>

lemma index_sub_append: "index_sub a p = Some j \<Longrightarrow> index_sub (a @ b) p = Some j"
proof (induction a arbitrary: j)
  case Nil
  then have p: "p = []" "j = 0" by (simp_all split: if_split_asm)
  then show ?case by (cases b) simp_all
next
  case (Cons x a)
  show ?case
  proof (cases "has_prefix (x # a) p")
    case True
    then obtain r where "x # a = p @ r" by (rule has_prefixE)
    then have "has_prefix (x # a @ b) p" by (metis append_Cons append_assoc has_prefix_append)
    with True Cons.prems show ?thesis by simp
  next
    case False
    with Cons.prems obtain i where i: "index_sub a p = Some i" "j = Suc i" by auto
    have "\<not> has_prefix (x # a @ b) p"
    proof
      assume "has_prefix (x # a @ b) p"
      then have "take (length p) (x # a @ b) = p" by (simp add: has_prefix_def)
      moreover have "length p \<le> length (x # a)" using index_sub_Some [OF i(1)] by simp
      ultimately have "take (length p) (x # a) = p" by (metis append_Cons take_append diff_is_0_eq take0 append_Nil2)
      with False show False by (simp add: has_prefix_def)
    qed
    with Cons.IH [OF i(1)] i(2) show ?thesis by simp
  qed
qed

lemma forward_passes:
  assumes "i_server c = Some v" "i_marker c = None" "\<not> i_ended c" "w_reliable (i_stdin c)"
  shows "\<exists>w. forward_all bufs c = c\<lparr>i_stdin := w\<rparr> \<and> w_sink w = w_sink (i_stdin c) @ concat bufs \<and> w_reliable w"
  using assms
proof (induction bufs arbitrary: c)
  case Nil
  then show ?case by (intro exI [of _ "i_stdin c"]) (simp add: forward_all_def)
next
  case (Cons b bufs)
  obtain e w where w: "writeAll b (i_stdin c) = (e, w)" by (metis surj_pair)
  have ok: "e = None" "w_reliable w" using writeAll_reliable [OF Cons.prems(4), of b] w by simp_all
  have sink: "w_sink w = w_sink (i_stdin c) @ b" using writeAll_sink [OF w] ok(1) by auto
  have step: "forwardInput b None c = c\<lparr>i_stdin := w\<rparr>"
  proof (cases "b = []")
    case True
    then have "w = i_stdin c" using w by (simp add: writeAll.simps)
    with True Cons.prems show ?thesis by (simp add: forwardInput_def)
  next
    case False
    with Cons.prems w ok show ?thesis by (simp add: forwardInput_def)
  qed
  obtain w' where "forward_all bufs (c\<lparr>i_stdin := w\<rparr>) = c\<lparr>i_stdin := w'\<rparr>"
      "w_sink w' = w_sink w @ concat bufs" "w_reliable w'"
    using Cons.IH [of "c\<lparr>i_stdin := w\<rparr>"] Cons.prems ok(2) by auto
  then show ?case using step sink by (intro exI [of _ w']) (simp add: forward_all_def)
qed

lemma discard_run:
  assumes "i_server c = Some v" "i_marker c = Some (n, m)" "\<not> i_ended c" "w_reliable (i_stdin c)"
    and "index_sub (i_discarded c) m = None" "i_discarded c @ concat bufs = pending @ m @ rest"
    and "index_sub (pending @ m @ rest) m = Some (length pending)"
  shows "\<exists>w. forward_all bufs c =
      c\<lparr>i_stdin := w, i_marker := None, i_discarded := [],
        i_reports := i_reports c @ (if pending = [] then [] else [(v, pending)])\<rparr>
    \<and> w_sink w = w_sink (i_stdin c) @ rest"
  using assms
proof (induction bufs arbitrary: c)
  case Nil
  then show ?case by simp
next
  case (Cons b bufs)
  obtain acc where acc: "i_discarded c @ b = acc" by blast
  have cat: "acc @ concat bufs = pending @ m @ rest" using Cons.prems(6) unfolding acc [symmetric] by simp
  have fw: "forward_all (b # bufs) c = forward_all bufs (forwardInput b None c)" by (simp add: forward_all_def)
  show ?case
  proof (cases "index_sub acc m")
    case None
    have step: "forwardInput b None c = c\<lparr>i_discarded := acc\<rparr>"
      using Cons.prems(1-3) None by (cases "b = []") (use acc in \<open>auto simp: forwardInput_def discardPendingInput_def Let_def\<close>)
    from Cons.IH [of "c\<lparr>i_discarded := acc\<rparr>"] Cons.prems(1-4,7) None cat show ?thesis unfolding fw step by auto
  next
    case (Some j)
    from index_sub_append [OF Some, of "concat bufs"] cat Cons.prems(7) have j: "j = length pending" by simp
    have "j + length m \<le> length acc" "acc = take j acc @ m @ drop (j + length m) acc"
      using index_sub_Some [OF Some] by simp_all
    then obtain r1 where r1: "acc = take j acc @ m @ r1" "r1 = drop (j + length m) acc" by blast
    then have "take j acc @ m @ r1 @ concat bufs = pending @ m @ rest" using cat by (metis append_assoc)
    moreover have "length (take j acc) = length pending" using j \<open>j + length m \<le> length acc\<close> by simp
    ultimately have "take j acc = pending \<and> m @ r1 @ concat bufs = m @ rest" by (metis append_eq_append_conv)
    then have pre: "take j acc = pending" "r1 @ concat bufs = rest" by simp_all
    have b: "b \<noteq> []" using Some Cons.prems(5) acc by auto
    obtain e w where w: "writeAll r1 (i_stdin c) = (e, w)" by (metis surj_pair)
    have ok: "e = None" "w_reliable w" using writeAll_reliable [OF Cons.prems(4), of r1] w by simp_all
    have sink: "w_sink w = w_sink (i_stdin c) @ r1" using writeAll_sink [OF w] ok(1) by auto
    let ?c = "c\<lparr>i_stdin := w, i_marker := None, i_discarded := [],
        i_reports := i_reports c @ (if pending = [] then [] else [(v, pending)])\<rparr>"
    have step: "forwardInput b None c = ?c"
      using Cons.prems(1-3) Some b w ok(1) r1(2) pre(1) j
      by (cases "pending = []") (simp_all add: forwardInput_def discardPendingInput_def Let_def acc)
    obtain w' where "forward_all bufs ?c = ?c\<lparr>i_stdin := w'\<rparr>" "w_sink w' = w_sink w @ concat bufs"
      using forward_passes [of ?c v bufs] Cons.prems(1,3) ok(2) by auto
    then show ?thesis unfolding fw step using sink pre(2) by (intro exI [of _ w']) simp
  qed
qed

section \<open>Properties\<close>

text \<open>
  Markers survive the terminal multiplexer: none of the eight bytes of a marker is a semicolon or
  a carriage return, whatever the previous index, and the index moves on, so that two markers are
  different until the counter wraps around.
\<close>

lemma marker_bytes_safe:
  "(\<forall>b. b \<in> set (discard_marker (getNextDiscardMarkerIndex current)) \<longrightarrow> b \<noteq> 0x3B \<and> b \<noteq> 0x0D)
   \<and> (current + 1 \<noteq> 0 \<longrightarrow> current < getNextDiscardMarkerIndex current)"
proof -
  let ?i = "getNextDiscardMarkerIndex current"
  have "unat b \<noteq> 59 \<and> unat b \<noteq> 13" if "b \<in> set (put_u32 ?i)" for b
  proof -
    from put_u32_bytes [OF that] obtain k where "k < 4" "unat b = nbyte (unat ?i) k" by blast
    with marker_skip_spec [of k "current + 1"] show ?thesis
      by (simp add: getNextDiscardMarkerIndex_def clean_def)
  qed
  then have "b \<noteq> 0x3B \<and> b \<noteq> 0x0D" if "b \<in> set (put_u32 ?i)" for b :: byte
    using that by fastforce
  moreover have "current < ?i" if "current + 1 \<noteq> 0"
    using marker_skip_spec [of 0 "current + 1"] that unatSuc [of current]
    by (simp add: getNextDiscardMarkerIndex_def word_less_nat_alt add.commute)
  ultimately show ?thesis by (auto simp: discard_marker_def)
qed

lemma marker_bytes_safe_witness:
  "0x3B \<notin> set (discard_marker (getNextDiscardMarkerIndex 0x3A)) \<and> 0x3A < getNextDiscardMarkerIndex 0x3A"
  using marker_bytes_safe [of "0x3A"] by auto

text \<open>
  After a reconnect exactly the input typed before the marker is dropped: if the client sends
  \<open>pending\<close>, the marker and \<open>rest\<close>, cut into reads in any way, then the command receives \<open>rest\<close> and
  nothing of \<open>pending\<close>, the dropped input is reported to the server the session is attached to, once
  and complete, and the session is back in its normal mode.
\<close>

lemma pending_input_discarded:
  assumes "i_server c = Some v" "i_marker c = Some (n, m)" "i_discarded c = []" "\<not> i_ended c" "w_reliable (i_stdin c)"
    and "m \<noteq> []" "concat bufs = pending @ m @ rest" "index_sub (pending @ m @ rest) m = Some (length pending)"
  shows "\<exists>w. forward_all bufs c =
      c\<lparr>i_stdin := w, i_marker := None, i_discarded := [],
        i_reports := i_reports c @ (if pending = [] then [] else [(v, pending)])\<rparr>
    \<and> w_sink w = w_sink (i_stdin c) @ rest"
proof -
  have "index_sub [] m = None" using assms(6) by simp
  with discard_run [OF assms(1,2,4,5), of bufs pending rest] assms(3,7,8) show ?thesis
    by (simp only: append_Nil)
qed

definition demo_session :: session_in where
  "demo_session = \<lparr>i_server = Some 1, i_marker = Some (0, [255, 192, 193]), i_discarded = [],
     i_stdin = \<lparr>w_sink = [], w_sched = [WrOk 1]\<rparr>, i_reports = [], i_ended = False\<rparr>"

lemma pending_input_discarded_witness:
  "\<exists>w. w_sink w = [7, 8, 9]
     \<and> forward_all [[1, 255], [255, 192], [193, 7], [8, 9]] demo_session =
         demo_session\<lparr>i_stdin := w, i_marker := None, i_reports := [(1, [1, 255])]\<rparr>"
  using pending_input_discarded [of demo_session 1 0 "[255, 192, 193]" "[[1, 255], [255, 192], [193, 7], [8, 9]]" "[1, 255]" "[7, 8, 9]"]
  by (auto simp: demo_session_def w_reliable_def has_prefix_def)

text \<open>
  C35. What the previous client typed can reach the next one: detaching a session clears its marker but
  not the input collected while it looked for it. If the next server discards in turn, what it is
  told was dropped starts with the input of the previous client.
\<close>

theorem detached_input_leaks:
  assumes "i_server c = Some v" "i_marker c = Some (n, m)" "\<not> i_ended c" "typed \<noteq> []"
    and "index_sub (i_discarded c @ typed) m = None"
    and "c1 = store_marker v2 idx (attach_input v2 (detach_input (forwardInput typed None c)))"
    and "w_reliable (i_stdin c)" "index_sub (i_discarded c @ typed @ discard_marker idx) (discard_marker idx) = Some (length (i_discarded c @ typed))"
  shows "i_reports (forwardInput (discard_marker idx) None c1) = i_reports c @ [(v2, i_discarded c @ typed)]"
proof -
  have c1: "c1 = c\<lparr>i_discarded := i_discarded c @ typed, i_server := Some v2, i_marker := Some (unat idx, discard_marker idx)\<rparr>"
    using assms(1-6)
    by (simp add: forwardInput_def discardPendingInput_def Let_def detach_input_def attach_input_def store_marker_def)
  have "discard_marker idx \<noteq> []" by (simp add: discard_marker_def)
  then show ?thesis
    using assms(3,4,8) unfolding c1
    by (simp add: forwardInput_def discardPendingInput_def Let_def writeAll.simps [of "[]"])
qed

text \<open>A marker of the second server completes what the first server collected.\<close>

theorem detached_input_leaks_witness:
  "i_reports (forwardInput (discard_marker 7) None
     (store_marker 2 7 (attach_input 2 (detach_input (forwardInput [112, 119] None demo_session)))))
   = [(2, [112, 119])]"
  using detached_input_leaks [of demo_session 1 0 "[255, 192, 193]" "[112, 119]" _ 2 7, OF _ _ _ _ _ refl]
  by (simp add: demo_session_def w_reliable_def has_prefix_def discard_marker_def put_u32_def be_bytes.simps)

end
