(* ===== verification/Sessions.thy ===== *)
theory Sessions
  imports Machine SessionInput "HOL-Library.Multiset"
begin

text \<open>
  The sessions of a server process and the clients that own them (\<open>session.go\<close>, \<open>attach.go\<close>,
  \<open>server.go\<close>, \<open>bus.go\<close>). Every accepted client has a server object; one of them is active, and a
  session belongs to the server it is attached to. Each critical section of the code is one step:
  activation, attaching, detaching and resizing under \<open>attachMutex\<close>, the creation of a session under
  \<open>sessionMutex\<close>, \<open>cancellableWait\<close> under \<open>waitMutex\<close>.
\<close>

section \<open>State\<close>

text \<open>
  The stream of a session: not made yet (\<open>nil\<close>), a replaceable stream without a client, with the
  stream of server \<open>v\<close>, or closed for good.
\<close>

datatype io_state = IoNil | IoDetached | IoOf nat | IoClosed

record forwarder_flags =
  fw_discardOutput :: bool
  fw_discardMarker :: "bytes option"

text \<open>
  \<open>s_mw\<close> is the middleware session with its \<open>pty\<close> flag, \<open>s_pty\<close> tells whether the pseudo terminal was
  started, \<open>s_resizes\<close> are the sizes it was set to. \<open>s_creator\<close> is the server whose client started the
  session, \<open>s_late\<close> records that this server was not the active one at that moment.
\<close>

record session =
  s_id :: u64
  s_in :: session_in
  s_closed :: bool
  s_mw :: "bool option"
  s_pty :: bool
  s_cols :: int
  s_rows :: int
  s_resizes :: "(int \<times> int) list"
  s_io :: io_state
  s_err :: io_state
  s_checker :: "nat option"
  s_out :: "forwarder_flags option"
  s_errOut :: "forwarder_flags option"
  s_wait :: "nat option"
  s_creator :: nat
  s_late :: bool

record server =
  v_serving :: bool
  v_bus :: bool
  v_keepPendingInput :: bool

datatype bus_message = BusExit u64 | BusDiscardMarker bytes | BusQuit | BusDetachAck

record sess_sys =
  g_attachable :: bool
  g_kcp :: bool
  g_active :: "nat option"
  g_busClosing :: bool
  g_socketName :: "string option"
  g_servers :: "server list"
  g_sessions :: "session list"
  g_map :: "u64 \<Rightarrow> nat option"
  g_maxID :: u64
  g_markerIndex :: u32
  g_nextCancel :: nat
  g_cancelled :: "nat list"
  g_sent :: "(nat \<times> bus_message) list"

definition upd_sess :: "nat \<Rightarrow> (session \<Rightarrow> session) \<Rightarrow> sess_sys \<Rightarrow> sess_sys" where
  "upd_sess x f s = (if x < length (g_sessions s) then s\<lparr>g_sessions := (g_sessions s)[x := f (g_sessions s ! x)]\<rparr> else s)"

abbreviation owner :: "session \<Rightarrow> nat option" where
  "owner se \<equiv> i_server (s_in se)"

section \<open>Detaching and activation\<close>

definition io_swap :: "nat option \<Rightarrow> io_state \<Rightarrow> io_state" where
  "io_swap new io = (case io of IoClosed \<Rightarrow> IoClosed | _ \<Rightarrow> (case new of None \<Rightarrow> IoDetached | Some v \<Rightarrow> IoOf v))"

definition detach_session :: "session \<Rightarrow> session" where
  "detach_session se =
     se\<lparr>s_checker := None,
       s_err := (if s_err se = IoNil then IoNil else io_swap None (s_err se)),
       s_io := (if s_io se = IoNil then IoNil else io_swap None (s_io se)),
       s_in := detach_input (s_in se),
       s_wait := None\<rparr>"

text \<open>
  The loop over all sessions of the map. The cancel channels of the sessions it detaches are closed.
\<close>

definition registered :: "sess_sys \<Rightarrow> nat \<Rightarrow> bool" where
  "registered s x \<longleftrightarrow> x < length (g_sessions s) \<and> g_map s (s_id (g_sessions s ! x)) = Some x"

definition detached_by :: "nat option \<Rightarrow> sess_sys \<Rightarrow> nat \<Rightarrow> bool" where
  "detached_by oldServer s x \<longleftrightarrow> registered s x \<and> owner (g_sessions s ! x) = oldServer"

definition detachAllSessions :: "nat option \<Rightarrow> sess_sys \<Rightarrow> sess_sys" where
  "detachAllSessions oldServer s =
     (if \<not> g_attachable s then s
      else let n = length (g_sessions s); xs = filter (detached_by oldServer s) [0..<n]
        in s\<lparr>g_sessions := map (\<lambda>x. if detached_by oldServer s x then detach_session (g_sessions s ! x) else g_sessions s ! x) [0..<n],
             g_cancelled := concat (map (\<lambda>x. case s_wait (g_sessions s ! x) of None \<Rightarrow> [] | Some ch \<Rightarrow> [ch]) xs) @ g_cancelled s\<rparr>)"

text \<open>The goroutine that tells the old client to quit and closes its server does not touch sessions.\<close>

definition activateServer :: "nat \<Rightarrow> string \<Rightarrow> sess_sys \<Rightarrow> sess_sys \<times> go_error option" where
  "activateServer v sessionName s =
     (let serve = (\<lambda>s. s\<lparr>g_servers := (g_servers s)[v := (g_servers s ! v)\<lparr>v_serving := True\<rparr>]\<rparr>)
      in if \<not> g_attachable s then
           (if g_active s \<noteq> None then (s, Some (ErrText ''active server is already in use''))
            else (serve (s\<lparr>g_active := Some v\<rparr>), None))
         else if g_busClosing s then (s, Some (ErrText ''bus is closed''))
         else
           let oldServer = g_active s;
               s1 = s\<lparr>g_active := Some v,
                      g_socketName := (if oldServer = None then map_option (\<lambda>_. sessionName) (g_socketName s) else g_socketName s)\<rparr>;
               s2 = detachAllSessions oldServer s1;
               s3 = (case oldServer of None \<Rightarrow> s2 | Some old \<Rightarrow> s2\<lparr>g_sent := (old, BusQuit) # g_sent s2\<rparr>)
           in (serve s3, None))"

text \<open>\<open>respErr\<close> is the error of sending the response, which leaves the bus stream unset.\<close>

definition initBusAndServer :: "nat \<Rightarrow> string \<Rightarrow> go_error option \<Rightarrow> sess_sys \<Rightarrow> sess_sys \<times> u64 result" where
  "initBusAndServer v sessionName respErr s =
     (if v_bus (g_servers s ! v) then (s, Inl (ErrText ''bus has been initialized''))
      else (case activateServer v sessionName s of
          (s1, Some e) \<Rightarrow> (s1, Inl e)
        | (s1, None) \<Rightarrow>
            (case respErr of
               Some _ \<Rightarrow> (s1, Inr (g_maxID s1 + 1))
             | None \<Rightarrow> (s1\<lparr>g_servers := (g_servers s1)[v := (g_servers s1 ! v)\<lparr>v_bus := True\<rparr>]\<rparr>, Inr (g_maxID s1 + 1)))))"

definition handleDetachEvent :: "nat \<Rightarrow> sess_sys \<Rightarrow> sess_sys" where
  "handleDetachEvent v s =
     (let s1 = (if g_kcp s \<and> g_active s = Some v then detachAllSessions (Some v) s else s)
      in s1\<lparr>g_sent := (v, BusDetachAck) # g_sent s1\<rparr>)"

section \<open>Starting a session\<close>

record startMessage =
  m_id :: u64
  m_pty :: bool
  m_cols :: int
  m_rows :: int

text \<open>\<open>mw\<close> tells whether a session handler is installed; the start command is built without state.\<close>

definition new_session :: "bool \<Rightarrow> nat option \<Rightarrow> nat \<Rightarrow> startMessage \<Rightarrow> session" where
  "new_session mw active v msg =
     \<lparr>s_id = m_id msg,
      s_in = \<lparr>i_server = Some v, i_marker = None, i_discarded = [],
        i_stdin = \<lparr>w_sink = [], w_sched = []\<rparr>, i_reports = [], i_ended = False\<rparr>,
      s_closed = False, s_mw = (if mw then Some (m_pty msg) else None), s_pty = False,
      s_cols = m_cols msg, s_rows = m_rows msg, s_resizes = [], s_io = IoNil, s_err = IoNil,
      s_checker = Some v, s_out = None, s_errOut = None, s_wait = None,
      s_creator = v, s_late = (active \<noteq> Some v)\<rparr>"

definition newSessionContext :: "bool \<Rightarrow> nat \<Rightarrow> startMessage \<Rightarrow> sess_sys \<Rightarrow> sess_sys \<times> nat result" where
  "newSessionContext mw v msg s =
     (if g_map s (m_id msg) \<noteq> None then (s, Inl (ErrText ''session id existed''))
      else let x = length (g_sessions s)
        in (s\<lparr>g_maxID := (if m_id msg > g_maxID s then m_id msg else g_maxID s),
              g_sessions := g_sessions s @ [new_session mw (g_active s) v msg],
              g_map := (g_map s)(m_id msg := Some x)\<rparr>, Inr x))"

definition getSessionByID :: "u64 \<Rightarrow> sess_sys \<Rightarrow> nat option" where
  "getSessionByID i s = g_map s i"

definition StartPty :: "session \<Rightarrow> session" where
  "StartPty se = se\<lparr>s_pty := True\<rparr>"

text \<open>
  \<open>forwardIO\<close> makes the streams replaceable in attachable mode and starts the forwarders; \<open>stderr\<close>
  tells whether the session has a separate standard error, otherwise the error stream is closed.
\<close>

definition forwardIO :: "bool \<Rightarrow> nat \<Rightarrow> bool \<Rightarrow> session \<Rightarrow> session" where
  "forwardIO attachable v stderr se =
     (let fw = Some \<lparr>fw_discardOutput = False, fw_discardMarker = None\<rparr>
      in se\<lparr>s_io := (if attachable then IoOf v else s_io se),
            s_out := fw,
            s_err := (if attachable then (if stderr then IoOf v else IoClosed) else s_err se),
            s_errOut := (if stderr then fw else None)\<rparr>)"

section \<open>Sizes\<close>

definition is_pty :: "session \<Rightarrow> bool" where
  "is_pty se \<longleftrightarrow> s_mw se = Some True \<or> s_pty se"

text \<open>
  The branches of \<open>SetSize\<close>: which terminal there is to resize (a middleware session decides by its own
  flag), the temporary resize of a redraw at the same size, what the forwarders drop, and the final
  resize, which \<open>err\<close> may fail.
\<close>

definition can_resize :: "session \<Rightarrow> bool" where
  "can_resize se = (case s_mw se of Some p \<Rightarrow> p | None \<Rightarrow> s_pty se)"

definition set_discard :: "bool \<Rightarrow> bytes option \<Rightarrow> forwarder_flags \<Rightarrow> forwarder_flags" where
  "set_discard discardOutput discardMarker fw =
     (case discardMarker of
        Some m \<Rightarrow> fw\<lparr>fw_discardMarker := Some m\<rparr>
      | None \<Rightarrow> if discardOutput then fw\<lparr>fw_discardOutput := True\<rparr> else fw)"

definition requested_size :: "int \<Rightarrow> int \<Rightarrow> session \<Rightarrow> int \<times> int" where
  "requested_size cols rows se = (if cols = 0 \<and> rows = 0 then (s_cols se, s_rows se) else (cols, rows))"

definition apply_size :: "go_error option \<Rightarrow> int \<times> int \<Rightarrow> bool \<Rightarrow> bytes option \<Rightarrow> session \<Rightarrow> session \<times> go_error option" where
  "apply_size err dims discardOutput discardMarker se =
     (let se1 = se\<lparr>s_resizes := s_resizes se
              @ (if dims = (s_cols se, s_rows se) then [(fst dims + 1, snd dims)] else []) @ [dims],
            s_out := map_option (set_discard discardOutput discardMarker) (s_out se),
            s_errOut := map_option (set_discard discardOutput discardMarker) (s_errOut se)\<rparr>
      in (case err of
            Some e \<Rightarrow> (se1, Some (ErrFlat ''resize failed'' e))
          | None \<Rightarrow> (se1\<lparr>s_cols := fst dims, s_rows := snd dims\<rparr>, None)))"

definition SetSize :: "go_error option \<Rightarrow> int \<Rightarrow> int \<Rightarrow> bool \<Rightarrow> bool \<Rightarrow> bytes option \<Rightarrow> session \<Rightarrow> session \<times> go_error option" where
  "SetSize err cols rows redraw discardOutput discardMarker se =
     (if s_closed se then (se, None)
      else if \<not> can_resize se then (se, Some (ErrText ''session is not pty''))
      else if requested_size cols rows se = (s_cols se, s_rows se) \<and> \<not> redraw then (se, None)
      else apply_size err (requested_size cols rows se) discardOutput discardMarker se)"

definition handleResizeEvent :: "go_error option \<Rightarrow> nat \<Rightarrow> u64 \<Rightarrow> int \<Rightarrow> int \<Rightarrow> bool \<Rightarrow> bytes option \<Rightarrow> sess_sys \<Rightarrow> sess_sys \<times> go_error option" where
  "handleResizeEvent err v i cols rows redraw marker s =
     (if cols \<le> 0 \<or> rows \<le> 0 then (s, Some (ErrText ''resize message invalid''))
      else (case getSessionByID i s of
          None \<Rightarrow> (s, Some (ErrText ''session not found''))
        | Some x \<Rightarrow>
            if owner (g_sessions s ! x) \<noteq> Some v then (s, None)
            else (case SetSize err cols rows redraw False marker (g_sessions s ! x) of
                (se, e) \<Rightarrow> (upd_sess x (\<lambda>_. se) s, e))))"

section \<open>Attaching\<close>

text \<open>
  The part of \<open>attachSession\<close> before the mutex: it finds the session object. The part under the mutex
  works on that object; \<open>ackErr\<close> is the error of the acknowledgement, \<open>resizeErr\<close> that of the redraw,
  which is only logged.
\<close>

definition attach_find :: "startMessage \<Rightarrow> sess_sys \<Rightarrow> (int \<times> go_error) + nat" where
  "attach_find msg s =
     (if \<not> g_attachable s then Inl (0, ErrText ''attach is not allowed'')
      else (case getSessionByID (m_id msg) s of
          None \<Rightarrow> Inl (0, ErrText ''session not found'')
        | Some x \<Rightarrow>
            if s_closed (g_sessions s ! x) then Inl (0, ErrText ''session is closed'')
            else if m_pty msg \<and> \<not> is_pty (g_sessions s ! x) then Inl (ErrNotPty, ErrText ''not a pty session'')
            else Inr x))"

definition attach_to :: "go_error option \<Rightarrow> nat \<Rightarrow> startMessage \<Rightarrow> session \<Rightarrow> session" where
  "attach_to resizeErr v msg se =
     (let se1 = se\<lparr>s_in := attach_input v (s_in se), s_io := io_swap (Some v) (s_io se), s_err := io_swap (Some v) (s_err se)\<rparr>;
          cols = (if m_cols msg > 0 then m_cols msg else s_cols se1);
          rows = (if m_rows msg > 0 then m_rows msg else s_rows se1);
          se2 = (if is_pty se then fst (SetSize resizeErr cols rows True True None se1) else se1)
      in se2\<lparr>s_checker := Some v\<rparr>)"

definition attach_locked :: "go_error option \<Rightarrow> go_error option \<Rightarrow> nat \<Rightarrow> startMessage \<Rightarrow> nat \<Rightarrow> sess_sys \<Rightarrow> sess_sys \<times> go_error option" where
  "attach_locked ackErr resizeErr v msg x s =
     (let se = g_sessions s ! x
      in if g_active s \<noteq> Some v then (s, Some (ErrText ''server is no longer active''))
         else if owner se \<noteq> None then (s, Some (ErrText ''session already attached''))
         else if s_io se = IoNil then (s, Some (ErrText ''i/o stream is nil''))
         else if s_err se = IoNil then (s, Some (ErrText ''err stream is nil''))
         else (case ackErr of
             Some e \<Rightarrow> (s, Some (ErrFlat ''ack ok failed'' e))
           | None \<Rightarrow> (upd_sess x (attach_to resizeErr v msg) s, None)))"

section \<open>Waiting, closing and input\<close>

text \<open>\<open>cancellableWait\<close> closes the channel of the previous waiter and installs its own.\<close>

definition cancellableWait :: "nat \<Rightarrow> sess_sys \<Rightarrow> sess_sys" where
  "cancellableWait x s =
     (let s1 = (case s_wait (g_sessions s ! x) of None \<Rightarrow> s | Some ch \<Rightarrow> s\<lparr>g_cancelled := ch # g_cancelled s\<rparr>)
      in (upd_sess x (\<lambda>se. se\<lparr>s_wait := Some (g_nextCancel s)\<rparr>) s1)\<lparr>g_nextCancel := Suc (g_nextCancel s)\<rparr>)"

definition close_io :: "io_state \<Rightarrow> io_state" where
  "close_io io = (if io = IoNil then IoNil else IoClosed)"

definition session_Close :: "nat \<Rightarrow> sess_sys \<Rightarrow> sess_sys" where
  "session_Close x s =
     (let se = g_sessions s ! x
      in if s_closed se then s
         else (upd_sess x (\<lambda>se. se\<lparr>s_closed := True, s_io := close_io (s_io se), s_err := close_io (s_err se)\<rparr>) s)
           \<lparr>g_map := (g_map s)(s_id se := None),
            g_sent := (case owner se of None \<Rightarrow> g_sent s | Some v \<Rightarrow> (v, BusExit (s_id se)) # g_sent s)\<rparr>)"

definition closeSession :: "u64 \<Rightarrow> sess_sys \<Rightarrow> sess_sys" where
  "closeSession i s = (case getSessionByID i s of None \<Rightarrow> s | Some x \<Rightarrow> session_Close x s)"

definition closeAllSessions :: "sess_sys \<Rightarrow> sess_sys" where
  "closeAllSessions s = fold session_Close (filter (registered s) [0..<length (g_sessions s)]) s"

definition handleCloseEvent :: "sess_sys \<Rightarrow> sess_sys" where
  "handleCloseEvent s = (closeAllSessions s)\<lparr>g_busClosing := True\<rparr>"

definition enablePendingInputDiscard :: "nat \<Rightarrow> sess_sys \<Rightarrow> sess_sys" where
  "enablePendingInputDiscard v s =
     (if v_keepPendingInput (g_servers s ! v) then s
      else if filter (registered s) [0..<length (g_sessions s)] = [] then s
      else let idx = getNextDiscardMarkerIndex (g_markerIndex s)
        in s\<lparr>g_markerIndex := idx,
             g_sessions := map (\<lambda>x. if registered s x
                 then (g_sessions s ! x)\<lparr>s_in := store_marker v idx (s_in (g_sessions s ! x))\<rparr>
                 else g_sessions s ! x) [0..<length (g_sessions s)],
             g_sent := (v, BusDiscardMarker (discard_marker idx)) # g_sent s\<rparr>)"

definition handleSettingEvent :: "nat \<Rightarrow> bool option \<Rightarrow> sess_sys \<Rightarrow> sess_sys" where
  "handleSettingEvent v keepPendingInput s =
     (case keepPendingInput of
        None \<Rightarrow> s
      | Some b \<Rightarrow> s\<lparr>g_servers := (g_servers s)[v := (g_servers s ! v)\<lparr>v_keepPendingInput := b\<rparr>]\<rparr>)"

section \<open>The machine\<close>

text \<open>
  \<open>SaStart\<close> is the creation of a session by a handler that \<open>handleStream\<close> admitted earlier: the server
  was serving then, and serving never ends. \<open>SaAttach\<close> is the locked part of \<open>attachSession\<close> on a session
  object that the first part found earlier.
\<close>

datatype sess_act =
    SaServer
  | SaBus nat string "go_error option"
  | SaStart bool nat startMessage
  | SaPty nat
  | SaForward nat bool
  | SaAttach "go_error option" "go_error option" nat startMessage nat
  | SaWait nat
  | SaResize "go_error option" nat u64 int int bool "bytes option"
  | SaDetach nat
  | SaClose nat
  | SaExit
  | SaDiscard nat
  | SaSetting nat "bool option"
  | SaInput nat bytes "go_error option"

definition sess_exec :: "sess_act \<Rightarrow> sess_sys \<Rightarrow> sess_sys option" where
  "sess_exec a s =
     (case a of
        SaServer \<Rightarrow> Some (s\<lparr>g_servers := g_servers s @ [\<lparr>v_serving = False, v_bus = False, v_keepPendingInput = False\<rparr>]\<rparr>)
      | SaBus v name respErr \<Rightarrow>
          if v < length (g_servers s) then Some (fst (initBusAndServer v name respErr s)) else None
      | SaStart mw v msg \<Rightarrow>
          if v < length (g_servers s) \<and> v_serving (g_servers s ! v) then Some (fst (newSessionContext mw v msg s)) else None
      | SaPty x \<Rightarrow> if x < length (g_sessions s) then Some (upd_sess x StartPty s) else None
      | SaForward x stderr \<Rightarrow>
          if x < length (g_sessions s) \<and> s_out (g_sessions s ! x) = None
          then Some (upd_sess x (\<lambda>se. forwardIO (g_attachable s) (s_creator se) stderr se) s) else None
      | SaAttach ackErr resizeErr v msg x \<Rightarrow>
          if g_attachable s \<and> v < length (g_servers s) \<and> v_serving (g_servers s ! v) \<and> x < length (g_sessions s)
          then Some (fst (attach_locked ackErr resizeErr v msg x s)) else None
      | SaWait x \<Rightarrow> if x < length (g_sessions s) then Some (cancellableWait x s) else None
      | SaResize err v i cols rows redraw marker \<Rightarrow> Some (fst (handleResizeEvent err v i cols rows redraw marker s))
      | SaDetach v \<Rightarrow> if v < length (g_servers s) \<and> v_bus (g_servers s ! v) then Some (handleDetachEvent v s) else None
      | SaClose x \<Rightarrow> if x < length (g_sessions s) then Some (session_Close x s) else None
      | SaExit \<Rightarrow> Some (handleCloseEvent s)
      | SaDiscard v \<Rightarrow> if v < length (g_servers s) then Some (enablePendingInputDiscard v s) else None
      | SaSetting v keep \<Rightarrow> if v < length (g_servers s) then Some (handleSettingEvent v keep s) else None
      | SaInput x buf err \<Rightarrow>
          if x < length (g_sessions s) then Some (upd_sess x (\<lambda>se. se\<lparr>s_in := forwardInput buf err (s_in se)\<rparr>) s) else None)"

definition sess_init :: "bool \<Rightarrow> bool \<Rightarrow> string option \<Rightarrow> sess_sys" where
  "sess_init attachable kcp socket =
     \<lparr>g_attachable = attachable, g_kcp = kcp, g_active = None, g_busClosing = False, g_socketName = socket,
      g_servers = [], g_sessions = [], g_map = (\<lambda>_. None), g_maxID = 0, g_markerIndex = 0,
      g_nextCancel = 0, g_cancelled = [], g_sent = []\<rparr>"

section \<open>The invariant\<close>

text \<open>The cancel channel a session's goroutine waits on, and those of all sessions.\<close>

definition wait_chans :: "session \<Rightarrow> nat list" where
  "wait_chans se = (case s_wait se of None \<Rightarrow> [] | Some ch \<Rightarrow> [ch])"

definition all_chans :: "sess_sys \<Rightarrow> nat list" where
  "all_chans s = concat (map wait_chans (g_sessions s)) @ g_cancelled s"

definition session_ok :: "bool \<Rightarrow> nat option \<Rightarrow> server list \<Rightarrow> session \<Rightarrow> bool" where
  "session_ok attachable active servers se \<longleftrightarrow>
     s_checker se = owner se \<and> (owner se = None \<longrightarrow> i_marker (s_in se) = None) \<and> (s_late se \<longrightarrow> attachable) \<and>
     (\<forall>v. owner se = Some v \<longrightarrow> v < length servers \<and> v_serving (servers ! v)
        \<and> (\<not> s_late se \<and> \<not> s_closed se \<longrightarrow> active = Some v))"

definition servers_ok :: "bool \<Rightarrow> nat option \<Rightarrow> server list \<Rightarrow> bool" where
  "servers_ok attachable active servers \<longleftrightarrow>
     (\<forall>v. active = Some v \<longrightarrow> v < length servers \<and> v_serving (servers ! v)) \<and>
     (\<forall>v < length servers. (v_serving (servers ! v) \<and> \<not> attachable \<longrightarrow> active = Some v) \<and>
        (v_bus (servers ! v) \<longrightarrow> v_serving (servers ! v)))"

definition map_ok :: "(u64 \<Rightarrow> nat option) \<Rightarrow> session list \<Rightarrow> bool" where
  "map_ok m ses \<longleftrightarrow>
     (\<forall>i x. m i = Some x \<longrightarrow> x < length ses \<and> s_id (ses ! x) = i \<and> \<not> s_closed (ses ! x)) \<and>
     (\<forall>x < length ses. \<not> s_closed (ses ! x) \<longrightarrow> m (s_id (ses ! x)) = Some x)"

definition sess_inv :: "sess_sys \<Rightarrow> bool" where
  "sess_inv s \<longleftrightarrow>
     servers_ok (g_attachable s) (g_active s) (g_servers s) \<and>
     (\<forall>se \<in> set (g_sessions s). session_ok (g_attachable s) (g_active s) (g_servers s) se) \<and>
     map_ok (g_map s) (g_sessions s) \<and>
     distinct (all_chans s) \<and> (\<forall>ch \<in> set (all_chans s). ch < g_nextCancel s)"

section \<open>Lemmas\<close>

text \<open>Operations on one session that keep its identity.\<close>

definition same_session :: "session \<Rightarrow> session \<Rightarrow> bool" where
  "same_session se se' \<longleftrightarrow> s_id se' = s_id se \<and> s_closed se' = s_closed se \<and> s_wait se' = s_wait se"

lemma map_ok_upd:
  assumes "map_ok m ses" "x < length ses" "same_session (ses ! x) se"
  shows "map_ok m (ses[x := se])"
proof -
  have "s_id (ses[x := se] ! y) = s_id (ses ! y)" "s_closed (ses[x := se] ! y) = s_closed (ses ! y)" for y
    using assms(2,3) by (cases "y = x"; simp add: same_session_def)+
  with assms(1) show ?thesis by (simp add: map_ok_def)
qed

lemma chans_upd: "wait_chans se = wait_chans (ses ! x) \<Longrightarrow> map wait_chans (ses[x := se]) = map wait_chans ses"
  by (metis list_update_id map_update)

lemma upd_sess_inv:
  assumes inv: "sess_inv s" and x: "x < length (g_sessions s)"
    and se: "same_session (g_sessions s ! x) (f (g_sessions s ! x))"
      "session_ok (g_attachable s) (g_active s) (g_servers s) (f (g_sessions s ! x))"
  shows "sess_inv (upd_sess x f s)"
proof -
  let ?ses = "(g_sessions s)[x := f (g_sessions s ! x)]"
  have m: "map_ok (g_map s) ?ses" using inv map_ok_upd [OF _ x se(1)] by (simp add: sess_inv_def)
  have "wait_chans (f (g_sessions s ! x)) = wait_chans (g_sessions s ! x)"
    using se(1) by (simp add: wait_chans_def same_session_def)
  then have c: "map wait_chans ?ses = map wait_chans (g_sessions s)" by (rule chans_upd)
  have "\<forall>se \<in> set ?ses. session_ok (g_attachable s) (g_active s) (g_servers s) se"
    using inv se(2) set_update_subset_insert [of "g_sessions s" x "f (g_sessions s ! x)"] by (auto simp: sess_inv_def)
  then show ?thesis using inv m c x by (simp add: sess_inv_def upd_sess_def all_chans_def)
qed

lemma session_ok_at:
  "sess_inv s \<Longrightarrow> x < length (g_sessions s) \<Longrightarrow> session_ok (g_attachable s) (g_active s) (g_servers s) (g_sessions s ! x)"
  by (simp add: sess_inv_def)

text \<open>The operations that leave the owner, the marker and the checker alone.\<close>

lemma session_ok_same:
  assumes "session_ok a ac sv se" "s_in se' = s_in se" "s_checker se' = s_checker se" "s_late se' = s_late se" "s_closed se' = s_closed se"
  shows "session_ok a ac sv se'"
  using assms by (simp add: session_ok_def)

lemma SetSize_keeps:
  assumes "SetSize err c r redraw d m se = (se', e)"
  shows "same_session se se' \<and> s_in se' = s_in se \<and> s_checker se' = s_checker se \<and> s_late se' = s_late se
    \<and> s_io se' = s_io se \<and> s_err se' = s_err se"
proof -
  have "apply_size err z d m se = (se', e) \<Longrightarrow> ?thesis" for z
    by (cases err) (auto simp: apply_size_def Let_def same_session_def)
  then show ?thesis using assms by (auto simp: SetSize_def same_session_def split: if_splits)
qed

lemma forwardInput_keeps:
  "i_server (forwardInput b e c) = i_server c \<and> (i_marker c = None \<longrightarrow> i_marker (forwardInput b e c) = None)"
  by (auto simp: forwardInput_def discardPendingInput_def Let_def split: option.splits prod.splits if_splits)

lemma getSession_some: "sess_inv s \<Longrightarrow> getSessionByID i s = Some x \<Longrightarrow> x < length (g_sessions s)"
  by (simp add: getSessionByID_def sess_inv_def map_ok_def)

lemma handleResizeEvent_inv:
  assumes inv: "sess_inv s"
  shows "sess_inv (fst (handleResizeEvent err v i cols rows redraw marker s))"
proof (cases "getSessionByID i s")
  case None
  with inv show ?thesis by (simp add: handleResizeEvent_def)
next
  case (Some x)
  obtain se e where se: "SetSize err cols rows redraw False marker (g_sessions s ! x) = (se, e)" by (metis surj_pair)
  note k = SetSize_keeps [OF se]
  have x: "x < length (g_sessions s)" using getSession_some [OF inv Some] .
  have "session_ok (g_attachable s) (g_active s) (g_servers s) se"
    by (rule session_ok_same [OF session_ok_at [OF inv x]]) (use k in \<open>simp_all add: same_session_def\<close>)
  with upd_sess_inv [OF inv x, of "\<lambda>_. se"] k inv Some se show ?thesis by (simp add: handleResizeEvent_def)
qed

text \<open>Attaching.\<close>

lemma attach_to_keeps:
  "same_session se (attach_to resizeErr v msg se) \<and> s_late (attach_to resizeErr v msg se) = s_late se
   \<and> s_in (attach_to resizeErr v msg se) = attach_input v (s_in se) \<and> s_checker (attach_to resizeErr v msg se) = Some v
   \<and> s_io (attach_to resizeErr v msg se) = io_swap (Some v) (s_io se)
   \<and> s_err (attach_to resizeErr v msg se) = io_swap (Some v) (s_err se)"
proof -
  let ?se1 = "se\<lparr>s_in := attach_input v (s_in se), s_io := io_swap (Some v) (s_io se), s_err := io_swap (Some v) (s_err se)\<rparr>"
  let ?c = "if m_cols msg > 0 then m_cols msg else s_cols ?se1" and ?r = "if m_rows msg > 0 then m_rows msg else s_rows ?se1"
  obtain se2 e where se2: "SetSize resizeErr ?c ?r True True None ?se1 = (se2, e)" by (metis surj_pair)
  note k = SetSize_keeps [OF se2]
  have "attach_to resizeErr v msg se = (if is_pty se then se2 else ?se1)\<lparr>s_checker := Some v\<rparr>"
    unfolding attach_to_def Let_def using se2 by simp
  with k show ?thesis by (simp add: same_session_def)
qed

lemma attach_locked_inv:
  assumes inv: "sess_inv s" and x: "x < length (g_sessions s)"
  shows "sess_inv (fst (attach_locked ackErr resizeErr v msg x s))"
proof -
  let ?se = "g_sessions s ! x"
  have "fst (attach_locked ackErr resizeErr v msg x s) = s \<or> g_active s = Some v \<and> owner ?se = None
      \<and> fst (attach_locked ackErr resizeErr v msg x s) = upd_sess x (attach_to resizeErr v msg) s"
    by (cases ackErr) (simp_all add: attach_locked_def Let_def)
  then show ?thesis
  proof
    assume "fst (attach_locked ackErr resizeErr v msg x s) = s"
    with inv show ?thesis by simp
  next
    assume 2: "g_active s = Some v \<and> owner ?se = None
      \<and> fst (attach_locked ackErr resizeErr v msg x s) = upd_sess x (attach_to resizeErr v msg) s"
    note k = attach_to_keeps [of ?se resizeErr v msg]
    have "v < length (g_servers s) \<and> v_serving (g_servers s ! v)" using inv 2 by (simp add: sess_inv_def servers_ok_def)
    then have "session_ok (g_attachable s) (g_active s) (g_servers s) (attach_to resizeErr v msg ?se)"
      using session_ok_at [OF inv x] k 2 by (simp add: session_ok_def attach_input_def)
    with upd_sess_inv [OF inv x] k 2 show ?thesis by simp
  qed
qed

text \<open>Detaching: the channels move from the sessions to the closed ones.\<close>

lemma mset_concat_split:
  "mset (concat (map f (filter P xs))) + mset (concat (map (\<lambda>x. if P x then [] else f x) xs)) = mset (concat (map f xs))"
  by (induction xs) auto

lemma distinct_mset_cong: "mset xs = mset ys \<Longrightarrow> distinct xs = distinct ys"
  by (rule mset_eq_imp_distinct_iff)

lemma detach_chans:
  assumes "g_attachable s"
  shows "mset (all_chans (detachAllSessions old s)) = mset (all_chans s)"
proof -
  let ?P = "detached_by old s" and ?n = "length (g_sessions s)" and ?f = "\<lambda>x. wait_chans (g_sessions s ! x)"
  have "wait_chans (if ?P x then detach_session (g_sessions s ! x) else g_sessions s ! x) = (if ?P x then [] else ?f x)" for x
    by (simp add: wait_chans_def detach_session_def)
  then have "concat (map wait_chans (g_sessions (detachAllSessions old s))) = concat (map (\<lambda>x. if ?P x then [] else ?f x) [0..<?n])"
    using assms by (simp add: detachAllSessions_def Let_def comp_def)
  moreover have "g_cancelled (detachAllSessions old s) = concat (map ?f (filter ?P [0..<?n])) @ g_cancelled s"
    using assms by (simp add: detachAllSessions_def Let_def wait_chans_def)
  moreover have "map wait_chans (g_sessions s) = map ?f [0..<?n]"
  proof -
    have "map ?f [0..<?n] = map wait_chans (map ((!) (g_sessions s)) [0..<?n])" by simp
    then show ?thesis by (simp only: map_nth)
  qed
  ultimately show ?thesis using mset_concat_split [of ?f ?P "[0..<?n]"] by (simp add: all_chans_def add.commute)
qed

lemma detach_nth:
  assumes "g_attachable s" "x < length (g_sessions s)"
  shows "g_sessions (detachAllSessions old s) ! x =
    (if detached_by old s x then detach_session (g_sessions s ! x) else g_sessions s ! x)"
  using assms by (simp add: detachAllSessions_def Let_def)

lemma detach_frame:
  "length (g_sessions (detachAllSessions old s)) = length (g_sessions s)"
  "g_map (detachAllSessions old s) = g_map s" "g_nextCancel (detachAllSessions old s) = g_nextCancel s"
  "g_attachable (detachAllSessions old s) = g_attachable s" "g_active (detachAllSessions old s) = g_active s"
  "g_servers (detachAllSessions old s) = g_servers s" "g_maxID (detachAllSessions old s) = g_maxID s"
  "\<not> g_attachable s \<Longrightarrow> detachAllSessions old s = s"
  by (simp_all add: detachAllSessions_def Let_def)

lemma detach_map_ok:
  assumes "map_ok (g_map s) (g_sessions s)"
  shows "map_ok (g_map s) (g_sessions (detachAllSessions old s))"
proof (cases "g_attachable s")
  case True
  have "s_id (g_sessions (detachAllSessions old s) ! x) = s_id (g_sessions s ! x)
      \<and> s_closed (g_sessions (detachAllSessions old s) ! x) = s_closed (g_sessions s ! x)" if "x < length (g_sessions s)" for x
    using detach_nth [OF True that] by (simp add: detach_session_def)
  with assms show ?thesis by (simp add: map_ok_def detach_frame)
qed (use assms in \<open>simp add: detach_frame\<close>)

text \<open>The sessions that remain owned after the sessions of the active server were detached are late ones.\<close>

lemma detach_session_ok:
  assumes inv: "sess_inv s" and a: "g_attachable s" and s1: "g_sessions s1 = g_sessions s" "g_map s1 = g_map s" "g_attachable s1 = g_attachable s"
    and sv: "length (g_servers s) \<le> length sv" "\<And>v. v < length (g_servers s) \<Longrightarrow> v_serving (g_servers s ! v) \<Longrightarrow> v_serving (sv ! v)"
    and x: "x < length (g_sessions s)"
  shows "session_ok True active sv (g_sessions (detachAllSessions (g_active s) s1) ! x)"
proof -
  let ?se = "g_sessions s ! x"
  note ok = session_ok_at [OF inv x]
  have nth: "g_sessions (detachAllSessions (g_active s) s1) ! x = (if detached_by (g_active s) s x then detach_session ?se else ?se)"
    using detach_nth [of s1 x "g_active s"] a x s1 by (simp add: detached_by_def registered_def)
  show ?thesis
  proof (cases "detached_by (g_active s) s x")
    case True
    with nth show ?thesis by (simp add: session_ok_def detach_session_def detach_input_def)
  next
    case False
    have "s_closed ?se \<or> owner ?se \<noteq> g_active s"
      using False inv x by (auto simp: detached_by_def registered_def sess_inv_def map_ok_def)
    with ok have "s_closed ?se \<or> s_late ?se \<or> owner ?se = None" by (auto simp: session_ok_def)
    with ok nth False sv a show ?thesis by (auto simp: session_ok_def dest: less_le_trans)
  qed
qed

lemma detached_inv:
  assumes inv: "sess_inv s" and a: "g_attachable s"
    and s1: "g_sessions s1 = g_sessions s" "g_map s1 = g_map s" "g_attachable s1 = g_attachable s"
      "g_cancelled s1 = g_cancelled s" "g_nextCancel s1 = g_nextCancel s"
    and sv: "length (g_servers s) \<le> length sv" "\<And>v. v < length (g_servers s) \<Longrightarrow> v_serving (g_servers s ! v) \<Longrightarrow> v_serving (sv ! v)"
    and ok: "servers_ok True active sv"
    and s2: "g_sessions s2 = g_sessions (detachAllSessions (g_active s) s1)" "g_cancelled s2 = g_cancelled (detachAllSessions (g_active s) s1)"
      "g_map s2 = g_map s" "g_attachable s2" "g_active s2 = active" "g_servers s2 = sv" "g_nextCancel s2 = g_nextCancel s"
  shows "sess_inv s2"
proof -
  have "mset (all_chans (detachAllSessions (g_active s) s1)) = mset (all_chans s1)" using detach_chans [of s1] a s1(3) by simp
  moreover have "all_chans s1 = all_chans s" using s1 by (simp add: all_chans_def)
  moreover have "all_chans s2 = all_chans (detachAllSessions (g_active s) s1)" using s2 by (simp add: all_chans_def)
  ultimately have ch: "mset (all_chans s2) = mset (all_chans s)" by simp
  have "\<forall>x < length (g_sessions s2). session_ok True active sv (g_sessions s2 ! x)"
    using detach_session_ok [OF inv a s1(1-3) sv] s2(1) s1(1) by (simp add: detach_frame)
  then have "\<forall>se \<in> set (g_sessions s2). session_ok True active sv se" by (metis in_set_conv_nth)
  moreover have "map_ok (g_map s2) (g_sessions s2)"
    using detach_map_ok [of s1 "g_active s"] inv s1 s2 by (simp add: sess_inv_def)
  moreover have "distinct (all_chans s2)" "\<forall>c \<in> set (all_chans s2). c < g_nextCancel s"
    using inv distinct_mset_cong [OF ch] mset_eq_setD [OF ch] by (simp_all add: sess_inv_def)
  ultimately show ?thesis using s2 ok by (simp add: sess_inv_def)
qed

text \<open>Activation.\<close>

lemma serving_upd:
  fixes sv :: "server list"
  shows "v_serving (sv[v := (sv ! v)\<lparr>v_serving := True\<rparr>] ! w) = (v_serving (sv ! w) \<or> w = v \<and> v < length sv)"
  "v_bus (sv[v := (sv ! v)\<lparr>v_serving := True\<rparr>] ! w) = v_bus (sv ! w)"
proof -
  consider "v < length sv" "w = v" | "w \<noteq> v" | "\<not> v < length sv" by blast
  then show "v_serving (sv[v := (sv ! v)\<lparr>v_serving := True\<rparr>] ! w) = (v_serving (sv ! w) \<or> w = v \<and> v < length sv)"
      "v_bus (sv[v := (sv ! v)\<lparr>v_serving := True\<rparr>] ! w) = v_bus (sv ! w)"
    by (cases, simp_all add: list_update_beyond)+
qed

lemma servers_ok_activate:
  assumes "servers_ok a active sv" "v < length sv" "a \<or> active = None"
  shows "servers_ok a (Some v) (sv[v := (sv ! v)\<lparr>v_serving := True\<rparr>])"
proof -
  have "v_serving (sv ! w) \<and> \<not> a \<longrightarrow> active = Some w" "v_bus (sv ! w) \<longrightarrow> v_serving (sv ! w)" if "w < length sv" for w
    using assms(1) that unfolding servers_ok_def by blast+
  then have "\<forall>w < length sv. (v_serving (sv ! w) \<longrightarrow> a) \<and> (v_bus (sv ! w) \<longrightarrow> v_serving (sv ! w))"
    using assms(3) by fastforce
  then show ?thesis using assms(2) by (auto simp: servers_ok_def serving_upd)
qed

lemma activateServer_inv:
  assumes inv: "sess_inv s" and v: "v < length (g_servers s)"
  shows "sess_inv (fst (activateServer v name s))"
proof -
  let ?sv = "(g_servers s)[v := (g_servers s ! v)\<lparr>v_serving := True\<rparr>]"
  have sv: "length (g_servers s) \<le> length ?sv" "\<And>w. v_serving (g_servers s ! w) \<Longrightarrow> v_serving (?sv ! w)"
    by (simp_all add: serving_upd)
  have ok: "servers_ok (g_attachable s) (g_active s) (g_servers s)" using inv by (simp add: sess_inv_def)
  show ?thesis
  proof (cases "g_attachable s")
    case False
    show ?thesis
    proof (cases "g_active s")
      case None
      have "session_ok False (Some v) ?sv se" if "se \<in> set (g_sessions s)" for se
      proof -
        have "session_ok False None (g_servers s) se" using inv that False None by (simp add: sess_inv_def)
        with sv show ?thesis using False ok None by (auto simp: session_ok_def servers_ok_def)
      qed
      with inv None False servers_ok_activate [OF ok v] show ?thesis
        by (simp add: sess_inv_def activateServer_def Let_def all_chans_def)
    qed (use inv False in \<open>simp add: activateServer_def Let_def\<close>)
  next
    case True
    show ?thesis
    proof (cases "g_busClosing s")
      case False
      define s1 where "s1 = s\<lparr>g_active := Some v, g_socketName :=
        (if g_active s = None then map_option (\<lambda>_. name) (g_socketName s) else g_socketName s)\<rparr>"
      have s1: "g_sessions s1 = g_sessions s" "g_map s1 = g_map s" "g_attachable s1 = g_attachable s"
          "g_cancelled s1 = g_cancelled s" "g_nextCancel s1 = g_nextCancel s" "g_servers s1 = g_servers s" "g_active s1 = Some v"
        by (simp_all add: s1_def)
      obtain sent where eq: "fst (activateServer v name s) =
          (detachAllSessions (g_active s) s1)\<lparr>g_sent := sent, g_servers := ?sv\<rparr>"
        using True False s1(6) unfolding activateServer_def Let_def s1_def [symmetric]
        by (cases "g_active s") (simp_all add: detach_frame, metis sess_sys.surjective sess_sys.update_convs(13))
      show ?thesis unfolding eq
        by (rule detached_inv [OF inv True s1(1-5) sv(1)])
          (use sv(2) servers_ok_activate [OF ok v] True s1 in \<open>simp_all add: detach_frame\<close>)
    qed (use inv True in \<open>simp add: activateServer_def Let_def\<close>)
  qed
qed

lemma activateServer_ok:
  assumes "activateServer v name s = (s1, None)" "v < length (g_servers s)"
  shows "g_active s1 = Some v \<and> v < length (g_servers s1) \<and> v_serving (g_servers s1 ! v)
    \<and> g_attachable s1 = g_attachable s"
  using assms unfolding activateServer_def Let_def
  by (auto simp: detach_frame split: if_splits option.splits)

lemma servers_ok_bus:
  assumes ok: "servers_ok a active sv" and v: "v_serving (sv ! v)"
  shows "servers_ok a active (sv[v := (sv ! v)\<lparr>v_bus := True\<rparr>])"
    "session_ok a active sv se \<Longrightarrow> session_ok a active (sv[v := (sv ! v)\<lparr>v_bus := True\<rparr>]) se"
proof -
  have s: "v_serving (sv[v := (sv ! v)\<lparr>v_bus := True\<rparr>] ! w) = v_serving (sv ! w)"
      "v_bus (sv[v := (sv ! v)\<lparr>v_bus := True\<rparr>] ! w) \<longrightarrow> v_bus (sv ! w) \<or> w = v" for w
  proof -
    consider "v < length sv" "w = v" | "w \<noteq> v" | "\<not> v < length sv" by blast
    then show "v_serving (sv[v := (sv ! v)\<lparr>v_bus := True\<rparr>] ! w) = v_serving (sv ! w)"
        "v_bus (sv[v := (sv ! v)\<lparr>v_bus := True\<rparr>] ! w) \<longrightarrow> v_bus (sv ! w) \<or> w = v"
      by (cases, simp_all add: list_update_beyond)+
  qed
  show "servers_ok a active (sv[v := (sv ! v)\<lparr>v_bus := True\<rparr>])"
    using ok s(2) v unfolding servers_ok_def s(1) length_list_update by blast
  show "session_ok a active sv se \<Longrightarrow> session_ok a active (sv[v := (sv ! v)\<lparr>v_bus := True\<rparr>]) se"
    unfolding session_ok_def s(1) length_list_update .
qed

lemma initBusAndServer_inv:
  assumes inv: "sess_inv s" and v: "v < length (g_servers s)"
  shows "sess_inv (fst (initBusAndServer v name respErr s))"
proof -
  obtain s1 e where a: "activateServer v name s = (s1, e)" by (metis surj_pair)
  have i1: "sess_inv s1" using activateServer_inv [OF inv v, of name] a by simp
  have "sess_inv (s1\<lparr>g_servers := (g_servers s1)[v := (g_servers s1 ! v)\<lparr>v_bus := True\<rparr>]\<rparr>)" if "e = None"
  proof -
    have "v_serving (g_servers s1 ! v)" using activateServer_ok a v that by simp
    with i1 servers_ok_bus [of "g_attachable s1" "g_active s1" "g_servers s1" v] show ?thesis
      by (simp add: sess_inv_def all_chans_def)
  qed
  with inv i1 a show ?thesis
    by (cases e; cases respErr) (simp_all add: initBusAndServer_def)
qed

lemma handleDetachEvent_inv:
  assumes inv: "sess_inv s"
  shows "sess_inv (handleDetachEvent v s)"
proof (cases "g_kcp s \<and> g_active s = Some v \<and> g_attachable s")
  case True
  have "handleDetachEvent v s = (detachAllSessions (g_active s) s)\<lparr>g_sent := (v, BusDetachAck) # g_sent (detachAllSessions (g_active s) s)\<rparr>"
    using True by (simp add: handleDetachEvent_def Let_def)
  moreover have "sess_inv \<dots>"
    by (rule detached_inv [OF inv _ refl refl refl refl refl order_refl])
      (use inv True in \<open>simp_all add: detach_frame sess_inv_def\<close>)
  ultimately show ?thesis by simp
next
  case False
  then have "handleDetachEvent v s = s\<lparr>g_sent := (v, BusDetachAck) # g_sent s\<rparr>"
    by (auto simp: handleDetachEvent_def Let_def detach_frame(8))
  with inv show ?thesis by (simp add: sess_inv_def all_chans_def)
qed

text \<open>Sessions begin and end.\<close>

lemma newSessionContext_inv:
  assumes inv: "sess_inv s" and v: "v < length (g_servers s)" "v_serving (g_servers s ! v)"
  shows "sess_inv (fst (newSessionContext mw v msg s))"
proof (cases "g_map s (m_id msg)")
  case None
  define s' se where "s' = fst (newSessionContext mw v msg s)" and "se = new_session mw (g_active s) v msg"
  have s': "s' = s\<lparr>g_maxID := (if m_id msg > g_maxID s then m_id msg else g_maxID s),
        g_sessions := g_sessions s @ [se], g_map := (g_map s)(m_id msg := Some (length (g_sessions s)))\<rparr>"
    unfolding s'_def se_def newSessionContext_def Let_def by (simp only: None) simp
  have se: "s_id se = m_id msg" "owner se = Some v" "i_marker (s_in se) = None" "s_checker se = Some v" "\<not> s_closed se"
      "s_wait se = None" "s_late se = (g_active s \<noteq> Some v)"
    by (simp_all add: se_def new_session_def)
  have ok: "servers_ok (g_attachable s) (g_active s) (g_servers s)" using inv by (simp add: sess_inv_def)
  have "session_ok (g_attachable s) (g_active s) (g_servers s) se"
  proof -
    have "g_active s \<noteq> Some v \<longrightarrow> g_attachable s" using ok v unfolding servers_ok_def by blast
    with v se show ?thesis by (simp add: session_ok_def)
  qed
  moreover have "map_ok ((g_map s)(m_id msg := Some (length (g_sessions s)))) (g_sessions s @ [se])"
  proof -
    have m: "map_ok (g_map s) (g_sessions s)" using inv by (simp add: sess_inv_def)
    have other: "s_id (g_sessions s ! x) \<noteq> m_id msg" if "x < length (g_sessions s)" "\<not> s_closed (g_sessions s ! x)" for x
      using m that None unfolding map_ok_def by fastforce
    show ?thesis unfolding map_ok_def
    proof (intro conjI allI impI)
      fix i y assume i: "((g_map s)(m_id msg := Some (length (g_sessions s)))) i = Some y"
      show "y < length (g_sessions s @ [se])" "s_id ((g_sessions s @ [se]) ! y) = i" "\<not> s_closed ((g_sessions s @ [se]) ! y)"
      proof (atomize (full), cases "i = m_id msg")
        case False
        with i have "g_map s i = Some y" by simp
        with m have "y < length (g_sessions s)" "s_id (g_sessions s ! y) = i" "\<not> s_closed (g_sessions s ! y)" by (simp_all add: map_ok_def)
        then show "y < length (g_sessions s @ [se]) \<and> s_id ((g_sessions s @ [se]) ! y) = i \<and> \<not> s_closed ((g_sessions s @ [se]) ! y)"
          by (simp add: nth_append)
      qed (use i se in \<open>auto simp: nth_append\<close>)
    next
      fix y assume y: "y < length (g_sessions s @ [se])" "\<not> s_closed ((g_sessions s @ [se]) ! y)"
      show "((g_map s)(m_id msg := Some (length (g_sessions s)))) (s_id ((g_sessions s @ [se]) ! y)) = Some y"
      proof (cases "y < length (g_sessions s)")
        case True
        with y m other [OF True] show ?thesis by (simp add: map_ok_def nth_append)
      next
        case False
        with y se show ?thesis by (simp add: nth_append)
      qed
    qed
  qed
  moreover have "all_chans s' = all_chans s" using se(6) by (simp add: all_chans_def s' wait_chans_def)
  ultimately show ?thesis using inv unfolding s'_def [symmetric] by (simp add: sess_inv_def s')
qed (use inv in \<open>simp add: newSessionContext_def\<close>)

lemma chans_insert:
  assumes "x < length ses"
  shows "mset (concat (map wait_chans (ses[x := se]))) + mset (wait_chans (ses ! x)) =
    mset (concat (map wait_chans ses)) + mset (wait_chans se)"
  using assms by (induction ses arbitrary: x) (auto split: nat.splits)

lemma cancellableWait_inv:
  assumes inv: "sess_inv s" and x: "x < length (g_sessions s)"
  shows "sess_inv (cancellableWait x s)"
proof -
  let ?se = "g_sessions s ! x" and ?n = "g_nextCancel s"
  let ?se' = "?se\<lparr>s_wait := Some ?n\<rparr>"
  define s' where "s' = cancellableWait x s"
  have s': "g_sessions s' = (g_sessions s)[x := ?se']" "g_cancelled s' = wait_chans ?se @ g_cancelled s"
      "g_nextCancel s' = Suc ?n" "g_map s' = g_map s" "g_servers s' = g_servers s" "g_active s' = g_active s"
      "g_attachable s' = g_attachable s"
    using x unfolding s'_def by (cases "s_wait ?se"; simp add: cancellableWait_def upd_sess_def wait_chans_def)+
  have ch: "mset (all_chans s') = mset (all_chans s) + {#?n#}"
    using chans_insert [OF x, of ?se'] by (simp add: all_chans_def s' wait_chans_def [of ?se'])
  have fresh: "?n \<notin> set (all_chans s)" "\<forall>c \<in> set (all_chans s). c < ?n" "distinct (all_chans s)"
    using inv by (auto simp: sess_inv_def)
  have "mset (all_chans s') = mset (?n # all_chans s)" using ch by simp
  then have d: "distinct (all_chans s')" "set (all_chans s') = insert ?n (set (all_chans s))"
    using fresh by (metis distinct.simps(2) distinct_mset_cong, metis list.simps(15) set_mset_mset)
  have "session_ok (g_attachable s) (g_active s) (g_servers s) ?se'"
    by (rule session_ok_same [OF session_ok_at [OF inv x]]) simp_all
  then have "\<forall>se \<in> set (g_sessions s'). session_ok (g_attachable s) (g_active s) (g_servers s) se"
    using inv set_update_subset_insert [of "g_sessions s" x ?se'] by (auto simp: sess_inv_def s')
  moreover have "map_ok (g_map s) (g_sessions s')"
  proof -
    have "s_id (g_sessions s' ! y) = s_id (g_sessions s ! y) \<and> s_closed (g_sessions s' ! y) = s_closed (g_sessions s ! y)" for y
      by (cases "y = x") (use x in \<open>simp_all add: s'\<close>)
    then show ?thesis using inv by (simp add: sess_inv_def map_ok_def s')
  qed
  ultimately have "sess_inv s'" using inv d fresh(2) by (simp add: sess_inv_def s' less_SucI)
  then show ?thesis by (simp add: s'_def)
qed

lemma session_Close_inv:
  assumes inv: "sess_inv s" and x: "x < length (g_sessions s)"
  shows "sess_inv (session_Close x s)"
proof (cases "s_closed (g_sessions s ! x)")
  case False
  let ?se = "g_sessions s ! x"
  let ?se' = "?se\<lparr>s_closed := True, s_io := close_io (s_io ?se), s_err := close_io (s_err ?se)\<rparr>"
  define s' where "s' = session_Close x s"
  have s': "g_sessions s' = (g_sessions s)[x := ?se']" "g_cancelled s' = g_cancelled s"
      "g_nextCancel s' = g_nextCancel s" "g_map s' = (g_map s)(s_id ?se := None)" "g_servers s' = g_servers s"
      "g_active s' = g_active s" "g_attachable s' = g_attachable s"
    using x False unfolding s'_def by (simp_all add: session_Close_def upd_sess_def Let_def)
  have "session_ok (g_attachable s) (g_active s) (g_servers s) ?se'"
    using session_ok_at [OF inv x] by (simp add: session_ok_def)
  then have "\<forall>se \<in> set (g_sessions s'). session_ok (g_attachable s) (g_active s) (g_servers s) se"
    using inv set_update_subset_insert [of "g_sessions s" x ?se'] by (auto simp: sess_inv_def s')
  moreover have "map_ok (g_map s') (g_sessions s')"
  proof -
    have m: "map_ok (g_map s) (g_sessions s)" using inv by (simp add: sess_inv_def)
    have other: "s_id (g_sessions s ! y) \<noteq> s_id ?se" if "y \<noteq> x" "y < length (g_sessions s)" "\<not> s_closed (g_sessions s ! y)" for y
      using m that x False unfolding map_ok_def by (metis option.inject)
    show ?thesis unfolding map_ok_def
    proof (intro conjI allI impI)
      fix i y assume "g_map s' i = Some y"
      then have i: "g_map s i = Some y" "i \<noteq> s_id ?se" by (auto simp: s' split: if_splits)
      then have "y \<noteq> x" "y < length (g_sessions s)" using m by (auto simp: map_ok_def)
      with i m show "y < length (g_sessions s')" "s_id (g_sessions s' ! y) = i" "\<not> s_closed (g_sessions s' ! y)"
        by (simp_all add: s' map_ok_def)
    next
      fix y assume y: "y < length (g_sessions s')" "\<not> s_closed (g_sessions s' ! y)"
      then have "y \<noteq> x" using x by (auto simp: s')
      with y other m show "g_map s' (s_id (g_sessions s' ! y)) = Some y" by (simp add: s' map_ok_def)
    qed
  qed
  moreover have "map wait_chans ((g_sessions s)[x := ?se']) = map wait_chans (g_sessions s)"
    by (rule chans_upd) (simp add: wait_chans_def)
  ultimately have "sess_inv s'" using inv by (simp add: sess_inv_def s' all_chans_def)
  then show ?thesis by (simp add: s'_def)
qed (use inv in \<open>simp add: session_Close_def\<close>)

lemma session_Close_length: "length (g_sessions (session_Close x s)) = length (g_sessions s)"
  by (simp add: session_Close_def upd_sess_def Let_def)

lemma handleCloseEvent_inv:
  assumes inv: "sess_inv s"
  shows "sess_inv (handleCloseEvent s)"
proof -
  have "sess_inv (fold session_Close xs s)" if "\<forall>x \<in> set xs. x < length (g_sessions s)" "sess_inv s" for xs s
    using that by (induction xs arbitrary: s) (simp_all add: session_Close_inv session_Close_length)
  with inv have "sess_inv (closeAllSessions s)" by (simp add: closeAllSessions_def)
  then show ?thesis by (simp add: handleCloseEvent_def sess_inv_def all_chans_def)
qed

lemma enablePendingInputDiscard_inv:
  assumes inv: "sess_inv s"
  shows "sess_inv (enablePendingInputDiscard v s)"
proof (cases "v_keepPendingInput (g_servers s ! v) \<or> filter (registered s) [0..<length (g_sessions s)] = []")
  case True
  with inv show ?thesis by (auto simp: enablePendingInputDiscard_def)
next
  case False
  define s' f where "s' = enablePendingInputDiscard v s"
    and "f = (\<lambda>x. if registered s x then (g_sessions s ! x)\<lparr>s_in := store_marker v (getNextDiscardMarkerIndex (g_markerIndex s)) (s_in (g_sessions s ! x))\<rparr>
        else g_sessions s ! x)"
  have s': "g_sessions s' = map f [0..<length (g_sessions s)]" "g_cancelled s' = g_cancelled s"
      "g_nextCancel s' = g_nextCancel s" "g_map s' = g_map s" "g_servers s' = g_servers s"
      "g_active s' = g_active s" "g_attachable s' = g_attachable s"
    using False unfolding s'_def f_def by (auto simp: enablePendingInputDiscard_def Let_def)
  have same: "same_session (g_sessions s ! x) (f x)" for x by (simp add: f_def same_session_def)
  have "session_ok (g_attachable s) (g_active s) (g_servers s) (f x)" if "x < length (g_sessions s)" for x
    using session_ok_at [OF inv that] by (auto simp: f_def session_ok_def store_marker_def)
  then have "\<forall>se \<in> set (g_sessions s'). session_ok (g_attachable s) (g_active s) (g_servers s) se" by (auto simp: s')
  moreover have "map_ok (g_map s) (g_sessions s')"
    using inv same by (simp add: sess_inv_def map_ok_def s' same_session_def)
  moreover have "map wait_chans (g_sessions s') = map wait_chans (g_sessions s)"
    using same by (intro nth_equalityI) (simp_all add: s' wait_chans_def same_session_def)
  ultimately have "sess_inv s'" using inv by (simp add: sess_inv_def s' all_chans_def)
  then show ?thesis by (simp add: s'_def)
qed

lemma handleSettingEvent_inv:
  assumes inv: "sess_inv s"
  shows "sess_inv (handleSettingEvent v keep s)"
proof (cases keep)
  case (Some b)
  let ?sv = "(g_servers s)[v := (g_servers s ! v)\<lparr>v_keepPendingInput := b\<rparr>]"
  have sv: "v_serving (?sv ! w) = v_serving (g_servers s ! w)" "v_bus (?sv ! w) = v_bus (g_servers s ! w)" for w
  proof -
    consider "v < length (g_servers s)" "w = v" | "w \<noteq> v" | "\<not> v < length (g_servers s)" by blast
    then show "v_serving (?sv ! w) = v_serving (g_servers s ! w)" "v_bus (?sv ! w) = v_bus (g_servers s ! w)"
      by (cases, simp_all add: list_update_beyond)+
  qed
  have "servers_ok a ac ?sv = servers_ok a ac (g_servers s)" "session_ok a ac ?sv se = session_ok a ac (g_servers s) se" for a ac se
    unfolding servers_ok_def session_ok_def sv length_list_update by (rule refl)+
  with inv Some show ?thesis by (simp add: handleSettingEvent_def sess_inv_def all_chans_def)
qed (use inv in \<open>simp add: handleSettingEvent_def\<close>)

lemma new_server_inv:
  assumes inv: "sess_inv s"
  shows "sess_inv (s\<lparr>g_servers := g_servers s @ [\<lparr>v_serving = False, v_bus = False, v_keepPendingInput = False\<rparr>]\<rparr>)"
proof -
  let ?sv = "g_servers s @ [\<lparr>v_serving = False, v_bus = False, v_keepPendingInput = False\<rparr>]"
  have sv: "w < length ?sv \<Longrightarrow> (v_serving (?sv ! w) \<longleftrightarrow> w < length (g_servers s) \<and> v_serving (g_servers s ! w)) \<and>
      (v_bus (?sv ! w) \<longleftrightarrow> w < length (g_servers s) \<and> v_bus (g_servers s ! w))" for w
    by (auto simp: nth_append)
  have "servers_ok (g_attachable s) (g_active s) (g_servers s)" using inv by (simp add: sess_inv_def)
  then have "servers_ok (g_attachable s) (g_active s) ?sv"
    unfolding servers_ok_def using sv by (metis length_append_singleton less_SucI)
  moreover have "session_ok a ac ?sv se" if "session_ok a ac (g_servers s) se" for a ac se
    using that unfolding session_ok_def using sv by (metis length_append_singleton less_SucI)
  ultimately show ?thesis using inv by (simp add: sess_inv_def all_chans_def)
qed

lemma sess_exec_inv:
  assumes inv: "sess_inv s" and e: "sess_exec a s = Some s'"
  shows "sess_inv s'"
proof (cases a)
  case SaServer
  with e new_server_inv [OF inv] show ?thesis by (simp add: sess_exec_def)
next
  case (SaBus v name respErr)
  with e initBusAndServer_inv [OF inv] show ?thesis by (auto simp: sess_exec_def split: if_splits)
next
  case (SaStart mw v msg)
  with e newSessionContext_inv [OF inv] show ?thesis by (auto simp: sess_exec_def split: if_splits)
next
  case (SaPty x)
  then have x: "x < length (g_sessions s)" and s': "s' = upd_sess x StartPty s" using e by (auto simp: sess_exec_def split: if_splits)
  have "session_ok (g_attachable s) (g_active s) (g_servers s) (StartPty (g_sessions s ! x))"
    by (rule session_ok_same [OF session_ok_at [OF inv x]]) (simp_all add: StartPty_def)
  with upd_sess_inv [OF inv x] show ?thesis unfolding s' by (simp add: same_session_def StartPty_def)
next
  case (SaForward x stderr)
  then have x: "x < length (g_sessions s)" and s': "s' = upd_sess x (\<lambda>se. forwardIO (g_attachable s) (s_creator se) stderr se) s"
    using e by (auto simp: sess_exec_def split: if_splits)
  have "session_ok (g_attachable s) (g_active s) (g_servers s)
      (forwardIO (g_attachable s) (s_creator (g_sessions s ! x)) stderr (g_sessions s ! x))"
    by (rule session_ok_same [OF session_ok_at [OF inv x]]) (simp_all add: forwardIO_def Let_def)
  with upd_sess_inv [OF inv x] show ?thesis unfolding s' by (simp add: same_session_def forwardIO_def Let_def)
next
  case (SaAttach ackErr resizeErr v msg x)
  with e attach_locked_inv [OF inv] show ?thesis by (auto simp: sess_exec_def split: if_splits)
next
  case (SaWait x)
  with e cancellableWait_inv [OF inv] show ?thesis by (auto simp: sess_exec_def split: if_splits)
next
  case (SaResize err v i cols rows redraw marker)
  with e handleResizeEvent_inv [OF inv] show ?thesis by (auto simp: sess_exec_def)
next
  case (SaDetach v)
  with e handleDetachEvent_inv [OF inv] show ?thesis by (auto simp: sess_exec_def split: if_splits)
next
  case (SaClose x)
  with e session_Close_inv [OF inv] show ?thesis by (auto simp: sess_exec_def split: if_splits)
next
  case SaExit
  with e handleCloseEvent_inv [OF inv] show ?thesis by (auto simp: sess_exec_def)
next
  case (SaDiscard v)
  with e enablePendingInputDiscard_inv [OF inv] show ?thesis by (auto simp: sess_exec_def split: if_splits)
next
  case (SaSetting v keep)
  with e handleSettingEvent_inv [OF inv] show ?thesis by (auto simp: sess_exec_def split: if_splits)
next
  case (SaInput x buf err)
  let ?f = "\<lambda>se. se\<lparr>s_in := forwardInput buf err (s_in se)\<rparr>"
  from SaInput have x: "x < length (g_sessions s)" and s': "s' = upd_sess x ?f s" using e by (auto simp: sess_exec_def split: if_splits)
  have "session_ok (g_attachable s) (g_active s) (g_servers s) (?f (g_sessions s ! x))"
    using session_ok_at [OF inv x] forwardInput_keeps [of buf err "s_in (g_sessions s ! x)"] by (simp add: session_ok_def)
  with upd_sess_inv [OF inv x] show ?thesis unfolding s' by (simp add: same_session_def)
qed

interpretation sessions: machine sess_exec sess_inv
  by unfold_locales (rule sess_exec_inv)

lemma sess_init_inv: "sess_inv (sess_init attachable kcp socket)"
  by (simp add: sess_init_def sess_inv_def servers_ok_def map_ok_def all_chans_def)

text \<open>A session of a server that has been replaced.\<close>

definition orphan :: "nat \<Rightarrow> nat \<Rightarrow> sess_sys \<Rightarrow> bool" where
  "orphan x v s \<longleftrightarrow> x < length (g_sessions s) \<and> owner (g_sessions s ! x) = Some v \<and> g_active s \<noteq> Some v
     \<and> v < length (g_servers s) \<and> v_bus (g_servers s ! v)"

lemma orphan_upd:
  assumes "orphan x v s" "y = x \<Longrightarrow> owner (f (g_sessions s ! x)) = Some v"
  shows "orphan x v (upd_sess y f s)"
  using assms by (cases "y = x") (auto simp: orphan_def upd_sess_def)

lemma orphan_detach: "orphan x v s \<Longrightarrow> old \<noteq> Some v \<Longrightarrow> owner (g_sessions (detachAllSessions old s) ! x) = Some v"
  by (cases "g_attachable s") (auto simp: orphan_def detach_nth detach_frame detached_by_def)

lemma bus_kept:
  "v_bus (sv ! v) \<Longrightarrow> v_bus (sv[w := (sv ! w)\<lparr>v_serving := b\<rparr>] ! v)"
  "v_bus (sv ! v) \<Longrightarrow> v_bus (sv[w := (sv ! w)\<lparr>v_keepPendingInput := b\<rparr>] ! v)"
  "v_bus (sv ! v) \<Longrightarrow> v_bus (sv[w := (sv ! w)\<lparr>v_bus := True\<rparr>] ! v)"
  for sv :: "server list"
  by (cases "w < length sv"; cases "w = v"; simp add: list_update_beyond)+

lemma orphan_activate:
  assumes o: "orphan x v s" and w: "w \<noteq> v"
  shows "orphan x v (fst (activateServer w name s))"
proof -
  have d: "orphan x v (detachAllSessions (g_active s) s1)"
    if "g_sessions s1 = g_sessions s" "g_map s1 = g_map s" "g_servers s1 = g_servers s" "g_active s1 = Some w" for s1
  proof -
    have o1: "orphan x v s1" using o that w by (simp add: orphan_def)
    have "g_active s \<noteq> Some v" using o by (simp add: orphan_def)
    from orphan_detach [OF o1 this] o1 show ?thesis by (simp add: orphan_def detach_frame)
  qed
  have serve: "orphan x v (t\<lparr>g_servers := (g_servers t)[w := (g_servers t ! w)\<lparr>v_serving := True\<rparr>]\<rparr>)" if "orphan x v t" for t
    using that bus_kept(1) by (simp add: orphan_def)
  have sent: "orphan x v (t\<lparr>g_sent := m\<rparr>)" if "orphan x v t" for t m using that by (simp add: orphan_def)
  have act: "orphan x v (s\<lparr>g_active := Some w\<rparr>)" using o w by (simp add: orphan_def)
  show ?thesis
    using o d serve [OF d] serve [OF sent [OF d]] serve [OF act]
    by (cases "g_active s") (simp_all add: activateServer_def Let_def)
qed

lemma orphan_sent: "orphan x v s \<Longrightarrow> orphan x v (s\<lparr>g_sent := m\<rparr>)"
  by (simp add: orphan_def)

lemma orphan_close: "orphan x v s \<Longrightarrow> orphan x v (session_Close y s)"
  using orphan_upd [of x v s y "\<lambda>se. se\<lparr>s_closed := True, s_io := close_io (s_io se), s_err := close_io (s_err se)\<rparr>"]
  by (auto simp: session_Close_def Let_def orphan_def)

lemma orphan_exec:
  assumes o: "orphan x v s" and e: "sess_exec a s = Some s'"
  shows "orphan x v s'"
proof (cases a)
  case SaServer
  with o e show ?thesis by (auto simp: sess_exec_def orphan_def nth_append)
next
  case (SaBus w name respErr)
  show ?thesis
  proof (cases "v_bus (g_servers s ! w)")
    case True
    with o e SaBus show ?thesis by (auto simp: sess_exec_def initBusAndServer_def split: if_splits)
  next
    case False
    then have "w \<noteq> v" using o by (auto simp: orphan_def)
    obtain s1 r where a: "activateServer w name s = (s1, r)" by (metis surj_pair)
    have o1: "orphan x v s1" using orphan_activate [OF o \<open>w \<noteq> v\<close>, of name] a by simp
    then have "orphan x v (s1\<lparr>g_servers := (g_servers s1)[w := (g_servers s1 ! w)\<lparr>v_bus := True\<rparr>]\<rparr>)"
      using bus_kept(3) by (simp add: orphan_def)
    with o1 e SaBus False a show ?thesis
      by (cases r; cases respErr) (auto simp: sess_exec_def initBusAndServer_def split: if_splits)
  qed
next
  case (SaStart mw w msg)
  have "orphan x v (fst (newSessionContext mw w msg s))"
    using o by (auto simp: newSessionContext_def Let_def orphan_def nth_append)
  with e SaStart show ?thesis by (auto simp: sess_exec_def split: if_splits)
next
  case (SaPty y)
  with o e orphan_upd [OF o, of y StartPty] show ?thesis
    by (auto simp: sess_exec_def orphan_def StartPty_def split: if_splits)
next
  case (SaForward y stderr)
  have "orphan x v (upd_sess y (\<lambda>se. forwardIO (g_attachable s) (s_creator se) stderr se) s)"
    using o by (intro orphan_upd) (simp_all add: orphan_def forwardIO_def Let_def)
  with e SaForward show ?thesis by (auto simp: sess_exec_def split: if_splits)
next
  case (SaAttach ackErr resizeErr w msg y)
  have "orphan x v (fst (attach_locked ackErr resizeErr w msg y s))"
  proof (cases "y = x")
    case True
    with o show ?thesis by (auto simp: attach_locked_def Let_def orphan_def)
  next
    case False
    with o orphan_upd [OF o, of y "attach_to resizeErr w msg"] show ?thesis
      by (cases ackErr) (simp_all add: attach_locked_def Let_def)
  qed
  with e SaAttach show ?thesis by (auto simp: sess_exec_def split: if_splits)
next
  case (SaWait y)
  have "orphan x v (s\<lparr>g_cancelled := c\<rparr>)" for c using o by (simp add: orphan_def)
  with o have "orphan x v (upd_sess y (\<lambda>se. se\<lparr>s_wait := w\<rparr>) (case z of None \<Rightarrow> s | Some ch \<Rightarrow> s\<lparr>g_cancelled := ch # g_cancelled s\<rparr>))" for w z
    by (intro orphan_upd) (auto simp: orphan_def split: option.splits)
  then have "orphan x v (cancellableWait y s)" by (simp add: cancellableWait_def Let_def orphan_def)
  with e SaWait show ?thesis by (auto simp: sess_exec_def split: if_splits)
next
  case (SaResize err w i cols rows redraw marker)
  have "orphan x v (fst (handleResizeEvent err w i cols rows redraw marker s))"
  proof (cases "getSessionByID i s")
    case (Some y)
    obtain se r where se: "SetSize err cols rows redraw False marker (g_sessions s ! y) = (se, r)" by (metis surj_pair)
    have "orphan x v (upd_sess y (\<lambda>_. se) s)"
      by (rule orphan_upd [OF o]) (use o SetSize_keeps [OF se] in \<open>auto simp: orphan_def\<close>)
    with o Some se show ?thesis by (simp add: handleResizeEvent_def)
  qed (use o in \<open>simp add: handleResizeEvent_def\<close>)
  with e SaResize show ?thesis by (auto simp: sess_exec_def)
next
  case (SaDetach w)
  have "orphan x v (detachAllSessions (Some w) s)" if "g_active s = Some w"
    using o orphan_detach [OF o, of "Some w"] that by (auto simp: orphan_def detach_frame)
  then have "orphan x v (handleDetachEvent w s)" using o orphan_sent by (simp add: handleDetachEvent_def Let_def)
  with e SaDetach show ?thesis by (auto simp: sess_exec_def split: if_splits)
next
  case (SaClose y)
  with e orphan_close [OF o] show ?thesis by (auto simp: sess_exec_def split: if_splits)
next
  case SaExit
  have "orphan x v (fold session_Close ys s)" for ys
    using o by (induction ys arbitrary: s) (simp_all add: orphan_close)
  then have "orphan x v (handleCloseEvent s)" by (simp add: handleCloseEvent_def closeAllSessions_def orphan_def)
  with e SaExit show ?thesis by (auto simp: sess_exec_def)
next
  case (SaDiscard w)
  have "orphan x v (enablePendingInputDiscard w s)"
    using o by (auto simp: enablePendingInputDiscard_def Let_def orphan_def store_marker_def)
  with e SaDiscard show ?thesis by (auto simp: sess_exec_def split: if_splits)
next
  case (SaSetting w keep)
  have "orphan x v (handleSettingEvent w keep s)"
    using o bus_kept(2) by (cases keep) (simp_all add: handleSettingEvent_def orphan_def)
  with e SaSetting show ?thesis by (auto simp: sess_exec_def split: if_splits)
next
  case (SaInput y buf err)
  have "orphan x v (upd_sess y (\<lambda>se. se\<lparr>s_in := forwardInput buf err (s_in se)\<rparr>) s)"
    by (rule orphan_upd [OF o]) (use o in \<open>simp add: forwardInput_keeps orphan_def\<close>)
  with e SaInput show ?thesis by (auto simp: sess_exec_def split: if_splits)
qed

interpretation orphans: machine sess_exec "orphan x v" for x v
  by unfold_locales (rule orphan_exec)

section \<open>Properties\<close>

text \<open>
  C3. A running session serves one client, the active one: after any sequence of connections,
  activations, attaches, detaches, resizes, discards and closes, an open session is detached or owned
  by a server that has been activated, and that server is the active one unless the session was
  started by a client that had already been replaced; that can only happen in attachable mode. The
  checker that decides whether output is cached is always the owner's, a detached session has no
  pending discard, and no cancel channel is closed twice.
\<close>

theorem sessions_follow_active_client:
  assumes "run_acts sess_exec acts (sess_init attachable kcp socket) = Some s" "x < length (g_sessions s)" "g_sessions s ! x = se"
  shows "s_checker se = owner se \<and> (owner se = None \<longrightarrow> i_marker (s_in se) = None)
    \<and> (\<forall>v. owner se = Some v \<and> \<not> s_closed se \<longrightarrow>
         v_serving (g_servers s ! v) \<and> (g_active s = Some v \<or> s_late se \<and> g_attachable s))
    \<and> distinct (g_cancelled s)"
proof -
  have inv: "sess_inv s" using sessions.run_inv [OF sess_init_inv assms(1)] .
  have "session_ok (g_attachable s) (g_active s) (g_servers s) se" using session_ok_at [OF inv assms(2)] assms(3) by simp
  moreover have "distinct (g_cancelled s)" using inv by (simp add: sess_inv_def all_chans_def)
  ultimately show ?thesis unfolding session_ok_def by blast
qed

definition demo_msg :: startMessage where
  "demo_msg = \<lparr>m_id = 1, m_pty = True, m_cols = 80, m_rows = 24\<rparr>"

definition handover_acts :: "sess_act list" where
  "handover_acts =
     [SaServer, SaBus 0 ''first'' None, SaStart False 0 demo_msg, SaPty 0, SaForward 0 False, SaWait 0, SaDiscard 0,
      SaServer, SaBus 1 ''second'' None, SaAttach None None 1 demo_msg 0, SaWait 0]"

theorem sessions_follow_active_client_witness:
  "\<exists>s. run_acts sess_exec handover_acts (sess_init True True None) = Some s
     \<and> owner (g_sessions s ! 0) = Some 1 \<and> g_active s = Some 1 \<and> distinct (g_cancelled s) \<and> g_cancelled s \<noteq> []"
proof -
  have "case run_acts sess_exec handover_acts (sess_init True True None) of None \<Rightarrow> False
      | Some s \<Rightarrow> length (g_sessions s) = 1 \<and> owner (g_sessions s ! 0) = Some 1 \<and> \<not> s_closed (g_sessions s ! 0)
          \<and> \<not> s_late (g_sessions s ! 0) \<and> g_cancelled s \<noteq> []" by code_simp
  then obtain s where s: "run_acts sess_exec handover_acts (sess_init True True None) = Some s"
      "length (g_sessions s) = 1" "owner (g_sessions s ! 0) = Some 1" "\<not> s_closed (g_sessions s ! 0)"
      "\<not> s_late (g_sessions s ! 0)" "g_cancelled s \<noteq> []"
    by (auto split: option.splits)
  from s(2) have "0 < length (g_sessions s)" by simp
  from sessions_follow_active_client [OF s(1) this refl] s show ?thesis by blast
qed

text \<open>
  C15. The table of sessions is well formed: after any sequence of operations, an entry of the table is a session with
  that number that is not closed, every session that is not closed is in the table under its number (so no two open
  sessions share a number), and the active server and the owner of every session are servers that exist and were
  activated.
\<close>

theorem session_table_well_formed:
  assumes "run_acts sess_exec acts (sess_init attachable kcp socket) = Some s"
  shows "(\<forall>i x. getSessionByID i s = Some x \<longrightarrow> x < length (g_sessions s) \<and> s_id (g_sessions s ! x) = i \<and> \<not> s_closed (g_sessions s ! x))
    \<and> (\<forall>x < length (g_sessions s). \<not> s_closed (g_sessions s ! x) \<longrightarrow> getSessionByID (s_id (g_sessions s ! x)) s = Some x)
    \<and> (\<forall>v. g_active s = Some v \<or> (\<exists>x < length (g_sessions s). owner (g_sessions s ! x) = Some v) \<longrightarrow>
         v < length (g_servers s) \<and> v_serving (g_servers s ! v))"
proof -
  have inv: "sess_inv s" using sessions.run_inv [OF sess_init_inv assms] .
  have "v < length (g_servers s) \<and> v_serving (g_servers s ! v)" if "x < length (g_sessions s)" "owner (g_sessions s ! x) = Some v" for x v
    using session_ok_at [OF inv that(1)] that(2) unfolding session_ok_def by blast
  with inv show ?thesis unfolding sess_inv_def servers_ok_def map_ok_def getSessionByID_def by blast
qed

theorem session_table_well_formed_witness:
  "\<exists>s. run_acts sess_exec handover_acts (sess_init True True None) = Some s \<and> getSessionByID 1 s = Some 0
     \<and> s_id (g_sessions s ! 0) = 1 \<and> \<not> s_closed (g_sessions s ! 0)"
proof -
  have "case run_acts sess_exec handover_acts (sess_init True True None) of None \<Rightarrow> False | Some s \<Rightarrow> getSessionByID 1 s = Some 0" by code_simp
  then obtain s where s: "run_acts sess_exec handover_acts (sess_init True True None) = Some s" "getSessionByID 1 s = Some 0"
    by (auto split: option.splits)
  from session_table_well_formed [OF s(1), THEN conjunct1, rule_format, OF s(2)] s show ?thesis by blast
qed

text \<open>
  C36. A session can be lost to every client: a handler that was admitted while its client was the
  active one may create its session after another client has taken over. The session then belongs to
  the replaced server, and whatever happens afterwards nobody can attach to it for as long as it
  lives: activation only detaches the sessions of the server it replaces, and attaching refuses a
  session that has an owner.
\<close>

theorem late_session_unattachable:
  assumes "x < length (g_sessions s)" "owner (g_sessions s ! x) = Some v" "g_active s \<noteq> Some v"
    and "v < length (g_servers s)" "v_bus (g_servers s ! v)"
    and "run_acts sess_exec acts s = Some s'"
  shows "owner (g_sessions s' ! x) = Some v
    \<and> (\<forall>ackErr resizeErr w msg. snd (attach_locked ackErr resizeErr w msg x s') \<noteq> None)"
proof -
  have "orphan x v s" using assms(1-5) by (simp add: orphan_def)
  from orphans.run_inv [OF this assms(6)] have "owner (g_sessions s' ! x) = Some v" by (simp add: orphan_def)
  then show ?thesis by (simp add: attach_locked_def Let_def)
qed

definition late_acts :: "sess_act list" where
  "late_acts = [SaServer, SaBus 0 ''first'' None, SaServer, SaBus 1 ''second'' None, SaStart False 0 demo_msg]"

theorem late_session_unattachable_witness:
  "\<exists>s s'. run_acts sess_exec late_acts (sess_init True True None) = Some s
     \<and> run_acts sess_exec [SaForward 0 False, SaDetach 1, SaServer, SaBus 2 ''third'' None] s = Some s'
     \<and> snd (attach_locked None None 2 demo_msg 0 s') \<noteq> None"
proof -
  have "case run_acts sess_exec late_acts (sess_init True True None) of None \<Rightarrow> False
      | Some s \<Rightarrow> length (g_sessions s) = 1 \<and> owner (g_sessions s ! 0) = Some 0 \<and> g_active s = Some 1
          \<and> length (g_servers s) = 2 \<and> v_bus (g_servers s ! 0)
          \<and> run_acts sess_exec [SaForward 0 False, SaDetach 1, SaServer, SaBus 2 ''third'' None] s \<noteq> None" by code_simp
  then obtain s s' where s: "run_acts sess_exec late_acts (sess_init True True None) = Some s"
      "length (g_sessions s) = 1" "owner (g_sessions s ! 0) = Some 0" "g_active s = Some 1"
      "length (g_servers s) = 2" "v_bus (g_servers s ! 0)"
      "run_acts sess_exec [SaForward 0 False, SaDetach 1, SaServer, SaBus 2 ''third'' None] s = Some s'"
    by (auto split: option.splits)
  have "0 < length (g_sessions s)" "g_active s \<noteq> Some 0" "0 < length (g_servers s)" using s by simp_all
  from late_session_unattachable [OF this(1) s(3) this(2,3) s(6,7)] s(1,7) show ?thesis by blast
qed

end
