(* ===== verification/Startup.thy ===== *)
theory Startup
  imports Go_Strings
begin

text \<open>
  Starting the daemon: the command line (\<open>main.go\<close>), the wire rate setting, the liveness watchdog,
  the exit hooks, the port ranges and the search for a free port (\<open>service.go\<close>) and the version
  numbers (\<open>comm.go\<close>). The operating system is a parameter: which ports can be bound, what the
  background fork and the server initialisation return, and the random choices.
\<close>

section \<open>Command line\<close>

record tsshdArgs =
  a_Help :: bool
  a_VerShort :: bool
  a_VerDetailed :: bool
  a_KCP :: bool
  a_TCP :: bool
  a_IPv4 :: bool
  a_IPv6 :: bool
  a_Debug :: bool
  a_Attachable :: bool
  a_Socket :: bool
  a_List :: bool
  a_View :: string
  a_Attach :: string
  a_MTU :: u16
  a_Port :: string
  a_ConnectTimeout :: int
  a_KcpWireRate :: nat
  a_kcpWireRateSet :: bool

definition no_args :: tsshdArgs where
  "no_args = \<lparr>a_Help = False, a_VerShort = False, a_VerDetailed = False, a_KCP = False, a_TCP = False,
     a_IPv4 = False, a_IPv6 = False, a_Debug = False, a_Attachable = False, a_Socket = False,
     a_List = False, a_View = [], a_Attach = [], a_MTU = 0, a_Port = [], a_ConnectTimeout = 0,
     a_KcpWireRate = 0, a_kcpWireRateSet = False\<rparr>"

definition second :: int where "second = 1000000000"

definition flag_arg :: "string \<Rightarrow> (tsshdArgs \<Rightarrow> tsshdArgs) option" where
  "flag_arg x =
     (if x = ''-h'' \<or> x = ''--help'' then Some (\<lambda>a. a\<lparr>a_Help := True\<rparr>)
      else if x = ''-v'' \<or> x = ''--version'' then Some (\<lambda>a. a\<lparr>a_VerShort := True\<rparr>)
      else if x = ''-V'' then Some (\<lambda>a. a\<lparr>a_VerDetailed := True\<rparr>)
      else if x = ''--kcp'' then Some (\<lambda>a. a\<lparr>a_KCP := True\<rparr>)
      else if x = ''--tcp'' then Some (\<lambda>a. a\<lparr>a_TCP := True\<rparr>)
      else if x = ''--ipv4'' then Some (\<lambda>a. a\<lparr>a_IPv4 := True\<rparr>)
      else if x = ''--ipv6'' then Some (\<lambda>a. a\<lparr>a_IPv6 := True\<rparr>)
      else if x = ''--debug'' then Some (\<lambda>a. a\<lparr>a_Debug := True\<rparr>)
      else if x = ''--attachable'' then Some (\<lambda>a. a\<lparr>a_Attachable := True\<rparr>)
      else if x = ''--socket'' then Some (\<lambda>a. a\<lparr>a_Socket := True\<rparr>)
      else if x = ''--list'' then Some (\<lambda>a. a\<lparr>a_List := True\<rparr>)
      else None)"

text \<open>The options that take a value; a value that does not parse is skipped.\<close>

definition value_arg :: "string \<Rightarrow> (string \<Rightarrow> tsshdArgs \<Rightarrow> tsshdArgs) option" where
  "value_arg x =
     (if x = ''--view'' then Some (\<lambda>v a. a\<lparr>a_View := v\<rparr>)
      else if x = ''--attach'' then Some (\<lambda>v a. a\<lparr>a_Attach := v\<rparr>)
      else if x = ''--mtu'' then
        Some (\<lambda>v a. case parse_uint 10 16 v of Some n \<Rightarrow> a\<lparr>a_MTU := word_of_nat n\<rparr> | None \<Rightarrow> a)
      else if x = ''--kcp-wire-rate'' then
        Some (\<lambda>v a. case parse_uint 10 64 v of
            Some n \<Rightarrow> a\<lparr>a_KcpWireRate := n, a_kcpWireRateSet := True\<rparr> | None \<Rightarrow> a)
      else if x = ''--port'' then Some (\<lambda>v a. a\<lparr>a_Port := v\<rparr>)
      else if x = ''--connect-timeout'' then
        Some (\<lambda>v a. case parse_uint 10 32 v of Some n \<Rightarrow> a\<lparr>a_ConnectTimeout := int n * second\<rparr> | None \<Rightarrow> a)
      else None)"

fun parse_args :: "string list \<Rightarrow> tsshdArgs \<Rightarrow> tsshdArgs" where
  "parse_args [] a = a"
| "parse_args [x] a = (case flag_arg x of Some f \<Rightarrow> f a | None \<Rightarrow> a)"
| "parse_args (x # v # xs) a =
     (case flag_arg x of
        Some f \<Rightarrow> parse_args (v # xs) (f a)
      | None \<Rightarrow>
          (case value_arg x of
             Some f \<Rightarrow> if has_prefix v ''-'' then parse_args (v # xs) a else parse_args xs (f v a)
           | None \<Rightarrow> parse_args (v # xs) a))"

text \<open>\<open>os.Args\<close> starts with the name of the program.\<close>

definition parseTsshdArgs :: "string list \<Rightarrow> tsshdArgs" where
  "parseTsshdArgs osArgs = parse_args (drop 1 osArgs) no_args"

definition resolveKcpWireRate :: "nat \<Rightarrow> bool \<Rightarrow> string \<Rightarrow> bool \<Rightarrow> nat" where
  "resolveKcpWireRate flagRate flagSet configVal kcp =
     (let rate = (if \<not> flagSet \<and> flagRate = 0 \<and> configVal \<noteq> []
                  then (case parse_uint 10 64 configVal of Some r \<Rightarrow> r | None \<Rightarrow> flagRate) else flagRate)
      in if rate > 0 \<and> \<not> kcp then 0 else rate)"

section \<open>The main function\<close>

datatype bg_result = BgFailed go_error | BgParent "go_error option" | BgChild

definition defaultConnectTimeout :: int where "defaultConnectTimeout = 10 * second"

text \<open>What \<open>RunMain\<close> fills in before the server starts.\<close>

definition serverArgs :: "(string \<Rightarrow> string) \<Rightarrow> tsshdArgs \<Rightarrow> tsshdArgs" where
  "serverArgs conf args =
     (let args1 = (if a_ConnectTimeout args \<le> 0 then args\<lparr>a_ConnectTimeout := defaultConnectTimeout\<rparr> else args)
      in args1\<lparr>a_KcpWireRate := resolveKcpWireRate (a_KcpWireRate args1)
           (a_kcpWireRateSet args1) (conf ''KcpWireRate'') (a_KCP args1)\<rparr>)"

text \<open>
  \<open>RunMain\<close>: \<open>already\<close> is whether it ran before, \<open>opts\<close> what the options return, \<open>listCmd\<close>,
  \<open>viewCmd\<close> and \<open>attachCmd\<close> the three commands, \<open>bg\<close> the fork, \<open>conf\<close> the configuration lookup,
  \<open>initServer\<close> the server initialisation, \<open>exitCode\<close> what arrives on \<open>exitChan\<close>. The second result
  are the arguments the server was started with.
\<close>

definition RunMain ::
  "bool \<Rightarrow> go_error option list \<Rightarrow> string list \<Rightarrow> int \<times> go_error option \<Rightarrow> (string \<Rightarrow> int \<times> go_error option)
   \<Rightarrow> (string \<Rightarrow> int \<times> go_error option) \<Rightarrow> bg_result \<Rightarrow> (string \<Rightarrow> string) \<Rightarrow> (tsshdArgs \<Rightarrow> go_error option) \<Rightarrow> int
   \<Rightarrow> (int \<times> go_error option) \<times> tsshdArgs option" where
  "RunMain already opts osArgs listCmd viewCmd attachCmd bg conf initServer exitCode =
     (if already then ((90, Some (ErrText ''tsshd server already running'')), None)
      else case filter (\<lambda>e. e \<noteq> None) opts of
        Some e # _ \<Rightarrow> ((97, Some (ErrFlat ''apply option failed'' e)), None)
      | _ \<Rightarrow>
         let args = parseTsshdArgs osArgs
         in if a_Help args \<or> a_VerShort args \<or> a_VerDetailed args then ((0, None), None)
            else if a_List args then (listCmd, None)
            else if a_View args \<noteq> [] then (viewCmd (a_View args), None)
            else if a_Attach args \<noteq> [] then (attachCmd (a_Attach args), None)
            else (case bg of
                BgFailed e \<Rightarrow> ((91, Some (ErrFlat ''run in background failed'' e)), None)
              | BgParent (Some e) \<Rightarrow> ((92, Some (ErrFlat ''forward stdout failed'' e)), None)
              | BgParent None \<Rightarrow> ((0, None), None)
              | BgChild \<Rightarrow>
                  (case initServer (serverArgs conf args) of
                     Some e \<Rightarrow> ((93, None), None)
                   | None \<Rightarrow> ((exitCode, None), Some (serverArgs conf args)))))"

record live_server =
  ls_aliveTimeout :: int
  ls_intervalTime :: int
  ls_clientAliveTime :: int

datatype live = LiveSleep int | LiveExit int

text \<open>One round of the watchdog; alive times are in milliseconds, all others in nanoseconds.\<close>

definition monitorServerLiveness :: "int \<Rightarrow> int \<Rightarrow> int \<Rightarrow> live_server option \<Rightarrow> live" where
  "monitorServerLiveness connectTimeout beginTime now server =
     (case server of
        None \<Rightarrow> if now - beginTime > connectTimeout then LiveExit 94 else LiveSleep second
      | Some s \<Rightarrow>
          if ls_aliveTimeout s = 0 then LiveSleep second
          else if now - ls_clientAliveTime s * 1000000 > ls_aliveTimeout s then LiveExit 95
          else LiveSleep (max (ls_intervalTime s) second))"

text \<open>The exit hooks and the order in which \<open>cleanupOnExit\<close> runs them.\<close>

definition addOnExitFunc :: "'f \<Rightarrow> 'f list \<Rightarrow> 'f list" where
  "addOnExitFunc f onExitFuncs = onExitFuncs @ [f]"

definition cleanupOnExit :: "'f list \<Rightarrow> 'f list \<times> 'f list" where
  "cleanupOnExit onExitFuncs = (rev onExitFuncs, [])"

text \<open>\<open>exitChan\<close> holds one code, the first one sent.\<close>

definition exitWithCode :: "int \<Rightarrow> int option \<Rightarrow> int option" where
  "exitWithCode code exitChan = (case exitChan of None \<Rightarrow> Some code | Some c \<Rightarrow> Some c)"

section \<open>Versions\<close>

type_synonym tsshdVersion = "nat \<times> nat \<times> nat"

definition parseTsshdVersion :: "string \<Rightarrow> tsshdVersion result" where
  "parseTsshdVersion ver =
     (if ver = [] then Inr (0, 0, 0)
      else (case split_char (CHR ''.'') ver of
          [a, b, c] \<Rightarrow>
            (case (parse_uint 10 32 a, parse_uint 10 32 b, parse_uint 10 32 c) of
               (None, _, _) \<Rightarrow> Inl (ErrText (''invalid numeric part ['' @ a @ ''] in version ['' @ ver @ '']''))
             | (_, None, _) \<Rightarrow> Inl (ErrText (''invalid numeric part ['' @ b @ ''] in version ['' @ ver @ '']''))
             | (_, _, None) \<Rightarrow> Inl (ErrText (''invalid numeric part ['' @ c @ ''] in version ['' @ ver @ '']''))
             | (Some x, Some y, Some z) \<Rightarrow> Inr (x, y, z))
        | _ \<Rightarrow> Inl (ErrText (''invalid version format ['' @ ver @ '']''))))"

fun compare_parts :: "nat list \<Rightarrow> nat list \<Rightarrow> int" where
  "compare_parts (x # xs) (y # ys) =
     (if x < y then -1 else if x > y then 1 else compare_parts xs ys)"
| "compare_parts _ _ = 0"

definition version_compare :: "tsshdVersion \<Rightarrow> tsshdVersion \<Rightarrow> int" where
  "version_compare v w =
     (case (v, w) of ((a, b, c), (x, y, z)) \<Rightarrow> compare_parts [a, b, c] [x, y, z])"

section \<open>Ports\<close>

definition addPortRange :: "string \<Rightarrow> string option \<Rightarrow> (nat \<times> nat) list \<Rightarrow> (nat \<times> nat) list" where
  "addPortRange lowPort highPort ranges =
     (case parse_uint 10 16 lowPort of
        None \<Rightarrow> ranges
      | Some low \<Rightarrow>
          if low = 0 then ranges
          else (case highPort of
              None \<Rightarrow> ranges @ [(low, low)]
            | Some h \<Rightarrow>
                (case parse_uint 10 16 h of
                   None \<Rightarrow> ranges
                 | Some high \<Rightarrow> if high = 0 \<or> low > high then ranges else ranges @ [(low, high)])))"

text \<open>
  One round of the loop over the tokens of a segment, at index \<open>i\<close>; \<open>k\<close> is the last index used by
  a range. The result are the next index and the new \<open>k\<close> and ranges.
\<close>

definition port_step :: "string list \<Rightarrow> nat \<Rightarrow> int \<Rightarrow> (nat \<times> nat) list \<Rightarrow> nat \<times> int \<times> (nat \<times> nat) list" where
  "port_step tokens i k ranges =
     (let token = tokens ! i
      in if CHR ''-'' \<in> set token \<and> token \<noteq> ''-'' then
           (let parts = split_char (CHR ''-'') token
            in if length parts \<noteq> 2 \<or> parts ! 0 = [] \<or> parts ! 1 = [] then (i + 1, k, ranges)
               else (i + 1, k, addPortRange (parts ! 0) (Some (parts ! 1)) ranges))
         else if token = ''-'' then
           (if i = 0 \<or> i + 1 \<ge> length tokens \<or> int i - 1 \<le> k then (i + 2, k, ranges)
            else (i + 2, int i + 1, addPortRange (tokens ! (i - 1)) (Some (tokens ! (i + 1))) ranges))
         else if i + 1 < length tokens \<and> tokens ! (i + 1) = ''-'' then (i + 1, k, ranges)
         else if i > 0 \<and> tokens ! (i - 1) = ''-'' then (i + 1, k, ranges)
         else (i + 1, k, addPortRange token None ranges))"

lemma port_step_forward: "i < fst (port_step tokens i k ranges)"
  by (simp add: port_step_def Let_def)

function port_tokens :: "string list \<Rightarrow> nat \<Rightarrow> int \<Rightarrow> (nat \<times> nat) list \<Rightarrow> (nat \<times> nat) list" where
  "port_tokens tokens i k ranges =
     (if i \<ge> length tokens then ranges
      else (case port_step tokens i k ranges of (i', k', rs) \<Rightarrow> port_tokens tokens i' k' rs))"
  by pat_completeness auto
termination
proof (relation "measure (\<lambda>(tokens, i, k, ranges). length tokens - i)", goal_cases)
  case (2 tokens i k ranges x y a b)
  then have "i < x" using port_step_forward [of i tokens k ranges] by (metis fst_conv)
  with 2(1) show ?case by (simp flip: 2(2,3))
qed simp

declare port_tokens.simps [simp del]

definition parsePortRanges :: "string \<Rightarrow> (nat \<times> nat) list" where
  "parsePortRanges tsshdPort =
     fold (\<lambda>seg ranges. port_tokens (str_fields seg) 0 (-1) ranges) (split_char (CHR '','') tsshdPort) []"

text \<open>
  Binding one port on every address: on the first failure the connections opened so far are
  closed. The second component of the result are the closed ones.
\<close>

fun listenOnPort :: "('addr \<Rightarrow> nat \<Rightarrow> 'c result) \<Rightarrow> nat \<Rightarrow> 'c list \<Rightarrow> 'addr list \<Rightarrow> 'c list result \<times> 'c list" where
  "listenOnPort listen port connList [] = (Inr connList, [])"
| "listenOnPort listen port connList (a # as) =
     (case listen a port of
        Inl e \<Rightarrow> (Inl e, connList)
      | Inr c \<Rightarrow> listenOnPort listen port (connList @ [c]) as)"

text \<open>The inner loop of \<open>listenOnFreePort\<close>: \<open>n\<close> rounds from \<open>port\<close>, wrapping at the end of the range.\<close>

fun try_ports :: "(nat \<Rightarrow> 'c result) \<Rightarrow> nat \<Rightarrow> nat \<Rightarrow> nat \<Rightarrow> nat \<Rightarrow> go_error option \<Rightarrow> ('c \<times> nat) option \<times> go_error option" where
  "try_ports bind low high 0 port lastErr = (None, lastErr)"
| "try_ports bind low high (Suc n) port lastErr =
     (case bind port of
        Inr conn \<Rightarrow> (Some (conn, port), lastErr)
      | Inl e \<Rightarrow> try_ports bind low high n (if port + 1 > high then low else port + 1) (Some e))"

fun try_ranges :: "(nat \<Rightarrow> 'c result) \<Rightarrow> (nat \<times> nat) list \<Rightarrow> (nat \<times> nat \<Rightarrow> nat) \<Rightarrow> go_error option \<Rightarrow> ('c \<times> nat) option \<times> go_error option" where
  "try_ranges bind [] rnd lastErr = (None, lastErr)"
| "try_ranges bind ((low, high) # rs) rnd lastErr =
     (let sz = high - low + 1
      in (case try_ports bind low high sz (low + rnd (low, high) mod sz) lastErr of
            (Some r, err) \<Rightarrow> (Some r, err)
          | (None, err) \<Rightarrow> try_ranges bind rs rnd err))"

definition kDefaultPortRange :: string where "kDefaultPortRange = ''61001-61999''"

text \<open>\<open>shuffle\<close> is the random order of the ranges, \<open>rnd\<close> the random starting points.\<close>

definition listenOnFreePort ::
  "((nat \<times> nat) list \<Rightarrow> (nat \<times> nat) list) \<Rightarrow> (nat \<times> nat \<Rightarrow> nat) \<Rightarrow> 'addr list result \<Rightarrow> ('addr \<Rightarrow> nat \<Rightarrow> 'c result) \<Rightarrow> string
   \<Rightarrow> ('c list \<times> nat) result" where
  "listenOnFreePort shuffle rnd getUdpAddrs listen port =
     (let tsshdPort = (if port = [] then kDefaultPortRange else port);
          ranges = parsePortRanges tsshdPort
      in if ranges = [] then Inl (ErrText (''no available port in ['' @ tsshdPort @ '']''))
         else (case getUdpAddrs of
             Inl e \<Rightarrow> Inl (ErrFlat ''get available udp address failed'' e)
           | Inr addrs \<Rightarrow>
               (case try_ranges (\<lambda>p. fst (listenOnPort listen p [] addrs))
                       (if length ranges > 1 then shuffle ranges else ranges) rnd None of
                  (Some r, _) \<Rightarrow> Inr r
                | (None, Some e) \<Rightarrow> Inl (ErrFlat (''listen udp on ['' @ tsshdPort @ ''] failed'') e)
                | (None, None) \<Rightarrow> Inl (ErrText (''listen udp on ['' @ tsshdPort @ ''] failed'')))))"

section \<open>Lemmas\<close>

definition range_ok :: "nat \<times> nat \<Rightarrow> bool" where
  "range_ok r \<longleftrightarrow> 1 \<le> fst r \<and> fst r \<le> snd r \<and> snd r \<le> 65535"

lemma parse_port: "parse_uint 10 16 s = Some v \<Longrightarrow> v \<le> 65535"
  using parse_uint_bound [of 10 16 s v] by simp

lemma addPortRange_ok: "list_all range_ok ranges \<Longrightarrow> list_all range_ok (addPortRange l h ranges)"
  by (auto simp: addPortRange_def range_ok_def split: option.split dest!: parse_port)

lemma port_step_ok: "list_all range_ok ranges \<Longrightarrow> list_all range_ok (snd (snd (port_step tokens i k ranges)))"
  by (simp add: port_step_def Let_def addPortRange_ok)

lemma port_tokens_ok: "list_all range_ok ranges \<Longrightarrow> list_all range_ok (port_tokens tokens i k ranges)"
proof (induction tokens i k ranges rule: port_tokens.induct)
  case (1 tokens i k ranges)
  obtain i' k' rs where step: "port_step tokens i k ranges = (i', k', rs)"
    using prod_cases3 by blast
  with port_step_ok [OF "1.prems", of tokens i k] have "list_all range_ok rs" by simp
  with "1.IH" [OF _ step [symmetric] refl] "1.prems" show ?case
    by (simp add: port_tokens.simps [of tokens i k ranges] step)
qed

lemma parsePortRanges_ok: "list_all range_ok (parsePortRanges s)"
proof -
  have "list_all range_ok rs \<Longrightarrow>
      list_all range_ok (fold (\<lambda>seg ranges. port_tokens (str_fields seg) 0 (-1) ranges) segs rs)" for segs rs
    by (induction segs arbitrary: rs) (simp_all add: port_tokens_ok)
  then show ?thesis by (simp add: parsePortRanges_def)
qed

text \<open>The ports one range visits: every port of the range, from the random start.\<close>

lemma wrap_step:
  assumes "low \<le> (port :: nat)" "port \<le> high"
  shows "(if port + 1 > high then low else port + 1) = low + (port - low + 1) mod (high - low + 1)"
  using assms by (cases "port = high") auto

lemma try_ports_visits:
  assumes "low \<le> high" "low \<le> port" "port \<le> high"
  shows "(\<forall>c p. fst (try_ports bind low high n port e) = Some (c, p) \<longrightarrow> low \<le> p \<and> p \<le> high \<and> bind p = Inr c)
    \<and> (fst (try_ports bind low high n port e) = None
        \<longleftrightarrow> (\<forall>j < n. isl (bind (low + (port - low + j) mod (high - low + 1)))))"
  using assms
proof (induction n arbitrary: port e)
  case (Suc n)
  let ?sz = "high - low + 1" and ?next = "if port + 1 > high then low else port + 1"
  have port: "low + (port - low) mod ?sz = port" using Suc.prems by simp
  show ?case
  proof (cases "bind port")
    case (Inr c)
    with port Suc.prems show ?thesis by (auto intro: exI [of _ 0])
  next
    case (Inl err)
    have nxt: "low \<le> ?next" "?next \<le> high" using Suc.prems by auto
    have "?next - low = (port - low + 1) mod ?sz"
      using wrap_step [OF Suc.prems(2,3)] by simp
    then have "(?next - low + j) mod ?sz = (port - low + 1 + j) mod ?sz" for j
      by (simp only: mod_add_left_eq)
    then have "low + (?next - low + j) mod ?sz = low + (port - low + Suc j) mod ?sz" for j
      by (simp only: add.assoc plus_1_eq_Suc)
    then have shift: "(\<forall>j < n. isl (bind (low + (?next - low + j) mod ?sz)))
        \<longleftrightarrow> (\<forall>j < n. isl (bind (low + (port - low + Suc j) mod ?sz)))"
      by (simp only:)
    have first: "isl (bind (low + (port - low + 0) mod ?sz))" using port Inl by simp
    have step: "fst (try_ports bind low high (Suc n) port e) = fst (try_ports bind low high n ?next (Some err))"
      using Inl by simp
    show ?thesis
      unfolding step All_less_Suc2
      using Suc.IH [OF Suc.prems(1) nxt, of "Some err"] shift first by blast
  qed
qed simp

lemma range_covered:
  assumes "low \<le> high" "low \<le> p" "p \<le> (high :: nat)"
  shows "\<exists>j < high - low + 1. low + (d + j) mod (high - low + 1) = p"
proof -
  let ?sz = "high - low + 1"
  let ?j = "(p - low + (?sz - d mod ?sz)) mod ?sz"
  have "(d + ?j) mod ?sz = (d mod ?sz + (p - low + (?sz - d mod ?sz))) mod ?sz"
    by (simp only: mod_simps)
  also have "d mod ?sz + (p - low + (?sz - d mod ?sz)) = p - low + ?sz"
    using mod_less_divisor [of ?sz d] by linarith
  also have "(p - low + ?sz) mod ?sz = (p - low) mod ?sz" by (rule mod_add_self2)
  also have "\<dots> = p - low" using assms by simp
  finally show ?thesis using assms by (intro exI [of _ ?j]) auto
qed

lemma try_ports_range:
  assumes "low \<le> high" "port = low + d mod (high - low + 1)"
  shows "fst (try_ports bind low high (high - low + 1) port e) = None \<longleftrightarrow> (\<forall>p. low \<le> p \<and> p \<le> high \<longrightarrow> isl (bind p))"
    and "fst (try_ports bind low high (high - low + 1) port e) = Some (c, q) \<Longrightarrow> low \<le> q \<and> q \<le> high \<and> bind q = Inr c"
proof -
  have port: "low \<le> port" "port \<le> high"
    using assms mod_less_divisor [of "high - low + 1" d] by linarith+
  note v = try_ports_visits [OF assms(1) port, of bind "high - low + 1" e]
  show "fst (try_ports bind low high (high - low + 1) port e) = None \<longleftrightarrow> (\<forall>p. low \<le> p \<and> p \<le> high \<longrightarrow> isl (bind p))"
  proof
    assume "fst (try_ports bind low high (high - low + 1) port e) = None"
    with v have all: "\<forall>j < high - low + 1. isl (bind (low + (port - low + j) mod (high - low + 1)))"
      by blast
    show "\<forall>p. low \<le> p \<and> p \<le> high \<longrightarrow> isl (bind p)"
    proof (intro allI impI)
      fix p assume "low \<le> p \<and> p \<le> high"
      then obtain j where "j < high - low + 1" "low + (port - low + j) mod (high - low + 1) = p"
        using range_covered [OF assms(1), of p "port - low"] by blast
      with all show "isl (bind p)" by blast
    qed
  next
    assume all: "\<forall>p. low \<le> p \<and> p \<le> high \<longrightarrow> isl (bind p)"
    have "low + x mod (high - low + 1) \<le> high" for x
      using mod_less_divisor [of "high - low + 1" x] assms(1) by linarith
    then have "\<forall>j < high - low + 1. isl (bind (low + (port - low + j) mod (high - low + 1)))"
      using all by simp
    with v show "fst (try_ports bind low high (high - low + 1) port e) = None" by blast
  qed
  show "fst (try_ports bind low high (high - low + 1) port e) = Some (c, q) \<Longrightarrow> low \<le> q \<and> q \<le> high \<and> bind q = Inr c"
    using v by blast
qed

definition in_ranges :: "nat \<Rightarrow> (nat \<times> nat) list \<Rightarrow> bool" where
  "in_ranges p rs \<longleftrightarrow> list_ex (\<lambda>(low, high). low \<le> p \<and> p \<le> high) rs"

lemma try_ranges_spec:
  assumes "list_all range_ok rs"
  shows "(\<forall>c p. fst (try_ranges bind rs rnd e) = Some (c, p) \<longrightarrow> in_ranges p rs \<and> bind p = Inr c)
    \<and> (fst (try_ranges bind rs rnd e) = None \<longrightarrow> (\<forall>p. in_ranges p rs \<longrightarrow> isl (bind p)))"
  using assms
proof (induction rs arbitrary: e)
  case (Cons r rs)
  obtain low high where r: "r = (low, high)" by fastforce
  have lh: "low \<le> high" using Cons.prems by (simp add: r range_ok_def)
  obtain x err where x: "try_ports bind low high (high - low + 1) (low + rnd (low, high) mod (high - low + 1)) e = (x, err)"
    by fastforce
  note t = try_ports_range [OF lh refl, of bind "rnd (low, high)" e]
  show ?case
  proof (cases x)
    case None
    with x t(1) have "\<forall>p. low \<le> p \<and> p \<le> high \<longrightarrow> isl (bind p)" by simp
    then have head: "in_ranges p (r # rs) \<longleftrightarrow> low \<le> p \<and> p \<le> high \<or> in_ranges p rs" for p
      by (simp add: in_ranges_def r)
    have "try_ranges bind (r # rs) rnd e = try_ranges bind rs rnd err"
      unfolding r try_ranges.simps Let_def x None by simp
    with Cons.IH [of err] Cons.prems \<open>\<forall>p. low \<le> p \<and> p \<le> high \<longrightarrow> isl (bind p)\<close> show ?thesis
      unfolding head by simp
  next
    case (Some cp)
    obtain c p where cp: "cp = (c, p)" by fastforce
    have step: "try_ranges bind (r # rs) rnd e = (Some (c, p), err)"
      unfolding r try_ranges.simps Let_def x Some cp by simp
    from t(2) [of c p] have "low \<le> p \<and> p \<le> high \<and> bind p = Inr c" unfolding x Some cp by simp
    then show ?thesis unfolding step by (simp add: r in_ranges_def)
  qed
qed (simp add: in_ranges_def)

lemma listenOnPort_open:
  "fst (listenOnPort listen port opened addrs) = Inr conns \<Longrightarrow>
   conns = opened @ map (\<lambda>a. projr (listen a port)) addrs \<and> list_all (\<lambda>a. \<not> isl (listen a port)) addrs"
  by (induction addrs arbitrary: opened) (simp, fastforce split: sum.splits)

lemma listenOnPort_isl:
  "\<not> isl (fst (listenOnPort listen port opened addrs)) \<longleftrightarrow> list_all (\<lambda>a. \<not> isl (listen a port)) addrs"
  by (induction addrs arbitrary: opened) (auto split: sum.splits)

lemma compare_parts_sgn:
  "x1 < 2 ^ 32 \<Longrightarrow> x2 < 2 ^ 32 \<Longrightarrow> x3 < 2 ^ 32 \<Longrightarrow> y1 < 2 ^ 32 \<Longrightarrow> y2 < 2 ^ 32 \<Longrightarrow> y3 < 2 ^ 32 \<Longrightarrow>
   compare_parts [x1, x2, x3] [y1, y2, y3] =
     sgn ((int x1 * 2 ^ 64 + int x2 * 2 ^ 32 + int x3) - (int y1 * 2 ^ 64 + int y2 * 2 ^ 32 + int y3))"
  by (auto simp: sgn_if)

definition version_code :: "tsshdVersion \<Rightarrow> int" where
  "version_code v = (case v of (a, b, c) \<Rightarrow> int a * 2 ^ 64 + int b * 2 ^ 32 + int c)"

definition version_str :: "tsshdVersion \<Rightarrow> string" where
  "version_str v = (case v of (a, b, c) \<Rightarrow> nat_str a @ ''.'' @ nat_str b @ ''.'' @ nat_str c)"

lemma split_char_fresh: "sep \<notin> set s \<Longrightarrow> split_char sep s = [s]"
  by (induction s) auto

lemma split_char_append: "sep \<notin> set s \<Longrightarrow> split_char sep (s @ sep # t) = s # split_char sep t"
  by (induction s) auto

lemma no_dot: "CHR ''.'' \<notin> set (nat_str n)"
proof
  assume "CHR ''.'' \<in> set (nat_str n)"
  from nat_str_digits [OF this] show False by (simp add: digit_val_def)
qed

lemma serverArgs_ok [simp]:
  "a_ConnectTimeout (serverArgs conf a) > 0"
  "a_KcpWireRate (serverArgs conf a) > 0 \<Longrightarrow> a_KCP (serverArgs conf a)"
  "a_Help (serverArgs conf a) = a_Help a" "a_List (serverArgs conf a) = a_List a"
  "a_View (serverArgs conf a) = a_View a" "a_Attach (serverArgs conf a) = a_Attach a"
  by (simp_all add: serverArgs_def resolveKcpWireRate_def defaultConnectTimeout_def second_def Let_def
      split: if_split_asm)

section \<open>Properties\<close>

text \<open>
  Every port range accepted from the command line is usable: whatever the text, the ranges that
  \<open>parsePortRanges\<close> returns have a low end of at least 1, a high end of at most 65535, and are not
  empty.
\<close>

lemma port_ranges_valid:
  "list_all (\<lambda>(low, high). 1 \<le> low \<and> low \<le> high \<and> high \<le> 65535) (parsePortRanges str)"
  using parsePortRanges_ok [of str] unfolding range_ok_def case_prod_unfold .

text \<open>
  The search for a free port is exhaustive: if the shuffle only permutes the ranges, the search
  succeeds exactly when some port of some requested range can be bound on every address, and the
  port it returns is such a port, with one connection per address.
\<close>

lemma free_port_search_complete:
  assumes "port \<noteq> []" "set (shuffle (parsePortRanges port)) = set (parsePortRanges port)"
  shows "((\<exists>conns p. listenOnFreePort shuffle rnd (Inr addrs) listen port = Inr (conns, p))
      \<longleftrightarrow> (\<exists>p. in_ranges p (parsePortRanges port) \<and> list_all (\<lambda>a. \<not> isl (listen a p)) addrs))
    \<and> (\<forall>conns p. listenOnFreePort shuffle rnd (Inr addrs) listen port = Inr (conns, p)
        \<longrightarrow> in_ranges p (parsePortRanges port) \<and> conns = map (\<lambda>a. projr (listen a p)) addrs)"
proof -
  let ?ranges = "parsePortRanges port"
  let ?bind = "\<lambda>p. fst (listenOnPort listen p [] addrs)"
  define rs where "rs = (if length ?ranges > 1 then shuffle ?ranges else ?ranges)"
  have set_rs: "set rs = set ?ranges" using assms(2) by (simp add: rs_def)
  then have rs: "list_all range_ok rs" "in_ranges p rs \<longleftrightarrow> in_ranges p ?ranges" for p
    using parsePortRanges_ok [of port] by (simp_all add: list_all_iff in_ranges_def list_ex_iff)
  have bind: "\<not> isl (?bind p) \<longleftrightarrow> list_all (\<lambda>a. \<not> isl (listen a p)) addrs" for p
    by (rule listenOnPort_isl)
  obtain x err where x: "try_ranges ?bind rs rnd None = (x, err)" by fastforce
  note t = try_ranges_spec [OF rs(1), of ?bind rnd None, unfolded x fst_conv rs(2)]
  show ?thesis
  proof (cases "?ranges = []")
    case True
    with assms(1) show ?thesis by (simp add: listenOnFreePort_def Let_def in_ranges_def)
  next
    case False
    with assms(1) have "listenOnFreePort shuffle rnd (Inr addrs) listen port =
        (case try_ranges ?bind rs rnd None of
           (Some r, _) \<Rightarrow> Inr r
         | (None, Some e) \<Rightarrow> Inl (ErrFlat (''listen udp on ['' @ port @ ''] failed'') e)
         | (None, None) \<Rightarrow> Inl (ErrText (''listen udp on ['' @ port @ ''] failed'')))"
      by (simp add: listenOnFreePort_def Let_def rs_def)
    then have step: "listenOnFreePort shuffle rnd (Inr addrs) listen port = Inr (conns, p)
        \<longleftrightarrow> x = Some (conns, p)" for conns p
      unfolding x by (cases x; cases err) simp_all
    show ?thesis
      unfolding step using t bind listenOnPort_open [of listen _ "[]" addrs]
      by (cases x) (fastforce simp: isl_def)+
  qed
qed

lemma free_port_search_complete_witness:
  "\<exists>conns p. listenOnFreePort rev (\<lambda>_. 7) (Inr [0::nat])
      (\<lambda>a p. if p = 6 then Inr (a, p) else Inl ErrEOF) ''9,5-8'' = Inr (conns, p)"
proof -
  define listen :: "nat \<Rightarrow> nat \<Rightarrow> (nat \<times> nat) result" where
    "listen = (\<lambda>a p. if p = 6 then Inr (a, p) else Inl ErrEOF)"
  have ranges: "parsePortRanges ''9,5-8'' = [(9, 9), (5, 8)]" by code_simp
  note c = free_port_search_complete [of "''9,5-8''" rev "\<lambda>_. 7" "[0::nat]" listen, unfolded ranges, simplified]
  have "in_ranges 6 [(9, 9), (5, 8)] \<and> \<not> isl (listen 0 6)"
    by (simp add: in_ranges_def listen_def)
  with c show ?thesis unfolding listen_def by blast
qed

text \<open>
  Versions are ordered as numbers: on versions whose parts fit in 32 bits, \<open>compare\<close> is the sign of
  the difference of the 96 bit numbers made of the three parts, so it is a total order.
\<close>

lemma version_compare_order:
  assumes "parseTsshdVersion s = Inr v" "parseTsshdVersion t = Inr w"
  shows "version_compare v w = sgn (version_code v - version_code w)"
proof -
  have bound: "fst u < 2 ^ 32 \<and> fst (snd u) < 2 ^ 32 \<and> snd (snd u) < 2 ^ 32"
    if "parseTsshdVersion r = Inr u" for r u
    using that
    by (auto simp: parseTsshdVersion_def split: if_splits list.splits option.splits
        dest!: parse_uint_bound)
  obtain a b c x y z where "v = (a, b, c)" "w = (x, y, z)"
    by (metis surj_pair)
  with bound [OF assms(1)] bound [OF assms(2)] compare_parts_sgn [of a b c x y z] show ?thesis
    unfolding version_compare_def version_code_def by (simp only: prod.case fst_conv snd_conv)
qed

lemma version_compare_order_witness:
  "parseTsshdVersion ''0.1.10'' = Inr (0, 1, 10) \<and> version_compare (0, 1, 10) (0, 1, 9) = 1"
proof -
  have "version_compare (0, 1, 10) (0, 1, 9) = sgn (version_code (0, 1, 10) - version_code (0, 1, 9))"
    by (rule version_compare_order [where s = "''0.1.10''" and t = "''0.1.9''"]; code_simp)
  moreover have "parseTsshdVersion ''0.1.10'' = Inr (0, 1, 10)" by code_simp
  ultimately show ?thesis by (simp add: version_code_def)
qed

text \<open>
  Printing and parsing versions are inverse: the dotted decimal form of a version whose parts fit in
  32 bits parses back to it.
\<close>

lemma version_roundtrip:
  assumes "a < 2 ^ 32" "b < 2 ^ 32" "c < 2 ^ 32"
  shows "parseTsshdVersion (version_str (a, b, c)) = Inr (a, b, c)"
  using assms
  by (simp add: parseTsshdVersion_def version_str_def split_char_append split_char_fresh no_dot
      parse_uint_nat_str)

lemma version_roundtrip_witness: "parseTsshdVersion (version_str (0, 1, 8)) = Inr (0, 1, 8)"
  by (rule version_roundtrip) simp_all

text \<open>
  What the server can rely on: whenever \<open>RunMain\<close> hands arguments to a server that starts, the
  connect timeout is positive, a wire rate is set only together with KCP, and neither help, version,
  list, view nor attach was asked for.
\<close>

lemma RunMain_server_args:
  assumes "RunMain already opts osArgs listCmd viewCmd attachCmd bg conf initServer exitCode = (r, Some args)"
  shows "a_ConnectTimeout args > 0 \<and> (a_KcpWireRate args > 0 \<longrightarrow> a_KCP args)
    \<and> \<not> a_Help args \<and> \<not> a_List args \<and> a_View args = [] \<and> a_Attach args = []
    \<and> initServer args = None \<and> r = (exitCode, None)"
proof -
  have "args = serverArgs conf (parseTsshdArgs osArgs) \<and> \<not> a_Help (parseTsshdArgs osArgs)
      \<and> \<not> a_List (parseTsshdArgs osArgs) \<and> a_View (parseTsshdArgs osArgs) = []
      \<and> a_Attach (parseTsshdArgs osArgs) = [] \<and> initServer args = None \<and> r = (exitCode, None)"
    using assms unfolding RunMain_def Let_def
    by (simp split: if_split_asm bg_result.split_asm option.split_asm list.split_asm)
  then show ?thesis
    using serverArgs_ok by metis
qed

lemma RunMain_server_args_witness:
  "a_ConnectTimeout (serverArgs (\<lambda>_. ''500'') (parseTsshdArgs [''tsshd'', ''--kcp''])) > 0"
proof -
  have "RunMain False [] [''tsshd'', ''--kcp''] (0, None) (\<lambda>_. (0, None)) (\<lambda>_. (0, None)) BgChild (\<lambda>_. ''500'')
      (\<lambda>_. None) 0 = ((0, None), Some (serverArgs (\<lambda>_. ''500'') (parseTsshdArgs [''tsshd'', ''--kcp''])))"
    by code_simp
  from RunMain_server_args [OF this] show ?thesis by simp
qed

end
