(* ===== verification/ServerStreams.thy ===== *)
theory ServerStreams
  imports Machine Startup
begin

text \<open>
  The streams of one client's server object (\<open>server.go\<close>, \<open>bus.go\<close>, \<open>session.go\<close>): how a new stream is
  registered, its first command dispatched and its handler run, how it is unregistered, and how the
  server is closed. Every stream has a goroutine of its own; stream \<open>i\<close> is handled by goroutine \<open>i\<close>.
\<close>

section \<open>Handlers\<close>

datatype handler =
    HandleBus | HandleSession | HandleStderr
  | HandleDial | HandleListen | HandleAccept | HandleDialUdp | HandleListenUdp | HandleAcceptUdp

definition baseHandlers :: "string \<Rightarrow> handler option" where
  "baseHandlers = map_of
     [(''bus'', HandleBus), (''session'', HandleSession), (''stderr'', HandleStderr)]"

definition forwardHandlers :: "string \<Rightarrow> handler option" where
  "forwardHandlers = map_of
     [(''dial'', HandleDial), (''listen'', HandleListen), (''accept'', HandleAccept),
      (''dial-udp'', HandleDialUdp), (''listen-udp'', HandleListenUdp), (''accept-udp'', HandleAcceptUdp)]"

text \<open>The checks between the command and its handler.\<close>

definition dispatch :: "bool \<Rightarrow> bool \<Rightarrow> bool \<Rightarrow> string \<Rightarrow> handler result" where
  "dispatch enableForwardings serving active command =
     (if command \<noteq> ''bus'' \<and> \<not> serving then Inl (ErrText ''bus must be initialized first'')
      else if command \<noteq> ''bus'' \<and> \<not> active then Inl (ErrText ''not the active server instance'')
      else (case baseHandlers command of
          Some h \<Rightarrow> Inr h
        | None \<Rightarrow>
            (case forwardHandlers command of
               Some h \<Rightarrow> if enableForwardings then Inr h else Inl (ErrText (''port forwarding is not enabled: '' @ command))
             | None \<Rightarrow> Inl (ErrText (''unknown stream command: '' @ command)))))"

section \<open>The bus handshake\<close>

record busMessage =
  b_protoVer :: int
  b_clientVer :: string

text \<open>What \<open>handleBusEvent\<close> checks before it initialises the bus; \<open>None\<close> if it goes on.\<close>

definition bus_refusal :: "busMessage result \<Rightarrow> go_error option" where
  "bus_refusal recv =
     (case recv of
        Inl e \<Rightarrow> Some (ErrFlat ''recv bus message failed'' e)
      | Inr msg \<Rightarrow>
          if b_protoVer msg = 0 then
            (case parseTsshdVersion (b_clientVer msg) of
               Inl e \<Rightarrow> Some (ErrFlat ''tsshd version invalid'' e)
             | Inr ver \<Rightarrow> if version_compare ver (0, 1, 6) < 0 then Some (ErrText ''please upgrade tssh to continue'') else None)
          else None)"

section \<open>State\<close>

text \<open>
  A goroutine in \<open>handleStream\<close>: started, registered, in its handler, in the deferred function with the
  number of rounds it still has, or returned. \<open>bus\<close> marks the streams that asked for the bus, which are
  taken out of the stream map.
\<close>

datatype thread =
    ThStart
  | ThReg nat
  | ThRun nat handler
  | ThEnd nat bool nat
  | ThEnded bool

text \<open>
  \<open>h_checker\<close> tells whether \<open>clientChecker\<close> has been set, \<open>h_shut\<close> are the closed streams, \<open>h_torndown\<close>
  that \<open>Close\<close> has finished, \<open>h_panic\<close> that the process died of a nil pointer.
\<close>

record srv =
  h_streamMap :: "(nat \<times> nat) list option"
  h_nextStreamID :: nat
  h_checker :: bool
  h_serving :: bool
  h_active :: bool
  h_closed :: bool
  h_torndown :: bool
  h_busStream :: "nat option"
  h_threads :: "thread list"
  h_shut :: "nat list"
  h_panic :: bool

definition set_thread :: "nat \<Rightarrow> thread \<Rightarrow> srv \<Rightarrow> srv" where
  "set_thread i t s = s\<lparr>h_threads := (h_threads s)[i := t]\<rparr>"

definition unregister :: "nat \<Rightarrow> srv \<Rightarrow> srv" where
  "unregister sid s = s\<lparr>h_streamMap := map_option (filter (\<lambda>e. fst e \<noteq> sid)) (h_streamMap s)\<rparr>"

section \<open>Handling a stream\<close>

definition register_stream :: "nat \<Rightarrow> srv \<Rightarrow> srv" where
  "register_stream i s =
     (case h_streamMap s of
        None \<Rightarrow> set_thread i (ThEnded False) (s\<lparr>h_shut := i # h_shut s\<rparr>)
      | Some m \<Rightarrow>
          let sid = Suc (h_nextStreamID s)
          in set_thread i (ThReg sid) (s\<lparr>h_nextStreamID := sid, h_streamMap := Some ((sid, i) # m)\<rparr>))"

text \<open>The first command, the checks and the greeting, which \<open>helloErr\<close> may fail.\<close>

definition stream_command :: "bool \<Rightarrow> nat \<Rightarrow> nat \<Rightarrow> string result \<Rightarrow> go_error option \<Rightarrow> srv \<Rightarrow> srv" where
  "stream_command enableForwardings i sid recv helloErr s =
     (case recv of
        Inl e \<Rightarrow> set_thread i (ThEnd sid False 60) s
      | Inr command \<Rightarrow>
          let bus = (command = ''bus'');
              s1 = (if bus then unregister sid s else s)
          in (case dispatch enableForwardings (h_serving s) (h_active s) command of
                Inl e \<Rightarrow> set_thread i (ThEnd sid bus 60) s1
              | Inr h \<Rightarrow>
                  if helloErr = None then set_thread i (ThRun sid h) s1 else set_thread i (ThEnd sid bus 60) s1))"

text \<open>
  The start of the bus handler up to \<open>initBusAndServer\<close>, whose outcome is \<open>activated\<close> (the activation) and
  \<open>acked\<close> (the response). The checker is set before the activation.
\<close>

definition start_bus :: "nat \<Rightarrow> nat \<Rightarrow> busMessage result \<Rightarrow> bool \<Rightarrow> bool \<Rightarrow> srv \<Rightarrow> srv" where
  "start_bus i sid recv activated acked s =
     (if bus_refusal recv \<noteq> None \<or> h_busStream s \<noteq> None then set_thread i (ThEnd sid True 60) s
      else
        let s1 = s\<lparr>h_checker := True\<rparr>
        in if \<not> activated then set_thread i (ThEnd sid True 60) s1
           else
             let s2 = s1\<lparr>h_serving := True, h_active := True\<rparr>
             in if acked then s2\<lparr>h_busStream := Some i\<rparr> else set_thread i (ThEnd sid True 60) s2)"

text \<open>One round of the deferred function.\<close>

definition end_round :: "nat \<Rightarrow> nat \<Rightarrow> bool \<Rightarrow> nat \<Rightarrow> srv \<Rightarrow> srv" where
  "end_round i sid bus n s =
     (if n = 0 then set_thread i (ThEnded bus) ((unregister sid s)\<lparr>h_shut := i # h_shut s\<rparr>)
      else if \<not> h_checker s then s\<lparr>h_panic := True\<rparr>
      else if h_closed s then set_thread i (ThEnded bus) s
      else set_thread i (ThEnd sid bus (n - 1)) s)"

section \<open>Closing\<close>

definition closeActiveStreams :: "srv \<Rightarrow> srv" where
  "closeActiveStreams s =
     (case h_streamMap s of
        None \<Rightarrow> s
      | Some m \<Rightarrow> s\<lparr>h_streamMap := None, h_shut := map snd m @ h_shut s\<rparr>)"

text \<open>\<open>Close\<close>: the flag and the checker first, then the bus stream and the other streams.\<close>

definition server_Close :: "srv \<Rightarrow> srv" where
  "server_Close s =
     (if h_closed s then s
      else if \<not> h_checker s then s\<lparr>h_closed := True, h_panic := True\<rparr>
      else s\<lparr>h_closed := True\<rparr>)"

definition server_Close_rest :: "srv \<Rightarrow> srv" where
  "server_Close_rest s =
     closeActiveStreams (s\<lparr>h_torndown := True,
       h_shut := (case h_busStream s of None \<Rightarrow> h_shut s | Some i \<Rightarrow> i # h_shut s)\<rparr>)"

text \<open>The goroutine of \<open>newSshUdpServer\<close> after the connect timeout.\<close>

definition connect_timeout :: "srv \<Rightarrow> srv" where
  "connect_timeout s = (if h_serving s then s else server_Close s)"

section \<open>Streams for standard error\<close>

text \<open>\<open>stderrMap\<close> as a map from session numbers to streams; the second result is what gets closed.\<close>

definition newStderrStream :: "u64 \<Rightarrow> nat \<Rightarrow> (u64 \<Rightarrow> nat option) \<Rightarrow> (u64 \<Rightarrow> nat option) result" where
  "newStderrStream i stream m =
     (if m i \<noteq> None then Inl (ErrText ''stderr already set'') else Inr (m(i := Some stream)))"

definition takeStderrStream :: "u64 \<Rightarrow> (u64 \<Rightarrow> nat option) \<Rightarrow> nat option \<times> (u64 \<Rightarrow> nat option)" where
  "takeStderrStream i m = (m i, m(i := None))"

section \<open>The machine\<close>

datatype srv_act =
    StAccept
  | StRegister nat
  | StCommand bool nat "string result" "go_error option"
  | StBus nat "busMessage result" bool bool
  | StReturn nat
  | StRound nat
  | StReplaced
  | StCloseStreams
  | StClose
  | StCloseRest
  | StTimeout

definition srv_exec :: "srv_act \<Rightarrow> srv \<Rightarrow> srv option" where
  "srv_exec a s =
     (if h_panic s then None
      else (case a of
          StAccept \<Rightarrow> Some (s\<lparr>h_threads := h_threads s @ [ThStart]\<rparr>)
        | StRegister i \<Rightarrow>
            if i < length (h_threads s) \<and> h_threads s ! i = ThStart then Some (register_stream i s) else None
        | StCommand enableForwardings i recv helloErr \<Rightarrow>
            if i < length (h_threads s)
            then (case h_threads s ! i of ThReg sid \<Rightarrow> Some (stream_command enableForwardings i sid recv helloErr s) | _ \<Rightarrow> None)
            else None
        | StBus i recv activated acked \<Rightarrow>
            if i < length (h_threads s)
            then (case h_threads s ! i of ThRun sid HandleBus \<Rightarrow> Some (start_bus i sid recv activated acked s) | _ \<Rightarrow> None)
            else None
        | StReturn i \<Rightarrow>
            if i < length (h_threads s)
            then (case h_threads s ! i of
                ThRun sid h \<Rightarrow>
                  if h \<noteq> HandleBus \<or> h_busStream s = Some i then Some (set_thread i (ThEnd sid (h = HandleBus) 60) s) else None
              | _ \<Rightarrow> None)
            else None
        | StRound i \<Rightarrow>
            if i < length (h_threads s)
            then (case h_threads s ! i of ThEnd sid bus n \<Rightarrow> Some (end_round i sid bus n s) | _ \<Rightarrow> None)
            else None
        | StReplaced \<Rightarrow> Some (s\<lparr>h_active := False\<rparr>)
        | StCloseStreams \<Rightarrow> Some (closeActiveStreams s)
        | StClose \<Rightarrow> Some (server_Close s)
        | StCloseRest \<Rightarrow> if h_closed s \<and> h_checker s \<and> \<not> h_torndown s then Some (server_Close_rest s) else None
        | StTimeout \<Rightarrow> Some (connect_timeout s)))"

definition newSshUdpServer :: srv where
  "newSshUdpServer =
     \<lparr>h_streamMap = Some [], h_nextStreamID = 0, h_checker = False, h_serving = False, h_active = False,
      h_closed = False, h_torndown = False, h_busStream = None, h_threads = [], h_shut = [], h_panic = False\<rparr>"

section \<open>The invariant\<close>

text \<open>A registered stream is in the map under its number, or closed.\<close>

definition reg_ok :: "(nat \<times> nat) list option \<Rightarrow> nat list \<Rightarrow> nat \<Rightarrow> nat \<Rightarrow> bool" where
  "reg_ok m shut i sid \<longleftrightarrow> i \<in> set shut \<or> (\<exists>es. m = Some es \<and> (sid, i) \<in> set es)"

fun thread_ok :: "(nat \<times> nat) list option \<Rightarrow> nat list \<Rightarrow> bool \<Rightarrow> nat \<Rightarrow> nat \<Rightarrow> thread \<Rightarrow> bool" where
  "thread_ok m shut closed next i ThStart \<longleftrightarrow> True"
| "thread_ok m shut closed next i (ThReg sid) \<longleftrightarrow> sid \<le> next \<and> reg_ok m shut i sid"
| "thread_ok m shut closed next i (ThRun sid h) \<longleftrightarrow> sid \<le> next \<and> (h \<noteq> HandleBus \<longrightarrow> reg_ok m shut i sid)"
| "thread_ok m shut closed next i (ThEnd sid bus n) \<longleftrightarrow> sid \<le> next \<and> (\<not> bus \<longrightarrow> reg_ok m shut i sid)"
| "thread_ok m shut closed next i (ThEnded bus) \<longleftrightarrow>
     (\<not> bus \<longrightarrow> i \<in> set shut \<or> closed \<and> (\<exists>es sid. m = Some es \<and> (sid, i) \<in> set es))"

fun thread_id :: "thread \<Rightarrow> nat option" where
  "thread_id (ThReg sid) = Some sid"
| "thread_id (ThRun sid h) = Some sid"
| "thread_id (ThEnd sid bus n) = Some sid"
| "thread_id t = None"

text \<open>The numbers in the map were given out, each to the stream it is mapped to.\<close>

definition ids_ok :: "(nat \<times> nat) list option \<Rightarrow> nat \<Rightarrow> thread list \<Rightarrow> bool" where
  "ids_ok m next ths \<longleftrightarrow>
     (\<forall>es sid j. m = Some es \<and> (sid, j) \<in> set es \<longrightarrow>
        sid \<le> next \<and> (\<forall>i < length ths. thread_id (ths ! i) = Some sid \<longrightarrow> i = j))"

definition srv_inv :: "srv \<Rightarrow> bool" where
  "srv_inv s \<longleftrightarrow>
     ids_ok (h_streamMap s) (h_nextStreamID s) (h_threads s) \<and>
     (h_torndown s \<longrightarrow> h_streamMap s = None) \<and>
     (\<forall>i < length (h_threads s).
        thread_ok (h_streamMap s) (h_shut s) (h_closed s) (h_nextStreamID s) i (h_threads s ! i))"

section \<open>Lemmas\<close>

lemma thread_ok_mono:
  assumes "thread_ok m shut closed next i t" "set shut \<subseteq> set shut'" "closed \<longrightarrow> closed'" "next \<le> next'"
    and "\<And>es sid. m = Some es \<Longrightarrow> (sid, i) \<in> set es \<Longrightarrow> i \<in> set shut' \<or> (\<exists>es'. m' = Some es' \<and> (sid, i) \<in> set es')"
  shows "thread_ok m' shut' closed' next' i t"
proof -
  have r: "reg_ok m shut i sid \<Longrightarrow> reg_ok m' shut' i sid" for sid
    using assms(2,5) unfolding reg_ok_def by blast
  show ?thesis
  proof (cases t)
    case (ThEnded bus)
    with assms show ?thesis by simp blast
  qed (use assms r in auto)
qed

text \<open>A step of goroutine \<open>i\<close> that leaves the map alone.\<close>

lemma set_thread_inv:
  assumes inv: "srv_inv s" and t: "thread_ok (h_streamMap s) (h_shut s) (h_closed s) (h_nextStreamID s) i t"
    and tid: "thread_id t = thread_id (h_threads s ! i) \<or> thread_id t = None"
  shows "srv_inv (set_thread i t s)"
proof -
  have "ids_ok (h_streamMap s) (h_nextStreamID s) ((h_threads s)[i := t])"
    unfolding ids_ok_def
  proof (intro allI impI conjI)
    fix es sid j k assume a: "h_streamMap s = Some es \<and> (sid, j) \<in> set es"
    then have old: "sid \<le> h_nextStreamID s" "k < length (h_threads s) \<Longrightarrow> thread_id (h_threads s ! k) = Some sid \<Longrightarrow> k = j"
      using inv unfolding srv_inv_def ids_ok_def by blast+
    show "sid \<le> h_nextStreamID s" using old(1) .
    assume k: "k < length ((h_threads s)[i := t])" "thread_id ((h_threads s)[i := t] ! k) = Some sid"
    then show "k = j" using old(2) tid by (cases "k = i") auto
  qed
  moreover have "thread_ok (h_streamMap s) (h_shut s) (h_closed s) (h_nextStreamID s) k ((h_threads s)[i := t] ! k)"
    if "k < length (h_threads s)" for k
    using inv t that by (cases "k = i") (simp_all add: srv_inv_def)
  ultimately show ?thesis using inv by (simp add: srv_inv_def set_thread_def)
qed

lemma srv_inv_flags:
  assumes "srv_inv s" "h_closed s \<longrightarrow> c"
  shows "srv_inv (s\<lparr>h_checker := a, h_serving := b, h_active := d, h_closed := c, h_busStream := e, h_panic := f\<rparr>)"
proof -
  have "thread_ok (h_streamMap s) (h_shut s) c (h_nextStreamID s) i (h_threads s ! i)" if "i < length (h_threads s)" for i
  proof -
    have "thread_ok (h_streamMap s) (h_shut s) (h_closed s) (h_nextStreamID s) i (h_threads s ! i)"
      using assms(1) that by (simp add: srv_inv_def)
    then show ?thesis by (rule thread_ok_mono) (use assms(2) in auto)
  qed
  with assms show ?thesis by (simp add: srv_inv_def)
qed

text \<open>A goroutine takes its own number out of the map; the stream is a bus stream or closed.\<close>

lemma unregister_ids: "ids_ok m next ths \<Longrightarrow> ids_ok (map_option (filter P) m) next ths"
  by (auto simp: ids_ok_def)

lemma unregister_inv:
  assumes inv: "srv_inv s" and i: "i < length (h_threads s)" "thread_id (h_threads s ! i) = Some sid"
    and shut: "set (h_shut s) \<subseteq> set shut"
    and t: "thread_ok (map_option (filter (\<lambda>e. fst e \<noteq> sid)) (h_streamMap s)) shut (h_closed s) (h_nextStreamID s) i t"
      "thread_id t = Some sid \<or> thread_id t = None"
  shows "srv_inv (set_thread i t ((unregister sid s)\<lparr>h_shut := shut\<rparr>))"
proof -
  define m where "m = map_option (filter (\<lambda>e. fst e \<noteq> sid)) (h_streamMap s)"
  define s1 where "s1 = (unregister sid s)\<lparr>h_shut := shut\<rparr>"
  have s1: "h_streamMap s1 = m" "h_shut s1 = shut" "h_closed s1 = h_closed s" "h_nextStreamID s1 = h_nextStreamID s"
      "h_threads s1 = h_threads s" "h_torndown s1 = h_torndown s"
    by (simp_all add: s1_def unregister_def m_def)
  have "thread_ok m shut (h_closed s) (h_nextStreamID s) j ((h_threads s)[i := t] ! j)" if j: "j < length (h_threads s)" for j
  proof (cases "j = i")
    case True
    with t(1) j show ?thesis by (simp add: m_def)
  next
    case False
    have "thread_ok (h_streamMap s) (h_shut s) (h_closed s) (h_nextStreamID s) j (h_threads s ! j)" using inv j by (simp add: srv_inv_def)
    then have "thread_ok m shut (h_closed s) (h_nextStreamID s) j (h_threads s ! j)"
    proof (rule thread_ok_mono)
      fix es sid' assume e: "h_streamMap s = Some es" "(sid', j) \<in> set es"
      then have "sid' \<noteq> sid" using inv i False unfolding srv_inv_def ids_ok_def by blast
      with e show "j \<in> set shut \<or> (\<exists>es'. m = Some es' \<and> (sid', j) \<in> set es')" by (simp add: m_def)
    qed (use shut in auto)
    with False show ?thesis by simp
  qed
  moreover have "ids_ok m (h_nextStreamID s) ((h_threads s)[i := t])"
    unfolding ids_ok_def
  proof (intro allI impI conjI)
    fix es sid' j k assume a: "m = Some es \<and> (sid', j) \<in> set es"
    then obtain es0 where "h_streamMap s = Some es0" "(sid', j) \<in> set es0" "sid' \<noteq> sid" by (auto simp: m_def)
    with inv have old: "sid' \<le> h_nextStreamID s" "k < length (h_threads s) \<Longrightarrow> thread_id (h_threads s ! k) = Some sid' \<Longrightarrow> k = j"
      unfolding srv_inv_def ids_ok_def by blast+
    show "sid' \<le> h_nextStreamID s" using old(1) .
    assume "k < length ((h_threads s)[i := t])" "thread_id ((h_threads s)[i := t] ! k) = Some sid'"
    then show "k = j" using old(2) t(2) \<open>sid' \<noteq> sid\<close> by (cases "k = i") auto
  qed
  moreover have "h_torndown s \<longrightarrow> m = None" using inv by (simp add: srv_inv_def m_def)
  ultimately have "srv_inv (set_thread i t s1)" by (simp add: srv_inv_def set_thread_def s1)
  then show ?thesis by (simp add: s1_def)
qed

lemma register_stream_inv:
  assumes inv: "srv_inv s" and i: "i < length (h_threads s)" "h_threads s ! i = ThStart"
  shows "srv_inv (register_stream i s)"
proof (cases "h_streamMap s")
  case None
  have "thread_ok (h_streamMap s) (i # h_shut s) (h_closed s) (h_nextStreamID s) j ((h_threads s)[i := ThEnded False] ! j)"
    if "j < length (h_threads s)" for j
  proof (cases "j = i")
    case False
    have "thread_ok (h_streamMap s) (h_shut s) (h_closed s) (h_nextStreamID s) j (h_threads s ! j)" using inv that by (simp add: srv_inv_def)
    then have "thread_ok (h_streamMap s) (i # h_shut s) (h_closed s) (h_nextStreamID s) j (h_threads s ! j)"
      by (rule thread_ok_mono) auto
    with False show ?thesis by simp
  qed (use that in simp)
  with inv None show ?thesis by (simp add: register_stream_def srv_inv_def set_thread_def ids_ok_def)
next
  case (Some m)
  let ?id = "Suc (h_nextStreamID s)"
  have old: "sid \<le> h_nextStreamID s" if "k < length (h_threads s)" "thread_id (h_threads s ! k) = Some sid" for k sid
  proof -
    have "thread_ok (h_streamMap s) (h_shut s) (h_closed s) (h_nextStreamID s) k (h_threads s ! k)" using inv that by (simp add: srv_inv_def)
    with that(2) show ?thesis by (cases "h_threads s ! k") auto
  qed
  have "thread_ok (Some ((?id, i) # m)) (h_shut s) (h_closed s) ?id j ((h_threads s)[i := ThReg ?id] ! j)"
    if "j < length (h_threads s)" for j
  proof (cases "j = i")
    case False
    have "thread_ok (h_streamMap s) (h_shut s) (h_closed s) (h_nextStreamID s) j (h_threads s ! j)" using inv that by (simp add: srv_inv_def)
    then have "thread_ok (Some ((?id, i) # m)) (h_shut s) (h_closed s) ?id j (h_threads s ! j)"
      by (rule thread_ok_mono) (use Some in auto)
    with False show ?thesis by simp
  qed (use that in \<open>simp add: reg_ok_def\<close>)
  moreover have "ids_ok (Some ((?id, i) # m)) ?id ((h_threads s)[i := ThReg ?id])"
    unfolding ids_ok_def
  proof (intro allI impI conjI)
    fix es sid j k assume "Some ((?id, i) # m) = Some es \<and> (sid, j) \<in> set es"
    then have c: "sid = ?id \<and> j = i \<or> (sid, j) \<in> set m" by auto
    have m: "(sid, j) \<in> set m \<Longrightarrow> sid \<le> h_nextStreamID s \<and> (k < length (h_threads s) \<longrightarrow> thread_id (h_threads s ! k) = Some sid \<longrightarrow> k = j)"
      using inv Some unfolding srv_inv_def ids_ok_def by blast
    show "sid \<le> ?id" using c m by auto
    assume k: "k < length ((h_threads s)[i := ThReg ?id])" "thread_id ((h_threads s)[i := ThReg ?id] ! k) = Some sid"
    show "k = j"
    proof (cases "k = i")
      case True
      with k have "sid = ?id" by simp
      with c m True show ?thesis by auto
    next
      case False
      with k have th: "thread_id (h_threads s ! k) = Some sid" "k < length (h_threads s)" by simp_all
      with old have "sid \<noteq> ?id" by fastforce
      with c m th show ?thesis by blast
    qed
  qed
  ultimately show ?thesis using inv Some by (simp add: register_stream_def srv_inv_def set_thread_def)
qed

lemma closeActiveStreams_inv:
  assumes inv: "srv_inv s"
  shows "srv_inv (closeActiveStreams s)" "h_streamMap (closeActiveStreams s) = None"
proof -
  show "h_streamMap (closeActiveStreams s) = None" by (cases "h_streamMap s") (simp_all add: closeActiveStreams_def)
  show "srv_inv (closeActiveStreams s)"
  proof (cases "h_streamMap s")
    case (Some m)
    have "thread_ok None (map snd m @ h_shut s) (h_closed s) (h_nextStreamID s) j (h_threads s ! j)" if "j < length (h_threads s)" for j
    proof -
      have "thread_ok (h_streamMap s) (h_shut s) (h_closed s) (h_nextStreamID s) j (h_threads s ! j)" using inv that by (simp add: srv_inv_def)
      then show ?thesis by (rule thread_ok_mono) (use Some in \<open>force+\<close>)
    qed
    with Some show ?thesis by (simp add: closeActiveStreams_def srv_inv_def ids_ok_def)
  qed (use inv in \<open>simp add: closeActiveStreams_def\<close>)
qed

lemma server_Close_rest_inv:
  assumes inv: "srv_inv s"
  shows "srv_inv (server_Close_rest s)"
proof -
  define shut where "shut = (case h_busStream s of None \<Rightarrow> h_shut s | Some i \<Rightarrow> i # h_shut s)"
  have "thread_ok (h_streamMap s) shut (h_closed s) (h_nextStreamID s) j (h_threads s ! j)" if "j < length (h_threads s)" for j
  proof -
    have "thread_ok (h_streamMap s) (h_shut s) (h_closed s) (h_nextStreamID s) j (h_threads s ! j)" using inv that by (simp add: srv_inv_def)
    then show ?thesis by (rule thread_ok_mono) (auto simp: shut_def split: option.splits)
  qed
  with inv have s1: "srv_inv (s\<lparr>h_shut := shut\<rparr>)" by (simp add: srv_inv_def)
  define s2 where "s2 = closeActiveStreams (s\<lparr>h_shut := shut\<rparr>)"
  have s2: "srv_inv s2" "h_streamMap s2 = None" using closeActiveStreams_inv [OF s1] by (simp_all add: s2_def)
  have "server_Close_rest s = s2\<lparr>h_torndown := True\<rparr>"
    unfolding server_Close_rest_def shut_def [symmetric] s2_def
    by (cases "h_streamMap s") (simp_all add: closeActiveStreams_def)
  with s2 show ?thesis by (simp add: srv_inv_def)
qed

lemma thread_at: "srv_inv s \<Longrightarrow> i < length (h_threads s) \<Longrightarrow>
    thread_ok (h_streamMap s) (h_shut s) (h_closed s) (h_nextStreamID s) i (h_threads s ! i)"
  by (simp add: srv_inv_def)

lemma dispatch_bus:
  "dispatch f serving active command = Inr h \<Longrightarrow> h = HandleBus \<longleftrightarrow> command = ''bus''"
  by (auto simp: dispatch_def baseHandlers_def forwardHandlers_def split: if_splits option.splits)

lemma stream_command_inv:
  assumes inv: "srv_inv s" and i: "i < length (h_threads s)" "h_threads s ! i = ThReg sid"
  shows "srv_inv (stream_command f i sid recv helloErr s)"
proof -
  have r: "sid \<le> h_nextStreamID s" "reg_ok (h_streamMap s) (h_shut s) i sid" using thread_at [OF inv i(1)] i(2) by simp_all
  have move: "srv_inv (set_thread i (ThEnd sid False 60) s)" "srv_inv (set_thread i (ThRun sid h) s)" for h
    by (rule set_thread_inv [OF inv]; use i r in simp)+
  have shut: "(unregister sid s)\<lparr>h_shut := h_shut s\<rparr> = unregister sid s" by (simp add: unregister_def)
  have leave: "srv_inv (set_thread i t (unregister sid s))" if "t = ThEnd sid True 60 \<or> t = ThRun sid HandleBus" for t
    using unregister_inv [OF inv i(1), of sid "h_shut s" t] that i(2) r(1) unfolding shut by auto
  show ?thesis
  proof (cases recv)
    case (Inl e)
    with move show ?thesis by (simp add: stream_command_def)
  next
    case (Inr command)
    show ?thesis
    proof (cases "dispatch f (h_serving s) (h_active s) command")
      case (Inl e)
      with Inr move leave [of "ThEnd sid True 60"] show ?thesis
        by (cases "command = ''bus''") (simp_all add: stream_command_def Let_def)
    next
      case d: (Inr h)
      show ?thesis
      proof (cases "command = ''bus''")
        case True
        with dispatch_bus [OF d] Inr d leave show ?thesis
          by (cases helloErr) (simp_all add: stream_command_def Let_def)
      next
        case False
        with Inr d move show ?thesis by (cases helloErr) (simp_all add: stream_command_def Let_def)
      qed
    qed
  qed
qed

lemma start_bus_inv:
  assumes inv: "srv_inv s" and i: "i < length (h_threads s)" "h_threads s ! i = ThRun sid HandleBus"
  shows "srv_inv (start_bus i sid recv activated acked s)"
proof -
  have r: "sid \<le> h_nextStreamID s" using thread_at [OF inv i(1)] i(2) by simp
  have flags: "srv_inv (s\<lparr>h_checker := c, h_serving := b, h_active := d, h_busStream := e\<rparr>)" for c b d e
    using srv_inv_flags [OF inv, where c = "h_closed s" and a = c and b = b and d = d and e = e and f = "h_panic s"] by simp
  have ended: "srv_inv (set_thread i (ThEnd sid True 60) (s\<lparr>h_checker := c, h_serving := b, h_active := d, h_busStream := e\<rparr>))" for c b d e
    by (rule set_thread_inv [OF flags]) (use i r in simp_all)
  from ended [where c = "h_checker s" and b = "h_serving s" and d = "h_active s" and e = "h_busStream s"]
    ended [where c = True and b = "h_serving s" and d = "h_active s" and e = "h_busStream s"]
    ended [where c = True and b = True and d = True and e = "h_busStream s"]
    flags [where c = True and b = True and d = True and e = "Some i"]
  show ?thesis by (simp add: start_bus_def Let_def)
qed

lemma end_round_inv:
  assumes inv: "srv_inv s" and i: "i < length (h_threads s)" "h_threads s ! i = ThEnd sid bus n"
  shows "srv_inv (end_round i sid bus n s)"
proof -
  have r: "sid \<le> h_nextStreamID s" "\<not> bus \<longrightarrow> reg_ok (h_streamMap s) (h_shut s) i sid" using thread_at [OF inv i(1)] i(2) by simp_all
  have zero: "srv_inv (set_thread i (ThEnded bus) ((unregister sid s)\<lparr>h_shut := i # h_shut s\<rparr>))"
    by (rule unregister_inv [OF inv i(1)]) (use i in auto)
  have panic: "srv_inv (s\<lparr>h_panic := True\<rparr>)"
    using srv_inv_flags [OF inv, where c = "h_closed s" and a = "h_checker s" and b = "h_serving s" and d = "h_active s" and e = "h_busStream s" and f = True] by simp
  have again: "srv_inv (set_thread i (ThEnd sid bus (n - 1)) s)" by (rule set_thread_inv [OF inv]) (use i r in simp_all)
  have "srv_inv (set_thread i (ThEnded bus) s)" if "h_closed s"
    by (rule set_thread_inv [OF inv]) (use i r that in \<open>auto simp: reg_ok_def\<close>)
  with zero panic again show ?thesis by (simp add: end_round_def)
qed

lemma srv_exec_inv:
  assumes inv: "srv_inv s" and e: "srv_exec a s = Some s'"
  shows "srv_inv s'"
proof -
  have flags: "srv_inv (s\<lparr>h_checker := h_checker s, h_serving := h_serving s, h_active := d, h_closed := c, h_busStream := h_busStream s, h_panic := f\<rparr>)"
    if "h_closed s \<longrightarrow> c" for c d f using srv_inv_flags [OF inv that] .
  have close: "srv_inv (server_Close s)" using flags [where c = True and d = "h_active s" and f = True] flags [where c = True and d = "h_active s" and f = "h_panic s"] inv by (simp add: server_Close_def)
  have np: "\<not> h_panic s" using e by (auto simp: srv_exec_def split: if_splits)
  show ?thesis
  proof (cases a)
    case StAccept
    with e np inv show ?thesis by (auto simp: srv_exec_def srv_inv_def ids_ok_def nth_append split: if_splits)
  next
    case (StRegister i)
    with e np register_stream_inv [OF inv] show ?thesis by (auto simp: srv_exec_def split: if_splits)
  next
    case (StCommand f i recv helloErr)
    with e np stream_command_inv [OF inv] show ?thesis by (auto simp: srv_exec_def split: if_splits thread.splits)
  next
    case (StBus i recv activated acked)
    with e np start_bus_inv [OF inv] show ?thesis by (auto simp: srv_exec_def split: if_splits thread.splits handler.splits)
  next
    case (StReturn i)
    then obtain sid h where i: "i < length (h_threads s)" "h_threads s ! i = ThRun sid h"
      and s': "s' = set_thread i (ThEnd sid (h = HandleBus) 60) s"
      using e np by (auto simp: srv_exec_def split: if_splits thread.splits)
    show ?thesis unfolding s' by (rule set_thread_inv [OF inv]) (use thread_at [OF inv i(1)] i(2) in auto)
  next
    case (StRound i)
    with e np end_round_inv [OF inv] show ?thesis by (auto simp: srv_exec_def split: if_splits thread.splits)
  next
    case StReplaced
    have "srv_inv (s\<lparr>h_active := False\<rparr>)" using flags [where c = "h_closed s" and d = False and f = "h_panic s"] by simp
    with e np StReplaced show ?thesis by (auto simp: srv_exec_def)
  next
    case StCloseStreams
    with e np closeActiveStreams_inv [OF inv] show ?thesis by (auto simp: srv_exec_def)
  next
    case StClose
    with e np close show ?thesis by (auto simp: srv_exec_def)
  next
    case StCloseRest
    with e np server_Close_rest_inv [OF inv] show ?thesis by (auto simp: srv_exec_def split: if_splits)
  next
    case StTimeout
    with e np close inv show ?thesis by (auto simp: srv_exec_def connect_timeout_def)
  qed
qed

interpretation srv: machine srv_exec srv_inv
  by unfold_locales (rule srv_exec_inv)

lemma newSshUdpServer_inv: "srv_inv newSshUdpServer"
  by (simp add: srv_inv_def newSshUdpServer_def ids_ok_def)

text \<open>A stream for standard error is handed out once.\<close>

lemma stderr_taken_once:
  "newStderrStream i stream m = Inr m1 \<Longrightarrow> takeStderrStream i m1 = (r, m2) \<Longrightarrow>
     r = Some stream \<and> fst (takeStderrStream i m2) = None \<and> m2 = m"
  by (auto simp: newStderrStream_def takeStderrStream_def split: if_splits)

section \<open>Properties\<close>

text \<open>
  C19. No stream outlives its server: once the server has been closed, every stream whose handler has
  returned is closed, whether its goroutine closed it after the grace period, left it to the server
  because it saw the server closing, or was refused because the server was already shutting down;
  only streams that asked for the bus, which live outside of the map, are exempt.
\<close>

theorem streams_closed_with_server:
  assumes "run_acts srv_exec acts newSshUdpServer = Some s" "h_torndown s"
    and "i < length (h_threads s)" "h_threads s ! i = ThEnded False"
  shows "i \<in> set (h_shut s)"
proof -
  have inv: "srv_inv s" using srv.run_inv [OF newSshUdpServer_inv assms(1)] .
  then have "h_streamMap s = None" using assms(2) by (simp add: srv_inv_def)
  with thread_at [OF inv assms(3)] assms(4) show ?thesis by simp
qed

definition closing_acts :: "srv_act list" where
  "closing_acts =
     [StAccept, StRegister 0, StCommand True 0 (Inr ''bus'') None, StBus 0 (Inr \<lparr>b_protoVer = 2, b_clientVer = []\<rparr>) True True,
      StAccept, StRegister 1, StCommand True 1 (Inr ''dial'') None, StReturn 1, StClose, StRound 1, StCloseRest,
      StAccept, StRegister 2]"

theorem streams_closed_with_server_witness:
  "\<exists>s. run_acts srv_exec closing_acts newSshUdpServer = Some s \<and> {1, 2} \<subseteq> set (h_shut s)"
proof -
  have "case run_acts srv_exec closing_acts newSshUdpServer of None \<Rightarrow> False
      | Some s \<Rightarrow> h_torndown s \<and> length (h_threads s) = 3 \<and> h_threads s ! 1 = ThEnded False \<and> h_threads s ! 2 = ThEnded False"
    by code_simp
  then obtain s where s: "run_acts srv_exec closing_acts newSshUdpServer = Some s" "h_torndown s" "length (h_threads s) = 3"
      "h_threads s ! 1 = ThEnded False" "h_threads s ! 2 = ThEnded False"
    by (auto split: option.splits)
  then have "1 < length (h_threads s)" "2 < length (h_threads s)" by simp_all
  from streams_closed_with_server [OF s(1,2) this(1) s(4)] streams_closed_with_server [OF s(1,2) this(2) s(5)] s(1)
  show ?thesis by auto
qed

text \<open>A schedule whose last step is a nil pointer dereference.\<close>

definition crashes :: "srv_act list \<Rightarrow> srv \<Rightarrow> bool" where
  "crashes acts s = (case run_acts srv_exec acts s of None \<Rightarrow> False | Some s' \<Rightarrow> h_panic s')"

text \<open>
  C37. A client that does not complete the bus handshake takes the whole process down: the client
  checker only exists after the bus was initialised, but the deferred function of every stream, and
  the closing of the server, use it. A first stream with any other command, a bus stream from a client
  that is refused as too old, and a client that opens no stream until the connect timeout all end in
  the dereference of a nil pointer.
\<close>

theorem unready_server_crashes:
  assumes "command \<noteq> ''bus''" "bus_refusal recv \<noteq> None"
  shows "crashes [StAccept, StRegister 0, StCommand fwd 0 (Inr command) helloErr, StRound 0] newSshUdpServer
    \<and> crashes [StAccept, StRegister 0, StCommand fwd 0 (Inr ''bus'') None, StBus 0 recv act ack, StRound 0] newSshUdpServer
    \<and> crashes [StTimeout] newSshUdpServer"
proof (intro conjI)
  show "crashes [StAccept, StRegister 0, StCommand fwd 0 (Inr command) helloErr, StRound 0] newSshUdpServer"
    using assms(1) by (simp add: crashes_def srv_exec_def newSshUdpServer_def register_stream_def stream_command_def
        dispatch_def set_thread_def end_round_def Let_def)
  show "crashes [StAccept, StRegister 0, StCommand fwd 0 (Inr ''bus'') None, StBus 0 recv act ack, StRound 0] newSshUdpServer"
    using assms(2) by (simp add: crashes_def srv_exec_def newSshUdpServer_def register_stream_def stream_command_def
        dispatch_def baseHandlers_def set_thread_def end_round_def unregister_def start_bus_def Let_def)
  show "crashes [StTimeout] newSshUdpServer"
    by (simp add: crashes_def srv_exec_def newSshUdpServer_def connect_timeout_def server_Close_def)
qed

theorem unready_server_crashes_witness:
  "bus_refusal (Inr \<lparr>b_protoVer = 0, b_clientVer = ''0.1.5''\<rparr>) = Some (ErrText ''please upgrade tssh to continue'')
   \<and> crashes [StAccept, StRegister 0, StCommand True 0 (Inr ''session'') None, StRound 0] newSshUdpServer"
proof -
  have b: "bus_refusal (Inr \<lparr>b_protoVer = 0, b_clientVer = ''0.1.5''\<rparr>) = Some (ErrText ''please upgrade tssh to continue'')"
    by code_simp
  from unready_server_crashes [of "''session''" "Inr \<lparr>b_protoVer = 0, b_clientVer = ''0.1.5''\<rparr>" True None] b show ?thesis by simp
qed

end
