(* ===== verification/StreamSwap.thy ===== *)
theory StreamSwap
  imports Machine "HOL-Library.Sublist"
begin

text \<open>
  The streams of an attachable session (\<open>attach.go\<close>): an interruptible stream hands each write to a
  worker so that closing it releases the writer, and a replaceable stream lets the session swap the
  client's stream while its single writer, the output forwarder, keeps writing. The goroutines
  involved (the writer, the worker of every stream, the goroutines that swap and close) interleave at
  their channel operations.
\<close>

section \<open>Interruptible streams\<close>

text \<open>How far \<open>Close\<close> is: not called, called, the flag is set, the channel is closed.\<close>

datatype closing = ClOpen | ClCalled | ClFlagged | ClDone

datatype ist_worker = WkWait | WkHave nat bytes | WkAck nat "go_error option" | WkGone

text \<open>
  \<open>is_sink\<close> is what the wrapped stream accepted, every write with the number of the call of
  \<open>replaceableStream.Write\<close> it belongs to.
\<close>

record interruptibleStream =
  is_closing :: closing
  is_worker :: ist_worker
  is_ack :: "(nat \<times> go_error option) option"
  is_sink :: "(nat \<times> bytes) list"

definition newInterruptibleStream :: interruptibleStream where
  "newInterruptibleStream = \<lparr>is_closing = ClOpen, is_worker = WkWait, is_ack = None, is_sink = []\<rparr>"

definition stream_closed :: go_error where
  "stream_closed = ErrText ''stream closed''"

text \<open>The steps of \<open>Close\<close>: the flag, then the channel.\<close>

definition is_Close :: "interruptibleStream \<Rightarrow> interruptibleStream option" where
  "is_Close st =
     (case is_closing st of
        ClCalled \<Rightarrow> Some (st\<lparr>is_closing := ClFlagged\<rparr>)
      | ClFlagged \<Rightarrow> Some (st\<lparr>is_closing := ClDone\<rparr>)
      | _ \<Rightarrow> None)"

text \<open>
  The worker. The wrapped stream accepts the first \<open>n\<close> bytes and returns \<open>err\<close>; as an
  \<open>io.Writer\<close> it returns an error unless it accepted all of them.
\<close>

definition worker_write :: "nat \<Rightarrow> go_error option \<Rightarrow> interruptibleStream \<Rightarrow> interruptibleStream option" where
  "worker_write n err st =
     (case is_worker st of
        WkHave k buf \<Rightarrow>
          if n \<le> length buf \<and> (err = None \<longrightarrow> n = length buf)
          then Some (st\<lparr>is_worker := WkAck n err, is_sink := is_sink st @ [(k, take n buf)]\<rparr>) else None
      | _ \<Rightarrow> None)"

definition worker_ack :: "interruptibleStream \<Rightarrow> interruptibleStream option" where
  "worker_ack st =
     (case is_worker st of
        WkAck n err \<Rightarrow> if is_ack st = None then Some (st\<lparr>is_worker := WkWait, is_ack := Some (n, err)\<rparr>) else None
      | _ \<Rightarrow> None)"

definition worker_exit :: "interruptibleStream \<Rightarrow> interruptibleStream option" where
  "worker_exit st =
     (if is_worker st = WkWait \<and> is_closing st = ClDone then Some (st\<lparr>is_worker := WkGone\<rparr>) else None)"

section \<open>Replaceable streams\<close>

text \<open>\<open>rs_all\<close> are the interruptible streams made so far, \<open>rs_stream\<close> is the current one.\<close>

record replaceableStream =
  rs_stream :: "nat option"
  rs_closed :: bool
  rs_all :: "interruptibleStream list"

definition upd_stream :: "nat \<Rightarrow> (interruptibleStream \<Rightarrow> interruptibleStream) \<Rightarrow> replaceableStream \<Rightarrow> replaceableStream" where
  "upd_stream i f rs = (if i < length (rs_all rs) then rs\<lparr>rs_all := (rs_all rs)[i := f (rs_all rs ! i)]\<rparr> else rs)"

definition call_close :: "interruptibleStream \<Rightarrow> interruptibleStream" where
  "call_close st = (if is_closing st = ClOpen then st\<lparr>is_closing := ClCalled\<rparr> else st)"

definition close_stream :: "nat option \<Rightarrow> replaceableStream \<Rightarrow> replaceableStream" where
  "close_stream old rs = (case old of None \<Rightarrow> rs | Some i \<Rightarrow> upd_stream i call_close rs)"

definition newReplaceableStream :: replaceableStream where
  "newReplaceableStream = \<lparr>rs_stream = Some 0, rs_closed = False, rs_all = [newInterruptibleStream]\<rparr>"

text \<open>\<open>swap\<close> with a new stream (\<open>True\<close>) or with \<open>nil\<close>.\<close>

definition rs_swap :: "bool \<Rightarrow> replaceableStream \<Rightarrow> replaceableStream" where
  "rs_swap new rs =
     (if rs_closed rs then rs
      else close_stream (rs_stream rs)
        (if new then rs\<lparr>rs_stream := Some (length (rs_all rs)), rs_all := rs_all rs @ [newInterruptibleStream]\<rparr>
         else rs\<lparr>rs_stream := None\<rparr>))"

definition rs_Close :: "replaceableStream \<Rightarrow> go_error option \<times> replaceableStream" where
  "rs_Close rs =
     (if rs_closed rs then (Some ErrEOF, rs)
      else (None, close_stream (rs_stream rs) (rs\<lparr>rs_closed := True, rs_stream := None\<rparr>)))"

text \<open>The start of a round of \<open>do\<close> (\<open>None\<close>: it waits), and whether it goes round again.\<close>

definition do_top :: "replaceableStream \<Rightarrow> (nat result) option" where
  "do_top rs =
     (if rs_closed rs then Some (Inl ErrEOF)
      else case rs_stream rs of None \<Rightarrow> None | Some i \<Rightarrow> Some (Inr i))"

definition do_retry :: "nat \<Rightarrow> go_error option \<Rightarrow> replaceableStream \<Rightarrow> bool" where
  "do_retry cur err rs \<longleftrightarrow> rs_stream rs \<noteq> Some cur \<and> err \<noteq> None"

section \<open>The writer\<close>

text \<open>
  Where the writer is: outside of \<open>Write\<close>, at the top of \<open>do\<close>, in \<open>interruptibleStream.Write\<close> before
  the check of the flag, offering the buffer, waiting for the answer, and back in \<open>do\<close>.
\<close>

datatype wr_pc = PcIdle | PcTop | PcCheck nat | PcOffer nat | PcAck nat | PcDone nat nat "go_error option"

text \<open>
  \<open>y_calls\<close> are the buffers \<open>Write\<close> was called with, \<open>y_n\<close> is its variable \<open>n\<close>, \<open>y_returned\<close> what the
  calls returned, with their numbers.
\<close>

record rs_sys =
  y_rs :: replaceableStream
  y_pc :: wr_pc
  y_calls :: "bytes list"
  y_n :: nat
  y_returned :: "(nat \<times> nat \<times> go_error option) list"

definition cur_call :: "rs_sys \<Rightarrow> nat" where
  "cur_call s = length (y_calls s) - 1"

definition Write_call :: "bytes \<Rightarrow> rs_sys \<Rightarrow> rs_sys option" where
  "Write_call buf s =
     (if y_pc s = PcIdle then Some (s\<lparr>y_pc := PcTop, y_calls := y_calls s @ [buf], y_n := 0\<rparr>) else None)"

definition Write_return :: "go_error option \<Rightarrow> rs_sys \<Rightarrow> rs_sys" where
  "Write_return err s = s\<lparr>y_pc := PcIdle, y_returned := (cur_call s, y_n s, err) # y_returned s\<rparr>"

text \<open>
  One step of the writer. Where its \<open>select\<close> has two cases, \<open>on_close\<close> chooses the one of the closed
  channel.
\<close>

definition Write_step :: "bool \<Rightarrow> rs_sys \<Rightarrow> rs_sys option" where
  "Write_step on_close s =
     (case y_pc s of
        PcIdle \<Rightarrow> None
      | PcTop \<Rightarrow>
          (case do_top (y_rs s) of
             None \<Rightarrow> None
           | Some (Inl e) \<Rightarrow> Some (Write_return (Some e) s)
           | Some (Inr i) \<Rightarrow> Some (s\<lparr>y_pc := PcCheck i\<rparr>))
      | PcCheck i \<Rightarrow>
          (if is_closing (rs_all (y_rs s) ! i) \<in> {ClFlagged, ClDone}
           then Some (s\<lparr>y_pc := PcDone i 0 (Some stream_closed)\<rparr>) else Some (s\<lparr>y_pc := PcOffer i\<rparr>))
      | PcOffer i \<Rightarrow>
          (if on_close
           then if is_closing (rs_all (y_rs s) ! i) = ClDone
                then Some (s\<lparr>y_pc := PcDone i 0 (Some stream_closed)\<rparr>) else None
           else if is_worker (rs_all (y_rs s) ! i) = WkWait
                then Some (s\<lparr>y_pc := PcAck i,
                       y_rs := upd_stream i (\<lambda>st. st\<lparr>is_worker := WkHave (cur_call s) (last (y_calls s))\<rparr>) (y_rs s)\<rparr>)
                else None)
      | PcAck i \<Rightarrow>
          (if on_close
           then if is_closing (rs_all (y_rs s) ! i) = ClDone
                then Some (s\<lparr>y_pc := PcDone i 0 (Some stream_closed)\<rparr>) else None
           else case is_ack (rs_all (y_rs s) ! i) of
                  None \<Rightarrow> None
                | Some (n, err) \<Rightarrow>
                    Some (s\<lparr>y_pc := PcDone i n err, y_rs := upd_stream i (\<lambda>st. st\<lparr>is_ack := None\<rparr>) (y_rs s)\<rparr>))
      | PcDone i n err \<Rightarrow>
          (if do_retry i err (y_rs s) then Some (s\<lparr>y_pc := PcTop, y_n := n\<rparr>)
           else Some (Write_return err (s\<lparr>y_n := n\<rparr>))))"

section \<open>The machine\<close>

datatype rs_act =
    ACall bytes
  | AWriter bool
  | AWork nat nat "go_error option"
  | AWorkAck nat
  | AWorkExit nat
  | AIsClose nat
  | ASwap bool
  | ARsClose

definition on_stream :: "nat \<Rightarrow> (interruptibleStream \<Rightarrow> interruptibleStream option) \<Rightarrow> rs_sys \<Rightarrow> rs_sys option" where
  "on_stream i f s =
     (if i < length (rs_all (y_rs s))
      then case f (rs_all (y_rs s) ! i) of
             None \<Rightarrow> None
           | Some st \<Rightarrow> Some (s\<lparr>y_rs := upd_stream i (\<lambda>_. st) (y_rs s)\<rparr>)
      else None)"

definition rs_exec :: "rs_act \<Rightarrow> rs_sys \<Rightarrow> rs_sys option" where
  "rs_exec a s =
     (case a of
        ACall buf \<Rightarrow> Write_call buf s
      | AWriter on_close \<Rightarrow> Write_step on_close s
      | AWork i n err \<Rightarrow> on_stream i (worker_write n err) s
      | AWorkAck i \<Rightarrow> on_stream i worker_ack s
      | AWorkExit i \<Rightarrow> on_stream i worker_exit s
      | AIsClose i \<Rightarrow> on_stream i is_Close s
      | ASwap new \<Rightarrow> Some (s\<lparr>y_rs := rs_swap new (y_rs s)\<rparr>)
      | ARsClose \<Rightarrow> Some (s\<lparr>y_rs := snd (rs_Close (y_rs s))\<rparr>))"

definition rs_init :: rs_sys where
  "rs_init = \<lparr>y_rs = newReplaceableStream, y_pc = PcIdle, y_calls = [], y_n = 0, y_returned = []\<rparr>"

section \<open>The invariant\<close>

text \<open>What a stream accepted: parts of the buffers, in the order of the calls, none of them twice.\<close>

definition sink_ok :: "bytes list \<Rightarrow> (nat \<times> bytes) list \<Rightarrow> bool" where
  "sink_ok calls sink \<longleftrightarrow>
     sorted_wrt (<) (map fst sink) \<and> (\<forall>e \<in> set sink. fst e < length calls \<and> prefix (snd e) (calls ! fst e))"

definition have_ok :: "bytes list \<Rightarrow> interruptibleStream \<Rightarrow> bool" where
  "have_ok calls st \<longleftrightarrow>
     (\<forall>k buf. is_worker st = WkHave k buf \<longrightarrow>
        k < length calls \<and> buf = calls ! k \<and> (\<forall>e \<in> set (is_sink st). fst e < k))"

definition delivered :: "bytes list \<Rightarrow> nat \<Rightarrow> go_error option \<Rightarrow> interruptibleStream \<Rightarrow> bool" where
  "delivered calls n err st \<longleftrightarrow>
     (err = None \<longrightarrow> n = length (last calls) \<and> (length calls - 1, last calls) \<in> set (is_sink st))"

definition unsent :: "nat \<Rightarrow> interruptibleStream \<Rightarrow> bool" where
  "unsent k st \<longleftrightarrow> (\<forall>e \<in> set (is_sink st). fst e \<noteq> k) \<and> (\<forall>buf. is_worker st \<noteq> WkHave k buf)"

text \<open>A stream the writer waits for, and one it does not wait for.\<close>

inductive wait_ok :: "bytes list \<Rightarrow> interruptibleStream \<Rightarrow> bool" for calls st where
  wait_have: "is_worker st = WkHave (length calls - 1) (last calls) \<Longrightarrow> is_ack st = None \<Longrightarrow> wait_ok calls st"
| wait_wrote: "is_worker st = WkAck n err \<Longrightarrow> is_ack st = None \<Longrightarrow> delivered calls n err st \<Longrightarrow> wait_ok calls st"
| wait_acked: "is_worker st = WkWait \<or> is_worker st = WkGone \<and> is_closing st = ClDone \<Longrightarrow> is_ack st = Some (n, err) \<Longrightarrow> delivered calls n err st \<Longrightarrow> wait_ok calls st"

definition rest_ok :: "interruptibleStream \<Rightarrow> bool" where
  "rest_ok st \<longleftrightarrow> is_worker st = WkWait \<and> is_ack st = None \<or> is_closing st = ClDone"

text \<open>The writer has tried the current call on stream \<open>i\<close>.\<close>

fun tried :: "wr_pc \<Rightarrow> nat \<Rightarrow> bool" where
  "tried (PcAck j) i \<longleftrightarrow> i = j"
| "tried (PcDone j n err) i \<longleftrightarrow> i = j"
| "tried PcIdle i \<longleftrightarrow> True"
| "tried pc i \<longleftrightarrow> False"

definition stream_ok :: "wr_pc \<Rightarrow> nat option \<Rightarrow> bytes list \<Rightarrow> nat \<Rightarrow> interruptibleStream \<Rightarrow> bool" where
  "stream_ok pc cur calls i st \<longleftrightarrow>
     sink_ok calls (is_sink st) \<and> have_ok calls st \<and>
     (if pc = PcAck i then wait_ok calls st else rest_ok st) \<and>
     (cur = Some i \<longrightarrow> is_closing st = ClOpen) \<and>
     (cur = Some i \<and> \<not> tried pc i \<or> pc = PcCheck i \<or> pc = PcOffer i \<longrightarrow> unsent (length calls - 1) st) \<and>
     (pc = PcCheck i \<or> pc = PcOffer i \<longrightarrow> is_ack st = None \<and> is_worker st \<in> {WkWait, WkGone}) \<and>
     (\<forall>n err. pc = PcDone i n err \<longrightarrow> delivered calls n err st)"

fun pc_stream :: "wr_pc \<Rightarrow> nat option" where
  "pc_stream PcIdle = None"
| "pc_stream PcTop = None"
| "pc_stream (PcCheck i) = Some i"
| "pc_stream (PcOffer i) = Some i"
| "pc_stream (PcAck i) = Some i"
| "pc_stream (PcDone i n err) = Some i"

definition returned_ok :: "bytes list \<Rightarrow> interruptibleStream list \<Rightarrow> nat \<times> nat \<times> go_error option \<Rightarrow> bool" where
  "returned_ok calls sts r \<longleftrightarrow>
     (case r of (k, n, err) \<Rightarrow>
        err = None \<longrightarrow> k < length calls \<and> n = length (calls ! k) \<and> (\<exists>st \<in> set sts. (k, calls ! k) \<in> set (is_sink st)))"

definition rs_ok :: "rs_sys \<Rightarrow> bool" where
  "rs_ok s \<longleftrightarrow>
     (y_pc s \<noteq> PcIdle \<longrightarrow> y_calls s \<noteq> []) \<and>
     (\<forall>i. pc_stream (y_pc s) = Some i \<longrightarrow> i < length (rs_all (y_rs s))) \<and>
     (\<forall>i. rs_stream (y_rs s) = Some i \<longrightarrow> i < length (rs_all (y_rs s))) \<and>
     (\<forall>i < length (rs_all (y_rs s)). stream_ok (y_pc s) (rs_stream (y_rs s)) (y_calls s) i (rs_all (y_rs s) ! i)) \<and>
     (\<forall>r \<in> set (y_returned s). returned_ok (y_calls s) (rs_all (y_rs s)) r)"

section \<open>Lemmas\<close>

lemma take_prefix: "prefix (take n xs) xs"
  by (metis append_take_drop_id prefixI)

text \<open>The worker of a stream and \<open>Close\<close> keep the invariant of the stream.\<close>

lemma worker_write_ok:
  assumes ok: "stream_ok pc cur calls i st" and w: "worker_write n err st = Some st'"
  shows "stream_ok pc cur calls i st' \<and> set (is_sink st) \<subseteq> set (is_sink st')"
proof -
  obtain k buf where wk: "is_worker st = WkHave k buf" and n: "n \<le> length buf" "err = None \<longrightarrow> n = length buf"
    and st': "st' = st\<lparr>is_worker := WkAck n err, is_sink := is_sink st @ [(k, take n buf)]\<rparr>"
    using w by (auto simp: worker_write_def split: ist_worker.splits if_splits)
  have h: "k < length calls" "buf = calls ! k" "\<forall>e \<in> set (is_sink st). fst e < k"
    using ok wk by (auto simp: stream_ok_def have_ok_def)
  have sink: "sink_ok calls (is_sink st')"
    using ok h by (auto simp: stream_ok_def sink_ok_def st' sorted_wrt_append take_prefix)
  have have': "have_ok calls st'" by (simp add: have_ok_def st')
  have wait: "wait_ok calls st'" if "wait_ok calls st"
    using that
  proof cases
    case wait_have
    then have "k = length calls - 1" "buf = last calls" using wk by simp_all
    with n wait_have(2) show ?thesis
      by (intro wait_wrote [of _ n err]) (auto simp: st' delivered_def)
  qed (use wk in auto)
  have rest: "rest_ok st'" if "rest_ok st" using that wk by (simp add: rest_ok_def st')
  have un: "unsent c st'" if "unsent c st" for c using that wk by (auto simp: unsent_def st')
  have del: "delivered calls m e st'" if "delivered calls m e st" for m e using that by (auto simp: delivered_def st')
  show ?thesis
  proof (cases "pc = PcAck i")
    case True
    with ok sink have' wait un [of "length calls - 1"] show ?thesis by (auto simp: stream_ok_def st')
  next
    case False
    with ok sink have' rest un [of "length calls - 1"] del wk show ?thesis by (auto simp: stream_ok_def st')
  qed
qed

lemma worker_ack_ok:
  assumes ok: "stream_ok pc cur calls i st" and w: "worker_ack st = Some st'"
  shows "stream_ok pc cur calls i st' \<and> is_sink st' = is_sink st"
proof -
  obtain n err where wk: "is_worker st = WkAck n err" "is_ack st = None"
    and st': "st' = st\<lparr>is_worker := WkWait, is_ack := Some (n, err)\<rparr>"
    using w by (auto simp: worker_ack_def split: ist_worker.splits if_splits)
  have wait: "wait_ok calls st'" if "wait_ok calls st"
    using that
  proof cases
    case (wait_wrote m e)
    with wk show ?thesis by (intro wait_acked [of _ n err]) (auto simp: st' delivered_def)
  qed (use wk in auto)
  have rest: "rest_ok st'" if "rest_ok st" using that wk by (simp add: rest_ok_def st')
  show ?thesis
    using ok wait rest wk(1) unfolding stream_ok_def by (auto simp: st' have_ok_def unsent_def delivered_def)
qed

lemma worker_exit_ok:
  assumes ok: "stream_ok pc cur calls i st" and w: "worker_exit st = Some st'"
  shows "stream_ok pc cur calls i st' \<and> is_sink st' = is_sink st"
proof -
  have wk: "is_worker st = WkWait" "is_closing st = ClDone" and st': "st' = st\<lparr>is_worker := WkGone\<rparr>"
    using w by (auto simp: worker_exit_def split: if_splits)
  have wait: "wait_ok calls st'" if "wait_ok calls st"
    using that
  proof cases
    case (wait_acked m e)
    with wk show ?thesis by (intro wait_ok.wait_acked [of _ m e]) (auto simp: st' delivered_def)
  qed (use wk in auto)
  show ?thesis
    using ok wait wk unfolding stream_ok_def by (auto simp: st' have_ok_def unsent_def delivered_def rest_ok_def)
qed

lemma closing_ok:
  assumes ok: "stream_ok pc cur calls i st" and st': "st' = st\<lparr>is_closing := c\<rparr>"
    and c: "cur \<noteq> Some i" "is_closing st = ClDone \<longrightarrow> c = ClDone"
  shows "stream_ok pc cur calls i st' \<and> is_sink st' = is_sink st"
proof -
  have wait: "wait_ok calls st'" if "wait_ok calls st"
    using that c by cases (auto simp: st' delivered_def intro: wait_ok.intros)
  show ?thesis
    using ok wait c unfolding stream_ok_def by (auto simp: st' have_ok_def unsent_def delivered_def rest_ok_def)
qed

lemma is_Close_ok:
  assumes ok: "stream_ok pc cur calls i st" and w: "is_Close st = Some st'"
  shows "stream_ok pc cur calls i st' \<and> is_sink st' = is_sink st"
proof -
  have "is_closing st \<noteq> ClOpen" "is_closing st \<noteq> ClDone" "\<exists>c. st' = st\<lparr>is_closing := c\<rparr>"
    using w by (auto simp: is_Close_def split: closing.splits)
  moreover from this(1) ok have "cur \<noteq> Some i" by (auto simp: stream_ok_def)
  ultimately show ?thesis using closing_ok [OF ok] by blast
qed

lemma returned_ok_mono:
  assumes "returned_ok calls sts r" "\<And>st k b. st \<in> set sts \<Longrightarrow> (k, b) \<in> set (is_sink st) \<Longrightarrow> \<exists>st' \<in> set sts'. (k, b) \<in> set (is_sink st')"
  shows "returned_ok calls sts' r"
proof -
  obtain k n err where r: "r = (k, n, err)" by (metis surj_pair)
  show ?thesis
  proof (cases err)
    case None
    with assms(1) r obtain st where "k < length calls" "n = length (calls ! k)" "st \<in> set sts" "(k, calls ! k) \<in> set (is_sink st)"
      by (auto simp: returned_ok_def)
    with assms(2) [of st k "calls ! k"] r None show ?thesis by (simp add: returned_ok_def)
  qed (simp add: returned_ok_def r)
qed

lemma returned_ok_upd:
  assumes "returned_ok calls sts r" "i < length sts" "set (is_sink (sts ! i)) \<subseteq> set (is_sink st)"
  shows "returned_ok calls (sts[i := st]) r"
proof (rule returned_ok_mono [OF assms(1)])
  fix st0 k b assume "st0 \<in> set sts" "(k, b) \<in> set (is_sink st0)"
  then obtain j where j: "j < length sts" "(k, b) \<in> set (is_sink (sts ! j))" by (metis in_set_conv_nth)
  then have "(k, b) \<in> set (is_sink (sts[i := st] ! j))" using assms(2,3) by (cases "i = j") auto
  with j(1) show "\<exists>st' \<in> set (sts[i := st]). (k, b) \<in> set (is_sink st')" by (metis length_list_update nth_mem)
qed

text \<open>A step that changes one stream and, in the writer, only where it is.\<close>

lemma stream_step_ok:
  assumes ok: "rs_ok s" and i: "i < length (rs_all (y_rs s))"
    and st: "stream_ok pc (rs_stream (y_rs s)) (y_calls s) i st"
      "set (is_sink (rs_all (y_rs s) ! i)) \<subseteq> set (is_sink st)"
    and others: "\<And>j st. j \<noteq> i \<Longrightarrow> stream_ok (y_pc s) (rs_stream (y_rs s)) (y_calls s) j st \<Longrightarrow>
        stream_ok pc (rs_stream (y_rs s)) (y_calls s) j st"
    and pc: "pc = PcIdle \<or> y_pc s \<noteq> PcIdle \<or> pc = y_pc s" "pc_stream pc \<in> {None, Some i, pc_stream (y_pc s)}"
  shows "rs_ok (s\<lparr>y_pc := pc, y_rs := upd_stream i (\<lambda>_. st) (y_rs s)\<rparr>)"
proof -
  have "stream_ok pc (rs_stream (y_rs s)) (y_calls s) j ((rs_all (y_rs s))[i := st] ! j)"
    if "j < length (rs_all (y_rs s))" for j
    using ok st(1) others [of j "rs_all (y_rs s) ! j"] that by (cases "j = i") (auto simp: rs_ok_def)
  moreover have "returned_ok (y_calls s) ((rs_all (y_rs s))[i := st]) r" if "r \<in> set (y_returned s)" for r
    using returned_ok_upd [OF _ i st(2)] ok that by (auto simp: rs_ok_def)
  ultimately show ?thesis
    using ok i pc unfolding rs_ok_def by (auto simp: upd_stream_def)
qed

lemma on_stream_ok:
  assumes ok: "rs_ok s" and e: "on_stream i f s = Some s'"
    and f: "\<And>st st'. stream_ok (y_pc s) (rs_stream (y_rs s)) (y_calls s) i st \<Longrightarrow> f st = Some st' \<Longrightarrow>
        stream_ok (y_pc s) (rs_stream (y_rs s)) (y_calls s) i st' \<and> set (is_sink st) \<subseteq> set (is_sink st')"
  shows "rs_ok s'"
proof -
  obtain st' where i: "i < length (rs_all (y_rs s))" and st': "f (rs_all (y_rs s) ! i) = Some st'"
    and s': "s' = s\<lparr>y_rs := upd_stream i (\<lambda>_. st') (y_rs s)\<rparr>"
    using e by (auto simp: on_stream_def split: if_splits option.splits)
  have "stream_ok (y_pc s) (rs_stream (y_rs s)) (y_calls s) i (rs_all (y_rs s) ! i)" using ok i by (simp add: rs_ok_def)
  from f [OF this st'] stream_step_ok [OF ok i, of "y_pc s" st'] show ?thesis by (simp add: s')
qed

text \<open>Swapping and closing.\<close>

lemma stream_ok_leave:
  "stream_ok pc cur calls i st \<Longrightarrow> stream_ok pc None calls i st"
  "stream_ok pc cur calls i st \<Longrightarrow> i \<noteq> j \<Longrightarrow> stream_ok pc (Some j) calls i st"
  by (auto simp: stream_ok_def)

lemma stream_ok_call_close:
  assumes "stream_ok pc cur calls i st" "cur \<noteq> Some i"
  shows "stream_ok pc cur calls i (call_close st) \<and> is_sink (call_close st) = is_sink st"
  using closing_ok [OF assms(1) refl assms(2), of ClCalled] assms(1) by (auto simp: call_close_def)

lemma close_stream_ok:
  assumes ok: "rs_ok s" and old: "\<forall>i. old = Some i \<longrightarrow> i < length (rs_all (y_rs s)) \<and> rs_stream (y_rs s) \<noteq> Some i"
  shows "rs_ok (s\<lparr>y_rs := close_stream old (y_rs s)\<rparr>)"
proof (cases old)
  case None
  with ok show ?thesis by (simp add: close_stream_def)
next
  case (Some i)
  with old have i: "i < length (rs_all (y_rs s))" "rs_stream (y_rs s) \<noteq> Some i" by simp_all
  have "stream_ok (y_pc s) (rs_stream (y_rs s)) (y_calls s) i (rs_all (y_rs s) ! i)" using ok i by (simp add: rs_ok_def)
  from stream_ok_call_close [OF this i(2)] stream_step_ok [OF ok i(1), of "y_pc s" "call_close (rs_all (y_rs s) ! i)"]
  show ?thesis by (simp add: Some close_stream_def upd_stream_def i(1))
qed

lemma new_stream_ok: "pc_stream pc \<noteq> Some i \<Longrightarrow> stream_ok pc cur calls i newInterruptibleStream"
  by (cases pc) (auto simp: stream_ok_def newInterruptibleStream_def sink_ok_def have_ok_def rest_ok_def unsent_def)

lemma leave_ok:
  assumes "rs_ok s"
  shows "rs_ok (s\<lparr>y_rs := (y_rs s)\<lparr>rs_closed := c, rs_stream := None\<rparr>\<rparr>)"
proof -
  have "stream_ok (y_pc s) None (y_calls s) i (rs_all (y_rs s) ! i)" if "i < length (rs_all (y_rs s))" for i
    using assms that by (auto simp: rs_ok_def intro: stream_ok_leave(1) [of _ "rs_stream (y_rs s)"])
  with assms show ?thesis by (simp add: rs_ok_def)
qed

lemma enter_ok:
  assumes ok: "rs_ok s"
  shows "rs_ok (s\<lparr>y_rs := (y_rs s)\<lparr>rs_stream := Some (length (rs_all (y_rs s))),
      rs_all := rs_all (y_rs s) @ [newInterruptibleStream]\<rparr>\<rparr>)"
proof -
  let ?n = "length (rs_all (y_rs s))"
  have pc: "pc_stream (y_pc s) \<noteq> Some ?n" using ok by (auto simp: rs_ok_def)
  have "stream_ok (y_pc s) (Some ?n) (y_calls s) i ((rs_all (y_rs s) @ [newInterruptibleStream]) ! i)" if "i < Suc ?n" for i
  proof (cases "i = ?n")
    case True
    then show ?thesis using new_stream_ok [OF pc] by simp
  next
    case False
    then have i: "i < ?n" using that by simp
    then have "stream_ok (y_pc s) (rs_stream (y_rs s)) (y_calls s) i (rs_all (y_rs s) ! i)" using ok by (simp add: rs_ok_def)
    from stream_ok_leave(2) [OF this False] i show ?thesis by (simp add: nth_append)
  qed
  moreover have "returned_ok (y_calls s) (rs_all (y_rs s) @ [newInterruptibleStream]) r" if "r \<in> set (y_returned s)" for r
  proof (rule returned_ok_mono)
    show "returned_ok (y_calls s) (rs_all (y_rs s)) r" using that ok by (simp add: rs_ok_def)
  qed auto
  moreover have "\<forall>i. pc_stream (y_pc s) = Some i \<longrightarrow> i < Suc ?n" "y_pc s \<noteq> PcIdle \<longrightarrow> y_calls s \<noteq> []"
    using ok by (auto simp: rs_ok_def less_SucI)
  ultimately show ?thesis by (simp add: rs_ok_def)
qed

lemma rs_swap_ok:
  assumes ok: "rs_ok s"
  shows "rs_ok (s\<lparr>y_rs := rs_swap new (y_rs s)\<rparr>)"
proof (cases "rs_closed (y_rs s)")
  case True
  with ok show ?thesis by (simp add: rs_swap_def)
next
  case False
  have old: "\<forall>i. rs_stream (y_rs s) = Some i \<longrightarrow> i < length (rs_all (y_rs s))" using ok by (simp add: rs_ok_def)
  show ?thesis
  proof (cases new)
    case True
    have "\<forall>i. rs_stream (y_rs s) = Some i \<longrightarrow> i < Suc (length (rs_all (y_rs s))) \<and> length (rs_all (y_rs s)) \<noteq> i"
      using old by (auto intro: less_SucI)
    with close_stream_ok [OF enter_ok [OF ok], of "rs_stream (y_rs s)"] False True show ?thesis
      by (simp add: rs_swap_def)
  next
    case nil: False
    have "(y_rs s)\<lparr>rs_closed := False, rs_stream := None\<rparr> = (y_rs s)\<lparr>rs_stream := None\<rparr>" using False by simp
    with close_stream_ok [OF leave_ok [OF ok, of False], of "rs_stream (y_rs s)"] old False nil show ?thesis
      by (simp add: rs_swap_def)
  qed
qed

lemma rs_Close_ok:
  assumes ok: "rs_ok s"
  shows "rs_ok (s\<lparr>y_rs := snd (rs_Close (y_rs s))\<rparr>)"
proof (cases "rs_closed (y_rs s)")
  case True
  with ok show ?thesis by (simp add: rs_Close_def)
next
  case False
  have old: "\<forall>i. rs_stream (y_rs s) = Some i \<longrightarrow> i < length (rs_all (y_rs s))" using ok by (simp add: rs_ok_def)
  with close_stream_ok [OF leave_ok [OF ok, of True], of "rs_stream (y_rs s)"] False show ?thesis
    by (simp add: rs_Close_def)
qed

text \<open>The writer.\<close>

lemma stream_ok_other:
  assumes "stream_ok pc cur calls j st" "pc_stream pc \<noteq> Some j" "pc_stream pc' \<noteq> Some j" "pc \<noteq> PcIdle"
  shows "stream_ok pc' cur calls j st"
proof -
  have "rest_ok st" "cur = Some j \<longrightarrow> unsent (length calls - 1) st"
    using assms(1,2,4) by (cases pc; simp add: stream_ok_def)+
  moreover have "sink_ok calls (is_sink st)" "have_ok calls st" "cur = Some j \<longrightarrow> is_closing st = ClOpen"
    using assms(1) by (simp_all add: stream_ok_def)
  moreover have "pc' \<noteq> PcAck j" "\<And>n err. pc' \<noteq> PcDone j n err" "pc' \<noteq> PcCheck j" "pc' \<noteq> PcOffer j" using assms(3) by auto
  ultimately show ?thesis by (simp add: stream_ok_def)
qed

lemma move_ok:
  assumes ok: "rs_ok s" "y_pc s \<noteq> PcIdle" and i: "i < length (rs_all (y_rs s))"
    and pcs: "pc_stream (y_pc s) \<in> {None, Some i}" "pc_stream pc \<in> {None, Some i}"
    and st: "stream_ok pc (rs_stream (y_rs s)) (y_calls s) i st"
      "set (is_sink (rs_all (y_rs s) ! i)) \<subseteq> set (is_sink st)"
  shows "rs_ok (s\<lparr>y_pc := pc, y_rs := upd_stream i (\<lambda>_. st) (y_rs s)\<rparr>)"
proof (rule stream_step_ok [OF ok(1) i st])
  fix j st assume "j \<noteq> i" "stream_ok (y_pc s) (rs_stream (y_rs s)) (y_calls s) j st"
  then show "stream_ok pc (rs_stream (y_rs s)) (y_calls s) j st"
    using stream_ok_other [of "y_pc s" _ _ j st pc] ok(2) pcs by auto
qed (use ok(2) pcs(2) in auto)

lemma move_pc_ok:
  assumes "rs_ok s" "y_pc s \<noteq> PcIdle" and i: "i < length (rs_all (y_rs s))"
    and "pc_stream (y_pc s) \<in> {None, Some i}" "pc_stream pc \<in> {None, Some i}"
    and "stream_ok pc (rs_stream (y_rs s)) (y_calls s) i (rs_all (y_rs s) ! i)"
  shows "rs_ok (s\<lparr>y_pc := pc\<rparr>)"
proof -
  have "upd_stream i (\<lambda>_. rs_all (y_rs s) ! i) (y_rs s) = y_rs s" using i by (simp add: upd_stream_def)
  with move_ok [OF assms(1-5) assms(6)] show ?thesis by simp
qed

lemma Write_return_ok:
  assumes ok: "rs_ok s" and err: "err = None \<Longrightarrow> (\<exists>i n. y_pc s = PcDone i n None \<and> y_n s = n)" and pc: "y_pc s \<noteq> PcIdle" "\<And>i. y_pc s \<noteq> PcAck i"
  shows "rs_ok (Write_return err s)"
proof -
  have ne: "y_calls s \<noteq> []" using ok pc(1) by (simp add: rs_ok_def)
  have "returned_ok (y_calls s) (rs_all (y_rs s)) (cur_call s, y_n s, err)"
  proof (cases err)
    case None
    with err obtain i where i: "y_pc s = PcDone i (y_n s) None" by blast
    then have l: "i < length (rs_all (y_rs s))" using ok by (simp add: rs_ok_def)
    then have "delivered (y_calls s) (y_n s) None (rs_all (y_rs s) ! i)" using ok i by (simp add: rs_ok_def stream_ok_def)
    then have "y_n s = length (last (y_calls s))" "(cur_call s, last (y_calls s)) \<in> set (is_sink (rs_all (y_rs s) ! i))"
      by (simp_all add: delivered_def cur_call_def)
    moreover have "y_calls s ! cur_call s = last (y_calls s)" "cur_call s < length (y_calls s)"
      using ne by (simp_all add: cur_call_def last_conv_nth)
    moreover have "rs_all (y_rs s) ! i \<in> set (rs_all (y_rs s))" using l by simp
    ultimately show ?thesis unfolding returned_ok_def None by (simp only: prod.case) metis
  qed (simp add: returned_ok_def)
  moreover have "stream_ok PcIdle (rs_stream (y_rs s)) (y_calls s) i (rs_all (y_rs s) ! i)"
    if "i < length (rs_all (y_rs s))" for i
    using ok that pc(2) by (simp add: rs_ok_def stream_ok_def)
  ultimately show ?thesis using ok by (simp add: rs_ok_def Write_return_def)
qed

lemma rs_ok_n: "rs_ok (s\<lparr>y_n := n\<rparr>) = rs_ok s"
  by (simp add: rs_ok_def)

lemma Write_call_ok:
  assumes ok: "rs_ok s" and e: "Write_call buf s = Some s'"
  shows "rs_ok s'"
proof -
  have pc: "y_pc s = PcIdle" and s': "s' = s\<lparr>y_pc := PcTop, y_calls := y_calls s @ [buf], y_n := 0\<rparr>"
    using e by (auto simp: Write_call_def split: if_splits)
  have sink: "sink_ok (y_calls s @ [buf]) sink \<and> (\<forall>e \<in> set sink. fst e \<noteq> length (y_calls s))"
    if "sink_ok (y_calls s) sink" for sink
    using that by (auto simp: sink_ok_def nth_append)
  have "stream_ok PcTop (rs_stream (y_rs s)) (y_calls s @ [buf]) i (rs_all (y_rs s) ! i)" if "i < length (rs_all (y_rs s))" for i
  proof -
    have si: "stream_ok PcIdle (rs_stream (y_rs s)) (y_calls s) i (rs_all (y_rs s) ! i)" using ok that pc by (simp add: rs_ok_def)
    then have h: "have_ok (y_calls s @ [buf]) (rs_all (y_rs s) ! i)" by (auto simp: stream_ok_def have_ok_def nth_append)
    have "\<forall>b. is_worker (rs_all (y_rs s) ! i) \<noteq> WkHave (length (y_calls s)) b" using si by (auto simp: stream_ok_def have_ok_def)
    with si h sink [of "is_sink (rs_all (y_rs s) ! i)"] show ?thesis by (simp add: stream_ok_def unsent_def)
  qed
  moreover have "returned_ok (y_calls s @ [buf]) (rs_all (y_rs s)) r" if "r \<in> set (y_returned s)" for r
    using that ok by (auto simp: rs_ok_def returned_ok_def nth_append)
  moreover have "\<forall>i. rs_stream (y_rs s) = Some i \<longrightarrow> i < length (rs_all (y_rs s))" using ok by (simp add: rs_ok_def)
  ultimately show ?thesis unfolding s' by (simp add: rs_ok_def)
qed

text \<open>The steps of the writer on the stream it works on.\<close>

lemma stream_ok_at:
  "rs_ok s \<Longrightarrow> i < length (rs_all (y_rs s)) \<Longrightarrow> stream_ok (y_pc s) (rs_stream (y_rs s)) (y_calls s) i (rs_all (y_rs s) ! i)"
  by (simp add: rs_ok_def)

lemma closed_done_ok:
  assumes "rs_ok s" "y_pc s \<in> {PcCheck i, PcOffer i, PcAck i}" "i < length (rs_all (y_rs s))"
    and "is_closing (rs_all (y_rs s) ! i) = ClDone \<or> y_pc s = PcCheck i"
  shows "rs_ok (s\<lparr>y_pc := PcDone i 0 (Some stream_closed)\<rparr>)"
proof (rule move_pc_ok [OF assms(1) _ assms(3)])
  show "stream_ok (PcDone i 0 (Some stream_closed)) (rs_stream (y_rs s)) (y_calls s) i (rs_all (y_rs s) ! i)"
    using stream_ok_at [OF assms(1,3)] assms(2,4) by (auto simp: stream_ok_def delivered_def rest_ok_def)
qed (use assms(2) in auto)

lemma offer_ok:
  assumes ok: "rs_ok s" "y_pc s = PcOffer i" "i < length (rs_all (y_rs s))" and wk: "is_worker (rs_all (y_rs s) ! i) = WkWait"
    and ack: "is_ack (rs_all (y_rs s) ! i) = None"
  shows "rs_ok (s\<lparr>y_pc := PcAck i,
      y_rs := upd_stream i (\<lambda>st. st\<lparr>is_worker := WkHave (cur_call s) (last (y_calls s))\<rparr>) (y_rs s)\<rparr>)"
proof -
  let ?st = "rs_all (y_rs s) ! i"
  let ?st' = "?st\<lparr>is_worker := WkHave (cur_call s) (last (y_calls s))\<rparr>"
  note si = stream_ok_at [OF ok(1,3)]
  have ne: "y_calls s \<noteq> []" using ok(1,2) by (simp add: rs_ok_def)
  have "fst e < cur_call s" if "e \<in> set (is_sink ?st)" for e
  proof -
    have "fst e < length (y_calls s)" "fst e \<noteq> length (y_calls s) - 1"
      using si ok(2) that by (auto simp: stream_ok_def unsent_def sink_ok_def)
    then show ?thesis by (simp add: cur_call_def)
  qed
  then have "have_ok (y_calls s) ?st'" using ne by (simp add: have_ok_def cur_call_def last_conv_nth)
  moreover have "wait_ok (y_calls s) ?st'" using ack by (intro wait_have) (simp_all add: cur_call_def)
  ultimately have "stream_ok (PcAck i) (rs_stream (y_rs s)) (y_calls s) i ?st'"
    using si by (simp add: stream_ok_def)
  from move_ok [OF ok(1) _ ok(3) _ _ this] ok(2,3) show ?thesis by (simp add: upd_stream_def)
qed

lemma take_ack_ok:
  assumes ok: "rs_ok s" "y_pc s = PcAck i" "i < length (rs_all (y_rs s))" and ack: "is_ack (rs_all (y_rs s) ! i) = Some (n, err)"
  shows "rs_ok (s\<lparr>y_pc := PcDone i n err, y_rs := upd_stream i (\<lambda>st. st\<lparr>is_ack := None\<rparr>) (y_rs s)\<rparr>)"
proof -
  let ?st = "rs_all (y_rs s) ! i"
  note si = stream_ok_at [OF ok(1,3)]
  have "wait_ok (y_calls s) ?st" using si ok(2) by (simp add: stream_ok_def)
  then have d: "is_worker ?st = WkWait \<or> is_worker ?st = WkGone \<and> is_closing ?st = ClDone"
      "delivered (y_calls s) n err ?st"
    by (cases; use ack in auto)+
  then have "stream_ok (PcDone i n err) (rs_stream (y_rs s)) (y_calls s) i (?st\<lparr>is_ack := None\<rparr>)"
    using si by (auto simp: stream_ok_def rest_ok_def have_ok_def delivered_def)
  from move_ok [OF ok(1) _ ok(3) _ _ this] ok(2,3) show ?thesis by (simp add: upd_stream_def)
qed

lemma Write_step_ok:
  assumes ok: "rs_ok s" and e: "Write_step on_close s = Some s'"
  shows "rs_ok s'"
proof -
  have l: "pc_stream (y_pc s) = Some i \<Longrightarrow> i < length (rs_all (y_rs s))"
      "rs_stream (y_rs s) = Some i \<Longrightarrow> i < length (rs_all (y_rs s))" for i
    using ok by (simp_all add: rs_ok_def)
  show ?thesis
  proof (cases "y_pc s")
    case PcIdle
    with e show ?thesis by (simp add: Write_step_def)
  next
    case PcTop
    then consider (closed) "s' = Write_return (Some ErrEOF) s"
      | (cur) i where "rs_stream (y_rs s) = Some i" "s' = s\<lparr>y_pc := PcCheck i\<rparr>"
      using e by (auto simp: Write_step_def do_top_def split: if_splits option.splits)
    then show ?thesis
    proof cases
      case closed
      show ?thesis unfolding closed by (rule Write_return_ok [OF ok]) (simp_all add: PcTop)
    next
      case (cur i)
      with stream_ok_at [OF ok l(2), of i] PcTop
      have "stream_ok (PcCheck i) (rs_stream (y_rs s)) (y_calls s) i (rs_all (y_rs s) ! i)" by (auto simp: stream_ok_def rest_ok_def)
      with move_pc_ok [OF ok, of i "PcCheck i"] cur l(2) [of i] PcTop show ?thesis by simp
    qed
  next
    case (PcCheck i)
    have "stream_ok (PcOffer i) (rs_stream (y_rs s)) (y_calls s) i (rs_all (y_rs s) ! i)"
      using stream_ok_at [OF ok l(1), of i] PcCheck by (simp add: stream_ok_def)
    with move_pc_ok [OF ok, of i "PcOffer i"] closed_done_ok [OF ok, of i] l(1) [of i] PcCheck e show ?thesis
      by (auto simp: Write_step_def split: if_splits)
  next
    case (PcOffer i)
    then have i: "i < length (rs_all (y_rs s))" using l(1) by simp
    have "is_ack (rs_all (y_rs s) ! i) = None" using stream_ok_at [OF ok i] PcOffer by (simp add: stream_ok_def)
    with offer_ok [OF ok PcOffer i] closed_done_ok [OF ok _ i] PcOffer e show ?thesis
      by (auto simp: Write_step_def split: if_splits)
  next
    case (PcAck i)
    then have i: "i < length (rs_all (y_rs s))" using l(1) by simp
    from take_ack_ok [OF ok PcAck i] closed_done_ok [OF ok _ i] PcAck e show ?thesis
      by (auto simp: Write_step_def split: if_splits option.splits)
  next
    case (PcDone i n err)
    then have i: "i < length (rs_all (y_rs s))" using l(1) by simp
    show ?thesis
    proof (cases "do_retry i err (y_rs s)")
      case True
      have "stream_ok PcTop (rs_stream (y_rs s)) (y_calls s) i (rs_all (y_rs s) ! i)"
        using stream_ok_at [OF ok i] PcDone True by (simp add: stream_ok_def do_retry_def)
      with move_pc_ok [OF ok _ i, of PcTop] PcDone True e show ?thesis
        by (auto simp: Write_step_def rs_ok_n)
    next
      case False
      have "rs_ok (Write_return err (s\<lparr>y_n := n\<rparr>))" by (rule Write_return_ok) (simp_all add: ok rs_ok_n PcDone)
      with PcDone False e show ?thesis by (simp add: Write_step_def)
    qed
  qed
qed

interpretation swapping: machine rs_exec rs_ok
proof
  fix s a s' assume ok: "rs_ok s" and e: "rs_exec a s = Some s'"
  show "rs_ok s'"
  proof (cases a)
    case (ACall buf)
    with Write_call_ok [OF ok] e show ?thesis by (simp add: rs_exec_def)
  next
    case (AWriter c)
    with Write_step_ok [OF ok] e show ?thesis by (simp add: rs_exec_def)
  next
    case (AWork i n err)
    with e have "on_stream i (worker_write n err) s = Some s'" by (simp add: rs_exec_def)
    then show ?thesis by (rule on_stream_ok [OF ok]) (rule worker_write_ok)
  next
    case (AWorkAck i)
    with e have "on_stream i worker_ack s = Some s'" by (simp add: rs_exec_def)
    then show ?thesis by (rule on_stream_ok [OF ok]) (drule (1) worker_ack_ok, simp)
  next
    case (AWorkExit i)
    with e have "on_stream i worker_exit s = Some s'" by (simp add: rs_exec_def)
    then show ?thesis by (rule on_stream_ok [OF ok]) (drule (1) worker_exit_ok, simp)
  next
    case (AIsClose i)
    with e have "on_stream i is_Close s = Some s'" by (simp add: rs_exec_def)
    then show ?thesis by (rule on_stream_ok [OF ok]) (drule (1) is_Close_ok, simp)
  next
    case (ASwap new)
    with rs_swap_ok [OF ok] e show ?thesis by (auto simp: rs_exec_def)
  next
    case ARsClose
    with rs_Close_ok [OF ok] e show ?thesis by (auto simp: rs_exec_def)
  qed
qed

lemma rs_init_ok: "rs_ok rs_init"
  using new_stream_ok [of PcIdle 0 "Some 0" "[]"] by (simp add: rs_ok_def rs_init_def newReplaceableStream_def)

section \<open>Properties\<close>

text \<open>
  C10. What a session writes survives the swapping of streams: in every interleaving of the writer, the
  workers and any number of swaps and closes, every stream receives parts of the written buffers in
  the order of the calls and none of them twice, and every \<open>Write\<close> that reports success has put its
  whole buffer on one of the streams.
\<close>

theorem swapped_writes_kept:
  assumes "run_acts rs_exec acts rs_init = Some s"
  shows "(\<forall>st \<in> set (rs_all (y_rs s)).
       sorted_wrt (<) (map fst (is_sink st))
       \<and> (\<forall>(k, part) \<in> set (is_sink st). k < length (y_calls s) \<and> prefix part (y_calls s ! k)))
   \<and> (\<forall>k n. (k, n, None) \<in> set (y_returned s) \<longrightarrow>
       n = length (y_calls s ! k) \<and> (\<exists>st \<in> set (rs_all (y_rs s)). (k, y_calls s ! k) \<in> set (is_sink st)))"
proof -
  have ok: "rs_ok s" using swapping.run_inv [OF rs_init_ok assms] .
  have "sink_ok (y_calls s) (is_sink st)" if "st \<in> set (rs_all (y_rs s))" for st
    using ok that by (auto simp: rs_ok_def stream_ok_def in_set_conv_nth)
  moreover have "returned_ok (y_calls s) (rs_all (y_rs s)) (k, n, None)" if "(k, n, None) \<in> set (y_returned s)" for k n
    using ok that by (simp add: rs_ok_def)
  ultimately show ?thesis by (fastforce simp: sink_ok_def returned_ok_def)
qed

text \<open>A swap while the writer waits for an answer that the closed channel overtakes.\<close>

definition overtaken :: "bytes \<Rightarrow> rs_act list" where
  "overtaken buf =
     [ACall buf, AWriter False, AWriter False, AWriter False, AWork 0 (length buf) None, AWorkAck 0,
      ASwap True, AIsClose 0, AIsClose 0, AWriter True, AWriter False,
      AWriter False, AWriter False, AWriter False, AWork 1 (length buf) None, AWorkAck 1, AWriter False, AWriter False]"

theorem swapped_writes_kept_witness:
  "\<exists>s. run_acts rs_exec (overtaken [1, 2]) rs_init = Some s \<and> (0, 2, None) \<in> set (y_returned s)
     \<and> (\<exists>st \<in> set (rs_all (y_rs s)). (0, [1, 2]) \<in> set (is_sink st))"
proof -
  have "case run_acts rs_exec (overtaken [1, 2]) rs_init of None \<Rightarrow> False
      | Some s \<Rightarrow> (0, 2, None) \<in> set (y_returned s) \<and> y_calls s = [[1, 2]]" by code_simp
  then obtain s where s: "run_acts rs_exec (overtaken [1, 2]) rs_init = Some s"
      "(0, 2, None) \<in> set (y_returned s)" "y_calls s = [[1, 2]]"
    by (auto split: option.splits)
  have "\<exists>st \<in> set (rs_all (y_rs s)). (0, y_calls s ! 0) \<in> set (is_sink st)"
    using swapped_writes_kept [OF s(1)] s(2) by blast
  with s show ?thesis by auto
qed

text \<open>
  A buffer can reach two clients: if the stream is replaced after the old client's stream has
  accepted the buffer but before the writer has taken the answer, the writer may see the closed
  channel first, takes the write as failed and repeats it on the new stream. Both clients then have
  the whole buffer, and the call reports one successful write.
\<close>

lemma write_on_both_streams:
  "\<exists>s. run_acts rs_exec (overtaken buf) rs_init = Some s
     \<and> map is_sink (rs_all (y_rs s)) = [[(0, buf)], [(0, buf)]] \<and> y_returned s = [(0, length buf, None)]"
  by (simp add: overtaken_def rs_exec_def rs_init_def Write_call_def Write_step_def Write_return_def do_top_def do_retry_def
      newReplaceableStream_def newInterruptibleStream_def on_stream_def upd_stream_def worker_write_def worker_ack_def
      is_Close_def rs_swap_def close_stream_def call_close_def cur_call_def)


end
