(* ===== verification/Checker.thy ===== *)
theory Checker
  imports Machine
begin

text \<open>
  The heartbeat supervision of \<open>comm.go\<close>: \<open>timeoutChecker\<close> with its event goroutine
  (\<open>handleEvent\<close>), its clock goroutine (\<open>checkTimeout\<close>) and any number of goroutines inside
  \<open>waitReconnect\<close>, interleaved at the level of the single atomic accesses.

  Times are integers in nanoseconds, alive times in milliseconds as the code stores them. Channels
  are numbered as they are made, \<open>tc_closedChs\<close> lists every \<open>close\<close> performed: a number that
  occurs twice there is a panic of the program.
\<close>

section \<open>The checker\<close>

record timeoutChecker =
  tc_closed :: bool
  tc_timeoutFlag :: bool
  tc_lastAliveTime :: int
  tc_reconnectedCh :: "nat option"
  tc_updateNowChan :: bool
  tc_updateTimeChan :: "int list"
  tc_heartbeatTimeout :: int
  tc_timeoutCallbacks :: "nat list"
  tc_reconnectedCallbacks :: "nat list"
  tc_nextCh :: nat
  tc_closedChs :: "nat list"

definition milli :: int where "milli = 1000000"

text \<open>\<open>time.Now().UnixMilli()\<close>, and \<open>time.UnixMilli(last).Add(heartbeatTimeout)\<close>.\<close>

definition unixMilli :: "int \<Rightarrow> int" where "unixMilli now = now div milli"

definition tc_deadline :: "timeoutChecker \<Rightarrow> int" where
  "tc_deadline tc = tc_lastAliveTime tc * milli + tc_heartbeatTimeout tc"

definition newTimeoutChecker :: "int \<Rightarrow> int \<Rightarrow> timeoutChecker" where
  "newTimeoutChecker heartbeatTimeout now =
     \<lparr>tc_closed = False, tc_timeoutFlag = False, tc_lastAliveTime = unixMilli now,
      tc_reconnectedCh = None, tc_updateNowChan = False, tc_updateTimeChan = [],
      tc_heartbeatTimeout = heartbeatTimeout, tc_timeoutCallbacks = [], tc_reconnectedCallbacks = [],
      tc_nextCh = 0, tc_closedChs = []\<rparr>"

definition isTimeout :: "timeoutChecker \<Rightarrow> bool" where
  "isTimeout tc = tc_timeoutFlag tc"

definition getAliveTime :: "timeoutChecker \<Rightarrow> int" where
  "getAliveTime tc = tc_lastAliveTime tc"

definition updateNow :: "timeoutChecker \<Rightarrow> timeoutChecker" where
  "updateNow tc = tc\<lparr>tc_updateNowChan := True\<rparr>"

text \<open>Both cases of the select are possible once the checker is closed: \<open>giveup\<close> picks one.\<close>

definition updateTime :: "bool \<Rightarrow> int \<Rightarrow> timeoutChecker \<Rightarrow> timeoutChecker option" where
  "updateTime giveup msec tc =
     (if giveup then (if tc_closed tc then Some tc else None)
      else if length (tc_updateTimeChan tc) < 2
           then Some (tc\<lparr>tc_updateTimeChan := tc_updateTimeChan tc @ [msec]\<rparr>)
           else None)"

definition onTimeout :: "nat \<Rightarrow> timeoutChecker \<Rightarrow> timeoutChecker" where
  "onTimeout cb tc = tc\<lparr>tc_timeoutCallbacks := tc_timeoutCallbacks tc @ [cb]\<rparr>"

definition onReconnected :: "nat \<Rightarrow> timeoutChecker \<Rightarrow> timeoutChecker" where
  "onReconnected cb tc = tc\<lparr>tc_reconnectedCallbacks := tc_reconnectedCallbacks tc @ [cb]\<rparr>"

text \<open>The callbacks a notification starts, each in a goroutine of its own.\<close>

definition notifyTimeout :: "timeoutChecker \<Rightarrow> nat list" where
  "notifyTimeout tc = tc_timeoutCallbacks tc"

definition notifyReconnected :: "timeoutChecker \<Rightarrow> nat list" where
  "notifyReconnected tc = tc_reconnectedCallbacks tc"

definition tc_Close :: "timeoutChecker \<Rightarrow> timeoutChecker" where
  "tc_Close tc = (if tc_closed tc then tc else tc\<lparr>tc_closed := True\<rparr>)"

definition close_ch :: "nat option \<Rightarrow> timeoutChecker \<Rightarrow> timeoutChecker" where
  "close_ch ch tc =
     (case ch of None \<Rightarrow> tc | Some c \<Rightarrow> tc\<lparr>tc_closedChs := c # tc_closedChs tc\<rparr>)"

section \<open>The event goroutine\<close>

text \<open>
  \<open>HIdle\<close> is the select of \<open>handleEvent\<close>; \<open>HReconn\<close> and \<open>HTimeout\<close> are the points between its two
  atomic accesses (flag cleared but channel not yet swapped, channel swapped but flag not yet set).
\<close>

datatype tc_hpc = HIdle | HReconn | HTimeout | HDone

datatype tc_case = CaseUpdateNow | CaseUpdateTime | CaseTimeoutEvent | CaseClose

datatype notif = NTimeout | NReconnected

definition setReconnected :: "timeoutChecker \<Rightarrow> timeoutChecker \<times> tc_hpc" where
  "setReconnected tc =
     (if tc_timeoutFlag tc then (tc\<lparr>tc_timeoutFlag := False\<rparr>, HReconn) else (tc, HIdle))"

definition handleEvent :: "tc_case \<Rightarrow> int \<Rightarrow> timeoutChecker \<Rightarrow> (timeoutChecker \<times> tc_hpc) option" where
  "handleEvent c now tc =
     (case c of
        CaseUpdateNow \<Rightarrow>
          (if tc_updateNowChan tc
           then Some (setReconnected (tc\<lparr>tc_updateNowChan := False, tc_lastAliveTime := unixMilli now\<rparr>))
           else None)
      | CaseUpdateTime \<Rightarrow>
          (case tc_updateTimeChan tc of [] \<Rightarrow> None
           | msec # rest \<Rightarrow>
               let tc1 = tc\<lparr>tc_updateTimeChan := rest\<rparr>
               in if msec > tc_lastAliveTime tc
                  then (let tc2 = tc1\<lparr>tc_lastAliveTime := msec\<rparr>
                        in if tc_deadline tc2 > now then Some (setReconnected tc2) else Some (tc2, HIdle))
                  else Some (tc1, HIdle))
      | CaseTimeoutEvent \<Rightarrow>
          (if tc_deadline tc < now \<and> \<not> tc_timeoutFlag tc
           then Some (close_ch (tc_reconnectedCh tc)
                   (tc\<lparr>tc_reconnectedCh := Some (tc_nextCh tc), tc_nextCh := Suc (tc_nextCh tc)\<rparr>),
                 HTimeout)
           else Some (tc, HIdle))
      | CaseClose \<Rightarrow> if tc_closed tc then Some (tc, HDone) else None)"

text \<open>The second access of \<open>setReconnected\<close> and of the timeout case, and the notification they start.\<close>

definition handleEvent_finish :: "tc_hpc \<Rightarrow> timeoutChecker \<Rightarrow> (timeoutChecker \<times> notif) option" where
  "handleEvent_finish pc tc =
     (case pc of
        HReconn \<Rightarrow>
          Some (close_ch (tc_reconnectedCh tc) (tc\<lparr>tc_reconnectedCh := None\<rparr>), NReconnected)
      | HTimeout \<Rightarrow> Some (tc\<lparr>tc_timeoutFlag := True\<rparr>, NTimeout)
      | _ \<Rightarrow> None)"

section \<open>The clock goroutine\<close>

datatype tc_cpc = CkTop | CkSleep int | CkOffer | CkPause int | CkDone

definition ten_seconds :: int where "ten_seconds = 10000 * milli"

text \<open>One step of \<open>checkTimeout\<close>; \<open>stop\<close> takes the \<open>closeChan\<close> case. The send at \<open>CkOffer\<close> is a rendezvous.\<close>

definition checkTimeout :: "bool \<Rightarrow> int \<Rightarrow> timeoutChecker \<Rightarrow> tc_cpc \<Rightarrow> tc_cpc option" where
  "checkTimeout stop now tc pc =
     (case pc of
        CkTop \<Rightarrow>
          (if tc_closed tc then Some CkDone
           else (let sleepTime = tc_deadline tc - now
                 in if sleepTime > 0 then Some (CkSleep (now + min sleepTime ten_seconds))
                    else Some CkOffer))
      | CkSleep d \<Rightarrow>
          (if stop then (if tc_closed tc then Some CkDone else None)
           else if now \<ge> d then Some CkTop else None)
      | CkOffer \<Rightarrow> (if stop \<and> tc_closed tc then Some CkDone else None)
      | CkPause d \<Rightarrow>
          (if stop then (if tc_closed tc then Some CkDone else None)
           else if now \<ge> d then Some CkTop else None)
      | CkDone \<Rightarrow> None)"

section \<open>Waiters\<close>

datatype wait_res = WaitNil | WaitClosed | WaitCtx

datatype tc_wpc = WTop | WLoad | WPoll | WPolled "nat option" | WSelect nat | WRet wait_res

datatype wait_case = WaitStep | WaitOnClose | WaitOnCtx

text \<open>
  \<open>waitReconnect\<close>, one atomic access per step: the test at the loop head, the load of the channel,
  the load and the test of the polling loop while the channel is nil, and the select.
\<close>

definition waitReconnect :: "wait_case \<Rightarrow> timeoutChecker \<Rightarrow> tc_wpc \<Rightarrow> tc_wpc option" where
  "waitReconnect c tc pc =
     (case pc of
        WSelect ch \<Rightarrow>
          (case c of
             WaitStep \<Rightarrow> if ch \<in> set (tc_closedChs tc) then Some WTop else None
           | WaitOnClose \<Rightarrow> if tc_closed tc then Some (WRet WaitClosed) else None
           | WaitOnCtx \<Rightarrow> Some (WRet WaitCtx))
      | WTop \<Rightarrow> if \<not> isTimeout tc then Some (WRet WaitNil) else Some WLoad
      | WLoad \<Rightarrow> (case tc_reconnectedCh tc of None \<Rightarrow> Some WPoll | Some ch \<Rightarrow> Some (WSelect ch))
      | WPoll \<Rightarrow> Some (WPolled (tc_reconnectedCh tc))
      | WPolled ch \<Rightarrow>
          (if \<not> isTimeout tc then Some (WRet WaitNil)
           else (case ch of None \<Rightarrow> Some WPoll | Some c \<Rightarrow> Some (WSelect c)))
      | WRet _ \<Rightarrow> None)"

section \<open>The whole checker\<close>

record tc_sys =
  sys_tc :: timeoutChecker
  sys_hpc :: tc_hpc
  sys_cpc :: tc_cpc
  sys_waiters :: "tc_wpc list"
  sys_now :: int
  sys_notified :: "notif list"

datatype tc_act =
    ATick nat | AUpdateNow | AUpdateTime bool int | AOnTimeout nat | AOnReconnected nat | AClose
  | AHandle tc_case | AHandleFinish | ACheck bool | AOffer | AWaiter | AWait nat wait_case

definition tc_start :: "int \<Rightarrow> int \<Rightarrow> tc_sys" where
  "tc_start heartbeatTimeout now =
     \<lparr>sys_tc = newTimeoutChecker heartbeatTimeout now, sys_hpc = HIdle,
      sys_cpc = (if heartbeatTimeout > 0 then CkTop else CkDone), sys_waiters = [], sys_now = now,
      sys_notified = []\<rparr>"

definition tc_exec :: "tc_act \<Rightarrow> tc_sys \<Rightarrow> tc_sys option" where
  "tc_exec a s =
     (case a of
        ATick n \<Rightarrow> Some (s\<lparr>sys_now := sys_now s + int n\<rparr>)
      | AUpdateNow \<Rightarrow> Some (s\<lparr>sys_tc := updateNow (sys_tc s)\<rparr>)
      | AUpdateTime giveup msec \<Rightarrow>
          map_option (\<lambda>tc. s\<lparr>sys_tc := tc\<rparr>) (updateTime giveup msec (sys_tc s))
      | AOnTimeout cb \<Rightarrow> Some (s\<lparr>sys_tc := onTimeout cb (sys_tc s)\<rparr>)
      | AOnReconnected cb \<Rightarrow> Some (s\<lparr>sys_tc := onReconnected cb (sys_tc s)\<rparr>)
      | AClose \<Rightarrow> Some (s\<lparr>sys_tc := tc_Close (sys_tc s)\<rparr>)
      | AHandle c \<Rightarrow>
          (if sys_hpc s = HIdle \<and> c \<noteq> CaseTimeoutEvent
           then map_option (\<lambda>(tc, pc). s\<lparr>sys_tc := tc, sys_hpc := pc\<rparr>) (handleEvent c (sys_now s) (sys_tc s))
           else None)
      | AHandleFinish \<Rightarrow>
          map_option (\<lambda>(tc, n). s\<lparr>sys_tc := tc, sys_hpc := HIdle, sys_notified := n # sys_notified s\<rparr>)
            (handleEvent_finish (sys_hpc s) (sys_tc s))
      | ACheck stop \<Rightarrow>
          map_option (\<lambda>pc. s\<lparr>sys_cpc := pc\<rparr>) (checkTimeout stop (sys_now s) (sys_tc s) (sys_cpc s))
      | AOffer \<Rightarrow>
          (if sys_hpc s = HIdle \<and> sys_cpc s = CkOffer
           then map_option
                  (\<lambda>(tc, pc). s\<lparr>sys_tc := tc, sys_hpc := pc,
                     sys_cpc := CkPause (sys_now s + min (tc_heartbeatTimeout tc) ten_seconds)\<rparr>)
                  (handleEvent CaseTimeoutEvent (sys_now s) (sys_tc s))
           else None)
      | AWaiter \<Rightarrow> Some (s\<lparr>sys_waiters := sys_waiters s @ [WTop]\<rparr>)
      | AWait i c \<Rightarrow>
          (if i < length (sys_waiters s)
           then map_option (\<lambda>pc. s\<lparr>sys_waiters := (sys_waiters s)[i := pc]\<rparr>)
                  (waitReconnect c (sys_tc s) (sys_waiters s ! i))
           else None))"

section \<open>The invariant\<close>

definition chans_inv :: "timeoutChecker \<Rightarrow> bool" where
  "chans_inv tc \<longleftrightarrow>
     distinct (tc_closedChs tc) \<and>
     (\<forall>ch. ch < tc_nextCh tc \<longleftrightarrow> ch \<in> set (tc_closedChs tc) \<or> tc_reconnectedCh tc = Some ch) \<and>
     (\<forall>ch. tc_reconnectedCh tc = Some ch \<longrightarrow> ch \<notin> set (tc_closedChs tc))"

definition flag_inv :: "tc_hpc \<Rightarrow> timeoutChecker \<Rightarrow> bool" where
  "flag_inv pc tc \<longleftrightarrow>
     (tc_timeoutFlag tc \<longleftrightarrow> tc_reconnectedCh tc \<noteq> None \<and> pc \<noteq> HReconn \<and> pc \<noteq> HTimeout) \<and>
     (pc = HReconn \<or> pc = HTimeout \<longrightarrow> tc_reconnectedCh tc \<noteq> None)"

text \<open>The notifications, the latest first: they alternate, and the first one was a timeout.\<close>

fun alternates :: "notif list \<Rightarrow> bool" where
  "alternates [] \<longleftrightarrow> True"
| "alternates [n] \<longleftrightarrow> n = NTimeout"
| "alternates (n # m # ns) \<longleftrightarrow> n \<noteq> m \<and> alternates (m # ns)"

definition last_notif :: "notif list \<Rightarrow> notif" where
  "last_notif ns = (case ns of [] \<Rightarrow> NReconnected | n # _ \<Rightarrow> n)"

definition notif_inv :: "tc_hpc \<Rightarrow> timeoutChecker \<Rightarrow> notif list \<Rightarrow> bool" where
  "notif_inv pc tc ns \<longleftrightarrow> alternates ns \<and>
     (last_notif ns = NTimeout \<longleftrightarrow> tc_timeoutFlag tc \<or> pc = HReconn)"

definition deadline_inv :: "int \<Rightarrow> tc_hpc \<Rightarrow> timeoutChecker \<Rightarrow> bool" where
  "deadline_inv now pc tc \<longleftrightarrow> (tc_timeoutFlag tc \<or> pc = HTimeout \<longrightarrow> tc_deadline tc \<le> now)"

fun waiter_inv :: "timeoutChecker \<Rightarrow> tc_wpc \<Rightarrow> bool" where
  "waiter_inv tc (WSelect ch) \<longleftrightarrow> ch < tc_nextCh tc"
| "waiter_inv tc (WPolled (Some ch)) \<longleftrightarrow> ch < tc_nextCh tc"
| "waiter_inv tc pc \<longleftrightarrow> True"

definition tc_inv :: "tc_sys \<Rightarrow> bool" where
  "tc_inv s \<longleftrightarrow>
     chans_inv (sys_tc s) \<and> flag_inv (sys_hpc s) (sys_tc s) \<and>
     notif_inv (sys_hpc s) (sys_tc s) (sys_notified s) \<and>
     deadline_inv (sys_now s) (sys_hpc s) (sys_tc s) \<and>
     list_all (waiter_inv (sys_tc s)) (sys_waiters s)"

section \<open>Lemmas\<close>

lemmas tc_inv_defs = chans_inv_def flag_inv_def notif_inv_def deadline_inv_def tc_deadline_def

text \<open>The operations of other goroutines leave alone what the invariant speaks about.\<close>

definition same_core :: "timeoutChecker \<Rightarrow> timeoutChecker \<Rightarrow> bool" where
  "same_core tc tc' \<longleftrightarrow>
     tc_timeoutFlag tc' = tc_timeoutFlag tc \<and> tc_reconnectedCh tc' = tc_reconnectedCh tc \<and>
     tc_nextCh tc' = tc_nextCh tc \<and> tc_closedChs tc' = tc_closedChs tc \<and>
     tc_heartbeatTimeout tc' = tc_heartbeatTimeout tc"

lemma same_core_ops:
  "same_core tc (updateNow tc)" "same_core tc (onTimeout cb tc)" "same_core tc (onReconnected cb tc)"
  "same_core tc (tc_Close tc)" "updateTime g m tc = Some tc' \<Longrightarrow> same_core tc tc'"
  by (auto simp: same_core_def updateNow_def onTimeout_def onReconnected_def tc_Close_def
      updateTime_def split: if_splits)

lemma same_alive_ops:
  "tc_lastAliveTime (updateNow tc) = tc_lastAliveTime tc"
  "tc_lastAliveTime (onTimeout cb tc) = tc_lastAliveTime tc"
  "tc_lastAliveTime (onReconnected cb tc) = tc_lastAliveTime tc"
  "tc_lastAliveTime (tc_Close tc) = tc_lastAliveTime tc"
  "updateTime g m tc = Some tc' \<Longrightarrow> tc_lastAliveTime tc' = tc_lastAliveTime tc"
  by (auto simp: updateNow_def onTimeout_def onReconnected_def tc_Close_def updateTime_def
      split: if_splits)

lemma waiter_inv_mono: "waiter_inv tc pc \<Longrightarrow> tc_nextCh tc \<le> tc_nextCh tc' \<Longrightarrow> waiter_inv tc' pc"
  by (cases "(tc, pc)" rule: waiter_inv.cases) auto

lemma waiters_inv_mono:
  "list_all (waiter_inv tc) ws \<Longrightarrow> tc_nextCh tc \<le> tc_nextCh tc' \<Longrightarrow> list_all (waiter_inv tc') ws"
  by (auto simp: list_all_iff intro: waiter_inv_mono)

lemma tc_inv_core:
  assumes "tc_inv s" "same_core (sys_tc s) tc'" "tc_lastAliveTime tc' = tc_lastAliveTime (sys_tc s)"
  shows "tc_inv (s\<lparr>sys_tc := tc'\<rparr>)"
proof -
  have "list_all (waiter_inv tc') (sys_waiters s)"
    using assms waiters_inv_mono [of "sys_tc s" "sys_waiters s" tc'] by (simp add: tc_inv_def same_core_def)
  with assms show ?thesis
    by (simp add: tc_inv_def same_core_def tc_inv_defs)
qed

text \<open>The invariant of the event goroutine's part of the state.\<close>

definition core_inv :: "int \<Rightarrow> tc_hpc \<Rightarrow> timeoutChecker \<Rightarrow> notif list \<Rightarrow> bool" where
  "core_inv now pc tc ns \<longleftrightarrow>
     chans_inv tc \<and> flag_inv pc tc \<and> notif_inv pc tc ns \<and> deadline_inv now pc tc"

lemma tc_inv_core_inv:
  "tc_inv s \<longleftrightarrow> core_inv (sys_now s) (sys_hpc s) (sys_tc s) (sys_notified s)
     \<and> list_all (waiter_inv (sys_tc s)) (sys_waiters s)"
  by (auto simp: tc_inv_def core_inv_def)

lemma setReconnected_inv:
  assumes "core_inv now HIdle tc ns" "same_core tc tc1" "setReconnected tc1 = (tc', pc)"
  shows "core_inv now pc tc' ns \<and> tc_nextCh tc \<le> tc_nextCh tc'"
proof -
  have "tc' = tc1\<lparr>tc_timeoutFlag := False\<rparr>" "pc = (if tc_timeoutFlag tc1 then HReconn else HIdle)"
    using assms(3) by (simp_all add: setReconnected_def split: if_splits)
  with assms(1,2) show ?thesis
    by (simp add: core_inv_def tc_inv_defs same_core_def)
qed

lemma newChan_inv:
  assumes "chans_inv tc"
  shows "chans_inv (close_ch (tc_reconnectedCh tc)
    (tc\<lparr>tc_reconnectedCh := Some (tc_nextCh tc), tc_nextCh := Suc (tc_nextCh tc)\<rparr>))"
  using assms by (cases "tc_reconnectedCh tc") (auto simp: chans_inv_def close_ch_def less_Suc_eq)

lemma dropChan_inv:
  assumes "chans_inv tc"
  shows "chans_inv (close_ch (tc_reconnectedCh tc) (tc\<lparr>tc_reconnectedCh := None\<rparr>))"
  using assms by (cases "tc_reconnectedCh tc") (auto simp: chans_inv_def close_ch_def)

lemma close_ch_simps [simp]:
  "tc_timeoutFlag (close_ch ch tc) = tc_timeoutFlag tc"
  "tc_reconnectedCh (close_ch ch tc) = tc_reconnectedCh tc"
  "tc_lastAliveTime (close_ch ch tc) = tc_lastAliveTime tc"
  "tc_heartbeatTimeout (close_ch ch tc) = tc_heartbeatTimeout tc"
  "tc_nextCh (close_ch ch tc) = tc_nextCh tc"
  by (cases ch; simp add: close_ch_def)+

lemma handleEvent_inv:
  assumes inv: "core_inv now HIdle tc ns" and step: "handleEvent c now tc = Some (tc', pc)"
  shows "core_inv now pc tc' ns \<and> tc_nextCh tc \<le> tc_nextCh tc'"
proof (cases c)
  case CaseUpdateNow
  with step show ?thesis
    using setReconnected_inv [OF inv, of "tc\<lparr>tc_updateNowChan := False, tc_lastAliveTime := unixMilli now\<rparr>"]
    by (simp add: handleEvent_def same_core_def split: if_splits)
next
  case CaseUpdateTime
  with step obtain msec rest where q: "tc_updateTimeChan tc = msec # rest"
    by (auto simp: handleEvent_def split: list.splits)
  let ?tc = "tc\<lparr>tc_updateTimeChan := rest, tc_lastAliveTime := msec\<rparr>"
  show ?thesis
  proof (cases "msec > tc_lastAliveTime tc \<and> tc_deadline ?tc > now")
    case True
    with CaseUpdateTime step q have "setReconnected ?tc = (tc', pc)"
      by (simp add: handleEvent_def Let_def)
    with setReconnected_inv [OF inv, of ?tc] show ?thesis
      by (simp add: same_core_def)
  next
    case False
    let ?tc1 = "tc\<lparr>tc_updateTimeChan := rest\<rparr>"
    from False CaseUpdateTime step q
    have "pc = HIdle" "tc' = (if msec > tc_lastAliveTime tc then ?tc else ?tc1)"
      by (simp_all add: handleEvent_def Let_def split: if_split_asm)
    with inv False show ?thesis
      by (cases "tc_lastAliveTime tc < msec") (simp_all add: core_inv_def tc_inv_defs not_less)
  qed
next
  case CaseTimeoutEvent
  show ?thesis
  proof (cases "tc_deadline tc < now \<and> \<not> tc_timeoutFlag tc")
    case True
    with CaseTimeoutEvent step have tc': "pc = HTimeout" "tc' = close_ch (tc_reconnectedCh tc)
        (tc\<lparr>tc_reconnectedCh := Some (tc_nextCh tc), tc_nextCh := Suc (tc_nextCh tc)\<rparr>)"
      by (simp_all add: handleEvent_def)
    have "chans_inv tc'"
      using inv newChan_inv unfolding tc' core_inv_def by blast
    with inv True tc' show ?thesis
      by (simp add: core_inv_def flag_inv_def notif_inv_def deadline_inv_def tc_deadline_def)
  next
    case False
    with CaseTimeoutEvent step inv show ?thesis
      by (auto simp: handleEvent_def)
  qed
next
  case CaseClose
  with inv step show ?thesis
    by (auto simp: handleEvent_def core_inv_def tc_inv_defs split: if_splits)
qed

lemma alternates_push: "alternates ns \<Longrightarrow> n \<noteq> last_notif ns \<Longrightarrow> alternates (n # ns)"
  by (cases ns; cases n) (auto simp: last_notif_def)

lemma handleEvent_finish_inv:
  assumes inv: "core_inv now pc tc ns" and step: "handleEvent_finish pc tc = Some (tc', n)"
  shows "core_inv now HIdle tc' (n # ns) \<and> tc_nextCh tc \<le> tc_nextCh tc'"
proof (cases pc)
  case HReconn
  with step have tc': "n = NReconnected" "tc' = close_ch (tc_reconnectedCh tc) (tc\<lparr>tc_reconnectedCh := None\<rparr>)"
    by (auto simp: handleEvent_finish_def)
  have "chans_inv tc'"
    using inv dropChan_inv unfolding tc' core_inv_def by blast
  with inv HReconn tc' show ?thesis
    by (auto simp: core_inv_def flag_inv_def notif_inv_def deadline_inv_def last_notif_def
        intro: alternates_push)
next
  case HTimeout
  with inv step show ?thesis
    by (auto simp: handleEvent_finish_def core_inv_def chans_inv_def flag_inv_def notif_inv_def
        deadline_inv_def tc_deadline_def intro: alternates_push split: if_splits)
      (auto simp: last_notif_def)
qed (use step in \<open>simp_all add: handleEvent_finish_def\<close>)

lemma waitReconnect_inv:
  assumes "chans_inv tc" "waiter_inv tc pc" "waitReconnect c tc pc = Some pc'"
  shows "waiter_inv tc pc'"
proof -
  have "ch < tc_nextCh tc" if "tc_reconnectedCh tc = Some ch" for ch
    using assms(1) that by (simp add: chans_inv_def)
  with assms(2,3) show ?thesis
    by (cases pc; cases "tc_reconnectedCh tc")
      (auto simp: waitReconnect_def split: if_splits option.splits wait_case.splits)
qed

lemma tc_start_inv: "tc_inv (tc_start hb now)"
  by (simp add: tc_inv_def tc_start_def newTimeoutChecker_def tc_inv_defs last_notif_def)

lemma tc_exec_inv:
  assumes inv: "tc_inv s" and step: "tc_exec a s = Some s'"
  shows "tc_inv s'"
proof (cases a)
  case (AHandle c)
  with step obtain tc pc where idle: "sys_hpc s = HIdle"
      and ev: "handleEvent c (sys_now s) (sys_tc s) = Some (tc, pc)"
      and s': "s' = s\<lparr>sys_tc := tc, sys_hpc := pc\<rparr>"
    by (auto simp: tc_exec_def split: if_splits)
  from handleEvent_inv [OF _ ev] inv idle show ?thesis
    by (auto simp: tc_inv_core_inv s' intro: waiters_inv_mono)
next
  case AOffer
  with step obtain tc pc cpc where idle: "sys_hpc s = HIdle"
      and ev: "handleEvent CaseTimeoutEvent (sys_now s) (sys_tc s) = Some (tc, pc)"
      and s': "s' = s\<lparr>sys_tc := tc, sys_hpc := pc, sys_cpc := cpc\<rparr>"
    by (auto simp: tc_exec_def split: if_splits)
  from handleEvent_inv [OF _ ev] inv idle show ?thesis
    by (auto simp: tc_inv_core_inv s' intro: waiters_inv_mono)
next
  case AHandleFinish
  with step obtain tc n where ev: "handleEvent_finish (sys_hpc s) (sys_tc s) = Some (tc, n)"
      and s': "s' = s\<lparr>sys_tc := tc, sys_hpc := HIdle, sys_notified := n # sys_notified s\<rparr>"
    by (auto simp: tc_exec_def)
  from handleEvent_finish_inv [OF _ ev] inv show ?thesis
    by (auto simp: tc_inv_core_inv s' intro: waiters_inv_mono)
next
  case (AWait i c)
  with step obtain pc where i: "i < length (sys_waiters s)"
      and w: "waitReconnect c (sys_tc s) (sys_waiters s ! i) = Some pc"
      and s': "s' = s\<lparr>sys_waiters := (sys_waiters s)[i := pc]\<rparr>"
    by (auto simp: tc_exec_def split: if_splits)
  from inv i have "waiter_inv (sys_tc s) pc"
    by (auto simp: tc_inv_def list_all_length intro: waitReconnect_inv [OF _ _ w])
  with inv show ?thesis
    by (auto simp: tc_inv_def s' list_all_iff dest!: set_update_subset_insert [THEN subsetD])
next
  case (AUpdateTime g m)
  with step obtain tc where "updateTime g m (sys_tc s) = Some tc" "s' = s\<lparr>sys_tc := tc\<rparr>"
    by (auto simp: tc_exec_def)
  with inv show ?thesis by (simp add: tc_inv_core same_core_ops same_alive_ops)
next
  case (ATick n)
  with inv step show ?thesis by (auto simp: tc_exec_def tc_inv_def deadline_inv_def tc_deadline_def)
next
  case (ACheck b)
  with inv step show ?thesis by (auto simp: tc_exec_def tc_inv_def)
next
  case AWaiter
  with inv step show ?thesis by (auto simp: tc_exec_def tc_inv_def)
qed (use inv step in \<open>auto simp: tc_exec_def tc_inv_core same_core_ops same_alive_ops\<close>)

interpretation tc: machine tc_exec tc_inv
  by unfold_locales (rule tc_exec_inv)

lemmas tc_run_inv = tc.run_inv [OF tc_start_inv]

section \<open>Properties\<close>

text \<open>A schedule with a timeout, a reconnection and a second timeout.\<close>

definition sample_acts :: "tc_act list" where
  "sample_acts =
     [ATick 5000000, ACheck False, AOffer, AHandleFinish, AUpdateNow, AHandle CaseUpdateNow,
      AHandleFinish, ATick 5000000, ACheck False, ACheck False, AOffer, AHandleFinish]"

text \<open>
  C31. No wakeup is lost: after any interleaving, when the event goroutine is idle and the checker
  is not in timeout, a goroutine that still waits in the select of \<open>waitReconnect\<close> has its channel
  closed, so its next two steps leave the select and return success.
\<close>

theorem waitReconnect_no_lost_wakeup:
  assumes run: "run_acts tc_exec as (tc_start hb now) = Some s"
    and idle: "sys_hpc s = HIdle" "\<not> isTimeout (sys_tc s)"
    and w: "i < length (sys_waiters s)" "sys_waiters s ! i = WSelect ch"
  shows "\<exists>s'. run_acts tc_exec [AWait i WaitStep, AWait i WaitStep] s = Some s'
    \<and> sys_waiters s' ! i = WRet WaitNil"
proof -
  have inv: "tc_inv s"
    using tc_run_inv [OF run] .
  with w have "ch < tc_nextCh (sys_tc s)"
    by (auto simp: tc_inv_def list_all_length dest: spec [of _ i])
  moreover have "tc_reconnectedCh (sys_tc s) = None"
    using inv idle by (auto simp: tc_inv_def flag_inv_def isTimeout_def)
  ultimately have "ch \<in> set (tc_closedChs (sys_tc s))"
    using inv by (simp add: tc_inv_def chans_inv_def)
  with idle w show ?thesis
    by (simp add: tc_exec_def waitReconnect_def)
qed

theorem waitReconnect_no_lost_wakeup_witness:
  "\<exists>s'. run_acts tc_exec [AWait 0 WaitStep, AWait 0 WaitStep]
      (the (run_acts tc_exec
         [ATick 5000000, ACheck False, AOffer, AHandleFinish, AWaiter, AWait 0 WaitStep, AWait 0 WaitStep,
          AUpdateNow, AHandle CaseUpdateNow, AHandleFinish] (tc_start 2000000 0))) = Some s'
    \<and> sys_waiters s' ! 0 = WRet WaitNil"
  by (rule waitReconnect_no_lost_wakeup
      [where hb = 2000000 and now = 0 and ch = 0 and
        as = "[ATick 5000000, ACheck False, AOffer, AHandleFinish, AWaiter, AWait 0 WaitStep,
          AWait 0 WaitStep, AUpdateNow, AHandle CaseUpdateNow, AHandleFinish]"]; code_simp)

text \<open>
  Whatever the interleaving of the event goroutine, the clock goroutine and the users of a
  checker, no reconnect channel is closed twice (which would panic), and the timeout and reconnect
  notifications alternate, starting with a timeout.
\<close>

lemma checker_closes_once_and_alternates:
  assumes "run_acts tc_exec as (tc_start hb now) = Some s"
  shows "distinct (tc_closedChs (sys_tc s)) \<and> alternates (sys_notified s)"
  using tc_run_inv [OF assms] by (simp add: tc_inv_def chans_inv_def notif_inv_def)

lemma checker_closes_once_and_alternates_witness:
  "distinct (tc_closedChs (sys_tc (the (run_acts tc_exec sample_acts (tc_start 2000000 0)))))
    \<and> alternates (sys_notified (the (run_acts tc_exec sample_acts (tc_start 2000000 0))))"
  by (rule checker_closes_once_and_alternates
      [where as = sample_acts and hb = 2000000 and now = 0]; code_simp)

text \<open>
  A timeout is never reported early: whenever \<open>isTimeout\<close> answers true, a full heartbeat
  timeout has passed since the last recorded sign of life.
\<close>

lemma timeout_only_after_silence:
  assumes "run_acts tc_exec as (tc_start hb now) = Some s" "isTimeout (sys_tc s)"
  shows "getAliveTime (sys_tc s) * milli + tc_heartbeatTimeout (sys_tc s) \<le> sys_now s"
  using tc_run_inv [OF assms(1)] assms(2)
  by (auto simp: tc_inv_def deadline_inv_def isTimeout_def getAliveTime_def tc_deadline_def)

lemma timeout_only_after_silence_witness:
  "getAliveTime (sys_tc (the (run_acts tc_exec sample_acts (tc_start 2000000 0)))) * milli
      + tc_heartbeatTimeout (sys_tc (the (run_acts tc_exec sample_acts (tc_start 2000000 0))))
    \<le> sys_now (the (run_acts tc_exec sample_acts (tc_start 2000000 0)))"
  by (rule timeout_only_after_silence [where as = sample_acts and hb = 2000000 and now = 0]; code_simp)

end
