(* ===== verification/CheckerSwap.thy ===== *)
theory CheckerSwap
  imports Checker
begin

text \<open>
  The timeout checker of an attachable session (\<open>attach.go\<close>): the session waits through a
  replaceable checker for whatever client it is attached to. The checkers of the clients are the
  machines of \<open>Checker\<close>; swapping closes a channel that releases the waiters of the old checker.
\<close>

section \<open>The replaceable checker\<close>

text \<open>
  \<open>rc_cancel\<close> is the number of the current cancel channel, \<open>rc_closed\<close> are the channels closed so far,
  \<open>rc_checkers\<close> the checkers of all clients, \<open>rc_checker\<close> the current one.
\<close>

datatype rc_pc =
    RTop
  | RNil nat
  | RHave nat nat
  | RSel nat nat nat
  | RGot nat wait_res
  | RRet wait_res

record replaceableTimeoutChecker =
  rc_cancel :: nat
  rc_closed :: "nat list"
  rc_checker :: "nat option"
  rc_checkers :: "tc_sys list"
  rc_waiters :: "rc_pc list"

definition newReplaceableTimeoutChecker :: "tc_sys \<Rightarrow> replaceableTimeoutChecker" where
  "newReplaceableTimeoutChecker tc =
     \<lparr>rc_cancel = 0, rc_closed = [], rc_checker = Some 0, rc_checkers = [tc], rc_waiters = []\<rparr>"

definition rc_swap :: "nat option \<Rightarrow> replaceableTimeoutChecker \<Rightarrow> replaceableTimeoutChecker" where
  "rc_swap newChecker c =
     c\<lparr>rc_closed := rc_cancel c # rc_closed c, rc_cancel := Suc (rc_cancel c), rc_checker := newChecker\<rparr>"

definition rc_isTimeout :: "replaceableTimeoutChecker \<Rightarrow> bool" where
  "rc_isTimeout c = (case rc_checker c of None \<Rightarrow> True | Some j \<Rightarrow> isTimeout (sys_tc (rc_checkers c ! j)))"

text \<open>
  The steps of \<open>waitUntilReconnected\<close>: the loads under the mutex, the wait on the cancel channel while
  detached, the test, the select over the goroutine that waits for the checker (\<open>w\<close> is its number
  there) and the cancel channel, and the comparison with the current checker.
\<close>

definition rc_wait :: "bool \<Rightarrow> nat \<Rightarrow> replaceableTimeoutChecker \<Rightarrow> replaceableTimeoutChecker option" where
  "rc_wait on_cancel i c =
     (if i < length (rc_waiters c) then
        (case rc_waiters c ! i of
           RTop \<Rightarrow> Some (c\<lparr>rc_waiters := (rc_waiters c)[i :=
             (case rc_checker c of None \<Rightarrow> RNil (rc_cancel c) | Some j \<Rightarrow> RHave j (rc_cancel c))]\<rparr>)
         | RNil ch \<Rightarrow>
             if ch \<in> set (rc_closed c) then Some (c\<lparr>rc_waiters := (rc_waiters c)[i := RTop]\<rparr>) else None
         | RHave j ch \<Rightarrow>
             if \<not> isTimeout (sys_tc (rc_checkers c ! j))
             then Some (c\<lparr>rc_waiters := (rc_waiters c)[i := RRet WaitNil]\<rparr>)
             else (case tc_exec AWaiter (rc_checkers c ! j) of
                 None \<Rightarrow> None
               | Some tc \<Rightarrow> Some (c\<lparr>rc_checkers := (rc_checkers c)[j := tc],
                   rc_waiters := (rc_waiters c)[i := RSel j ch (length (sys_waiters (rc_checkers c ! j)))]\<rparr>))
         | RSel j ch w \<Rightarrow>
             if on_cancel
             then if ch \<in> set (rc_closed c) then Some (c\<lparr>rc_waiters := (rc_waiters c)[i := RTop]\<rparr>) else None
             else (case sys_waiters (rc_checkers c ! j) ! w of
                 WRet r \<Rightarrow> Some (c\<lparr>rc_waiters := (rc_waiters c)[i := RGot j r]\<rparr>)
               | _ \<Rightarrow> None)
         | RGot j r \<Rightarrow>
             Some (c\<lparr>rc_waiters := (rc_waiters c)[i := (if rc_checker c = Some j then RRet r else RTop)]\<rparr>)
         | RRet r \<Rightarrow> None)
      else None)"

section \<open>The machine\<close>

text \<open>The goroutines of the checkers never see a cancelled context: they wait with the background one.\<close>

datatype rc_act =
    RcNew int int
  | RcSwap "nat option"
  | RcCall
  | RcWait bool nat
  | RcInner nat tc_act

fun background :: "tc_act \<Rightarrow> bool" where
  "background (AWait w WaitOnCtx) = False"
| "background b = True"

definition rc_exec :: "rc_act \<Rightarrow> replaceableTimeoutChecker \<Rightarrow> replaceableTimeoutChecker option" where
  "rc_exec a c =
     (case a of
        RcNew hb now \<Rightarrow> Some (c\<lparr>rc_checkers := rc_checkers c @ [tc_start hb now]\<rparr>)
      | RcSwap new \<Rightarrow>
          (case new of
             None \<Rightarrow> Some (rc_swap None c)
           | Some j \<Rightarrow> if j < length (rc_checkers c) then Some (rc_swap (Some j) c) else None)
      | RcCall \<Rightarrow> Some (c\<lparr>rc_waiters := rc_waiters c @ [RTop]\<rparr>)
      | RcWait on_cancel i \<Rightarrow> rc_wait on_cancel i c
      | RcInner j b \<Rightarrow>
          (if j < length (rc_checkers c) \<and> background b
           then map_option (\<lambda>tc. c\<lparr>rc_checkers := (rc_checkers c)[j := tc]\<rparr>) (tc_exec b (rc_checkers c ! j))
           else None))"

section \<open>The invariant\<close>

text \<open>A waiter knows the current checker as long as the channel it loaded with it is the current one.\<close>

definition loaded_ok :: "replaceableTimeoutChecker \<Rightarrow> nat option \<Rightarrow> nat \<Rightarrow> bool" where
  "loaded_ok c checker ch \<longleftrightarrow> ch \<le> rc_cancel c \<and> (ch = rc_cancel c \<longrightarrow> checker = rc_checker c)"

fun waiting_ok :: "replaceableTimeoutChecker \<Rightarrow> rc_pc \<Rightarrow> bool" where
  "waiting_ok c (RNil ch) \<longleftrightarrow> loaded_ok c None ch"
| "waiting_ok c (RHave j ch) \<longleftrightarrow> loaded_ok c (Some j) ch \<and> j < length (rc_checkers c)"
| "waiting_ok c (RSel j ch w) \<longleftrightarrow>
     loaded_ok c (Some j) ch \<and> j < length (rc_checkers c) \<and> w < length (sys_waiters (rc_checkers c ! j))"
| "waiting_ok c pc \<longleftrightarrow> True"

definition rc_inv :: "replaceableTimeoutChecker \<Rightarrow> bool" where
  "rc_inv c \<longleftrightarrow>
     rc_closed c = rev [0..<rc_cancel c] \<and>
     (\<forall>j. rc_checker c = Some j \<longrightarrow> j < length (rc_checkers c)) \<and>
     (\<forall>tc \<in> set (rc_checkers c). tc_inv tc) \<and>
     (\<forall>pc \<in> set (rc_waiters c). waiting_ok c pc)"

section \<open>Lemmas\<close>

text \<open>Waiters keep what they know when the checkers only get more waiters.\<close>

definition grows :: "tc_sys list \<Rightarrow> tc_sys list \<Rightarrow> bool" where
  "grows xs ys \<longleftrightarrow> length xs \<le> length ys \<and> (\<forall>j < length xs. length (sys_waiters (xs ! j)) \<le> length (sys_waiters (ys ! j)))"

lemma waiting_ok_grows:
  assumes "waiting_ok c pc" "grows (rc_checkers c) (rc_checkers c')" "rc_cancel c' = rc_cancel c" "rc_checker c' = rc_checker c"
  shows "waiting_ok c' pc"
proof (cases pc)
  case (RSel j ch w)
  with assms have "j < length (rc_checkers c)" "w < length (sys_waiters (rc_checkers c ! j))" by simp_all
  moreover from this(1) assms(2) have "length (sys_waiters (rc_checkers c ! j)) \<le> length (sys_waiters (rc_checkers c' ! j))"
      "j < length (rc_checkers c')" by (simp_all add: grows_def)
  ultimately show ?thesis using assms(1,3,4) RSel by (simp add: loaded_ok_def)
qed (use assms in \<open>simp_all add: grows_def loaded_ok_def\<close>)

lemma tc_exec_waiters: "tc_exec a s = Some s' \<Longrightarrow> length (sys_waiters s) \<le> length (sys_waiters s')"
  by (cases a) (auto simp: tc_exec_def split: if_splits)

lemma grows_upd:
  "j < length xs \<Longrightarrow> length (sys_waiters (xs ! j)) \<le> length (sys_waiters tc) \<Longrightarrow> grows xs (xs[j := tc])"
  by (auto simp: grows_def nth_list_update)

lemma rc_inv_checkers:
  assumes inv: "rc_inv c" and j: "j < length (rc_checkers c)" and e: "tc_exec b (rc_checkers c ! j) = Some tc"
  shows "rc_inv (c\<lparr>rc_checkers := (rc_checkers c)[j := tc]\<rparr>)"
proof -
  have tc: "tc_inv tc" using inv j tc_exec_inv [OF _ e] by (simp add: rc_inv_def)
  have g: "grows (rc_checkers c) ((rc_checkers c)[j := tc])" using grows_upd [OF j] tc_exec_waiters [OF e] by simp
  have "waiting_ok (c\<lparr>rc_checkers := (rc_checkers c)[j := tc]\<rparr>) pc" if "pc \<in> set (rc_waiters c)" for pc
    using inv that g by - (rule waiting_ok_grows [of c], simp_all add: rc_inv_def)
  with inv tc show ?thesis
    by (simp add: rc_inv_def) (metis insertE set_update_subset_insert subsetD)
qed

lemma rc_inv_waiter:
  assumes "rc_inv c" "waiting_ok c pc"
  shows "rc_inv (c\<lparr>rc_waiters := (rc_waiters c)[i := pc]\<rparr>)"
proof -
  have same: "waiting_ok (c\<lparr>rc_waiters := ws\<rparr>) q = waiting_ok c q" for ws q
    by (cases "(c, q)" rule: waiting_ok.cases) (simp_all add: loaded_ok_def)
  have "waiting_ok c q" if "q \<in> set ((rc_waiters c)[i := pc])" for q
    using set_update_subset_insert [of "rc_waiters c" i pc] assms that by (auto simp: rc_inv_def)
  with assms(1) show ?thesis by (simp add: rc_inv_def same)
qed

lemma rc_swap_inv:
  assumes "rc_inv c" "\<forall>j. new = Some j \<longrightarrow> j < length (rc_checkers c)"
  shows "rc_inv (rc_swap new c)"
proof -
  have "waiting_ok (rc_swap new c) pc" if "waiting_ok c pc" for pc
    using that by (cases "(c, pc)" rule: waiting_ok.cases) (auto simp: rc_swap_def loaded_ok_def)
  with assms show ?thesis by (simp add: rc_inv_def rc_swap_def)
qed

lemma rc_wait_inv:
  assumes inv: "rc_inv c" and e: "rc_wait on_cancel i c = Some c'"
  shows "rc_inv c'"
proof -
  have i: "i < length (rc_waiters c)" using e by (auto simp: rc_wait_def split: if_splits)
  then have wi: "waiting_ok c (rc_waiters c ! i)" using inv by (simp add: rc_inv_def)
  note upd = rc_inv_waiter [OF inv, of _ i]
  show ?thesis
  proof (cases "rc_waiters c ! i")
    case RTop
    have "waiting_ok c (case rc_checker c of None \<Rightarrow> RNil (rc_cancel c) | Some j \<Rightarrow> RHave j (rc_cancel c))"
      using inv by (auto simp: loaded_ok_def rc_inv_def split: option.splits)
    from upd [OF this] e i RTop show ?thesis by (auto simp: rc_wait_def)
  next
    case (RHave j ch)
    show ?thesis
    proof (cases "isTimeout (sys_tc (rc_checkers c ! j))")
      case False
      with e i RHave upd [of "RRet WaitNil"] show ?thesis by (auto simp: rc_wait_def)
    next
      case True
      then obtain tc where tc: "tc_exec AWaiter (rc_checkers c ! j) = Some tc"
        and c': "c' = (c\<lparr>rc_checkers := (rc_checkers c)[j := tc]\<rparr>)\<lparr>rc_waiters :=
          (rc_waiters c)[i := RSel j ch (length (sys_waiters (rc_checkers c ! j)))]\<rparr>"
        using e i RHave by (auto simp: rc_wait_def split: option.splits)
      have j: "j < length (rc_checkers c)" using wi RHave by simp
      have n: "sys_waiters tc = sys_waiters (rc_checkers c ! j) @ [WTop]" using tc by (auto simp: tc_exec_def)
      have "waiting_ok (c\<lparr>rc_checkers := (rc_checkers c)[j := tc]\<rparr>) (RSel j ch (length (sys_waiters (rc_checkers c ! j))))"
        using wi RHave j n by (simp add: loaded_ok_def)
      from rc_inv_waiter [OF rc_inv_checkers [OF inv j tc] this, of i] show ?thesis unfolding c' by simp
    qed
  next
    case (RNil ch)
    with e i upd [of RTop] show ?thesis by (auto simp: rc_wait_def split: if_splits)
  next
    case (RSel j ch w)
    have "c' = c\<lparr>rc_waiters := (rc_waiters c)[i := RTop]\<rparr> \<or> (\<exists>r. c' = c\<lparr>rc_waiters := (rc_waiters c)[i := RGot j r]\<rparr>)"
      using e i RSel by (auto simp: rc_wait_def split: if_splits tc_wpc.splits)
    with upd [of RTop] upd [of "RGot j r" for r] show ?thesis by auto
  next
    case (RGot j r)
    have "waiting_ok c (if rc_checker c = Some j then RRet r else RTop)" by simp
    from upd [OF this] e i RGot show ?thesis by (auto simp: rc_wait_def)
  next
    case (RRet r)
    with e i show ?thesis by (simp add: rc_wait_def)
  qed
qed

lemma rc_exec_inv:
  assumes inv: "rc_inv c" and e: "rc_exec a c = Some c'"
  shows "rc_inv c'"
proof (cases a)
  case (RcNew hb now)
  have "waiting_ok (c\<lparr>rc_checkers := rc_checkers c @ [tc_start hb now]\<rparr>) pc" if "pc \<in> set (rc_waiters c)" for pc
    using inv that by - (rule waiting_ok_grows [of c], auto simp: rc_inv_def grows_def nth_append)
  with inv e RcNew show ?thesis by (auto simp: rc_exec_def rc_inv_def tc_start_inv intro: less_SucI)
next
  case (RcSwap new)
  with e rc_swap_inv [OF inv, of new] show ?thesis by (auto simp: rc_exec_def split: option.splits if_splits)
next
  case RcCall
  have same: "waiting_ok (c\<lparr>rc_waiters := ws\<rparr>) q = waiting_ok c q" for ws q
    by (cases "(c, q)" rule: waiting_ok.cases) (simp_all add: loaded_ok_def)
  with e inv RcCall show ?thesis by (auto simp: rc_exec_def rc_inv_def)
next
  case (RcWait b i)
  with e rc_wait_inv [OF inv] show ?thesis by (simp add: rc_exec_def)
next
  case (RcInner j b)
  with e rc_inv_checkers [OF inv] show ?thesis by (auto simp: rc_exec_def split: if_splits)
qed

interpretation rc: machine rc_exec rc_inv
  by unfold_locales (rule rc_exec_inv)

lemma rc_start_inv: "tc_inv tc \<Longrightarrow> rc_inv (newReplaceableTimeoutChecker tc)"
  by (simp add: rc_inv_def newReplaceableTimeoutChecker_def)

text \<open>A goroutine that waits for a checker returns when the checker is not in timeout.\<close>

lemma inner_returns:
  assumes inv: "tc_inv s" "sys_hpc s = HIdle" "\<not> isTimeout (sys_tc s)" and w: "w < length (sys_waiters s)"
  shows "\<exists>n s' r. run_acts tc_exec (replicate n (AWait w WaitStep)) s = Some s' \<and> sys_waiters s' ! w = WRet r"
proof -
  have ch: "tc_reconnectedCh (sys_tc s) = None" using inv by (auto simp: tc_inv_def flag_inv_def isTimeout_def)
  have sel: "k \<in> set (tc_closedChs (sys_tc s))" if "sys_waiters s ! w = WSelect k" for k
  proof -
    have "waiter_inv (sys_tc s) (sys_waiters s ! w)" using inv w by (simp add: tc_inv_def list_all_length)
    with that have "k < tc_nextCh (sys_tc s)" by simp
    with inv ch show ?thesis by (simp add: tc_inv_def chans_inv_def)
  qed
  have steps: "run_acts tc_exec (replicate (Suc n) (AWait w WaitStep)) s = Some (s\<lparr>sys_waiters := (sys_waiters s)[w := pc']\<rparr>)"
    if a: "run_acts tc_exec (replicate n (AWait w WaitStep)) s = Some (s\<lparr>sys_waiters := (sys_waiters s)[w := pc]\<rparr>)"
      and b: "waitReconnect WaitStep (sys_tc s) pc = Some pc'" for n pc pc'
  proof -
    have "tc_exec (AWait w WaitStep) (s\<lparr>sys_waiters := (sys_waiters s)[w := pc]\<rparr>) = Some (s\<lparr>sys_waiters := (sys_waiters s)[w := pc']\<rparr>)"
      using b w by (simp add: tc_exec_def)
    from run_acts_snoc [OF a this] show ?thesis by (simp only: replicate_append_same replicate.simps(2))
  qed
  have start: "run_acts tc_exec (replicate 0 (AWait w WaitStep)) s = Some (s\<lparr>sys_waiters := (sys_waiters s)[w := sys_waiters s ! w]\<rparr>)"
    by simp
  have top: "waitReconnect WaitStep (sys_tc s) WTop = Some (WRet WaitNil)"
      "waitReconnect WaitStep (sys_tc s) (WPolled x) = Some (WRet WaitNil)"
      "waitReconnect WaitStep (sys_tc s) WPoll = Some (WPolled None)"
      "waitReconnect WaitStep (sys_tc s) WLoad = Some WPoll" for x
    using inv(3) ch by (simp_all add: waitReconnect_def)
  have sel': "waitReconnect WaitStep (sys_tc s) (WSelect k) = Some WTop" if "sys_waiters s ! w = WSelect k" for k
    using sel [OF that] by (simp add: waitReconnect_def)
  have "\<exists>n r. run_acts tc_exec (replicate n (AWait w WaitStep)) s = Some (s\<lparr>sys_waiters := (sys_waiters s)[w := WRet r]\<rparr>)"
  proof (cases "sys_waiters s ! w")
    case WTop
    from steps [OF start, of "WRet WaitNil"] WTop top show ?thesis by metis
  next
    case WLoad
    from steps [OF steps [OF steps [OF start]], of WPoll "WPolled None" "WRet WaitNil"] WLoad top show ?thesis by metis
  next
    case WPoll
    from steps [OF steps [OF start], of "WPolled None" "WRet WaitNil"] WPoll top show ?thesis by metis
  next
    case (WPolled x)
    from steps [OF start, of "WRet WaitNil"] WPolled top show ?thesis by metis
  next
    case (WSelect k)
    from steps [OF steps [OF start], of WTop "WRet WaitNil"] WSelect top sel' [OF WSelect] show ?thesis by metis
  next
    case (WRet r)
    with start show ?thesis by metis
  qed
  then show ?thesis using w by (metis nth_list_update_eq tc_sys.select_convs(4) tc_sys.surjective tc_sys.update_convs(4))
qed

lemma inner_run:
  assumes "run_acts tc_exec bs (rc_checkers c ! j) = Some tc" "j < length (rc_checkers c)" "\<forall>b \<in> set bs. background b"
  shows "run_acts rc_exec (map (RcInner j) bs) c = Some (c\<lparr>rc_checkers := (rc_checkers c)[j := tc]\<rparr>)"
  using assms
proof (induction bs arbitrary: c)
  case Nil
  then have "(rc_checkers c)[j := tc] = rc_checkers c" by auto
  then show ?case by simp
next
  case (Cons b bs)
  then obtain tc1 where 1: "tc_exec b (rc_checkers c ! j) = Some tc1" "run_acts tc_exec bs tc1 = Some tc"
    by (auto split: option.splits)
  have "run_acts rc_exec (map (RcInner j) bs) (c\<lparr>rc_checkers := (rc_checkers c)[j := tc1]\<rparr>) =
      Some (c\<lparr>rc_checkers := (rc_checkers c)[j := tc]\<rparr>)"
    using Cons.IH [of "c\<lparr>rc_checkers := (rc_checkers c)[j := tc1]\<rparr>"] 1(2) Cons.prems(2,3) by simp
  moreover have "rc_exec (RcInner j b) c = Some (c\<lparr>rc_checkers := (rc_checkers c)[j := tc1]\<rparr>)"
    using 1(1) Cons.prems(2,3) by (simp add: rc_exec_def)
  ultimately show ?case by simp
qed

text \<open>The current checker is not in timeout, and its event goroutine is at rest.\<close>

definition settled :: "replaceableTimeoutChecker \<Rightarrow> bool" where
  "settled c \<longleftrightarrow> \<not> rc_isTimeout c \<and> (\<forall>j. rc_checker c = Some j \<longrightarrow> sys_hpc (rc_checkers c ! j) = HIdle)"

text \<open>The steps of waiter \<open>i\<close> and of the goroutine it started.\<close>

fun own_step :: "nat \<Rightarrow> rc_act \<Rightarrow> bool" where
  "own_step i (RcWait b k) \<longleftrightarrow> k = i"
| "own_step i (RcInner j (AWait w WaitStep)) \<longleftrightarrow> True"
| "own_step i a \<longleftrightarrow> False"

definition can_return :: "nat \<Rightarrow> replaceableTimeoutChecker \<Rightarrow> bool" where
  "can_return i c \<longleftrightarrow> (\<exists>own c' r. list_all (own_step i) own \<and> run_acts rc_exec own c = Some c' \<and> rc_waiters c' ! i = RRet r)"

lemma can_return_step:
  assumes "can_return i c'" "rc_exec a c = Some c'" "own_step i a"
  shows "can_return i c"
proof -
  obtain own c2 r where "list_all (own_step i) own" "run_acts rc_exec own c' = Some c2" "rc_waiters c2 ! i = RRet r"
    using assms(1) unfolding can_return_def by blast
  then have "list_all (own_step i) (a # own)" "run_acts rc_exec (a # own) c = Some c2" using assms(2,3) by simp_all
  then show ?thesis using \<open>rc_waiters c2 ! i = RRet r\<close> unfolding can_return_def by blast
qed

lemma can_return_run:
  assumes "can_return i c'" "run_acts rc_exec as c = Some c'" "list_all (own_step i) as"
  shows "can_return i c"
  using assms(2,3)
proof (induction as arbitrary: c)
  case Nil
  with assms(1) show ?case by simp
next
  case (Cons a as)
  then obtain c1 where "rc_exec a c = Some c1" "run_acts rc_exec as c1 = Some c'" by (auto split: option.splits)
  with Cons can_return_step [of i c1 a c] show ?case by simp
qed

lemma can_return_ret: "rc_waiters c ! i = RRet r \<Longrightarrow> can_return i c"
  unfolding can_return_def by (intro exI [of _ "[]"] exI [of _ c] exI [of _ r]) simp

lemma can_return_to:
  "can_return i (c\<lparr>rc_waiters := (rc_waiters c)[i := pc]\<rparr>) \<Longrightarrow>
     rc_wait b i c = Some (c\<lparr>rc_waiters := (rc_waiters c)[i := pc]\<rparr>) \<Longrightarrow> can_return i c"
  by (rule can_return_step [where a = "RcWait b i"]) (simp_all add: rc_exec_def)

lemma top_can_return:
  assumes c: "settled c" "i < length (rc_waiters c)" "rc_waiters c ! i = RTop"
  shows "can_return i c"
proof -
  obtain j where j: "rc_checker c = Some j" "\<not> isTimeout (sys_tc (rc_checkers c ! j))"
    using c(1) by (auto simp: settled_def rc_isTimeout_def split: option.splits)
  let ?c1 = "c\<lparr>rc_waiters := (rc_waiters c)[i := RHave j (rc_cancel c)]\<rparr>"
  have "can_return i (?c1\<lparr>rc_waiters := (rc_waiters ?c1)[i := RRet WaitNil]\<rparr>)"
    by (rule can_return_ret [of _ _ WaitNil]) (simp add: c(2))
  then have "can_return i ?c1" by (rule can_return_to [of _ _ _ False]) (use c(2) j in \<open>simp add: rc_wait_def\<close>)
  then show ?thesis by (rule can_return_to [of _ _ _ False]) (use c(2,3) j in \<open>simp add: rc_wait_def\<close>)
qed

lemma settled_waiters [simp]: "settled (c\<lparr>rc_waiters := ws\<rparr>) = settled c"
  by (simp add: settled_def rc_isTimeout_def split: option.split)

text \<open>A waiter whose channel is closed gets back to the top.\<close>

lemma cancelled_can_return:
  assumes c: "rc_inv c" "settled c" "i < length (rc_waiters c)" "ch < rc_cancel c"
    and pc: "rc_waiters c ! i = RNil ch \<or> (\<exists>k w. rc_waiters c ! i = RSel k ch w)"
  shows "can_return i c"
proof -
  have "can_return i (c\<lparr>rc_waiters := (rc_waiters c)[i := RTop]\<rparr>)"
    by (rule top_can_return) (use c(2,3) in simp_all)
  moreover have "ch \<in> set (rc_closed c)" using c(1,4) by (simp add: rc_inv_def)
  ultimately show ?thesis using c(3) pc by (auto simp: rc_wait_def intro: can_return_to [of _ _ RTop True])
qed

lemma select_can_return:
  assumes c: "rc_inv c" "settled c" "i < length (rc_waiters c)" and pc: "rc_waiters c ! i = RSel j ch w"
  shows "can_return i c"
proof (cases "ch < rc_cancel c")
  case True
  with cancelled_can_return [OF c True] pc show ?thesis by blast
next
  case False
  have "waiting_ok c (RSel j ch w)" using c(1,3) pc unfolding rc_inv_def by (metis nth_mem)
  with False have j: "rc_checker c = Some j" "j < length (rc_checkers c)" and w: "w < length (sys_waiters (rc_checkers c ! j))"
    by (auto simp: loaded_ok_def)
  have tc: "tc_inv (rc_checkers c ! j)" "sys_hpc (rc_checkers c ! j) = HIdle" "\<not> isTimeout (sys_tc (rc_checkers c ! j))"
    using c(1,2) j by (simp_all add: rc_inv_def settled_def rc_isTimeout_def)
  obtain n tc' r where run: "run_acts tc_exec (replicate n (AWait w WaitStep)) (rc_checkers c ! j) = Some tc'"
    and ret: "sys_waiters tc' ! w = WRet r" using inner_returns [OF tc w] by blast
  let ?c1 = "c\<lparr>rc_checkers := (rc_checkers c)[j := tc']\<rparr>"
  let ?c2 = "?c1\<lparr>rc_waiters := (rc_waiters ?c1)[i := RGot j r]\<rparr>"
  have "can_return i (?c2\<lparr>rc_waiters := (rc_waiters ?c2)[i := RRet r]\<rparr>)"
    by (rule can_return_ret [of _ _ r]) (simp add: c(3))
  then have "can_return i ?c2" by (rule can_return_to [of _ _ _ False]) (use c(3) j in \<open>simp add: rc_wait_def\<close>)
  then have "can_return i ?c1" by (rule can_return_to [of _ _ _ False]) (use c(3) pc j ret in \<open>simp add: rc_wait_def\<close>)
  moreover have "run_acts rc_exec (map (RcInner j) (replicate n (AWait w WaitStep))) c = Some ?c1"
    by (rule inner_run [OF run j(2)]) simp
  ultimately show ?thesis by (rule can_return_run) (simp add: list_all_iff)
qed

lemma settled_can_return:
  assumes c: "rc_inv c" "settled c" "i < length (rc_waiters c)"
  shows "can_return i c"
proof -
  have wi: "waiting_ok c (rc_waiters c ! i)" using c(1,3) by (simp add: rc_inv_def)
  obtain j where j: "rc_checker c = Some j" "\<not> isTimeout (sys_tc (rc_checkers c ! j))"
    using c(2) by (auto simp: settled_def rc_isTimeout_def split: option.splits)
  show ?thesis
  proof (cases "rc_waiters c ! i")
    case RTop
    with c show ?thesis by (simp add: top_can_return)
  next
    case (RNil ch)
    with wi j have "ch < rc_cancel c" by (auto simp: loaded_ok_def)
    with cancelled_can_return [OF c this] RNil show ?thesis by blast
  next
    case (RHave k ch)
    show ?thesis
    proof (cases "isTimeout (sys_tc (rc_checkers c ! k))")
      case False
      have "can_return i (c\<lparr>rc_waiters := (rc_waiters c)[i := RRet WaitNil]\<rparr>)"
        by (rule can_return_ret [of _ _ WaitNil]) (simp add: c(3))
      then show ?thesis by (rule can_return_to [of _ _ _ False]) (use c(3) RHave False in \<open>simp add: rc_wait_def\<close>)
    next
      case True
      with j have kj: "k \<noteq> j" by auto
      obtain c1 where step: "rc_wait False i c = Some c1" and c1: "rc_waiters c1 ! i = RSel k ch (length (sys_waiters (rc_checkers c ! k)))"
        "rc_checker c1 = rc_checker c" "rc_checkers c1 ! j = rc_checkers c ! j" "length (rc_waiters c1) = length (rc_waiters c)"
        using RHave True c(3) kj by (simp add: rc_wait_def tc_exec_def)
      have "settled c1" using c(2) c1(2,3) j by (simp add: settled_def rc_isTimeout_def)
      with select_can_return [OF rc_wait_inv [OF c(1) step] _ _ c1(1)] c1(4) c(3) have "can_return i c1" by simp
      then show ?thesis by (rule can_return_step [of _ _ "RcWait False i"]) (simp_all add: rc_exec_def step)
    qed
  next
    case (RSel k ch w)
    with select_can_return [OF c] show ?thesis by blast
  next
    case (RGot k r)
    let ?pc = "if rc_checker c = Some k then RRet r else RTop"
    have "can_return i (c\<lparr>rc_waiters := (rc_waiters c)[i := ?pc]\<rparr>)"
      by (cases "rc_checker c = Some k") (use c in \<open>auto intro: can_return_ret top_can_return\<close>)
    then show ?thesis by (rule can_return_to [of _ _ _ False]) (use c(3) RGot in \<open>simp add: rc_wait_def\<close>)
  next
    case (RRet r)
    then show ?thesis by (rule can_return_ret)
  qed
qed

section \<open>Properties\<close>

text \<open>
  A session waiting for its client is released by whichever client is attached: after any
  interleaving of swaps, of the checkers' goroutines and of the waiters, if the current checker is not
  in timeout and its event goroutine is at rest, every goroutine inside \<open>waitUntilReconnected\<close> returns
  by its own steps alone, even if it started to wait for a checker that has been replaced, or while
  the session was detached. No cancel channel is closed twice.
\<close>

lemma reattached_waiter_returns:
  assumes "run_acts rc_exec acts (newReplaceableTimeoutChecker (tc_start hb now)) = Some c"
    and "\<not> rc_isTimeout c" "rc_checker c = Some j" "sys_hpc (rc_checkers c ! j) = HIdle"
    and "i < length (rc_waiters c)"
  shows "distinct (rc_closed c) \<and>
    (\<exists>own c' r. list_all (own_step i) own \<and> run_acts rc_exec own c = Some c' \<and> rc_waiters c' ! i = RRet r)"
proof -
  have inv: "rc_inv c" using rc.run_inv [OF rc_start_inv [OF tc_start_inv] assms(1)] .
  have "settled c" using assms(2-4) by (simp add: settled_def)
  from settled_can_return [OF inv this assms(5)] inv show ?thesis by (simp add: can_return_def rc_inv_def)
qed

text \<open>A waiter of the first client's checker, then a detach and an attach of a second client.\<close>

definition reattach_acts :: "rc_act list" where
  "reattach_acts =
     [RcInner 0 (ATick 5000000), RcInner 0 (ACheck False), RcInner 0 AOffer, RcInner 0 AHandleFinish,
      RcCall, RcWait False 0, RcWait False 0, RcSwap None, RcNew 2000000 0, RcSwap (Some 1)]"

lemma reattached_waiter_returns_witness:
  "\<exists>c own c' r. run_acts rc_exec reattach_acts (newReplaceableTimeoutChecker (tc_start 2000000 0)) = Some c
     \<and> rc_waiters c ! 0 = RSel 0 0 0 \<and> run_acts rc_exec own c = Some c' \<and> rc_waiters c' ! 0 = RRet r"
proof -
  have "case run_acts rc_exec reattach_acts (newReplaceableTimeoutChecker (tc_start 2000000 0)) of None \<Rightarrow> False
      | Some c \<Rightarrow> \<not> rc_isTimeout c \<and> rc_checker c = Some 1 \<and> sys_hpc (rc_checkers c ! 1) = HIdle
          \<and> 0 < length (rc_waiters c) \<and> rc_waiters c ! 0 = RSel 0 0 0" by code_simp
  then obtain c where c: "run_acts rc_exec reattach_acts (newReplaceableTimeoutChecker (tc_start 2000000 0)) = Some c"
      "\<not> rc_isTimeout c" "rc_checker c = Some 1" "sys_hpc (rc_checkers c ! 1) = HIdle" "0 < length (rc_waiters c)"
      "rc_waiters c ! 0 = RSel 0 0 0"
    by (auto split: option.splits)
  from reattached_waiter_returns [OF c(1-5)] c(1,6) show ?thesis by blast
qed

end
