(* ===== verification/Tmux.thy ===== *)
theory Tmux
  imports Go_Strings
begin

text \<open>
  The tmux control mode support of \<open>tmuxcc.go\<close>: finding the output prefix of a pane in cached
  lines and encoding a text as a control mode output line. \<open>decodeTmux\<close> is the reading of such a
  line by tmux's protocol: a backslash and three octal digits stand for one byte.
\<close>

section \<open>Definitions\<close>

definition maxPendingOutputLines :: nat where "maxPendingOutputLines = 1000"

fun extractTmuxOutputPrefix_loop :: "nat \<Rightarrow> bytes list \<Rightarrow> bytes" where
  "extractTmuxOutputPrefix_loop count [] = []"
| "extractTmuxOutputPrefix_loop count (line # lines) =
     (if line = [] \<or> hd line \<noteq> c2b (CHR ''%'') then extractTmuxOutputPrefix_loop count lines
      else
        let idx = (if has_prefix line (str_bytes ''%output %'') then 8
                   else if has_prefix line (str_bytes ''%extended-output %'') then 17 else 0)
        in if idx > 0 then
             (if Suc count \<ge> min 10 maxPendingOutputLines then
                (case index_elem (drop idx line) (c2b (CHR '' '')) of
                   Some pos \<Rightarrow>
                     if pos > 0 then str_bytes ''%output '' @ take (Suc pos) (drop idx line)
                     else extractTmuxOutputPrefix_loop (Suc count) lines
                 | None \<Rightarrow> extractTmuxOutputPrefix_loop (Suc count) lines)
              else extractTmuxOutputPrefix_loop (Suc count) lines)
           else extractTmuxOutputPrefix_loop count lines)"

definition extractTmuxOutputPrefix :: "bytes list \<Rightarrow> bytes" where
  "extractTmuxOutputPrefix cacheLines = extractTmuxOutputPrefix_loop 0 cacheLines"

definition digit :: "nat \<Rightarrow> byte" where
  "digit d = word_of_nat (48 + d)"

definition octal3 :: "byte \<Rightarrow> bytes" where
  "octal3 b = [digit (unat b div 64), digit (unat b div 8 mod 8), digit (unat b mod 8)]"

definition needs_escape :: "byte \<Rightarrow> bool" where
  "needs_escape b \<longleftrightarrow> b < c2b (CHR '' '') \<or> b = 92 \<or> b > c2b (CHR ''~'')"

definition encodeTmux_byte :: "byte \<Rightarrow> bytes" where
  "encodeTmux_byte b = (if needs_escape b then 92 # octal3 b else [b])"

definition encodeTmuxOutput :: "bytes \<Rightarrow> bytes \<Rightarrow> bytes" where
  "encodeTmuxOutput prefix output = prefix @ concat (map encodeTmux_byte output) @ [13, 10]"

fun decodeTmux :: "bytes \<Rightarrow> bytes" where
  "decodeTmux [] = []"
| "decodeTmux (b # bs) =
     (if b = 92 then
        (case bs of
           x # y # z # rest \<Rightarrow>
             word_of_nat ((unat x - 48) * 64 + (unat y - 48) * 8 + (unat z - 48)) # decodeTmux rest
         | _ \<Rightarrow> [])
      else b # decodeTmux bs)"

section \<open>Lemmas\<close>

lemma digit_value: "d < 8 \<Longrightarrow> unat (digit d) = 48 + d"
  unfolding digit_def by (simp add: unsigned_of_nat take_bit_nat_eq_self del: of_nat_add)

lemma octal_value: "(n :: nat) div 64 * 64 + n div 8 mod 8 * 8 + n mod 8 = n"
proof -
  have "n div 64 = n div 8 div 8"
    by (simp add: div_mult2_eq [symmetric])
  moreover have "n div 8 div 8 * 8 + n div 8 mod 8 = n div 8"
    by (rule div_mult_mod_eq)
  moreover have "n div 8 * 8 + n mod 8 = n"
    by (rule div_mult_mod_eq)
  ultimately show ?thesis by linarith
qed

lemma octal_digits: "unat (b :: byte) div 64 < 8" "unat b div 8 mod 8 < 8" "unat b mod 8 < 8"
  using unat_bound [of b] by auto

lemma decode_octal3: "decodeTmux (92 # octal3 b @ rest) = b # decodeTmux rest"
proof -
  have "(unat (digit (unat b div 64)) - 48) * 64 + (unat (digit (unat b div 8 mod 8)) - 48) * 8
      + (unat (digit (unat b mod 8)) - 48) = unat b"
    using octal_value [of "unat b"] octal_digits [of b] by (simp add: digit_value)
  then show ?thesis
    by (simp add: octal3_def del: of_nat_add of_nat_mult)
qed

lemma decode_byte: "decodeTmux (encodeTmux_byte b @ rest) = b # decodeTmux rest"
proof (cases "needs_escape b")
  case True
  then show ?thesis using decode_octal3 [of b rest] by (simp add: encodeTmux_byte_def)
next
  case False
  then show ?thesis by (simp add: encodeTmux_byte_def needs_escape_def)
qed

lemma octal3_printable: "c \<in> set (octal3 b) \<Longrightarrow> 48 \<le> unat c \<and> unat c \<le> 55"
  using octal_digits [of b] by (auto simp: octal3_def digit_value)

lemma encodeTmux_byte_printable: "c \<in> set (encodeTmux_byte b) \<Longrightarrow> 32 \<le> unat c \<and> unat c \<le> 126"
  by (auto simp: encodeTmux_byte_def needs_escape_def c2b_def word_less_nat_alt
      split: if_splits dest!: octal3_printable)

section \<open>Properties\<close>

text \<open>
  The control mode encoding loses nothing and cannot break the line: decoding the body of an
  encoded output line gives the output back, and the body has printable ASCII bytes only, whatever
  bytes the output has.
\<close>

lemma encodeTmuxOutput_roundtrip:
  "\<exists>body. encodeTmuxOutput prefix out = prefix @ body @ [13, 10] \<and> decodeTmux body = out
    \<and> list_all (\<lambda>c. 32 \<le> unat c \<and> unat c \<le> 126) body"
proof (intro exI conjI)
  show "encodeTmuxOutput prefix out = prefix @ concat (map encodeTmux_byte out) @ [13, 10]"
    by (simp add: encodeTmuxOutput_def)
  show "decodeTmux (concat (map encodeTmux_byte out)) = out"
    by (induction out) (simp_all add: decode_byte)
  show "list_all (\<lambda>c. 32 \<le> unat c \<and> unat c \<le> 126) (concat (map encodeTmux_byte out))"
    by (auto simp: list_all_iff dest: encodeTmux_byte_printable)
qed

end
