(* ===== verification/Output.thy ===== *)
theory Output
  imports Tmux
begin

text \<open>
  The server's output forwarder of \<open>output.go\<close> (\<open>serverOutputForwarder\<close>): chunks read from a
  session go through a one-element queue to the writer goroutine, or into a cache of lines while
  the client is away, and the cache is replayed after a reconnection.

  The other goroutines (the writer, the heartbeat checker, reconnect notifications, resize and
  discard requests) act through \<open>f_script\<close>: every shared access of the forwarder first lets the
  next batch of their actions happen (\<open>sync\<close>), and a wait consumes a batch or, when no batch is
  left, is \<open>Blocked\<close>. Two ghost fields record what became of the data: \<open>f_sent\<close>, what the writer
  passed to the stream, and \<open>f_dropped\<close>, what the forwarder gave up. Counters are unbounded.
\<close>

section \<open>State\<close>

text \<open>The four ways \<open>SetSize(0, 0, true, true, nil)\<close> ends (\<open>session.go\<close>).\<close>

datatype set_size_out = SzClosed | SzOk | SzNotPty | SzFail

datatype sof_env =
    EWrite | EWriteFail | ETimeout bool | EKeep bool | ERows int | EDiscardOutput
  | EMarker bytes | EReconnected | EReturned | ECheckerClosed | ESetSize set_size_out | EDetach bool

record sof =
  f_cacheLines :: "bytes list"
  f_tmuxOutputPrefix :: bytes
  f_chHasNewLine :: bool
  f_noNewLineCount :: nat
  f_discardLines :: nat
  f_discardBytes :: nat
  f_voidedCapacity :: nat
  f_discardOutput :: bool
  f_discardMarker :: "bytes option"
  f_writeBufCh :: "bytes option"
  f_reconnectPending :: bool
  f_returned :: bool
  f_writeError :: bool
  f_timeout :: bool
  f_keep :: bool
  f_rows :: int
  f_checkerClosed :: bool
  f_setSize :: set_size_out
  f_attached :: bool
  f_script :: "sof_env list list"
  f_sent :: "bytes list"
  f_dropped :: "bytes list"
  f_discardMsgs :: "(nat \<times> nat) list"

datatype flow = Next | Stop | Blocked

definition newOutputForwarder :: "int \<Rightarrow> sof_env list list \<Rightarrow> sof" where
  "newOutputForwarder rows script =
     \<lparr>f_cacheLines = [], f_tmuxOutputPrefix = [], f_chHasNewLine = False, f_noNewLineCount = 0,
      f_discardLines = 0, f_discardBytes = 0, f_voidedCapacity = 0, f_discardOutput = False,
      f_discardMarker = None, f_writeBufCh = None, f_reconnectPending = False, f_returned = False,
      f_writeError = False, f_timeout = False, f_keep = False, f_rows = rows,
      f_checkerClosed = False, f_setSize = SzOk, f_attached = True, f_script = script,
      f_sent = [], f_dropped = [], f_discardMsgs = []\<rparr>"

definition drop_log :: "bytes list \<Rightarrow> sof \<Rightarrow> sof" where
  "drop_log bs f = f\<lparr>f_dropped := f_dropped f @ bs\<rparr>"

section \<open>The other goroutines\<close>

text \<open>
  One round of \<open>writerLoop\<close>: it takes the queued buffer and writes it, or fails and returns. The
  pacer only delays it.
\<close>

definition writerLoop :: "bool \<Rightarrow> sof \<Rightarrow> sof" where
  "writerLoop ok f =
     (case f_writeBufCh f of
        None \<Rightarrow> f
      | Some buf \<Rightarrow>
          if f_writeError f then f
          else if ok then f\<lparr>f_writeBufCh := None, f_sent := f_sent f @ [buf]\<rparr>
          else drop_log [buf] (f\<lparr>f_writeBufCh := None, f_writeError := True\<rparr>))"

fun env_step :: "sof_env \<Rightarrow> sof \<Rightarrow> sof" where
  "env_step EWrite f = writerLoop True f"
| "env_step EWriteFail f = writerLoop False f"
| "env_step (ETimeout b) f = f\<lparr>f_timeout := b\<rparr>"
| "env_step (EKeep b) f = f\<lparr>f_keep := b\<rparr>"
| "env_step (ERows r) f = f\<lparr>f_rows := r\<rparr>"
| "env_step EDiscardOutput f = f\<lparr>f_discardOutput := True\<rparr>"
| "env_step (EMarker m) f = f\<lparr>f_discardMarker := Some m\<rparr>"
| "env_step EReconnected f = (if f_returned f then f else f\<lparr>f_reconnectPending := True\<rparr>)"
| "env_step EReturned f = f\<lparr>f_returned := True\<rparr>"
| "env_step ECheckerClosed f = f\<lparr>f_checkerClosed := True\<rparr>"
| "env_step (ESetSize out) f = f\<lparr>f_setSize := out\<rparr>"
| "env_step (EDetach b) f = f\<lparr>f_attached := b\<rparr>"

definition env_batch :: "sof_env list \<Rightarrow> sof \<Rightarrow> sof" where
  "env_batch es f = fold env_step es f"

definition sync :: "sof \<Rightarrow> sof" where
  "sync f = (case f_script f of [] \<Rightarrow> f | b # bs \<Rightarrow> env_batch b (f\<lparr>f_script := bs\<rparr>))"

definition wait_step :: "sof \<Rightarrow> sof option" where
  "wait_step f = (case f_script f of [] \<Rightarrow> None | b # bs \<Rightarrow> Some (env_batch b (f\<lparr>f_script := bs\<rparr>)))"

section \<open>The cache\<close>

definition next_line :: "bytes \<Rightarrow> nat" where
  "next_line buf =
     (case index_elem buf 10 of
        Some p \<Rightarrow> Suc p
      | None \<Rightarrow> (case index_elem buf 13 of Some p \<Rightarrow> Suc p | None \<Rightarrow> length buf))"

definition add_line :: "bytes list \<Rightarrow> bytes \<Rightarrow> bytes list" where
  "add_line cl line =
     (if cl = [] then [line]
      else let l = last cl; b = last l
        in if b \<noteq> 10 \<and> (b \<noteq> 13 \<or> hd line = 10) \<and> length l < 1000
           then butlast cl @ [l @ line] else cl @ [line])"

lemma next_line_bounds: "buf \<noteq> [] \<Longrightarrow> 0 < next_line buf \<and> next_line buf \<le> length buf"
  by (auto simp: next_line_def split: option.splits dest: index_elem_Some)

function add_lines :: "bytes \<Rightarrow> bytes list \<Rightarrow> bytes list" where
  "add_lines buf cl =
     (if buf = [] then cl
      else add_lines (drop (next_line buf) buf) (add_line cl (take (next_line buf) buf)))"
  by pat_completeness auto
termination
  by (relation "measure (\<lambda>(buf, cl). length buf)") (auto simp: next_line_bounds)

declare add_lines.simps [simp del]

definition maxLines :: "sof \<Rightarrow> nat" where
  "maxLines f = nat (max (int maxPendingOutputLines) (f_rows f * 2))"

definition cacheOutput :: "bytes \<Rightarrow> sof \<Rightarrow> sof" where
  "cacheOutput buf f =
     (let cl = add_lines buf (f_cacheLines f); ml = maxLines f
      in if length cl > ml then
           (let dropLines = length cl - ml;
                prefix = (if f_discardLines f = 0 then extractTmuxOutputPrefix cl else f_tmuxOutputPrefix f);
                voided = f_voidedCapacity f + dropLines
            in drop_log (take dropLines cl)
                 (f\<lparr>f_cacheLines := drop dropLines cl, f_tmuxOutputPrefix := prefix,
                    f_discardLines := f_discardLines f + dropLines,
                    f_discardBytes := f_discardBytes f + sum_list (map length (take dropLines cl)),
                    f_voidedCapacity := (if voided > ml then 0 else voided)\<rparr>))
         else f\<lparr>f_cacheLines := cl\<rparr>)"

definition clearOutput :: "sof \<Rightarrow> sof" where
  "clearOutput f =
     (let dl = f_discardLines f + length (f_cacheLines f);
          db = f_discardBytes f + sum_list (map length (f_cacheLines f));
          msgs = (if dl > 0 \<and> f_attached f then f_discardMsgs f @ [(dl, db)] else f_discardMsgs f)
      in drop_log (f_cacheLines f)
           (f\<lparr>f_discardMsgs := msgs, f_discardLines := 0, f_discardBytes := 0, f_cacheLines := [],
              f_chHasNewLine := False, f_noNewLineCount := 0\<rparr>))"

section \<open>Script lemmas for termination\<close>

lemma writerLoop_script [simp]: "f_script (writerLoop ok f) = f_script f"
  by (simp add: writerLoop_def drop_log_def split: option.splits)

lemma env_step_script [simp]: "f_script (env_step e f) = f_script f"
  by (cases "(e, f)" rule: env_step.cases) auto

lemma env_batch_script [simp]: "f_script (env_batch es f) = f_script f"
  unfolding env_batch_def by (induction es arbitrary: f) simp_all

lemma sync_script [simp]: "f_script (sync f) = tl (f_script f)"
  by (simp add: sync_def split: list.splits)

lemma wait_step_script: "wait_step f = Some f' \<Longrightarrow> length (f_script f') < length (f_script f)"
  by (auto simp: wait_step_def split: list.splits)

section \<open>Waiting for the queue\<close>

datatype enq = Sent | TimedOut | Gone | Stuck

text \<open>The send loop of \<open>flushOutput\<close>.\<close>

function enqueue_flush :: "bytes \<Rightarrow> sof \<Rightarrow> enq \<times> sof" where
  "enqueue_flush line f =
     (let f1 = sync f
      in if f_writeBufCh f1 = None then (Sent, f1\<lparr>f_writeBufCh := Some line\<rparr>)
         else let f2 = sync f1
           in if f_timeout f2 then (TimedOut, f2)
              else let f3 = sync f2
                in if f_returned f3 \<or> f_writeError f3 then (Gone, f3)
                   else (case wait_step f3 of None \<Rightarrow> (Stuck, f3) | Some f4 \<Rightarrow> enqueue_flush line f4))"
  by pat_completeness auto
termination
  by (relation "measure (\<lambda>(line, f). length (f_script f))") (auto dest!: wait_step_script)

declare enqueue_flush.simps [simp del]

function enqueueWhileDisconnected :: "bytes \<Rightarrow> sof \<Rightarrow> enq \<times> sof" where
  "enqueueWhileDisconnected buf f =
     (let f1 = sync f
      in if f_writeBufCh f1 = None then (Sent, f1\<lparr>f_writeBufCh := Some buf\<rparr>)
         else let f2 = sync f1
           in if f_returned f2 \<or> f_writeError f2 then (Gone, f2)
              else (case wait_step f2 of None \<Rightarrow> (Stuck, f2) | Some f3 \<Rightarrow> enqueueWhileDisconnected buf f3))"
  by pat_completeness auto
termination
  by (relation "measure (\<lambda>(buf, f). length (f_script f))") (auto dest!: wait_step_script)

declare enqueueWhileDisconnected.simps [simp del]

text \<open>\<open>waitUntilReconnected\<close> of the session's checker: \<open>Stop\<close> when the checker was closed.\<close>

function wait_reconnected :: "sof \<Rightarrow> flow \<times> sof" where
  "wait_reconnected f =
     (if \<not> f_timeout f then (Next, f)
      else if f_checkerClosed f then (Stop, f)
      else (case wait_step f of None \<Rightarrow> (Blocked, f) | Some f1 \<Rightarrow> wait_reconnected f1))"
  by pat_completeness auto
termination
  by (relation "measure (\<lambda>f. length (f_script f))") (auto dest!: wait_step_script)

declare wait_reconnected.simps [simp del]

section \<open>Replaying the cache\<close>

definition esc6n :: bytes where "esc6n = [27, 91, 54, 110]"

definition warning_line :: "sof \<Rightarrow> bytes" where
  "warning_line f =
     (let cl = f_cacheLines f;
          newline = (if cl \<noteq> [] \<and> hd cl \<noteq> [] \<and> last (hd cl) = 13 then [13] else [13, 10]);
          line = [13, 27] @ str_bytes (''[0;33mWarning: tsshd discarded '' @ nat_str (f_discardLines f)
                   @ '' lines '' @ nat_str (f_discardBytes f)
                   @ '' bytes of output during client disconnection at this point!'')
                 @ [27] @ str_bytes ''[0m'' @ [27] @ str_bytes ''[K'' @ newline
      in if f_tmuxOutputPrefix f \<noteq> [] then encodeTmuxOutput (f_tmuxOutputPrefix f) line else line)"

text \<open>The loop over the cached lines, at index \<open>i\<close>.\<close>

fun flush_lines :: "nat \<Rightarrow> bytes list \<Rightarrow> sof \<Rightarrow> flow \<times> sof" where
  "flush_lines i [] f = (Next, f\<lparr>f_cacheLines := [], f_chHasNewLine := False, f_noNewLineCount := 0\<rparr>)"
| "flush_lines i (l # ls) f =
     (let line = remove_sub l esc6n
      in if line = [] then flush_lines (Suc i) ls f
         else (case enqueue_flush line f of
             (Sent, f1) \<Rightarrow> flush_lines (Suc i) ls f1
           | (TimedOut, f1) \<Rightarrow>
               (Next, if i > 0 then f1\<lparr>f_cacheLines := drop i (f_cacheLines f1)\<rparr> else f1)
           | (Gone, f1) \<Rightarrow> (Next, drop_log [l] f1)
           | (Stuck, f1) \<Rightarrow> (Blocked, f1)))"

definition flush_from_start :: "sof \<Rightarrow> flow \<times> sof" where
  "flush_from_start f =
     (if f_discardLines f = 0 then flush_lines 0 (f_cacheLines f) f
      else (case enqueue_flush (warning_line f) f of
          (Sent, f1) \<Rightarrow> flush_lines 0 (f_cacheLines f1) (f1\<lparr>f_discardLines := 0, f_discardBytes := 0\<rparr>)
        | (TimedOut, f1) \<Rightarrow> (Next, f1)
        | (Gone, f1) \<Rightarrow> (Next, drop_log [] f1)
        | (Stuck, f1) \<Rightarrow> (Blocked, f1)))"

definition flushOutput :: "sof \<Rightarrow> flow \<times> sof" where
  "flushOutput f0 =
     (let f = sync f0
      in if f_cacheLines f = [] \<or> f_timeout f then (Next, f)
         else if f_discardLines f > 0 then
           (case f_setSize f of
              SzClosed \<Rightarrow> (Next, clearOutput f)
            | SzOk \<Rightarrow> (Next, clearOutput (f\<lparr>f_discardOutput := True\<rparr>))
            | SzNotPty \<Rightarrow> flush_from_start f
            | SzFail \<Rightarrow> flush_from_start (f\<lparr>f_discardOutput := True\<rparr>))
         else flush_from_start f)"

section \<open>Handling a chunk\<close>

text \<open>The branch of the send loop for a client that is away: the queued buffer is taken back first.\<close>

definition send_away :: "bytes \<Rightarrow> sof \<Rightarrow> flow \<times> sof" where
  "send_away buf0 f0 =
     (let f1 = sync f0;
          buf = (case f_writeBufCh f1 of None \<Rightarrow> buf0 | Some b \<Rightarrow> b @ buf0);
          f = f1\<lparr>f_writeBufCh := None\<rparr>
      in case index_elem buf 10 of
           None \<Rightarrow>
             (case enqueueWhileDisconnected buf f of
                (Sent, f2) \<Rightarrow>
                  (Next, if f_noNewLineCount f < 3 then f2\<lparr>f_noNewLineCount := Suc (f_noNewLineCount f2)\<rparr>
                         else f2\<lparr>f_chHasNewLine := True\<rparr>)
              | (Stuck, f2) \<Rightarrow> (Blocked, f2)
              | (_, f2) \<Rightarrow> (Stop, drop_log [buf] f2))
         | Some pos \<Rightarrow>
             (case enqueueWhileDisconnected (take (Suc pos) buf) f of
                (Sent, f2) \<Rightarrow>
                  (let left = drop (Suc pos) buf; f3 = (if left \<noteq> [] then cacheOutput left f2 else f2)
                   in (Next, f3\<lparr>f_chHasNewLine := True\<rparr>))
              | (Stuck, f2) \<Rightarrow> (Blocked, f2)
              | (_, f2) \<Rightarrow> (Stop, drop_log [buf] f2)))"

section \<open>What waiting can change\<close>

text \<open>\<open>env_reach f g\<close>: the other goroutines alone lead from \<open>f\<close> to \<open>g\<close>.\<close>

inductive env_reach :: "sof \<Rightarrow> sof \<Rightarrow> bool" where
  env_refl: "env_reach f f"
| env_batch: "f_script f = b # bs \<Longrightarrow> env_reach (env_batch b (f\<lparr>f_script := bs\<rparr>)) g \<Longrightarrow> env_reach f g"

lemma env_reach_trans: "env_reach f g \<Longrightarrow> env_reach g h \<Longrightarrow> env_reach f h"
  by (induction rule: env_reach.induct) (auto intro: env_reach.intros)

lemma env_reach_sync [simp]: "env_reach f (sync f)"
  by (cases "f_script f") (auto simp: sync_def intro: env_reach.intros)

lemma env_reach_wait: "wait_step f = Some g \<Longrightarrow> env_reach f g"
  by (auto simp: wait_step_def split: list.splits intro: env_reach.intros)

lemma env_reach_syncs:
  "env_reach f (sync (sync f))" "env_reach f (sync (sync (sync f)))"
  by (blast intro: env_reach_trans env_reach_sync)+

lemma enqueue_flush_cases:
  "enqueue_flush line f = (r, f') \<Longrightarrow>
   \<exists>g. env_reach f g \<and> (if r = Sent then f_writeBufCh g = None \<and> f' = g\<lparr>f_writeBufCh := Some line\<rparr>
         else f' = g \<and> (r = TimedOut \<longrightarrow> f_timeout g) \<and> (r = Gone \<longrightarrow> f_returned g \<or> f_writeError g))"
proof (induction line f arbitrary: r f' rule: enqueue_flush.induct)
  case (1 line f)
  note unfold = enqueue_flush.simps [of line f] Let_def
  let ?f2 = "sync (sync f)" and ?f3 = "sync (sync (sync f))"
  consider "f_writeBufCh (sync f) = None"
    | "f_writeBufCh (sync f) \<noteq> None" "f_timeout ?f2"
    | "f_writeBufCh (sync f) \<noteq> None" "\<not> f_timeout ?f2" "f_returned ?f3 \<or> f_writeError ?f3"
    | (wait) "f_writeBufCh (sync f) \<noteq> None" "\<not> f_timeout ?f2" "\<not> (f_returned ?f3 \<or> f_writeError ?f3)"
    by blast
  then show ?case
  proof cases
    case 1
    with "1.prems" show ?thesis by (intro exI [of _ "sync f"]) (simp add: unfold)
  next
    case 2
    with "1.prems" show ?thesis by (intro exI [of _ ?f2]) (auto simp: unfold env_reach_syncs)
  next
    case 3
    with "1.prems" show ?thesis by (intro exI [of _ ?f3]) (auto simp: unfold env_reach_syncs)
  next
    case wait
    show ?thesis
    proof (cases "wait_step ?f3")
      case None
      with wait "1.prems" show ?thesis
        by (intro exI [of _ ?f3]) (auto simp: unfold env_reach_syncs)
    next
      case (Some f4)
      with wait "1.prems" have "enqueue_flush line f4 = (r, f')" by (auto simp: unfold)
      from "1.IH" [OF refl wait(1) refl wait(2) refl wait(3) Some this] obtain g where
        g: "env_reach f4 g" "if r = Sent then f_writeBufCh g = None \<and> f' = g\<lparr>f_writeBufCh := Some line\<rparr>
          else f' = g \<and> (r = TimedOut \<longrightarrow> f_timeout g) \<and> (r = Gone \<longrightarrow> f_returned g \<or> f_writeError g)" by blast
      then have "env_reach f g"
        using env_reach_wait [OF Some] env_reach_syncs(2) by (blast intro: env_reach_trans)
      with g(2) show ?thesis by blast
    qed
  qed
qed

lemma enqueueWhileDisconnected_cases:
  "enqueueWhileDisconnected buf f = (r, f') \<Longrightarrow>
   \<exists>g. env_reach f g \<and> (if r = Sent then f_writeBufCh g = None \<and> f' = g\<lparr>f_writeBufCh := Some buf\<rparr>
         else f' = g \<and> (r = Gone \<longrightarrow> f_returned g \<or> f_writeError g))"
proof (induction buf f arbitrary: r f' rule: enqueueWhileDisconnected.induct)
  case (1 buf f)
  note unfold = enqueueWhileDisconnected.simps [of buf f] Let_def
  let ?f2 = "sync (sync f)"
  consider "f_writeBufCh (sync f) = None"
    | "f_writeBufCh (sync f) \<noteq> None" "f_returned ?f2 \<or> f_writeError ?f2"
    | (wait) "f_writeBufCh (sync f) \<noteq> None" "\<not> (f_returned ?f2 \<or> f_writeError ?f2)"
    by blast
  then show ?case
  proof cases
    case 1
    with "1.prems" show ?thesis by (intro exI [of _ "sync f"]) (simp add: unfold)
  next
    case 2
    with "1.prems" show ?thesis by (intro exI [of _ ?f2]) (auto simp: unfold env_reach_syncs)
  next
    case wait
    show ?thesis
    proof (cases "wait_step ?f2")
      case None
      with wait "1.prems" show ?thesis
        by (intro exI [of _ ?f2]) (auto simp: unfold env_reach_syncs)
    next
      case (Some f4)
      with wait "1.prems" have "enqueueWhileDisconnected buf f4 = (r, f')" by (auto simp: unfold)
      from "1.IH" [OF refl wait(1) refl wait(2) Some this] obtain g where
        g: "env_reach f4 g" "if r = Sent then f_writeBufCh g = None \<and> f' = g\<lparr>f_writeBufCh := Some buf\<rparr>
          else f' = g \<and> (r = Gone \<longrightarrow> f_returned g \<or> f_writeError g)" by blast
      then have "env_reach f g"
        using env_reach_wait [OF Some] env_reach_syncs(1) by (blast intro: env_reach_trans)
      with g(2) show ?thesis by blast
    qed
  qed
qed

lemma wait_reconnected_cases:
  "wait_reconnected f = (r, f') \<Longrightarrow>
   env_reach f f' \<and> (r = Next \<longrightarrow> \<not> f_timeout f') \<and> (f_script f = [] \<longrightarrow> f' = f)"
proof (induction f arbitrary: r f' rule: wait_reconnected.induct)
  case (1 f)
  show ?case
  proof (cases "f_timeout f \<and> \<not> f_checkerClosed f \<and> wait_step f \<noteq> None")
    case True
    then obtain f1 where f1: "wait_step f = Some f1" by auto
    with True "1.prems" have "wait_reconnected f1 = (r, f')" by (simp add: wait_reconnected.simps [of f])
    with "1.IH" f1 True have "env_reach f1 f' \<and> (r = Next \<longrightarrow> \<not> f_timeout f')" by blast
    with f1 show ?thesis
      by (auto intro: env_reach_trans [OF env_reach_wait] simp: wait_step_def split: list.splits)
  next
    case False
    with "1.prems" show ?thesis
      by (auto simp: wait_reconnected.simps [of f] env_refl split: if_splits)
  qed
qed

section \<open>The send loop and the handlers\<close>

lemma env_reach_script: "env_reach f g \<Longrightarrow> length (f_script g) \<le> length (f_script f)"
  by (induction rule: env_reach.induct) auto

text \<open>\<open>away\<close> is the test \<open>isTimeout() \<and> \<not> isKeepPendingOutput()\<close>, one access after the other.\<close>

definition away :: "sof \<Rightarrow> bool \<times> sof" where
  "away f =
     (let f1 = sync f
      in if f_timeout f1 then (let f2 = sync f1 in (\<not> f_keep f2, f2)) else (False, f1))"

function send_loop :: "bytes \<Rightarrow> sof \<Rightarrow> flow \<times> sof" where
  "send_loop buf f =
     (let f1 = sync f
      in if f_writeBufCh f1 = None then (Next, f1\<lparr>f_writeBufCh := Some buf\<rparr>)
         else let f2 = sync f1
           in if f_timeout f2 then
                (let f3 = sync f2
                 in if f_keep f3 then
                      (let w = wait_reconnected f3
                       in if fst w = Stop then (Stop, drop_log [buf] (snd w))
                          else if fst w = Blocked then w
                          else send_loop buf (snd w))
                    else send_away buf f3)
              else (let f3 = sync f2
                    in if f_returned f3 \<or> f_writeError f3 then (Stop, drop_log [buf] f3)
                       else (case wait_step f3 of None \<Rightarrow> (Blocked, f3) | Some f4 \<Rightarrow> send_loop buf f4)))"
  by pat_completeness auto
termination
proof (relation "measure (\<lambda>(buf, f). length (f_script f))", goal_cases)
  case (2 buf f f1 f2 f3 w)
  obtain r g where w: "wait_reconnected f3 = (r, g)" by fastforce
  note g = wait_reconnected_cases [OF w]
  show ?case
  proof (cases "f_script f")
    case Nil
    with 2 have "f3 = f" by (simp add: sync_def)
    with Nil g 2 w have "g = f" "\<not> f_timeout f" by (cases r; auto)+
    with 2 \<open>f3 = f\<close> Nil show ?thesis by (simp add: sync_def)
  next
    case (Cons b bs)
    with 2 have "length (f_script f3) < length (f_script f)" by simp
    with g 2 w show ?thesis using env_reach_script [of f3 g] by simp
  qed
qed (auto dest!: wait_step_script)

declare send_loop.simps [simp del]

definition handleBuffer_send :: "bytes \<Rightarrow> bytes \<Rightarrow> sof \<Rightarrow> flow \<times> sof" where
  "handleBuffer_send buf remaining f =
     (case send_loop buf f of
        (Next, f') \<Rightarrow> (Next, if remaining \<noteq> [] then cacheOutput remaining f' else f')
      | (Stop, f') \<Rightarrow> (Next, drop_log [remaining] f')
      | (Blocked, f') \<Rightarrow> (Blocked, f'))"

text \<open>The body of \<open>handleBuffer\<close> between \<open>beginProcessing\<close> and \<open>endProcessing\<close>.\<close>

definition take_marker :: "bytes \<Rightarrow> sof \<Rightarrow> bytes \<times> sof" where
  "take_marker buf f =
     (case f_discardMarker f of
        None \<Rightarrow> (buf, f)
      | Some marker \<Rightarrow>
          (marker @ buf, clearOutput (f\<lparr>f_discardMarker := None, f_discardOutput := False\<rparr>)))"

definition take_discard :: "sof \<Rightarrow> sof" where
  "take_discard f = (if f_discardOutput f then clearOutput (f\<lparr>f_discardOutput := False\<rparr>) else f)"

definition handleBuffer_new :: "bytes \<Rightarrow> sof \<Rightarrow> flow \<times> sof" where
  "handleBuffer_new buf f0 =
     (case away f0 of
        (True, f) \<Rightarrow>
          (case index_elem buf 10 of
             Some pos \<Rightarrow>
               handleBuffer_send (take (Suc pos) buf) (drop (Suc pos) buf) (f\<lparr>f_chHasNewLine := True\<rparr>)
           | None \<Rightarrow>
               if f_noNewLineCount f < 3
               then handleBuffer_send buf [] (f\<lparr>f_noNewLineCount := Suc (f_noNewLineCount f)\<rparr>)
               else (Next, cacheOutput buf (f\<lparr>f_chHasNewLine := True\<rparr>)))
      | (False, f) \<Rightarrow> handleBuffer_send buf [] f)"

definition handleBuffer_body :: "bytes \<Rightarrow> sof \<Rightarrow> flow \<times> sof" where
  "handleBuffer_body buf0 f0 =
     (let m = take_marker buf0 (sync f0); buf = fst m; f1 = take_discard (sync (snd m));
          a = (if f_chHasNewLine f1 then away f1 else (False, f1)); f = snd a
      in if fst a then (Next, cacheOutput buf f)
         else if f_cacheLines f \<noteq> [] then flushOutput (cacheOutput buf f)
         else handleBuffer_new buf f)"

text \<open>
  Progress of the surroundings: a step either consumes a batch of the script or leaves the pending
  reconnect notification as it was.
\<close>

definition advances :: "sof \<Rightarrow> sof \<Rightarrow> bool" where
  "advances f f' \<longleftrightarrow> length (f_script f') < length (f_script f)
     \<or> length (f_script f') = length (f_script f) \<and> f_reconnectPending f' = f_reconnectPending f"

lemma advances_trans: "advances f g \<Longrightarrow> advances g h \<Longrightarrow> advances f h"
  by (auto simp: advances_def)

lemma env_reach_advances: "env_reach f g \<Longrightarrow> advances f g"
  by (cases rule: env_reach.cases) (auto simp: advances_def less_Suc_eq_le dest!: env_reach_script)

lemma advances_same:
  "env_reach f g \<Longrightarrow> f_script h = f_script g \<Longrightarrow> f_reconnectPending h = f_reconnectPending g \<Longrightarrow> advances f h"
  by (drule env_reach_advances) (simp add: advances_def)

lemma enqueue_flush_advances: "enqueue_flush line f = (r, f') \<Longrightarrow> advances f f'"
  by (drule enqueue_flush_cases) (auto split: if_splits intro: advances_same)

lemma flush_lines_advances: "flush_lines i ls f = (r, f') \<Longrightarrow> advances f f'"
proof (induction ls arbitrary: i f)
  case Nil
  then show ?case by (auto simp: advances_def)
next
  case (Cons l ls)
  obtain q f1 where q: "enqueue_flush (remove_sub l esc6n) f = (q, f1)" by fastforce
  note a = enqueue_flush_advances [OF q]
  consider "remove_sub l esc6n = []" | "remove_sub l esc6n \<noteq> []" "q = Sent"
    | "remove_sub l esc6n \<noteq> []" "q \<noteq> Sent" by blast
  then show ?case
  proof cases
    case 1
    with Cons show ?thesis by auto
  next
    case 2
    with Cons q show ?thesis by (auto intro: advances_trans [OF a])
  next
    case 3
    with Cons.prems q have "f_script f' = f_script f1" "f_reconnectPending f' = f_reconnectPending f1"
      by (cases q; auto simp: drop_log_def split: if_splits)+
    with a show ?thesis by (simp add: advances_def)
  qed
qed

lemma flush_from_start_advances: "flush_from_start f = (r, f') \<Longrightarrow> advances f f'"
proof (cases "f_discardLines f = 0")
  case False
  obtain q f1 where q: "enqueue_flush (warning_line f) f = (q, f1)" by fastforce
  note a = enqueue_flush_advances [OF q]
  assume r: "flush_from_start f = (r, f')"
  show ?thesis
  proof (cases q)
    case Sent
    with r q False have
      "flush_lines 0 (f_cacheLines f1) (f1\<lparr>f_discardLines := 0, f_discardBytes := 0\<rparr>) = (r, f')"
      by (simp add: flush_from_start_def)
    from flush_lines_advances [OF this] a show ?thesis by (auto simp: advances_def)
  qed (use r q False a in \<open>auto simp: flush_from_start_def drop_log_def advances_def\<close>)
qed (auto simp: flush_from_start_def dest: flush_lines_advances)

lemma clearOutput_env [simp]:
  "f_script (clearOutput f) = f_script f" "f_reconnectPending (clearOutput f) = f_reconnectPending f"
  by (simp_all add: clearOutput_def drop_log_def Let_def)

lemma flushOutput_advances:
  assumes "flushOutput f = (r, f')"
  shows "advances f f'"
proof -
  have a: "advances f (sync f)" by (simp add: env_reach_advances)
  consider "f' = sync f" | "f' = clearOutput (sync f)"
    | "f' = clearOutput ((sync f)\<lparr>f_discardOutput := True\<rparr>)"
    | "flush_from_start (sync f) = (r, f')"
    | "flush_from_start ((sync f)\<lparr>f_discardOutput := True\<rparr>) = (r, f')"
    using assms by (auto simp: flushOutput_def Let_def split: if_splits set_size_out.splits)
  then show ?thesis
  proof cases
    case 4
    with a show ?thesis by (blast intro: advances_trans flush_from_start_advances)
  next
    case 5
    from flush_from_start_advances [OF this] a show ?thesis by (auto simp: advances_def)
  qed (use a in \<open>auto simp: advances_def\<close>)
qed

section \<open>Leaving a handler\<close>

function endProcessing :: "sof \<Rightarrow> flow \<times> sof" where
  "endProcessing f =
     (if f_reconnectPending f \<and> \<not> f_returned f then
        (let r = flushOutput (f\<lparr>f_reconnectPending := False\<rparr>)
         in if fst r = Blocked then r else endProcessing (snd r))
      else (Next, f))"
  by pat_completeness auto
termination
proof (relation "measures [\<lambda>f. length (f_script f), \<lambda>f. if f_reconnectPending f then 1 else 0]", goal_cases)
  case (2 f r)
  obtain x g where "flushOutput (f\<lparr>f_reconnectPending := False\<rparr>) = (x, g)" by fastforce
  with flushOutput_advances [OF this] 2 show ?case by (auto simp: advances_def)
qed simp

declare endProcessing.simps [simp del]

definition finish_processing :: "flow \<times> sof \<Rightarrow> flow \<times> sof" where
  "finish_processing r = (if fst r = Blocked then r else endProcessing (snd r))"

definition handleBuffer :: "bytes \<Rightarrow> sof \<Rightarrow> flow \<times> sof" where
  "handleBuffer buf f = finish_processing (handleBuffer_body buf f)"

definition sof_onReconnected :: "sof \<Rightarrow> flow \<times> sof" where
  "sof_onReconnected f =
     (if f_returned f then (Next, f) else finish_processing (flushOutput f))"

text \<open>
  The loop of \<open>handleError\<close>. A round that neither empties the cache nor consumes a batch would be
  repeated forever: that is \<open>Blocked\<close> too.
\<close>

function handleError_loop :: "sof \<Rightarrow> flow \<times> sof" where
  "handleError_loop f0 =
     (let f = sync f0
      in if f_cacheLines f = [] \<or> f_writeError f then (Next, f)
         else (let w = wait_reconnected f
               in if fst w = Stop then (Next, snd w)
                  else if fst w = Blocked then w
                  else (let r = flushOutput (snd w)
                        in if fst r = Blocked then r
                           else if f_cacheLines (snd r) = [] then (Next, snd r)
                           else if length (f_script (snd r)) < length (f_script f0)
                                then handleError_loop (snd r)
                                else (Blocked, snd r))))"
  by pat_completeness auto
termination
  by (relation "measure (\<lambda>f. length (f_script f))") auto

declare handleError_loop.simps [simp del]

definition handleError :: "sof \<Rightarrow> flow \<times> sof" where
  "handleError f = finish_processing (handleError_loop f)"

text \<open>What happens to a forwarder, one handler at a time: a chunk read, a reconnection, the end of the input.\<close>

datatype sof_op = OpBuffer bytes | OpReconnected | OpError

fun sof_run_op :: "sof_op \<Rightarrow> sof \<Rightarrow> flow \<times> sof" where
  "sof_run_op (OpBuffer buf) f = handleBuffer buf f"
| "sof_run_op OpReconnected f = sof_onReconnected f"
| "sof_run_op OpError f = handleError f"

text \<open>\<open>forward\<close>: the handlers in the order the processing token serialises them.\<close>

fun sof_forward :: "sof_op list \<Rightarrow> sof \<Rightarrow> flow \<times> sof" where
  "sof_forward [] f = (Next, f)"
| "sof_forward (a # as) f =
     (let r = sof_run_op a f in if fst r = Blocked then r else sof_forward as (snd r))"

end
