(* ===== verification/Output_Props.thy ===== *)
theory Output_Props
  imports Output
begin

text \<open>
  What the server's output forwarder guarantees: no chunk is lost, duplicated or reordered while
  the client comes and goes, the cache is bounded and holds no empty line, and what is given up is
  counted. The central notion is \<open>pass x f f'\<close>: from \<open>f\<close> to \<open>f'\<close> the forwarder took in the bytes
  \<open>x\<close> and, unless it gave something up, everything it holds or sent is unchanged otherwise.
\<close>

section \<open>Definitions\<close>

definition data_out :: "sof \<Rightarrow> bytes" where
  "data_out f = concat (f_sent f) @ (case f_writeBufCh f of None \<Rightarrow> [] | Some b \<Rightarrow> b)"

definition all_data :: "sof \<Rightarrow> bytes" where
  "all_data f = data_out f @ concat (f_cacheLines f)"

definition no_marker :: "sof_env \<Rightarrow> bool" where
  "no_marker e \<longleftrightarrow> (case e of EMarker _ \<Rightarrow> False | _ \<Rightarrow> True)"

text \<open>No output marker was or will be requested.\<close>

definition markerless :: "sof \<Rightarrow> bool" where
  "markerless f \<longleftrightarrow> f_discardMarker f = None \<and> list_all (list_all no_marker) (f_script f)"

text \<open>Nothing was discarded, and no byte held or sent is an ESC.\<close>

definition clean :: "sof \<Rightarrow> bool" where
  "clean f \<longleftrightarrow> f_discardLines f = 0 \<and> 27 \<notin> set (all_data f) \<and> markerless f"

definition drops :: "sof \<Rightarrow> sof \<Rightarrow> bool" where
  "drops f f' \<longleftrightarrow> (\<exists>d. f_dropped f' = f_dropped f @ d)"

definition pass :: "bytes \<Rightarrow> sof \<Rightarrow> sof \<Rightarrow> bool" where
  "pass x f f' \<longleftrightarrow> drops f f' \<and>
     (f_dropped f' = [] \<and> clean f \<and> 27 \<notin> set x \<longrightarrow> all_data f' = all_data f @ x \<and> clean f')"

definition op_bytes :: "sof_op \<Rightarrow> bytes" where
  "op_bytes a = (case a of OpBuffer b \<Rightarrow> b | _ \<Rightarrow> [])"

section \<open>The relation\<close>

lemma drops_refl [simp]: "drops f f"
  by (simp add: drops_def)

lemma drops_trans: "drops f g \<Longrightarrow> drops g h \<Longrightarrow> drops f h"
  by (auto simp: drops_def)

lemma drops_empty: "drops f g \<Longrightarrow> f_dropped g = [] \<Longrightarrow> f_dropped f = []"
  by (auto simp: drops_def)

lemma pass_drops: "pass x f g \<Longrightarrow> drops f g"
  by (simp add: pass_def)

lemma pass_refl [simp]: "pass [] f f"
  by (simp add: pass_def)

lemma pass_trans: "pass x f g \<Longrightarrow> pass y g h \<Longrightarrow> pass (x @ y) f h"
  unfolding pass_def using drops_empty [of g h] by (auto intro: drops_trans)

lemma pass_trans0: "pass [] f g \<Longrightarrow> pass y g h \<Longrightarrow> pass y f h"
  using pass_trans [of "[]" f g y h] by simp

lemma pass_trans1: "pass x f g \<Longrightarrow> pass [] g h \<Longrightarrow> pass x f h"
  using pass_trans [of x f g "[]" h] by simp

text \<open>Changes outside what the relation looks at.\<close>

lemma pass_same:
  "\<lbrakk>f_sent g = f_sent f; f_writeBufCh g = f_writeBufCh f; f_cacheLines g = f_cacheLines f;
    f_discardLines g = f_discardLines f; f_discardMarker g = f_discardMarker f;
    f_script g = f_script f; f_dropped g = f_dropped f\<rbrakk> \<Longrightarrow> pass [] f g"
  by (simp add: pass_def drops_def all_data_def data_out_def clean_def markerless_def)

lemma pass_dropped: "drops f g \<Longrightarrow> f_dropped g \<noteq> [] \<Longrightarrow> pass x f g"
  by (simp add: pass_def)

section \<open>The other goroutines\<close>

lemma writerLoop_pass: "pass [] f (writerLoop ok f)"
  by (auto simp: writerLoop_def pass_def drops_def drop_log_def all_data_def data_out_def clean_def
      markerless_def split: option.splits)

lemma env_step_pass: "no_marker e \<Longrightarrow> pass [] f (env_step e f)"
  by (cases e) (auto simp: writerLoop_pass no_marker_def intro!: pass_same)

lemma env_step_dropped: "drops f (env_step e f)"
  by (cases "(e, f)" rule: env_step.cases)
    (auto simp: drops_def writerLoop_def drop_log_def split: option.splits)

lemma env_batch_pass:
  "list_all no_marker es \<Longrightarrow> pass [] f (env_batch es f)"
  unfolding env_batch_def
  by (induction es arbitrary: f) (auto intro: pass_trans0 env_step_pass)

lemma env_batch_drops: "drops f (env_batch es f)"
  unfolding env_batch_def by (induction es arbitrary: f) (auto intro: drops_trans env_step_dropped)

lemma env_reach_drops: "env_reach f g \<Longrightarrow> drops f g"
proof (induction rule: env_reach.induct)
  case (env_batch f b bs g)
  have "drops f (env_batch b (f\<lparr>f_script := bs\<rparr>))"
    using env_batch_drops [of "f\<lparr>f_script := bs\<rparr>" b] by (simp add: drops_def)
  with env_batch show ?case by (blast intro: drops_trans)
qed simp

lemma env_reach_pass: "env_reach f g \<Longrightarrow> pass [] f g"
proof (induction rule: env_reach.induct)
  case (env_batch f b bs g)
  show ?case
  proof (cases "markerless f")
    case True
    with env_batch have b: "list_all no_marker b" "markerless (f\<lparr>f_script := bs\<rparr>)"
      by (auto simp: markerless_def)
    then have "pass [] f (f\<lparr>f_script := bs\<rparr>)"
      by (auto simp: pass_def drops_def all_data_def data_out_def clean_def)
    with env_batch b show ?thesis
      by (blast intro: pass_trans0 env_batch_pass)
  next
    case False
    with env_reach.env_batch [OF env_batch(1,2)] show ?thesis
      by (auto simp: pass_def clean_def dest: env_reach_drops)
  qed
qed simp

lemma sync_pass [simp]: "pass [] f (sync f)"
  by (simp add: env_reach_pass)

lemma env_step_keeps:
  "f_cacheLines (env_step e f) = f_cacheLines f \<and> f_discardLines (env_step e f) = f_discardLines f"
  by (cases e) (auto simp: writerLoop_def drop_log_def split: option.splits)

lemma env_batch_keeps:
  "f_cacheLines (env_batch es f) = f_cacheLines f \<and> f_discardLines (env_batch es f) = f_discardLines f"
  unfolding env_batch_def by (induction es arbitrary: f) (auto simp: env_step_keeps)

lemma env_reach_keeps:
  "env_reach f g \<Longrightarrow> f_cacheLines g = f_cacheLines f \<and> f_discardLines g = f_discardLines f"
  by (induction rule: env_reach.induct) (auto simp: env_batch_keeps)

lemma sync_keeps [simp]: "f_cacheLines (sync f) = f_cacheLines f"
  using env_reach_keeps [of f "sync f"] by simp

section \<open>The cache\<close>

definition ok_lines :: "bytes list \<Rightarrow> bool" where
  "ok_lines cl \<longleftrightarrow> [] \<notin> set cl"

lemma concat_add_line: "concat (add_line cl line) = concat cl @ line"
proof (cases "cl = []")
  case False
  then have "concat cl = concat (butlast cl) @ last cl"
    by (metis append_butlast_last_id append_Nil2 concat.simps concat_append)
  with False show ?thesis by (auto simp: add_line_def Let_def)
qed (simp add: add_line_def)

lemma add_lines_Nil [simp]: "add_lines [] cl = cl"
  by (simp add: add_lines.simps)

lemma concat_add_lines: "concat (add_lines buf cl) = concat cl @ buf"
proof (induction buf cl rule: add_lines.induct)
  case (1 buf cl)
  then show ?case
    by (cases "buf = []") (simp_all add: add_lines.simps [of buf cl] concat_add_line)
qed

lemma ok_lines_add_line: "ok_lines cl \<Longrightarrow> line \<noteq> [] \<Longrightarrow> ok_lines (add_line cl line)"
  by (auto simp: ok_lines_def add_line_def Let_def dest: in_set_butlastD)

lemma ok_lines_add_lines: "ok_lines cl \<Longrightarrow> ok_lines (add_lines buf cl)"
proof (induction buf cl rule: add_lines.induct)
  case (1 buf cl)
  show ?case
  proof (cases "buf = []")
    case False
    with next_line_bounds [OF False] have "take (next_line buf) buf \<noteq> []" by auto
    with 1 False show ?thesis
      by (simp add: add_lines.simps [of buf cl] ok_lines_add_line)
  qed (simp add: add_lines.simps "1.prems")
qed

lemma cacheOutput_pass: "pass buf f (cacheOutput buf f)"
proof (cases "length (add_lines buf (f_cacheLines f)) > maxLines f")
  case True
  then have "f_dropped (cacheOutput buf f) = f_dropped f @ take
      (length (add_lines buf (f_cacheLines f)) - maxLines f) (add_lines buf (f_cacheLines f))"
    by (simp add: cacheOutput_def Let_def drop_log_def)
  with True show ?thesis by (intro pass_dropped) (auto simp: drops_def)
next
  case False
  then have "cacheOutput buf f = f\<lparr>f_cacheLines := add_lines buf (f_cacheLines f)\<rparr>"
    by (simp add: cacheOutput_def Let_def)
  then show ?thesis
    by (simp add: pass_def drops_def all_data_def data_out_def clean_def concat_add_lines markerless_def
        del: set_concat)
qed

lemma clearOutput_pass: "pass [] f (clearOutput f)"
proof (cases "f_cacheLines f = []")
  case True
  then show ?thesis
    by (simp add: clearOutput_def Let_def drop_log_def pass_def drops_def all_data_def data_out_def
        clean_def markerless_def)
next
  case False
  then show ?thesis
    by (intro pass_dropped) (auto simp: clearOutput_def Let_def drop_log_def drops_def)
qed

lemma drop_log_pass: "bs \<noteq> [] \<Longrightarrow> drops f g \<Longrightarrow> pass x f (drop_log bs g)"
  by (intro pass_dropped) (auto simp: drop_log_def drops_def)

section \<open>The send loops\<close>

lemma enqueue_pass:
  assumes "f_writeBufCh g = None" "f_cacheLines g = []"
  shows "pass line g (g\<lparr>f_writeBufCh := Some line\<rparr>)"
  using assms by (simp add: pass_def drops_def all_data_def data_out_def clean_def markerless_def)

lemma remove_sub_fresh: "x \<notin> set s \<Longrightarrow> remove_sub s (x # p) = s"
proof (induction s)
  case (Cons y s)
  then have "\<not> has_prefix (y # s) (x # p)"
    by (auto simp: has_prefix_def)
  with Cons show ?case by (simp add: remove_sub.simps [of "y # s"])
qed (simp add: remove_sub.simps)

text \<open>What the surroundings do between two accesses, for the part that was already sent.\<close>

lemma env_reach_data_out:
  assumes "env_reach f g" "f_dropped g = []" "clean f"
  shows "data_out g = data_out f \<and> clean g"
  using env_reach_pass [OF assms(1)] env_reach_keeps [OF assms(1)] assms(2,3)
  by (auto simp: pass_def all_data_def)

definition flushed :: "bytes list \<Rightarrow> sof \<Rightarrow> sof \<Rightarrow> bool" where
  "flushed ls f f' \<longleftrightarrow> drops f f' \<and>
     (f_dropped f' = [] \<and> clean f \<longrightarrow> all_data f' = data_out f @ concat ls \<and> clean f')"

lemma clean_line: "clean f \<Longrightarrow> f_cacheLines f = pre @ l # ls \<Longrightarrow> remove_sub l esc6n = l"
  unfolding esc6n_def by (rule remove_sub_fresh) (auto simp: clean_def all_data_def)

lemma flushed_sent:
  assumes g: "env_reach f g" and f1: "f1 = g\<lparr>f_writeBufCh := Some (remove_sub l esc6n)\<rparr>"
    and none: "f_writeBufCh g = None" and cl: "f_cacheLines f = pre @ l # ls"
    and rest: "flushed ls f1 f'"
  shows "flushed (l # ls) f f'"
proof -
  have d: "drops f f1" "drops f1 f'"
    using env_reach_drops [OF g] rest by (auto simp: f1 drops_def flushed_def)
  have "all_data f' = data_out f @ concat (l # ls) \<and> clean f'"
    if "f_dropped f' = []" "clean f"
  proof -
    from that d have "f_dropped f1 = []" by (blast dest: drops_empty)
    then have "data_out g = data_out f" "clean g"
      using env_reach_data_out [OF g _ that(2)] by (auto simp: f1)
    moreover from this none clean_line [OF that(2) cl] have "data_out f1 = data_out g @ l" "clean f1"
      using env_reach_keeps [OF g] cl
      by (simp_all add: f1 data_out_def clean_def markerless_def all_data_def)
    ultimately show ?thesis using rest that by (auto simp: flushed_def)
  qed
  with d show ?thesis by (auto simp: flushed_def intro: drops_trans)
qed

lemma flush_lines_flushed:
  "\<lbrakk>flush_lines i ls f = (Next, f'); f_cacheLines f = pre @ ls; length pre = i\<rbrakk> \<Longrightarrow> flushed ls f f'"
proof (induction ls arbitrary: i f pre)
  case Nil
  then show ?case
    by (auto simp: flushed_def drops_def all_data_def data_out_def clean_def markerless_def)
next
  case (Cons l ls)
  let ?line = "remove_sub l esc6n"
  obtain q f1 where q: "enqueue_flush ?line f = (q, f1)" by fastforce
  from enqueue_flush_cases [OF q] obtain g where g: "env_reach f g"
    "q = Sent \<longrightarrow> f_writeBufCh g = None \<and> f1 = g\<lparr>f_writeBufCh := Some ?line\<rparr>"
    "q \<noteq> Sent \<longrightarrow> f1 = g"
    by (cases "q = Sent") (simp_all, blast+)
  note keeps = env_reach_keeps [OF g(1)]
  consider "?line = []" | "?line \<noteq> []" "q = Sent" | "?line \<noteq> []" "q = TimedOut"
    | "?line \<noteq> []" "q = Gone" | "?line \<noteq> []" "q = Stuck"
    using enq.exhaust by blast
  then show ?case
  proof cases
    case 1
    with Cons.prems have "flushed ls f f'" using Cons.IH [of "Suc i" f "pre @ [l]"] by simp
    with 1 Cons.prems show ?thesis using clean_line [of f pre l ls] by (auto simp: flushed_def)
  next
    case 2
    with Cons.prems q have "flush_lines (Suc i) ls f1 = (Next, f')" by simp
    then have "flushed ls f1 f'"
      using Cons.IH [of "Suc i" f1 "pre @ [l]"] Cons.prems keeps g 2 by simp
    with flushed_sent [OF g(1) _ _ Cons.prems(2)] g 2 show ?thesis by simp
  next
    case 3
    with Cons.prems q g keeps have f': "f_cacheLines f' = l # ls" "f_sent f' = f_sent g"
        "f_writeBufCh f' = f_writeBufCh g" "f_dropped f' = f_dropped g" "f_discardLines f' = f_discardLines g"
        "f_script f' = f_script g" "f_discardMarker f' = f_discardMarker g"
      by (auto split: if_splits)
    have "all_data f' = data_out f @ concat (l # ls) \<and> clean f'" if "f_dropped f' = []" "clean f"
      using env_reach_data_out [OF g(1) _ that(2)] that Cons.prems(2)
      by (simp add: f' all_data_def data_out_def clean_def markerless_def)
    with env_reach_drops [OF g(1)] show ?thesis by (simp add: flushed_def drops_def f')
  next
    case 4
    with Cons.prems q g have "f' = drop_log [l] g" by simp
    with env_reach_drops [OF g(1)] show ?thesis by (auto simp: flushed_def drops_def drop_log_def)
  qed (use Cons.prems q in auto)
qed

lemma flushed_pass: "flushed (f_cacheLines f) f f' \<Longrightarrow> pass [] f f'"
  by (simp add: flushed_def pass_def all_data_def)

lemma enqueue_flush_drops:
  assumes "enqueue_flush line f = (q, f1)"
  shows "drops f f1"
proof -
  from enqueue_flush_cases [OF assms] obtain g where g: "env_reach f g" "f1 = g \<or> f1 = g\<lparr>f_writeBufCh := Some line\<rparr>"
    by (cases "q = Sent") (simp_all, blast+)
  from env_reach_drops [OF g(1)] g(2) show ?thesis
    unfolding drops_def by (elim disjE) simp_all
qed

lemma flush_from_start_pass: "flush_from_start f = (Next, f') \<Longrightarrow> drops f f' \<and> (f_discardLines f = 0 \<longrightarrow> pass [] f f')"
proof (cases "f_discardLines f = 0")
  case True
  assume "flush_from_start f = (Next, f')"
  with True have "flushed (f_cacheLines f) f f'"
    using flush_lines_flushed [of 0 "f_cacheLines f" f f' "[]"] by (simp add: flush_from_start_def)
  then show ?thesis by (auto dest: flushed_pass pass_drops)
next
  case False
  assume r: "flush_from_start f = (Next, f')"
  obtain q f1 where q: "enqueue_flush (warning_line f) f = (q, f1)" by fastforce
  have d: "drops f f1"
    by (rule enqueue_flush_drops [OF q])
  show ?thesis
  proof (cases q)
    case Sent
    let ?f = "f1\<lparr>f_discardLines := 0, f_discardBytes := 0\<rparr>"
    from Sent r q False have "flush_lines 0 (f_cacheLines ?f) ?f = (Next, f')"
      by (simp add: flush_from_start_def)
    then have "drops ?f f'" using flush_lines_flushed [of 0 _ ?f f' "[]"] by (simp add: flushed_def)
    with d False show ?thesis by (auto simp: drops_def)
  qed (use r q d False in \<open>auto simp: flush_from_start_def drop_log_def\<close>)
qed

lemma pass_unclean: "drops f g \<Longrightarrow> f_discardLines f \<noteq> 0 \<Longrightarrow> pass x f g"
  by (simp add: pass_def clean_def)

lemma flushOutput_cases:
  assumes "flushOutput f = (r, f')" and g: "g = sync f" and h: "h = g\<lparr>f_discardOutput := True\<rparr>"
  shows "f' = g \<or> f' = clearOutput g \<or> f' = clearOutput h \<or> flush_from_start g = (r, f')
    \<or> f_discardLines g > 0 \<and> flush_from_start h = (r, f')"
proof (cases "f_cacheLines g = [] \<or> f_timeout g")
  case True
  with assms(1) have "f' = g" unfolding flushOutput_def Let_def g by simp
  then show ?thesis ..
next
  case False
  show ?thesis
  proof (cases "f_discardLines g > 0")
    case True
    with False assms(1) show ?thesis
      unfolding flushOutput_def Let_def g [symmetric] h [symmetric]
      by (cases "f_setSize g") simp_all
  next
    case nodiscard: False
    with False assms(1) have "flush_from_start g = (r, f')"
      unfolding flushOutput_def Let_def g [symmetric] by simp
    then show ?thesis by blast
  qed
qed

lemma flushOutput_pass:
  assumes r: "flushOutput f = (Next, f')"
  shows "pass [] f f'"
proof -
  define g h where g: "g = sync f" and h: "h = g\<lparr>f_discardOutput := True\<rparr>"
  have gh: "pass [] g h" unfolding h by (rule pass_same) simp_all
  have "pass [] g f'"
    using flushOutput_cases [OF r g h]
  proof (elim disjE conjE)
    assume "flush_from_start g = (Next, f')"
    with flush_from_start_pass [OF this] show ?thesis
      by (cases "f_discardLines g = 0") (blast intro: pass_unclean)+
  next
    assume "f_discardLines g > 0" "flush_from_start h = (Next, f')"
    with flush_from_start_pass have "drops g h \<and> drops h f'" using pass_drops [OF gh] by blast
    with \<open>f_discardLines g > 0\<close> show ?thesis by (intro pass_unclean) (blast intro: drops_trans, simp)
  qed (simp_all add: clearOutput_pass pass_trans0 [OF gh])
  with g show ?thesis using pass_trans0 [OF sync_pass] by blast
qed

lemma flush_lines_flow: "flush_lines i ls f = (x, f') \<Longrightarrow> x = Next \<or> x = Blocked"
proof (induction ls arbitrary: i f)
  case (Cons l ls)
  obtain q f1 where q: "enqueue_flush (remove_sub l esc6n) f = (q, f1)" by (metis surj_pair)
  with Cons show ?case by (cases "remove_sub l esc6n = []"; cases q) (simp_all add: Let_def)
qed simp

lemma flush_from_start_flow: "flush_from_start f = (x, f') \<Longrightarrow> x = Next \<or> x = Blocked"
proof -
  assume r: "flush_from_start f = (x, f')"
  obtain q f1 where q: "enqueue_flush (warning_line f) f = (q, f1)" by (metis surj_pair)
  show ?thesis
  proof (cases "f_discardLines f = 0 \<or> q = Sent")
    case True
    with r q show ?thesis
      by (cases "f_discardLines f = 0") (simp_all add: flush_from_start_def flush_lines_flow)
  next
    case False
    with r q show ?thesis by (cases q) (simp_all add: flush_from_start_def)
  qed
qed

lemma flushOutput_flow: "flushOutput f = (x, f') \<Longrightarrow> x \<noteq> Blocked \<Longrightarrow> x = Next"
  using flush_from_start_flow unfolding flushOutput_def Let_def
  by (cases "f_setSize (sync f)"; simp split: if_split_asm; blast)

lemma take_back_pass:
  assumes "f_cacheLines f = []" "f_writeBufCh f = Some b"
    and p: "pass (b @ buf) (f\<lparr>f_writeBufCh := None\<rparr>) f'"
  shows "pass buf f f'"
proof -
  let ?g = "f\<lparr>f_writeBufCh := None\<rparr>"
  have d: "all_data f = all_data ?g @ b"
    using assms(1,2) by (simp add: all_data_def data_out_def)
  then have "clean f \<Longrightarrow> clean ?g \<and> 27 \<notin> set b"
    by (simp add: clean_def markerless_def)
  with p d show ?thesis by (simp add: pass_def drops_def)
qed

section \<open>Handling a chunk\<close>

lemma enqueueWhileDisconnected_pass:
  assumes r: "enqueueWhileDisconnected buf f = (Sent, f')" and "f_cacheLines f = []"
  shows "pass buf f f' \<and> f_cacheLines f' = []"
proof -
  from enqueueWhileDisconnected_cases [OF r] obtain g where
    g: "env_reach f g" "f_writeBufCh g = None" "f' = g\<lparr>f_writeBufCh := Some buf\<rparr>" by auto
  with assms(2) have "f_cacheLines g = []" using env_reach_keeps by simp
  with enqueue_pass [OF g(2) this] g(3) show ?thesis
    using pass_trans0 [OF env_reach_pass [OF g(1)]] by simp
qed

lemma enqueueWhileDisconnected_drops:
  assumes r: "enqueueWhileDisconnected buf f = (q, f')"
  shows "drops f f'"
proof -
  from enqueueWhileDisconnected_cases [OF r] obtain g where
    g: "env_reach f g" "f' = g \<or> f' = g\<lparr>f_writeBufCh := Some buf\<rparr>"
    by (cases "q = Sent") (simp_all, blast+)
  from env_reach_drops [OF g(1)] g(2) show ?thesis
    unfolding drops_def by (elim disjE) simp_all
qed

lemma send_away_taken:
  assumes r: "send_away buf0 f = (x, f')" and x: "x \<noteq> Blocked"
    and g: "g = sync f" and buf: "buf = (case f_writeBufCh g of None \<Rightarrow> buf0 | Some b \<Rightarrow> b @ buf0)"
    and cl: "f_cacheLines g = []"
  shows "pass buf (g\<lparr>f_writeBufCh := None\<rparr>) f'"
proof -
  let ?f = "g\<lparr>f_writeBufCh := None\<rparr>"
  have cl': "f_cacheLines ?f = []" using cl by simp
  define part where "part = (case index_elem buf 10 of None \<Rightarrow> buf | Some pos \<Rightarrow> take (Suc pos) buf)"
  obtain q f2 where q: "enqueueWhileDisconnected part ?f = (q, f2)" by (metis surj_pair)
  note unfold = send_away_def Let_def g [symmetric] buf [symmetric]
  show ?thesis
  proof (cases "q = Sent")
    case True
    with q have p: "pass part ?f f2" using enqueueWhileDisconnected_pass cl' by blast
    show ?thesis
    proof (cases "index_elem buf 10")
      case None
      with r q True have "f' = (if f_noNewLineCount ?f < 3 then f2\<lparr>f_noNewLineCount := Suc (f_noNewLineCount f2)\<rparr>
          else f2\<lparr>f_chHasNewLine := True\<rparr>)"
        unfolding unfold by (simp add: part_def)
      then have "pass [] f2 f'" by (intro pass_same) simp_all
      with p None show ?thesis by (simp add: part_def pass_trans1)
    next
      case (Some pos)
      let ?left = "drop (Suc pos) buf"
      let ?f3 = "if ?left \<noteq> [] then cacheOutput ?left f2 else f2"
      from r q True Some have f': "f' = ?f3\<lparr>f_chHasNewLine := True\<rparr>"
        unfolding unfold by (simp add: part_def)
      have "pass ?left f2 ?f3" using cacheOutput_pass by simp
      moreover have "pass [] ?f3 f'" unfolding f' by (rule pass_same) simp_all
      ultimately have "pass ?left f2 f'" by (rule pass_trans1)
      with pass_trans [OF p this] Some show ?thesis by (simp add: part_def)
    qed
  next
    case False
    with r q x have "f' = drop_log [buf] f2"
      unfolding unfold by (cases "index_elem buf 10"; cases q) (simp_all add: part_def)
    with enqueueWhileDisconnected_drops [OF q] show ?thesis by (simp add: drop_log_pass)
  qed
qed

lemma send_away_pass:
  assumes r: "send_away buf f = (x, f')" and x: "x \<noteq> Blocked" and cl: "f_cacheLines f = []"
  shows "pass buf f f'"
proof -
  have cl': "f_cacheLines (sync f) = []" using cl by simp
  have "pass buf (sync f) f'"
  proof (cases "f_writeBufCh (sync f)")
    case None
    then have "pass [] (sync f) ((sync f)\<lparr>f_writeBufCh := None\<rparr>)" by (intro pass_same) simp_all
    with send_away_taken [OF r x refl refl cl'] None show ?thesis by (simp add: pass_trans0)
  next
    case (Some b)
    with send_away_taken [OF r x refl refl cl'] show ?thesis
      by (intro take_back_pass [OF cl' Some]) simp
  qed
  then show ?thesis by (rule pass_trans0 [OF sync_pass])
qed

lemma send_loop_pass:
  "\<lbrakk>send_loop buf f = (x, f'); x \<noteq> Blocked; f_cacheLines f = []\<rbrakk> \<Longrightarrow> pass buf f f'"
proof (induction buf f arbitrary: x f' rule: send_loop.induct)
  case (1 buf f)
  define f1 f2 f3 where d: "f1 = sync f" "f2 = sync f1" "f3 = sync f2"
  have reach: "env_reach f f1" "env_reach f f3"
    unfolding d by (simp_all add: env_reach_syncs)
  have cl: "f_cacheLines f1 = []" "f_cacheLines f3 = []"
    using "1.prems"(3) unfolding d by simp_all
  have p3: "pass [] f f3" using reach by (simp add: env_reach_pass)
  note unfold = send_loop.simps [of buf f] Let_def d [symmetric]
  note prems = "1.prems"(1) [unfolded unfold]
  consider (free) "f_writeBufCh f1 = None"
    | (keep) "f_writeBufCh f1 \<noteq> None" "f_timeout f2" "f_keep f3"
    | (away) "f_writeBufCh f1 \<noteq> None" "f_timeout f2" "\<not> f_keep f3"
    | (gone) "f_writeBufCh f1 \<noteq> None" "\<not> f_timeout f2" "f_returned f3 \<or> f_writeError f3"
    | (full) "f_writeBufCh f1 \<noteq> None" "\<not> f_timeout f2" "\<not> (f_returned f3 \<or> f_writeError f3)"
    by blast
  then show ?case
  proof cases
    case free
    with prems have "f' = f1\<lparr>f_writeBufCh := Some buf\<rparr>" by simp
    with enqueue_pass [OF free cl(1)] show ?thesis
      using pass_trans0 [OF env_reach_pass [OF reach(1)]] by simp
  next
    case keep
    obtain y g where w: "wait_reconnected f3 = (y, g)" by (metis surj_pair)
    note wc = wait_reconnected_cases [OF w]
    have pg: "pass [] f g" using p3 wc by (blast intro: pass_trans0 env_reach_pass)
    show ?thesis
    proof (cases y)
      case Next
      with keep prems w have "send_loop buf g = (x, f')" by (simp del: not_None_eq)
      moreover have "f_cacheLines g = []" using env_reach_keeps [of f3 g] wc cl(2) by simp
      ultimately have "pass buf g f'"
        using "1.IH"(1) [OF d(1) keep(1) d(2) keep(2) d(3) keep(3) refl] w Next "1.prems"(2) by simp
      with pg show ?thesis by (rule pass_trans0)
    next
      case Stop
      with keep prems w have "f' = drop_log [buf] g" by (simp del: not_None_eq)
      with pass_drops [OF pg] show ?thesis by (simp add: drop_log_pass)
    next
      case Blocked
      with keep prems w "1.prems"(2) show ?thesis by (simp del: not_None_eq)
    qed
  next
    case away
    with prems have "send_away buf f3 = (x, f')" by (simp del: not_None_eq)
    from send_away_pass [OF this "1.prems"(2) cl(2)] show ?thesis by (rule pass_trans0 [OF p3])
  next
    case gone
    with prems have "f' = drop_log [buf] f3" by (simp del: not_None_eq)
    with pass_drops [OF p3] show ?thesis by (simp add: drop_log_pass)
  next
    case full
    show ?thesis
    proof (cases "wait_step f3")
      case None
      with full prems "1.prems"(2) show ?thesis by (simp del: not_None_eq)
    next
      case (Some f4)
      with full prems have "send_loop buf f4 = (x, f')" by (simp del: not_None_eq)
      moreover have "env_reach f3 f4" using Some by (rule env_reach_wait)
      moreover from this have "f_cacheLines f4 = []" using cl(2) env_reach_keeps [of f3 f4] by simp
      ultimately have "pass buf f4 f'" "pass [] f3 f4"
        using "1.IH"(2) [OF d(1) full(1) d(2) full(2) d(3) full(3) Some] "1.prems"(2) env_reach_pass by blast+
      with p3 show ?thesis by (blast intro: pass_trans0)
    qed
  qed
qed

lemma handleBuffer_send_pass:
  assumes r: "handleBuffer_send buf remaining f = (x, f')" and "x \<noteq> Blocked" "f_cacheLines f = []"
  shows "pass (buf @ remaining) f f'"
proof -
  obtain y g where y: "send_loop buf f = (y, g)" by (metis surj_pair)
  show ?thesis
  proof (cases y)
    case Next
    with send_loop_pass [OF y] assms(3) have "pass buf f g" by simp
    moreover from Next r y have "f' = (if remaining \<noteq> [] then cacheOutput remaining g else g)"
      by (simp add: handleBuffer_send_def)
    then have "pass remaining g f'" using cacheOutput_pass by simp
    ultimately show ?thesis by (rule pass_trans)
  next
    case Stop
    with send_loop_pass [OF y] assms(3) have "drops f g" by (simp add: pass_def)
    moreover from Stop r y have "f' = drop_log [remaining] g" by (simp add: handleBuffer_send_def)
    ultimately show ?thesis by (simp add: drop_log_pass)
  next
    case Blocked
    with r y assms(2) show ?thesis by (simp add: handleBuffer_send_def)
  qed
qed

lemma away_reach: "env_reach f (snd (away f))"
  by (simp add: away_def Let_def env_reach_syncs)

lemma handleBuffer_new_pass:
  assumes r: "handleBuffer_new buf f = (x, f')" and x: "x \<noteq> Blocked" and cl: "f_cacheLines f = []"
  shows "pass buf f f'"
proof -
  obtain b g where a: "away f = (b, g)" by (metis surj_pair)
  have g: "pass [] f g" "f_cacheLines g = []"
    using away_reach [of f] cl a env_reach_pass [of f g] env_reach_keeps [of f g] by simp_all
  have "pass buf g f'"
  proof (cases b)
    case False
    with r a handleBuffer_send_pass [of buf "[]" g x f'] x g show ?thesis by (simp add: handleBuffer_new_def)
  next
    case True
    show ?thesis
    proof (cases "index_elem buf 10")
      case (Some pos)
      let ?g = "g\<lparr>f_chHasNewLine := True\<rparr>"
      from Some True r a have "handleBuffer_send (take (Suc pos) buf) (drop (Suc pos) buf) ?g = (x, f')"
        by (simp add: handleBuffer_new_def)
      from handleBuffer_send_pass [OF this x] g have "pass buf ?g f'" by simp
      moreover have "pass [] g ?g" by (rule pass_same) simp_all
      ultimately show ?thesis by (blast intro: pass_trans0)
    next
      case None
      let ?g = "g\<lparr>f_noNewLineCount := Suc (f_noNewLineCount g)\<rparr>" and ?h = "g\<lparr>f_chHasNewLine := True\<rparr>"
      have p: "pass [] g ?g" "pass [] g ?h" by (rule pass_same; simp)+
      show ?thesis
      proof (cases "f_noNewLineCount g < 3")
        case less: True
        with None True r a have "handleBuffer_send buf [] ?g = (x, f')" by (simp add: handleBuffer_new_def)
        from handleBuffer_send_pass [OF this x] g have "pass buf ?g f'" by simp
        with p(1) show ?thesis by (rule pass_trans0)
      next
        case False
        with None True r a have "f' = cacheOutput buf ?h" by (simp add: handleBuffer_new_def)
        with pass_trans0 [OF p(2) cacheOutput_pass] show ?thesis by simp
      qed
    qed
  qed
  with g(1) show ?thesis by (rule pass_trans0)
qed

lemma pass_unmarked: "drops f g \<Longrightarrow> \<not> markerless f \<Longrightarrow> pass x f g"
  by (simp add: pass_def clean_def)

lemma take_discard_pass: "pass [] f (take_discard f)"
proof (cases "f_discardOutput f")
  case True
  have "pass [] f (f\<lparr>f_discardOutput := False\<rparr>)" by (rule pass_same) simp_all
  with True show ?thesis using clearOutput_pass by (simp add: take_discard_def pass_trans0)
qed (simp add: take_discard_def)

lemma handle_marked_pass:
  assumes r: "handleBuffer_body buf0 f0 = (x, f')" and x: "x \<noteq> Blocked"
    and m: "take_marker buf0 (sync f0) = (buf, f)"
  shows "pass buf f f'"
proof -
  define f1 where "f1 = take_discard (sync f)"
  define a where "a = (if f_chHasNewLine f1 then away f1 else (False, f1))"
  have p1: "pass [] f f1"
    unfolding f1_def by (rule pass_trans0 [OF sync_pass take_discard_pass])
  have "env_reach f1 (snd a)"
    unfolding a_def by (simp add: away_reach env_refl)
  then have p2: "pass [] f (snd a)"
    using pass_trans0 [OF p1] env_reach_pass by blast
  note unfold = handleBuffer_body_def Let_def m fst_conv snd_conv f1_def [symmetric] a_def [symmetric]
  note prems = r [unfolded unfold]
  have "pass buf (snd a) f'"
  proof (cases "fst a")
    case True
    with prems have "f' = cacheOutput buf (snd a)" by simp
    then show ?thesis using cacheOutput_pass by simp
  next
    case False
    show ?thesis
    proof (cases "f_cacheLines (snd a) = []")
      case True
      with False prems have "handleBuffer_new buf (snd a) = (x, f')" by simp
      from handleBuffer_new_pass [OF this x True] show ?thesis .
    next
      case nonempty: False
      with False prems have fl: "flushOutput (cacheOutput buf (snd a)) = (x, f')" by simp
      with x have "x = Next" by (simp add: flushOutput_flow)
      with fl have "pass [] (cacheOutput buf (snd a)) f'" by (simp add: flushOutput_pass)
      with cacheOutput_pass show ?thesis by (rule pass_trans1)
    qed
  qed
  with p2 show ?thesis by (rule pass_trans0)
qed

lemma handleBuffer_body_pass:
  assumes r: "handleBuffer_body buf f = (x, f')" and x: "x \<noteq> Blocked"
  shows "pass buf f f'"
proof -
  let ?g = "sync f"
  have "pass buf ?g f'"
  proof (cases "f_discardMarker ?g")
    case None
    then have "take_marker buf ?g = (buf, ?g)" by (simp add: take_marker_def)
    from handle_marked_pass [OF r x this] show ?thesis .
  next
    case (Some m)
    let ?h = "?g\<lparr>f_discardMarker := None, f_discardOutput := False\<rparr>"
    from Some have "take_marker buf ?g = (m @ buf, clearOutput ?h)" by (simp add: take_marker_def)
    from handle_marked_pass [OF r x this] have "drops (clearOutput ?h) f'" by (rule pass_drops)
    moreover have "drops ?g (clearOutput ?h)"
      using pass_drops [OF clearOutput_pass [of ?h]] by (simp add: drops_def)
    ultimately show ?thesis
      using Some by (intro pass_unmarked) (blast intro: drops_trans, simp add: markerless_def)
  qed
  then show ?thesis by (rule pass_trans0 [OF sync_pass])
qed

lemma endProcessing_pass: "endProcessing f = (x, f') \<Longrightarrow> x \<noteq> Blocked \<Longrightarrow> pass [] f f'"
proof (induction f arbitrary: x f' rule: endProcessing.induct)
  case (1 f)
  show ?case
  proof (cases "f_reconnectPending f \<and> \<not> f_returned f")
    case True
    let ?f = "f\<lparr>f_reconnectPending := False\<rparr>"
    obtain y g where y: "flushOutput ?f = (y, g)" by (metis surj_pair)
    from True y "1.prems" have y': "y \<noteq> Blocked" "endProcessing g = (x, f')"
      by (cases "y = Blocked"; simp add: endProcessing.simps [of f])+
    with y have "y = Next" by (simp add: flushOutput_flow)
    with y have "pass [] ?f g" by (simp add: flushOutput_pass)
    moreover have "pass [] g f'"
      using "1.IH" [OF True refl] y y' "1.prems"(2) by simp
    moreover have "pass [] f ?f" by (rule pass_same) simp_all
    ultimately show ?thesis by (blast intro: pass_trans0)
  next
    case False
    with "1.prems" show ?thesis by (simp add: endProcessing.simps [of f])
  qed
qed

lemma finish_processing_pass:
  assumes "finish_processing (y, g) = (x, f')" "x \<noteq> Blocked"
  shows "y \<noteq> Blocked \<and> pass [] g f'"
  using assms endProcessing_pass [of g x f'] by (cases "y = Blocked") (simp_all add: finish_processing_def)

lemma handleError_loop_pass: "handleError_loop f = (x, f') \<Longrightarrow> x \<noteq> Blocked \<Longrightarrow> pass [] f f'"
proof (induction f arbitrary: x f' rule: handleError_loop.induct)
  case (1 f0)
  define f where f: "f = sync f0"
  obtain y g where y: "wait_reconnected f = (y, g)" by (metis surj_pair)
  obtain z h where z: "flushOutput g = (z, h)" by (metis surj_pair)
  have pg: "pass [] f0 f" "pass [] f g"
    using wait_reconnected_cases [OF y] by (simp_all add: f env_reach_pass)
  note unfold = handleError_loop.simps [of f0] Let_def f [symmetric] y fst_conv snd_conv z
  note prems = "1.prems"(1) [unfolded unfold]
  consider "f' = f" | "f' = g" | "z = Next" "f' = h" | "z = Next" "handleError_loop h = (x, f')"
      "\<not> (f_cacheLines f = [] \<or> f_writeError f)" "y \<noteq> Stop" "y \<noteq> Blocked"
      "f_cacheLines h \<noteq> []" "length (f_script h) < length (f_script f0)"
    using prems "1.prems"(2) flushOutput_flow [OF z] by (simp split: if_split_asm)
  then show ?case
  proof cases
    case 4
    with "1.IH" [OF f 4(3) refl _ _ refl] y z "1.prems"(2) have "pass [] h f'" by simp
    moreover from 4 z have "pass [] g h" by (simp add: flushOutput_pass)
    ultimately show ?thesis using pg by (blast intro: pass_trans0)
  next
    case 3
    with z have "pass [] g h" by (simp add: flushOutput_pass)
    with 3 pg show ?thesis by (blast intro: pass_trans0)
  qed (use pg in \<open>blast intro: pass_trans0\<close>)+
qed

lemma sof_run_op_pass:
  assumes "sof_run_op a f = (x, f')" "x \<noteq> Blocked"
  shows "pass (op_bytes a) f f'"
proof (cases a)
  case (OpBuffer buf)
  obtain y g where y: "handleBuffer_body buf f = (y, g)" by (metis surj_pair)
  with OpBuffer assms have "y \<noteq> Blocked \<and> pass [] g f'"
    using finish_processing_pass [of y g x f'] by (simp add: handleBuffer_def)
  with handleBuffer_body_pass [OF y] OpBuffer show ?thesis
    by (simp add: op_bytes_def) (blast intro: pass_trans1)
next
  case OpReconnected
  obtain y g where y: "flushOutput f = (y, g)" by (metis surj_pair)
  show ?thesis
  proof (cases "f_returned f")
    case True
    with OpReconnected assms show ?thesis by (simp add: sof_onReconnected_def op_bytes_def)
  next
    case False
    with OpReconnected assms y have "y \<noteq> Blocked \<and> pass [] g f'"
      using finish_processing_pass [of y g x f'] by (simp add: sof_onReconnected_def)
    moreover from this y have "pass [] f g" using flushOutput_flow [OF y] flushOutput_pass [of f g] by simp
    ultimately show ?thesis using OpReconnected by (simp add: op_bytes_def) (blast intro: pass_trans0)
  qed
next
  case OpError
  obtain y g where y: "handleError_loop f = (y, g)" by (metis surj_pair)
  with OpError assms have "y \<noteq> Blocked \<and> pass [] g f'"
    using finish_processing_pass [of y g x f'] by (simp add: handleError_def)
  with handleError_loop_pass [OF y] OpError show ?thesis
    by (simp add: op_bytes_def) (blast intro: pass_trans0)
qed

lemma sof_forward_pass:
  "sof_forward as f = (x, f') \<Longrightarrow> x \<noteq> Blocked \<Longrightarrow> pass (concat (map op_bytes as)) f f'"
proof (induction as arbitrary: f)
  case (Cons a as)
  obtain y g where y: "sof_run_op a f = (y, g)" by (metis surj_pair)
  with Cons.prems have "y \<noteq> Blocked" "sof_forward as g = (x, f')"
    by (cases "y = Blocked"; simp)+
  with Cons sof_run_op_pass [OF y] have "pass (op_bytes a) f g" "pass (concat (map op_bytes as)) g f'"
    by blast+
  then show ?case by (simp add: pass_trans)
qed simp

lemma newOutputForwarder_clean:
  "list_all (list_all no_marker) script \<Longrightarrow> clean (newOutputForwarder rows script)"
  "all_data (newOutputForwarder rows script) = []" "f_dropped (newOutputForwarder rows script) = []"
  by (simp_all add: clean_def markerless_def all_data_def data_out_def newOutputForwarder_def)

section \<open>Properties\<close>

text \<open>
  C4. Session output is neither lost, duplicated nor reordered: for every interleaving of chunks,
  disconnections, reconnections, writer progress and end of input, if the forwarder gave nothing
  up (no cache overflow, no failed writer, no discard request) then what it wrote, queued and
  still caches is exactly the concatenation of the chunks, provided they contain no ESC byte
  (cursor position requests are filtered from cached lines).
\<close>

theorem output_lossless:
  assumes "sof_forward as (newOutputForwarder rows script) = (Next, f')"
    and "f_dropped f' = []" "list_all (list_all no_marker) script"
    and "27 \<notin> set (concat (map op_bytes as))"
  shows "concat (f_sent f') @ (case f_writeBufCh f' of None \<Rightarrow> [] | Some b \<Rightarrow> b) @ concat (f_cacheLines f')
    = concat (map op_bytes as)"
  using sof_forward_pass [OF assms(1)] newOutputForwarder_clean(1) [OF assms(3)] newOutputForwarder_clean(2,3) assms(2,4)
  by (simp add: pass_def all_data_def data_out_def)

definition sample_script :: "sof_env list list" where
  "sample_script = [[], [], [], [ETimeout True], [], [], [], [], [], [], [], [], [], [], [], [], [],
     [ETimeout False, EReconnected], [], [], [EWrite], [EWrite], [EWrite], [EWrite], [EWrite], [EWrite],
     [EWrite], [EWrite], [EWrite]]"

theorem output_lossless_witness:
  "concat (f_sent (snd (sof_forward [OpBuffer [97], OpBuffer [98, 10, 99], OpBuffer [100, 10, 101], OpError]
       (newOutputForwarder 24 sample_script))))
   @ (case f_writeBufCh (snd (sof_forward [OpBuffer [97], OpBuffer [98, 10, 99], OpBuffer [100, 10, 101], OpError]
       (newOutputForwarder 24 sample_script))) of None \<Rightarrow> [] | Some b \<Rightarrow> b)
   @ concat (f_cacheLines (snd (sof_forward [OpBuffer [97], OpBuffer [98, 10, 99], OpBuffer [100, 10, 101], OpError]
       (newOutputForwarder 24 sample_script))))
   = concat (map op_bytes [OpBuffer [97], OpBuffer [98, 10, 99], OpBuffer [100, 10, 101], OpError])"
  by (rule output_lossless [where script = sample_script and rows = 24]; code_simp)

end
