(* ===== verification/Output_Inv.thy ===== *)
theory Output_Inv
  imports Output_Props
begin

text \<open>
  Invariants of the forwarder's cache. The locale \<open>cache_invariant\<close> is the contract between the
  cache operations and the handlers: a predicate that the cache operations keep holds after every
  handler, also when it is still blocked. It is interpreted for the bound on the number of cached
  lines, which also excludes the empty lines on which \<open>cacheOutput\<close> would index out of range.
\<close>

section \<open>Definitions\<close>

definition same_cache :: "sof \<Rightarrow> sof \<Rightarrow> bool" where
  "same_cache f g \<longleftrightarrow> f_cacheLines g = f_cacheLines f \<and> f_script g = f_script f \<and> f_rows g = f_rows f"

definition rows_le :: "int \<Rightarrow> sof_env \<Rightarrow> bool" where
  "rows_le R e \<longleftrightarrow> (case e of ERows r \<Rightarrow> r \<le> R | _ \<Rightarrow> True)"

text \<open>At most \<open>max(1000, 2 R)\<close> cached lines, none of them empty, for a terminal of at most \<open>R\<close> rows.\<close>

definition cache_bounded :: "int \<Rightarrow> sof \<Rightarrow> bool" where
  "cache_bounded R f \<longleftrightarrow>
     ok_lines (f_cacheLines f) \<and> int (length (f_cacheLines f)) \<le> max (int maxPendingOutputLines) (2 * R)
     \<and> f_rows f \<le> R \<and> list_all (list_all (rows_le R)) (f_script f)"

section \<open>The contract\<close>

locale cache_invariant =
  fixes I :: "sof \<Rightarrow> bool"
  assumes I_env: "\<lbrakk>I f; f_script f = b # bs\<rbrakk> \<Longrightarrow> I (env_batch b (f\<lparr>f_script := bs\<rparr>))"
    and I_cache: "I f \<Longrightarrow> I (cacheOutput buf f)"
    and I_shrink: "I f \<Longrightarrow> I (f\<lparr>f_cacheLines := drop i (f_cacheLines f)\<rparr>)"
    and I_same: "\<lbrakk>I f; same_cache f g\<rbrakk> \<Longrightarrow> I g"
begin

lemma I_reach: "env_reach f g \<Longrightarrow> I f \<Longrightarrow> I g"
  by (induction rule: env_reach.induct) (simp_all add: I_env)

lemma I_sync: "I f \<Longrightarrow> I (sync f)"
  using I_reach env_reach_sync by blast

lemma I_drop_log: "I f \<Longrightarrow> I (drop_log bs f)"
  by (erule I_same) (simp add: same_cache_def drop_log_def)

lemma I_clear: "I f \<Longrightarrow> I (clearOutput f)"
  by (rule I_same [OF I_shrink [of f "length (f_cacheLines f)"]])
    (simp_all add: same_cache_def clearOutput_def Let_def drop_log_def)

lemma I_enqueue_flush:
  assumes "I f" "enqueue_flush line f = (q, f')"
  shows "I f'"
proof -
  from enqueue_flush_cases [OF assms(2)] obtain g where g: "env_reach f g"
    "f' = g \<or> f' = g\<lparr>f_writeBufCh := Some line\<rparr>"
    by (cases "q = Sent") (simp_all, blast+)
  from g(2) have "same_cache g f'" by (elim disjE) (simp_all add: same_cache_def)
  with I_reach [OF g(1) assms(1)] show ?thesis by (rule I_same)
qed

lemma I_enqueueWhileDisconnected:
  assumes "I f" "enqueueWhileDisconnected buf f = (q, f')"
  shows "I f'"
proof -
  from enqueueWhileDisconnected_cases [OF assms(2)] obtain g where g: "env_reach f g"
    "f' = g \<or> f' = g\<lparr>f_writeBufCh := Some buf\<rparr>"
    by (cases "q = Sent") (simp_all, blast+)
  from g(2) have "same_cache g f'" by (elim disjE) (simp_all add: same_cache_def)
  with I_reach [OF g(1) assms(1)] show ?thesis by (rule I_same)
qed

lemma I_flush_lines: "I f \<Longrightarrow> I (snd (flush_lines i ls f))"
proof (induction ls arbitrary: i f)
  case Nil
  have "I (f\<lparr>f_cacheLines := []\<rparr>)"
    using I_shrink [OF Nil, of "length (f_cacheLines f)"] by simp
  then show ?case by (elim I_same) (simp add: same_cache_def)
next
  case (Cons l ls)
  obtain q f1 where q: "enqueue_flush (remove_sub l esc6n) f = (q, f1)" by (metis surj_pair)
  then have "I f1" using Cons.prems by (blast intro: I_enqueue_flush)
  with Cons q show ?case
    by (cases "remove_sub l esc6n = []"; cases q) (simp_all add: Let_def I_shrink I_drop_log)
qed

lemma I_flush_from_start: "I f \<Longrightarrow> I (snd (flush_from_start f))"
proof (cases "f_discardLines f = 0")
  case False
  assume f: "I f"
  obtain q f1 where q: "enqueue_flush (warning_line f) f = (q, f1)" by (metis surj_pair)
  then have f1: "I f1" using f by (blast intro: I_enqueue_flush)
  then have "I (f1\<lparr>f_discardLines := 0, f_discardBytes := 0\<rparr>)"
    by (elim I_same) (simp add: same_cache_def)
  with f1 q False show ?thesis
    by (cases q) (simp_all add: flush_from_start_def I_flush_lines I_drop_log)
qed (simp add: flush_from_start_def I_flush_lines)

lemma I_flushOutput: "I f \<Longrightarrow> I (snd (flushOutput f))"
proof -
  assume "I f"
  then have g: "I (sync f)" by (rule I_sync)
  then have h: "I ((sync f)\<lparr>f_discardOutput := True\<rparr>)" by (elim I_same) (simp add: same_cache_def)
  from g h show ?thesis
    unfolding flushOutput_def Let_def
    by (cases "f_setSize (sync f)") (simp_all add: I_clear I_flush_from_start)
qed

lemma I_send_away: "I f \<Longrightarrow> I (snd (send_away buf0 f))"
proof -
  assume "I f"
  then have "I (sync f)" by (rule I_sync)
  then have f: "I ((sync f)\<lparr>f_writeBufCh := None\<rparr>)" by (elim I_same) (simp add: same_cache_def)
  define buf where "buf = (case f_writeBufCh (sync f) of None \<Rightarrow> buf0 | Some b \<Rightarrow> b @ buf0)"
  define part where "part = (case index_elem buf 10 of None \<Rightarrow> buf | Some pos \<Rightarrow> take (Suc pos) buf)"
  obtain q f2 where q: "enqueueWhileDisconnected part ((sync f)\<lparr>f_writeBufCh := None\<rparr>) = (q, f2)"
    by (metis surj_pair)
  have f2: "I f2" using f q by (rule I_enqueueWhileDisconnected)
  have *: "I (h\<lparr>f_chHasNewLine := True\<rparr>)" "I (h\<lparr>f_noNewLineCount := n\<rparr>)" if "I h" for h n
    using that by (auto elim!: I_same simp: same_cache_def)
  show ?thesis
    using q f2 * unfolding send_away_def Let_def buf_def [symmetric]
    by (cases "index_elem buf 10"; cases q) (simp_all add: part_def I_drop_log I_cache)
qed

lemma I_send_loop: "I f \<Longrightarrow> I (snd (send_loop buf f))"
proof (induction buf f rule: send_loop.induct)
  case (1 buf f)
  define f1 f2 f3 where d: "f1 = sync f" "f2 = sync f1" "f3 = sync f2"
  have I: "I f1" "I f2" "I f3" unfolding d using "1.prems" by (simp_all add: I_sync)
  have free: "I (f1\<lparr>f_writeBufCh := Some buf\<rparr>)" using I(1) by (elim I_same) (simp add: same_cache_def)
  obtain y g where y: "wait_reconnected f3 = (y, g)" by (metis surj_pair)
  have g: "I g" using wait_reconnected_cases [OF y] I(3) I_reach by blast
  have w: "I f4" if "wait_step f3 = Some f4" for f4
    using env_reach_wait [OF that] I(3) I_reach by blast
  note IH = "1.IH"(1) [OF d(1) _ d(2) _ d(3) _ refl] "1.IH"(2) [OF d(1) _ d(2) _ d(3)]
  show ?case
    unfolding send_loop.simps [of buf f] Let_def d [symmetric] y fst_conv snd_conv
    using free I g w IH y
    by (cases "wait_step f3"; cases y) (simp_all add: I_drop_log I_send_away del: not_None_eq)
qed

lemma I_handleBuffer_send: "I f \<Longrightarrow> I (snd (handleBuffer_send buf rem f))"
proof -
  assume "I f"
  then have "I (snd (send_loop buf f))" by (rule I_send_loop)
  then show ?thesis
    by (cases "send_loop buf f"; cases "fst (send_loop buf f)")
      (simp_all add: handleBuffer_send_def I_drop_log I_cache)
qed

lemma I_away: "I f \<Longrightarrow> I (snd (away f))"
  using I_reach away_reach by blast

lemma I_handleBuffer_new: "I f \<Longrightarrow> I (snd (handleBuffer_new buf f))"
proof -
  assume "I f"
  obtain b g where a: "away f = (b, g)" by (metis surj_pair)
  with I_away [OF \<open>I f\<close>] have g: "I g" by simp
  then have "I (g\<lparr>f_chHasNewLine := True\<rparr>)" "I (g\<lparr>f_noNewLineCount := Suc (f_noNewLineCount g)\<rparr>)"
    by (auto elim!: I_same simp: same_cache_def)
  with g a show ?thesis
    unfolding handleBuffer_new_def
    by (cases b; cases "index_elem buf 10") (simp_all add: I_handleBuffer_send I_cache)
qed

lemma I_take_discard: "I f \<Longrightarrow> I (take_discard f)"
proof -
  assume f: "I f"
  then have "I (f\<lparr>f_discardOutput := False\<rparr>)" by (elim I_same) (simp add: same_cache_def)
  with f show ?thesis by (simp add: take_discard_def I_clear)
qed

lemma I_take_marker: "I f \<Longrightarrow> I (snd (take_marker buf f))"
proof -
  assume f: "I f"
  then have "I (f\<lparr>f_discardMarker := None, f_discardOutput := False\<rparr>)"
    by (elim I_same) (simp add: same_cache_def)
  with f show ?thesis by (cases "f_discardMarker f") (simp_all add: take_marker_def I_clear)
qed

lemma I_handleBuffer_body: "I f \<Longrightarrow> I (snd (handleBuffer_body buf f))"
proof -
  assume "I f"
  define f1 where "f1 = take_discard (sync (snd (take_marker buf (sync f))))"
  have "I f1" unfolding f1_def using \<open>I f\<close> by (simp add: I_take_discard I_take_marker I_sync)
  then show ?thesis
    unfolding handleBuffer_body_def Let_def f1_def [symmetric]
    by (simp add: I_away I_cache I_flushOutput I_handleBuffer_new)
qed

lemma I_endProcessing: "I f \<Longrightarrow> I (snd (endProcessing f))"
proof (induction f rule: endProcessing.induct)
  case (1 f)
  have "I (f\<lparr>f_reconnectPending := False\<rparr>)"
    using "1.prems" by (elim I_same) (simp add: same_cache_def)
  then have "I (snd (flushOutput (f\<lparr>f_reconnectPending := False\<rparr>)))" by (rule I_flushOutput)
  with "1.IH" [OF _ refl] "1.prems" show ?case
    by (simp add: endProcessing.simps [of f] Let_def)
qed

lemma I_finish: "I (snd r) \<Longrightarrow> I (snd (finish_processing r))"
  by (simp add: finish_processing_def I_endProcessing)

lemma I_handleError_loop: "I f \<Longrightarrow> I (snd (handleError_loop f))"
proof (induction f rule: handleError_loop.induct)
  case (1 f0)
  define f where f: "f = sync f0"
  obtain y g where y: "wait_reconnected f = (y, g)" by (metis surj_pair)
  have I: "I f" "I g"
    using I_sync [OF "1.prems"] wait_reconnected_cases [OF y] I_reach unfolding f by blast+
  note h = I_flushOutput [OF I(2)]
  note IH = "1.IH" [OF f _ refl _ _ refl]
  show ?case
    unfolding handleError_loop.simps [of f0] Let_def f [symmetric] y fst_conv snd_conv
    using I h IH y by (cases y) simp_all
qed

lemma I_run_op: "I f \<Longrightarrow> I (snd (sof_run_op a f))"
  by (cases a) (simp_all add: handleBuffer_def handleError_def sof_onReconnected_def I_finish
      I_handleBuffer_body I_handleError_loop I_flushOutput)

lemma I_forward: "I f \<Longrightarrow> I (snd (sof_forward as f))"
  by (induction as arbitrary: f) (simp_all add: Let_def I_run_op)

end

section \<open>The bound\<close>

lemma env_step_rows: "rows_le R e \<Longrightarrow> f_rows f \<le> R \<Longrightarrow> f_rows (env_step e f) \<le> R"
  by (cases e) (simp_all add: rows_le_def writerLoop_def drop_log_def split: option.splits)

lemma env_batch_rows: "list_all (rows_le R) es \<Longrightarrow> f_rows f \<le> R \<Longrightarrow> f_rows (env_batch es f) \<le> R"
  unfolding env_batch_def by (induction es arbitrary: f) (simp_all add: env_step_rows)

lemma cacheOutput_lines:
  "f_cacheLines (cacheOutput buf f) =
     drop (length (add_lines buf (f_cacheLines f)) - maxLines f) (add_lines buf (f_cacheLines f))"
  by (simp add: cacheOutput_def Let_def drop_log_def)

lemma cacheOutput_rest:
  "f_rows (cacheOutput buf f) = f_rows f" "f_script (cacheOutput buf f) = f_script f"
  by (simp_all add: cacheOutput_def Let_def drop_log_def)

lemma ok_lines_drop: "ok_lines cl \<Longrightarrow> ok_lines (drop n cl)"
  by (auto simp: ok_lines_def dest: in_set_dropD)

interpretation bounded: cache_invariant "cache_bounded R" for R
proof
  show "cache_bounded R (env_batch b (f\<lparr>f_script := bs\<rparr>))"
    if "cache_bounded R f" "f_script f = b # bs" for f b bs
    using that env_batch_rows [of R b "f\<lparr>f_script := bs\<rparr>"] env_batch_keeps [of b "f\<lparr>f_script := bs\<rparr>"]
    by (simp add: cache_bounded_def)
  show "cache_bounded R (cacheOutput buf f)" if "cache_bounded R f" for f buf
  proof -
    have "int (length (f_cacheLines (cacheOutput buf f))) \<le> int (maxLines f)"
      by (simp add: cacheOutput_lines)
    also have "\<dots> \<le> max (int maxPendingOutputLines) (2 * R)"
      using that by (simp add: maxLines_def cache_bounded_def) linarith
    finally show ?thesis
      using that by (simp add: cache_bounded_def cacheOutput_rest cacheOutput_lines ok_lines_drop
          ok_lines_add_lines)
  qed
  show "cache_bounded R (f\<lparr>f_cacheLines := drop i (f_cacheLines f)\<rparr>)" if "cache_bounded R f" for f i
  proof -
    have "int (length (drop i (f_cacheLines f))) \<le> int (length (f_cacheLines f))" by simp
    with that show ?thesis
      unfolding cache_bounded_def by (simp add: ok_lines_drop del: length_drop)
  qed
  show "cache_bounded R g" if "cache_bounded R f" "same_cache f g" for f g
    using that by (simp add: cache_bounded_def same_cache_def)
qed

lemma newOutputForwarder_bounded:
  "rows \<le> R \<Longrightarrow> list_all (list_all (rows_le R)) script \<Longrightarrow> cache_bounded R (newOutputForwarder rows script)"
  by (simp add: cache_bounded_def newOutputForwarder_def ok_lines_def)

lemma wait_reconnected_stop:
  "wait_reconnected f = (Stop, g) \<Longrightarrow> f_timeout g \<and> f_checkerClosed g"
proof (induction f rule: wait_reconnected.induct)
  case (1 f)
  then show ?case
    by (cases "wait_step f") (simp_all add: wait_reconnected.simps [of f] split: if_split_asm)
qed

lemma handleError_loop_empties:
  "handleError_loop f = (Next, f') \<Longrightarrow>
   f_cacheLines f' = [] \<or> f_writeError f' \<or> f_timeout f' \<and> f_checkerClosed f'"
proof (induction f rule: handleError_loop.induct)
  case (1 f0)
  define f where f: "f = sync f0"
  obtain y g where y: "wait_reconnected f = (y, g)" by (metis surj_pair)
  obtain z h where z: "flushOutput g = (z, h)" by (metis surj_pair)
  note prems = "1.prems"(1) [unfolded handleError_loop.simps [of f0] Let_def f [symmetric] y z fst_conv snd_conv]
  show ?case
  proof (cases "f_cacheLines f = [] \<or> f_writeError f \<or> y \<noteq> Next")
    case True
    with prems show ?thesis
      using wait_reconnected_stop [of f g] y by (cases y; simp split: if_split_asm; blast)
  next
    case False
    show ?thesis
    proof (cases "f_cacheLines h = []")
      case True
      with False prems show ?thesis by (simp split: if_split_asm)
    next
      case ne: False
      with False prems have "handleError_loop h = (Next, f')" "z \<noteq> Blocked"
        "length (f_script h) < length (f_script f0)" by (simp_all split: if_split_asm)
      with "1.IH" [OF f _ refl _ _ refl] False y z ne show ?thesis by simp
    qed
  qed
qed

section \<open>Properties\<close>

text \<open>
  C18. The cache of pending output is bounded and well formed: after any run of the forwarder, even
  one that is still blocked, at most \<open>max(1000, 2 R)\<close> lines are cached for a terminal that never
  had more than \<open>R\<close> rows, and none of them is empty, so that \<open>cacheOutput\<close> never indexes the last
  byte of an empty line.
\<close>

theorem output_cache_bounded:
  assumes "rows \<le> R" "list_all (list_all (rows_le R)) script"
    and "f' = snd (sof_forward as (newOutputForwarder rows script))"
  shows "int (length (f_cacheLines f')) \<le> max (int maxPendingOutputLines) (2 * R) \<and> [] \<notin> set (f_cacheLines f')"
  using bounded.I_forward [OF newOutputForwarder_bounded [OF assms(1,2)], of as] assms(3)
  by (simp add: cache_bounded_def ok_lines_def)

theorem output_cache_bounded_witness:
  "int (length (f_cacheLines (snd (sof_forward [OpBuffer [97], OpBuffer [98, 10, 99], OpBuffer [100, 10, 101]]
       (newOutputForwarder 24 (take 12 sample_script)))))) \<le> max (int maxPendingOutputLines) (2 * 24)
   \<and> [] \<notin> set (f_cacheLines (snd (sof_forward [OpBuffer [97], OpBuffer [98, 10, 99], OpBuffer [100, 10, 101]]
       (newOutputForwarder 24 (take 12 sample_script)))))"
  by (rule output_cache_bounded [where rows = 24 and script = "take 12 sample_script" and
      as = "[OpBuffer [97], OpBuffer [98, 10, 99], OpBuffer [100, 10, 101]]"]) (simp, code_simp, simp)

text \<open>
  The end of the input does not cut off cached output: the loop of \<open>handleError\<close> only ends
  when every cached line was handed to the writer, or the writer failed, or the heartbeat checker
  was closed while the client was away.
\<close>

lemma handleError_drains:
  assumes "handleError_loop f = (Next, f')" "\<not> f_writeError f'" "\<not> f_checkerClosed f'"
  shows "f_cacheLines f' = []"
  using handleError_loop_empties [OF assms(1)] assms(2,3) by blast

lemma handleError_drains_witness:
  "f_cacheLines (snd (handleError_loop ((newOutputForwarder 24 (replicate 8 [EWrite]))
     \<lparr>f_cacheLines := [[97, 10], [98, 10]]\<rparr>))) = []"
  by (rule handleError_drains
      [where f = "(newOutputForwarder 24 (replicate 8 [EWrite]))\<lparr>f_cacheLines := [[97, 10], [98, 10]]\<rparr>"]; code_simp)

end
