(* ===== verification/SshdConfig.thy ===== *)
theory SshdConfig
  imports Go_Strings
begin

text \<open>
  The \<open>sshd_config\<close> reader of \<open>sshd_config.go\<close>: key/value lines, \<open>Match\<close> blocks with user and group
  patterns, and the subsystem table. A file is the list of the lines its scanner delivers.

  Patterns are matched through \<open>regexp\<close>: \<open>regexp_Compile\<close> reads the expressions
  \<open>wildcardToRegexp\<close> can produce (literals, escaped punctuation, \<open>.\<close> and \<open>.*\<close> between \<open>^\<close> and
  \<open>$\<close>; anything else is \<open>None\<close>), and \<open>re_MatchString\<close> is the meaning Go gives to them, where a
  dot does not match a newline.
\<close>

section \<open>Key and value\<close>

fun index_any :: "('a \<Rightarrow> bool) \<Rightarrow> 'a list \<Rightarrow> nat option" where
  "index_any p [] = None"
| "index_any p (x # xs) = (if p x then Some 0 else map_option Suc (index_any p xs))"

definition is_blank :: "char \<Rightarrow> bool" where
  "is_blank c \<longleftrightarrow> c = CHR '' '' \<or> c = CHR 0x09"

definition split_at :: "nat \<Rightarrow> string \<Rightarrow> string \<times> string" where
  "split_at pos line = (to_lower (trim_space (take pos line)), trim_space (drop (Suc pos) line))"

definition splitKeyValue :: "string \<Rightarrow> string \<times> string" where
  "splitKeyValue line =
     (case index_any (\<lambda>c. c = CHR ''='') line of
        Some pos \<Rightarrow>
          (case index_any is_blank (trim_right is_blank (take pos line)) of
             Some p \<Rightarrow> split_at (if p > 0 then p else pos) line
           | None \<Rightarrow> split_at pos line)
      | None \<Rightarrow>
          (case index_any is_blank line of
             Some pos \<Rightarrow> split_at pos line
           | None \<Rightarrow> (to_lower (trim_space line), [])))"

section \<open>Wildcards\<close>

definition re_escaped :: "char \<Rightarrow> bool" where
  "re_escaped c \<longleftrightarrow> c \<in> set ''()[]{}.+,-^$|'' \<or> c = CHR 0x5C"

fun wildcard_body :: "string \<Rightarrow> string" where
  "wildcard_body [] = []"
| "wildcard_body (c # s) =
     (if c = CHR ''*'' then ''.*'' @ wildcard_body s
      else if c = CHR ''?'' then CHR ''.'' # wildcard_body s
      else if re_escaped c then CHR 0x5C # c # wildcard_body s
      else c # wildcard_body s)"

definition wildcardToRegexp :: "string \<Rightarrow> string" where
  "wildcardToRegexp pattern = CHR ''^'' # wildcard_body pattern @ ''$''"

datatype re_tok = RLit char | RAny | RStar

definition re_special :: "char \<Rightarrow> bool" where
  "re_special c \<longleftrightarrow> c \<in> set ''.+*?()|[]{}^$'' \<or> c = CHR 0x5C"

fun re_parse :: "string \<Rightarrow> re_tok list option" where
  "re_parse [] = None"
| "re_parse [c] =
     (if c = CHR ''$'' then Some []
      else None)"
| "re_parse (c # d # s) =
     (if c = CHR 0x5C then (if re_escaped d then map_option ((#) (RLit d)) (re_parse s) else None)
      else if c = CHR ''.'' \<and> d = CHR ''*'' then map_option ((#) RStar) (re_parse s)
      else if c = CHR ''.'' then map_option ((#) RAny) (re_parse (d # s))
      else if re_special c then None
      else map_option ((#) (RLit c)) (re_parse (d # s)))"

definition regexp_Compile :: "string \<Rightarrow> re_tok list option" where
  "regexp_Compile expr = (case expr of c # s \<Rightarrow> if c = CHR ''^'' then re_parse s else None | [] \<Rightarrow> None)"

definition newline :: char where "newline = CHR 0x0A"

fun re_MatchString :: "re_tok list \<Rightarrow> string \<Rightarrow> bool" where
  "re_MatchString [] s \<longleftrightarrow> s = []"
| "re_MatchString (RLit c # r) s \<longleftrightarrow> (case s of [] \<Rightarrow> False | d # t \<Rightarrow> d = c \<and> re_MatchString r t)"
| "re_MatchString (RAny # r) s \<longleftrightarrow> (case s of [] \<Rightarrow> False | d # t \<Rightarrow> d \<noteq> newline \<and> re_MatchString r t)"
| "re_MatchString (RStar # r) [] \<longleftrightarrow> re_MatchString r []"
| "re_MatchString (RStar # r) (d # t) \<longleftrightarrow>
     re_MatchString r (d # t) \<or> d \<noteq> newline \<and> re_MatchString (RStar # r) t"

definition wildcardMatch :: "string \<Rightarrow> string \<Rightarrow> bool" where
  "wildcardMatch pattern value =
     (case regexp_Compile (wildcardToRegexp pattern) of
        None \<Rightarrow> False
      | Some re \<Rightarrow> re_MatchString re value)"

section \<open>Match conditions\<close>

fun matchList_loop :: "string \<Rightarrow> bool \<Rightarrow> bool \<Rightarrow> string list \<Rightarrow> bool" where
  "matchList_loop value hasPositive positiveMatch [] = (if hasPositive then positiveMatch else True)"
| "matchList_loop value hasPositive positiveMatch (p # ps) =
     (let neg = has_prefix p ''!''; pat = (if neg then trim_space (drop 1 p) else p)
      in if wildcardMatch pat value
         then (if neg then False else matchList_loop value True True ps)
         else matchList_loop value (if neg then hasPositive else True) positiveMatch ps)"

definition matchList :: "string \<Rightarrow> string list \<Rightarrow> bool" where
  "matchList value patterns = matchList_loop value False False patterns"

text \<open>The inner loop over the groups: \<open>None\<close> is the early \<open>return false\<close> of a negated pattern.\<close>

fun matchGroups :: "bool \<Rightarrow> string \<Rightarrow> bool \<Rightarrow> string list \<Rightarrow> bool option" where
  "matchGroups neg pat positiveMatch [] = Some positiveMatch"
| "matchGroups neg pat positiveMatch (g # gs) =
     (if wildcardMatch pat g
      then (if neg then None else matchGroups neg pat True gs)
      else matchGroups neg pat positiveMatch gs)"

fun matchGroupList_loop :: "string list \<Rightarrow> bool \<Rightarrow> bool \<Rightarrow> string list \<Rightarrow> bool" where
  "matchGroupList_loop groups hasPositive positiveMatch [] = (if hasPositive then positiveMatch else True)"
| "matchGroupList_loop groups hasPositive positiveMatch (p # ps) =
     (let neg = has_prefix p ''!''; pat = (if neg then trim_space (drop 1 p) else p)
      in (case matchGroups neg pat positiveMatch groups of
            None \<Rightarrow> False
          | Some pm \<Rightarrow> matchGroupList_loop groups (if neg then hasPositive else True) pm ps))"

definition matchGroupList :: "string list \<Rightarrow> string list \<Rightarrow> bool" where
  "matchGroupList groups patterns = matchGroupList_loop groups False False patterns"

text \<open>The condition map, in the order its keys were first added.\<close>

type_synonym conds = "(string \<times> string list) list"

definition conds_append :: "string \<Rightarrow> string \<Rightarrow> conds \<Rightarrow> conds" where
  "conds_append key v conds =
     (case map_of conds key of
        None \<Rightarrow> conds @ [(key, [v])]
      | Some vs \<Rightarrow> map (\<lambda>(k, ws). if k = key then (k, ws @ [v]) else (k, ws)) conds)"

definition addCondValue :: "string \<Rightarrow> string \<Rightarrow> conds \<Rightarrow> conds" where
  "addCondValue key vals conds =
     fold (\<lambda>v cs. let v' = trim_space v in if v' \<noteq> [] then conds_append key v' cs else cs)
       (split_char (CHR '','') vals) conds"

definition evalMatchConditions :: "conds \<Rightarrow> string \<Rightarrow> string list \<Rightarrow> bool" where
  "evalMatchConditions conds user groups =
     (if list_ex (\<lambda>(k, _). k \<notin> set [''user'', ''group'', ''all'']) conds then False
      else if (case map_of conds ''user'' of Some pats \<Rightarrow> \<not> matchList user pats | None \<Rightarrow> False) then False
      else if (case map_of conds ''group'' of Some pats \<Rightarrow> \<not> matchGroupList groups pats | None \<Rightarrow> False) then False
      else True)"

text \<open>\<open>\s*,\s*\<close> replaced by a comma.\<close>

definition re_space :: "char \<Rightarrow> bool" where
  "re_space c \<longleftrightarrow> c \<in> set [CHR 0x09, CHR 0x0A, CHR 0x0C, CHR 0x0D, CHR '' '']"

function squeeze_commas :: "string \<Rightarrow> string" where
  "squeeze_commas s =
     (if s = [] then []
      else let rest = dropWhile re_space s
        in if rest \<noteq> [] \<and> hd rest = CHR '','' then CHR '','' # squeeze_commas (dropWhile re_space (tl rest))
           else hd s # squeeze_commas (tl s))"
  by pat_completeness auto
termination
proof (relation "measure length", goal_cases)
  case (2 s rest)
  have "length (dropWhile re_space (tl rest)) \<le> length (tl rest)" by (rule length_dropWhile_le)
  also have "\<dots> < length rest" using 2 by simp
  also have "\<dots> \<le> length s" using 2 by (simp add: length_dropWhile_le)
  finally show ?case by simp
qed auto

declare squeeze_commas.simps [simp del]

definition cut_eq :: "string \<Rightarrow> string \<times> string" where
  "cut_eq token = (takeWhile (\<lambda>c. c \<noteq> CHR ''='') token, tl (dropWhile (\<lambda>c. c \<noteq> CHR ''='') token))"

text \<open>
  The token loop. \<open>prev\<close> is the token before (only read by the second case, which the first one
  shadows).
\<close>

function evalMatch_tokens :: "string option \<Rightarrow> string list \<Rightarrow> conds \<Rightarrow> conds" where
  "evalMatch_tokens prev [] conds = conds"
| "evalMatch_tokens prev (token # ts) conds =
     (if CHR ''='' \<in> set token then
        (let key = to_lower (trim_space (fst (cut_eq token))); val = trim_space (snd (cut_eq token))
         in if val = [] \<and> ts \<noteq> []
            then evalMatch_tokens (Some (hd ts)) (tl ts) (addCondValue key (hd ts) conds)
            else evalMatch_tokens (Some token) ts (addCondValue key val conds))
      else if token = ''='' then
        (case prev of
           Some k \<Rightarrow>
             if ts \<noteq> [] then evalMatch_tokens (Some (hd ts)) (tl ts) (addCondValue (to_lower k) (hd ts) conds)
             else evalMatch_tokens (Some token) ts conds
         | None \<Rightarrow> evalMatch_tokens (Some token) ts conds)
      else if ts \<noteq> [] \<and> has_prefix (hd ts) ''='' then
        (let val = drop 1 (hd ts); rest = tl ts
         in if val = [] \<and> rest \<noteq> []
            then evalMatch_tokens (Some (hd rest)) (tl rest) (addCondValue (to_lower token) (hd rest) conds)
            else evalMatch_tokens (Some (hd ts)) rest (addCondValue (to_lower token) val conds))
      else if ts \<noteq> [] then
        evalMatch_tokens (Some (hd ts)) (tl ts) (addCondValue (to_lower token) (hd ts) conds)
      else conds)"
  by pat_completeness auto
termination
  by (relation "measure (\<lambda>(prev, ts, conds). length ts)") (auto simp: neq_Nil_conv)

declare evalMatch_tokens.simps(2) [simp del]

definition evalMatchLine :: "string \<Rightarrow> string \<Rightarrow> string list \<Rightarrow> bool" where
  "evalMatchLine line user groups =
     (let tokens = str_fields (squeeze_commas line)
      in if tokens = [] then False
         else evalMatchConditions (evalMatch_tokens None tokens []) user groups)"

section \<open>The file\<close>

record sshd_conf =
  sshdConfigMap :: "string \<rightharpoonup> string"
  sshdSubsystemMap :: "string \<rightharpoonup> string"

record parse_st =
  ps_conf :: sshd_conf
  ps_inMatch :: bool
  ps_userMatch :: bool

definition parse_line :: "string \<Rightarrow> string list \<Rightarrow> string \<Rightarrow> parse_st \<Rightarrow> parse_st" where
  "parse_line user groups line0 st =
     (let line = trim_space line0
      in if line = [] \<or> has_prefix line ''#'' then st
         else let (key, val) = splitKeyValue line
           in if key = ''match'' \<and> val \<noteq> []
              then st\<lparr>ps_inMatch := True, ps_userMatch := evalMatchLine val user groups\<rparr>
              else if ps_inMatch st \<and> \<not> ps_userMatch st then st
              else if key = ''subsystem'' \<and> val \<noteq> [] then
                (let (name, path) = splitKeyValue val
                 in if name \<noteq> []
                    then st\<lparr>ps_conf := (ps_conf st)\<lparr>sshdSubsystemMap := (sshdSubsystemMap (ps_conf st))(name \<mapsto> path)\<rparr>\<rparr>
                    else st)
              else st\<lparr>ps_conf := (ps_conf st)\<lparr>sshdConfigMap := (sshdConfigMap (ps_conf st))(key \<mapsto> val)\<rparr>\<rparr>)"

definition parse_init :: parse_st where
  "parse_init =
     \<lparr>ps_conf = \<lparr>sshdConfigMap = [''acceptenv'' \<mapsto> ''LANG LC_*''], sshdSubsystemMap = Map.empty\<rparr>,
      ps_inMatch = False, ps_userMatch = False\<rparr>"

text \<open>\<open>None\<close> stands for a file that cannot be opened.\<close>

definition parseSshdConfig :: "string list option \<Rightarrow> string \<Rightarrow> string list \<Rightarrow> sshd_conf" where
  "parseSshdConfig file user groups =
     (case file of
        None \<Rightarrow> ps_conf parse_init
      | Some lines \<Rightarrow> ps_conf (fold (parse_line user groups) lines parse_init))"

definition getSshdConfig :: "sshd_conf \<Rightarrow> string \<Rightarrow> string" where
  "getSshdConfig conf key = (case sshdConfigMap conf (to_lower key) of Some val \<Rightarrow> val | None \<Rightarrow> [])"

definition getSshdSubsystem :: "sshd_conf \<Rightarrow> string \<Rightarrow> string" where
  "getSshdSubsystem conf name = (case sshdSubsystemMap conf (to_lower name) of Some val \<Rightarrow> val | None \<Rightarrow> [])"

text \<open>\<open>splitCommandLine\<close> is third-party code on Unix: a parameter.\<close>

definition getSubsystemCmd ::
  "(string \<Rightarrow> string list result) \<Rightarrow> string \<Rightarrow> sshd_conf \<Rightarrow> string \<Rightarrow> (string \<times> string list) result" where
  "getSubsystemCmd splitCommandLine path conf name =
     (let command = getSshdSubsystem conf name
      in if command = [] then Inl (ErrText (''subsystem ['' @ name @ ''] does not exist in ['' @ path @ '']''))
         else (case splitCommandLine command of
             Inl e \<Rightarrow> Inl (ErrFlat (''split subsystem ['' @ name @ ''] ['' @ command @ ''] failed'') e)
           | Inr args \<Rightarrow>
               if args = [] \<or> hd args = []
               then Inl (ErrText (''subsystem ['' @ name @ ''] command is empty in ['' @ path @ '']''))
               else Inr (hd args, tl args)))"

section \<open>Specifications\<close>

text \<open>Wildcard patterns: \<open>*\<close> is any run of characters without newline, \<open>?\<close> one such character.\<close>

fun glob :: "string \<Rightarrow> string \<Rightarrow> bool" where
  "glob [] s \<longleftrightarrow> s = []"
| "glob (c # p) s \<longleftrightarrow>
     (if c = CHR ''*'' then \<exists>n \<in> {0..length s}. newline \<notin> set (take n s) \<and> glob p (drop n s)
      else s \<noteq> [] \<and> (if c = CHR ''?'' then hd s \<noteq> newline else hd s = c) \<and> glob p (tl s))"

text \<open>
  Pattern lists: no negated pattern matches, and some positive pattern does if there is any. \<open>M\<close> is
  what matching one pattern means.
\<close>

definition negated :: "string \<Rightarrow> bool" where
  "negated p \<longleftrightarrow> has_prefix p ''!''"

definition pattern_of :: "string \<Rightarrow> string" where
  "pattern_of p = (if negated p then trim_space (drop 1 p) else p)"

definition accepts :: "(string \<Rightarrow> bool) \<Rightarrow> string list \<Rightarrow> bool" where
  "accepts M ps \<longleftrightarrow>
     \<not> list_ex (\<lambda>p. negated p \<and> M (pattern_of p)) ps \<and>
     (list_all negated ps \<or> list_ex (\<lambda>p. \<not> negated p \<and> M (pattern_of p)) ps)"

text \<open>The criteria of a \<open>Match\<close> line of the file, if it is one.\<close>

definition match_criteria :: "string \<Rightarrow> string option" where
  "match_criteria line0 =
     (let line = trim_space line0
      in if line = [] \<or> has_prefix line ''#'' then None
         else let (key, val) = splitKeyValue line in if key = ''match'' \<and> val \<noteq> [] then Some val else None)"

section \<open>Lemmas: wildcards\<close>

fun glob_toks :: "string \<Rightarrow> re_tok list" where
  "glob_toks [] = []"
| "glob_toks (c # p) = (if c = CHR ''*'' then RStar else if c = CHR ''?'' then RAny else RLit c) # glob_toks p"

lemma wildcard_body_cons:
  obtains d s where "wildcard_body p @ ''$'' = d # s" "d \<noteq> CHR ''*''"
proof -
  have "\<exists>d s. wildcard_body p @ ''$'' = d # s \<and> d \<noteq> CHR ''*''"
    by (cases p) auto
  with that show ?thesis by blast
qed

lemma special_escaped: "re_special c \<Longrightarrow> c \<noteq> CHR ''*'' \<Longrightarrow> c \<noteq> CHR ''?'' \<Longrightarrow> re_escaped c"
  by (auto simp: re_special_def re_escaped_def)

lemma re_parse_body: "re_parse (wildcard_body p @ ''$'') = Some (glob_toks p)"
proof (induction p)
  case (Cons c p)
  obtain d s where ds: "wildcard_body p @ ''$'' = d # s" "d \<noteq> CHR ''*''"
    by (rule wildcard_body_cons)
  consider "c = CHR ''*''" | "c = CHR ''?''" | "c \<noteq> CHR ''*''" "c \<noteq> CHR ''?''" "re_escaped c"
    | "c \<noteq> CHR ''*''" "c \<noteq> CHR ''?''" "\<not> re_escaped c" by blast
  then show ?case
  proof cases
    case 4
    then have "\<not> re_special c" "c \<noteq> CHR 0x5C" "c \<noteq> CHR ''.''"
      using special_escaped [of c] by (auto simp: re_escaped_def)
    with 4 Cons ds show ?thesis by simp
  qed (use Cons ds in \<open>auto simp: re_escaped_def\<close>)
qed simp

lemma re_star:
  "re_MatchString (RStar # r) s \<longleftrightarrow>
     (\<exists>n \<in> {0..length s}. newline \<notin> set (take n s) \<and> re_MatchString r (drop n s))"
proof (induction s)
  case (Cons d t)
  have "(\<exists>n \<in> {0..length (d # t)}. newline \<notin> set (take n (d # t)) \<and> re_MatchString r (drop n (d # t)))
      \<longleftrightarrow> re_MatchString r (d # t) \<or> d \<noteq> newline
        \<and> (\<exists>n \<in> {0..length t}. newline \<notin> set (take n t) \<and> re_MatchString r (drop n t))"
    (is "?l \<longleftrightarrow> ?r")
  proof
    assume ?l
    then obtain n where n: "n \<le> Suc (length t)" "newline \<notin> set (take n (d # t))"
      "re_MatchString r (drop n (d # t))" by auto
    then show ?r by (cases n) auto
  next
    assume ?r
    then show ?l
    proof (elim disjE conjE bexE)
      assume "re_MatchString r (d # t)"
      then show ?l by (intro bexI [of _ 0]) auto
    next
      fix n assume "d \<noteq> newline" "n \<in> {0..length t}" "newline \<notin> set (take n t)" "re_MatchString r (drop n t)"
      then show ?l by (intro bexI [of _ "Suc n"]) auto
    qed
  qed
  with Cons.IH show ?case by simp
qed simp

lemma re_MatchString_glob: "re_MatchString (glob_toks p) s \<longleftrightarrow> glob p s"
proof (induction p arbitrary: s)
  case (Cons c p)
  then show ?case by (cases s) (auto simp: re_star simp del: re_MatchString.simps(4,5))
qed simp

lemma wildcardMatch_glob: "wildcardMatch p s \<longleftrightarrow> glob p s"
  by (simp add: wildcardMatch_def regexp_Compile_def wildcardToRegexp_def re_parse_body re_MatchString_glob)

section \<open>Lemmas: pattern lists\<close>

lemma matchList_loop_accepts:
  "(m \<longrightarrow> h) \<Longrightarrow> matchList_loop v h m ps \<longleftrightarrow>
     \<not> list_ex (\<lambda>p. negated p \<and> wildcardMatch (pattern_of p) v) ps \<and>
     (\<not> h \<and> list_all negated ps \<or> m \<or> list_ex (\<lambda>p. \<not> negated p \<and> wildcardMatch (pattern_of p) v) ps)"
proof (induction ps arbitrary: h m)
  case (Cons p ps)
  have neg: "has_prefix p ''!'' = negated p" "(if negated p then trim_space (drop 1 p) else p) = pattern_of p"
    by (simp_all add: negated_def pattern_of_def)
  show ?case
    unfolding matchList_loop.simps neg Let_def
    using Cons by auto
qed auto

lemma matchGroups_ex:
  "matchGroups neg pat m gs =
     (if list_ex (wildcardMatch pat) gs then (if neg then None else Some True) else Some m)"
  by (induction gs arbitrary: m) auto

lemma matchGroupList_loop_accepts:
  "(m \<longrightarrow> h) \<Longrightarrow> matchGroupList_loop gs h m ps \<longleftrightarrow>
     \<not> list_ex (\<lambda>p. negated p \<and> list_ex (wildcardMatch (pattern_of p)) gs) ps \<and>
     (\<not> h \<and> list_all negated ps \<or> m \<or> list_ex (\<lambda>p. \<not> negated p \<and> list_ex (wildcardMatch (pattern_of p)) gs) ps)"
proof (induction ps arbitrary: h m)
  case (Cons p ps)
  have neg: "has_prefix p ''!'' = negated p" "(if negated p then trim_space (drop 1 p) else p) = pattern_of p"
    by (simp_all add: negated_def pattern_of_def)
  show ?case
    unfolding matchGroupList_loop.simps neg Let_def matchGroups_ex
    using Cons by auto
qed auto

section \<open>Lemmas: conditions and blocks\<close>

definition keys :: "conds \<Rightarrow> string set" where
  "keys cs = fst ` set cs"

lemma keys_conds_append: "keys (conds_append k v cs) = insert k (keys cs)"
proof (cases "map_of cs k")
  case None
  then show ?thesis by (auto simp: keys_def conds_append_def)
next
  case (Some vs)
  then have "k \<in> fst ` set cs" by (auto dest: map_of_SomeD intro: rev_image_eqI)
  moreover have "fst ` set (map (\<lambda>(k', ws). if k' = k then (k', ws @ [v]) else (k', ws)) cs) = fst ` set cs"
    by (force simp: image_iff split: if_splits)
  ultimately show ?thesis using Some by (auto simp: keys_def conds_append_def)
qed

lemma keys_addCondValue:
  "keys (addCondValue k vals cs) =
     (if list_ex (\<lambda>v. trim_space v \<noteq> []) (split_char (CHR '','') vals) then insert k (keys cs) else keys cs)"
proof -
  have "keys (fold (\<lambda>v cs. let v' = trim_space v in if v' \<noteq> [] then conds_append k v' cs else cs) vs cs) =
      (if list_ex (\<lambda>v. trim_space v \<noteq> []) vs then insert k (keys cs) else keys cs)" for vs
    by (induction vs arbitrary: cs) (auto simp: Let_def keys_conds_append)
  then show ?thesis by (simp add: addCondValue_def)
qed

lemma keys_addCondValue_mono: "keys cs \<subseteq> keys (addCondValue k vals cs)"
  by (auto simp: keys_addCondValue)

lemma keys_evalMatch_tokens: "keys cs \<subseteq> keys (evalMatch_tokens prev ts cs)"
proof (induction ts arbitrary: prev cs rule: length_induct)
  case (1 ts)
  show ?case
  proof (cases ts)
    case (Cons token us)
    have plain: "keys cs \<subseteq> keys (evalMatch_tokens p ws cs)"
      and add: "keys cs \<subseteq> keys (evalMatch_tokens p ws (addCondValue k v cs))"
      if "length ws \<le> length us" for p ws k v
      using 1 that Cons keys_addCondValue_mono [of cs k v] by (force simp: less_Suc_eq_le)+
    have "length (tl us) \<le> length us" "length (tl (tl us)) \<le> length us" by auto
    with plain add show ?thesis
      unfolding Cons evalMatch_tokens.simps(2) [of prev token us cs] Let_def
      by (simp add: keys_addCondValue_mono split: option.split)
  qed simp
qed

lemma unsupported_false:
  "k \<in> keys cs \<Longrightarrow> k \<notin> {''user'', ''group'', ''all''} \<Longrightarrow> \<not> evalMatchConditions cs user groups"
proof -
  assume k: "k \<in> keys cs" "k \<notin> {''user'', ''group'', ''all''}"
  then obtain v where "(k, v) \<in> set cs" by (auto simp: keys_def)
  with k have "list_ex (\<lambda>(k, _). k \<notin> set [''user'', ''group'', ''all'']) cs"
    unfolding list_ex_iff by (intro bexI [of _ "(k, v)"]) simp_all
  then show ?thesis by (simp add: evalMatchConditions_def)
qed

lemma parse_line_match:
  "match_criteria line = Some v \<Longrightarrow>
   parse_line user groups line st = st\<lparr>ps_inMatch := True, ps_userMatch := evalMatchLine v user groups\<rparr>"
  by (cases "splitKeyValue (trim_space line)") (auto simp: match_criteria_def parse_line_def Let_def split: if_splits)

lemma parse_line_skipped:
  "match_criteria line = None \<Longrightarrow> ps_inMatch st \<Longrightarrow> \<not> ps_userMatch st \<Longrightarrow> parse_line user groups line st = st"
  by (cases "splitKeyValue (trim_space line)") (auto simp: match_criteria_def parse_line_def Let_def split: if_splits)

lemma parse_block_skipped:
  "list_all (\<lambda>l. match_criteria l = None) body \<Longrightarrow> ps_inMatch st \<Longrightarrow> \<not> ps_userMatch st
   \<Longrightarrow> fold (parse_line user groups) body st = st"
  by (induction body) (simp_all add: parse_line_skipped)

section \<open>Properties\<close>

text \<open>
  C29. The regular expressions that \<open>wildcardToRegexp\<close> writes always compile, and matching them is
  wildcard matching: the star stands for any run of characters without newline, the question mark
  for one such character, every other character (punctuation included) for itself.
\<close>

theorem wildcardMatch_is_glob:
  "regexp_Compile (wildcardToRegexp pattern) \<noteq> None \<and> (wildcardMatch pattern str \<longleftrightarrow> glob pattern str)"
  by (simp add: wildcardMatch_glob) (simp add: regexp_Compile_def wildcardToRegexp_def re_parse_body)

text \<open>
  Both pattern-list loops implement the same declarative rule, in which the order of the
  patterns is irrelevant: a list accepts when none of its negated patterns matches and, if it has
  positive patterns, at least one of them does. For groups, a pattern matches when it matches any
  of the user's groups.
\<close>

lemma pattern_lists_accept:
  "(matchList str ps \<longleftrightarrow> accepts (\<lambda>pat. glob pat str) ps) \<and>
   (matchGroupList groups ps \<longleftrightarrow> accepts (\<lambda>pat. list_ex (glob pat) groups) ps)"
  using matchList_loop_accepts [of False False str ps] matchGroupList_loop_accepts [of False False groups ps]
  by (simp add: matchList_def matchGroupList_def accepts_def wildcardMatch_glob [abs_def])

text \<open>
  A \<open>Match\<close> block whose criteria do not hold has no effect: removing the \<open>Match\<close> line and all
  lines up to the next \<open>Match\<close> line or the end of the file leaves the configuration as it was.
\<close>

lemma unmatched_block_ignored:
  assumes "match_criteria m = Some v" "\<not> evalMatchLine v user groups"
    and "list_all (\<lambda>l. match_criteria l = None) body"
    and "post = [] \<or> match_criteria (hd post) \<noteq> None"
  shows "parseSshdConfig (Some (pre @ m # body @ post)) user groups
    = parseSshdConfig (Some (pre @ post)) user groups"
proof -
  define st where "st = fold (parse_line user groups) pre parse_init"
  let ?st = "st\<lparr>ps_inMatch := True, ps_userMatch := False\<rparr>"
  have "fold (parse_line user groups) (m # body) st = ?st"
    using assms by (simp add: parse_line_match parse_block_skipped)
  moreover have "ps_conf (fold (parse_line user groups) post ?st) = ps_conf (fold (parse_line user groups) post st)"
  proof (cases post)
    case (Cons p ps)
    with assms(4) obtain w where "match_criteria p = Some w" by auto
    then show ?thesis by (simp add: Cons parse_line_match)
  qed simp
  ultimately show ?thesis
    by (simp add: parseSshdConfig_def st_def [symmetric])
qed

lemma unmatched_block_ignored_witness:
  "parseSshdConfig (Some ([''Port 22''] @ ''Match User mary'' # [''AllowTcpForwarding yes''] @ [''match all'', ''X11Forwarding no'']))
     ''bob'' [] = parseSshdConfig (Some ([''Port 22''] @ [''match all'', ''X11Forwarding no''])) ''bob'' []"
  by (rule unmatched_block_ignored [where v = "''User mary''"]; code_simp)

text \<open>
  Unsupported criteria fail closed: a \<open>Match\<close> line that gives a value to a criterion other than
  user, group or all never applies, whatever else the line says.
\<close>

lemma unsupported_criterion_fails:
  assumes "str_fields (squeeze_commas line) = key # val # rest"
    and "CHR ''='' \<notin> set key" "\<not> has_prefix val ''=''"
    and "list_ex (\<lambda>v. trim_space v \<noteq> []) (split_char (CHR '','') val)"
    and "to_lower key \<notin> {''user'', ''group'', ''all''}"
  shows "\<not> evalMatchLine line user groups"
proof -
  have "key \<noteq> ''=''" using assms(2) by auto
  then have "evalMatch_tokens None (key # val # rest) []
      = evalMatch_tokens (Some val) rest (addCondValue (to_lower key) val [])"
    using assms(2,3) by (simp add: evalMatch_tokens.simps(2))
  moreover have "to_lower key \<in> keys (addCondValue (to_lower key) val [])"
    using assms(4) by (simp add: keys_addCondValue)
  ultimately have "to_lower key \<in> keys (evalMatch_tokens None (key # val # rest) [])"
    using keys_evalMatch_tokens by fastforce
  then show ?thesis
    using assms(1,5) unsupported_false by (simp add: evalMatchLine_def)
qed

lemma unsupported_criterion_fails_witness:
  "\<not> evalMatchLine ''Address 10.0.0.0/8 User bob'' ''bob'' [''wheel'']"
  by (rule unsupported_criterion_fails [where key = "''Address''" and val = "''10.0.0.0/8''" and rest = "[''User'', ''bob'']"];
      code_simp)

text \<open>
  A criterion without a value is dropped: a \<open>Match\<close> line that consists of one bare word, such as
  the argument-less \<open>Invalid-User\<close> of OpenSSH, applies to every user, supported or not.
\<close>

lemma bare_criterion_applies:
  assumes "str_fields (squeeze_commas line) = [key]" "CHR ''='' \<notin> set key"
  shows "evalMatchLine line user groups"
proof -
  have "key \<noteq> ''=''" using assms(2) by auto
  with assms show ?thesis
    by (simp add: evalMatchLine_def evalMatch_tokens.simps(2) evalMatchConditions_def)
qed

lemma bare_criterion_applies_witness: "evalMatchLine ''Invalid-User'' ''bob'' [''wheel'']"
  by (rule bare_criterion_applies [where key = "''Invalid-User''"]; code_simp)

end
