(* ===== verification/Rekey.thy ===== *)
theory Rekey
  imports Machine
begin

text \<open>
  Rotating traffic keys (\<open>rekey.go\<close>): the key list of one side, sealing and opening packets, and the
  exchange by which client and server install and promote a new key while packets are lost,
  duplicated, reordered and forged. The cryptographic primitives are parameters, collected in a
  record: AES-GCM, the curve and the key derivation.
\<close>

section \<open>Definitions\<close>

text \<open>
  \<open>p_seal k nonce plaintext\<close> and \<open>p_open k nonce ciphertext\<close> are \<open>cipher.AEAD\<close>, \<open>p_newPub\<close> is
  \<open>curve.NewPublicKey\<close>, \<open>p_pubBytes\<close> the encoding of the public key of a private key, \<open>p_ecdh\<close>
  is \<open>ECDH\<close>, and \<open>p_newGcm secret salt\<close> the chain of HKDF, AES and GCM in \<open>installKey\<close>.
\<close>

record ('k, 's, 'p) prims =
  p_seal :: "'k \<Rightarrow> bytes \<Rightarrow> bytes \<Rightarrow> bytes"
  p_open :: "'k \<Rightarrow> bytes \<Rightarrow> bytes \<Rightarrow> bytes result"
  p_newPub :: "bytes \<Rightarrow> 'p result"
  p_pubBytes :: "'s \<Rightarrow> bytes"
  p_ecdh :: "'s \<Rightarrow> 'p \<Rightarrow> bytes result"
  p_newGcm :: "bytes \<Rightarrow> bytes \<Rightarrow> 'k result"

text \<open>
  \<open>lastRekeyTime = None\<close> is the zero time, \<open>clientPriKey\<close> carries the allocation number of the
  key object, which is what \<open>CompareAndSwap\<close> compares; times are in nanoseconds.
\<close>

record ('k, 's) rotatingCrypto =
  keySalt :: bytes
  gcmList :: "'k list"
  activeIdx :: nat
  nonceSize :: nat
  overhead :: nat
  timeThreshold :: int
  bytesConsumed :: u64
  bytesThreshold :: u64
  bytesTriggered :: bool
  rekeyInFlight :: bool
  lastRekeyTime :: "int option"
  clientPriKey :: "(nat \<times> 's) option"
  rc_closed :: bool
  stopped :: bool
  delegatedToProxy :: bool

text \<open>The second result is whether a \<open>startRekey\<close> goroutine was started.\<close>

definition consumeBytes :: "u64 \<Rightarrow> ('k, 's) rotatingCrypto \<Rightarrow> ('k, 's) rotatingCrypto \<times> bool" where
  "consumeBytes n r =
     (if bytesThreshold r = 0 then (r, False)
      else
        let r1 = r\<lparr>bytesConsumed := bytesConsumed r + n\<rparr>
        in if bytesConsumed r1 \<ge> bytesThreshold r1 \<and> \<not> bytesTriggered r1
           then (r1\<lparr>bytesTriggered := True\<rparr>, True) else (r1, False))"

definition Seal ::
  "('k, 's, 'p) prims \<Rightarrow> bytes \<Rightarrow> bytes \<Rightarrow> bytes \<Rightarrow> ('k, 's) rotatingCrypto
   \<Rightarrow> (('k, 's) rotatingCrypto \<times> bool) \<times> bytes" where
  "Seal P dst nonce plaintext r =
     (if delegatedToProxy r then ((r, False), dst @ plaintext)
      else (consumeBytes (of_nat (length plaintext)) r,
            dst @ p_seal P (gcmList r ! activeIdx r) nonce plaintext))"

definition sealPacket ::
  "('k, 's, 'p) prims \<Rightarrow> bytes \<Rightarrow> ('k, 's) rotatingCrypto \<Rightarrow> (('k, 's) rotatingCrypto \<times> bool) \<times> bytes result" where
  "sealPacket P buf r =
     (if length buf < nonceSize r then ((r, False), Inl ErrShortBuffer)
      else
        let nonce = take (nonceSize r) buf; plaintext = drop (nonceSize r) buf
        in (case Seal P nonce nonce plaintext r of (r', out) \<Rightarrow> (r', Inr out)))"

definition promoteKey :: "nat \<Rightarrow> ('k, 's) rotatingCrypto \<Rightarrow> ('k, 's) rotatingCrypto" where
  "promoteKey idx r =
     (if idx \<ge> length (gcmList r) then r
      else r\<lparr>gcmList := drop idx (gcmList r), activeIdx := 0\<rparr>)"

text \<open>The loop of \<open>Open\<close>: the index of the first key that opens the packet, or the last error.\<close>

fun open_loop ::
  "('k, 's, 'p) prims \<Rightarrow> bytes \<Rightarrow> bytes \<Rightarrow> nat \<Rightarrow> go_error option \<Rightarrow> 'k list \<Rightarrow> (nat \<times> bytes) result" where
  "open_loop P nonce ciphertext i err [] =
     Inl (case err of None \<Rightarrow> ErrText ''gcm open failed: no available keys''
                    | Some e \<Rightarrow> ErrWrap ''gcm open failed'' e)"
| "open_loop P nonce ciphertext i err (gcm # gcms) =
     (case p_open P gcm nonce ciphertext of
        Inl e \<Rightarrow> open_loop P nonce ciphertext (Suc i) (Some e) gcms
      | Inr plaintext \<Rightarrow> Inr (i, plaintext))"

text \<open>What \<open>Open\<close> does once key \<open>i\<close> has opened the packet.\<close>

definition open_done :: "nat \<Rightarrow> bytes \<Rightarrow> ('k, 's) rotatingCrypto \<Rightarrow> ('k, 's) rotatingCrypto \<times> bool" where
  "open_done i plaintext r =
     (if i > 0 then (promoteKey i r, False) else consumeBytes (of_nat (length plaintext)) r)"

definition Open ::
  "('k, 's, 'p) prims \<Rightarrow> bytes \<Rightarrow> bytes \<Rightarrow> ('k, 's) rotatingCrypto
   \<Rightarrow> (('k, 's) rotatingCrypto \<times> bool) \<times> bytes result" where
  "Open P nonce ciphertext r =
     (if delegatedToProxy r then ((r, False), Inr ciphertext)
      else (case open_loop P nonce ciphertext 0 None (gcmList r) of
          Inl e \<Rightarrow> ((r, False), Inl e)
        | Inr (i, plaintext) \<Rightarrow> (open_done i plaintext r, Inr plaintext)))"

text \<open>\<open>openPacket\<close> works in the caller's buffer: the result is the length and the buffer.\<close>

definition openPacket ::
  "('k, 's, 'p) prims \<Rightarrow> bytes \<Rightarrow> ('k, 's) rotatingCrypto
   \<Rightarrow> (('k, 's) rotatingCrypto \<times> bool) \<times> (nat \<times> bytes) result" where
  "openPacket P buf r =
     (if length buf < nonceSize r + overhead r then ((r, False), Inl ErrShortBuffer)
      else
        let nonce = take (nonceSize r) buf; ciphertext = drop (nonceSize r) buf
        in (case Open P nonce ciphertext r of
              (r', Inl e) \<Rightarrow> (r', Inl e)
            | (r', Inr plaintext) \<Rightarrow>
                (r', Inr (nonceSize r + length plaintext,
                          nonce @ plaintext @ drop (length plaintext) ciphertext))))"

definition installKey ::
  "('k, 's, 'p) prims \<Rightarrow> bytes \<Rightarrow> bool \<Rightarrow> int \<Rightarrow> ('k, 's) rotatingCrypto \<Rightarrow> ('k, 's) rotatingCrypto result" where
  "installKey P secret active now r =
     (case p_newGcm P secret (keySalt r) of
        Inl e \<Rightarrow> Inl e
      | Inr gcm \<Rightarrow>
          let gcms = gcmList r @ [gcm]
          in Inr (r\<lparr>gcmList := gcms,
               activeIdx := (if active then length gcms - 1 else activeIdx r),
               lastRekeyTime := (if length gcms > 1 then Some now else lastRekeyTime r),
               bytesConsumed := 0, bytesTriggered := False, rekeyInFlight := False\<rparr>))"

text \<open>\<open>time.Since\<close> of the zero time saturates.\<close>

definition maxDuration :: int where "maxDuration = 2 ^ 63 - 1"

definition since_rekey :: "int \<Rightarrow> ('k, 's) rotatingCrypto \<Rightarrow> int" where
  "since_rekey now r = (case lastRekeyTime r of None \<Rightarrow> maxDuration | Some t \<Rightarrow> now - t)"

text \<open>The second result is whether the \<open>doRekey\<close> goroutine was started.\<close>

definition startRekey :: "int \<Rightarrow> ('k, 's) rotatingCrypto \<Rightarrow> ('k, 's) rotatingCrypto \<times> bool" where
  "startRekey now r =
     (if rc_closed r \<or> rekeyInFlight r then (r, False)
      else if since_rekey now r < timeThreshold r div 2 \<and> bytesConsumed r < bytesThreshold r then (r, False)
      else (r\<lparr>rekeyInFlight := True\<rparr>, True))"

text \<open>
  \<open>doRekey\<close> with the generated key \<open>x\<close> and the result of sending the bus message, and the clearing
  of the flag by its caller. The second result is the public key the message carried.
\<close>

definition doRekey ::
  "('k, 's, 'p) prims \<Rightarrow> (nat \<times> 's) result \<Rightarrow> go_error option \<Rightarrow> ('k, 's) rotatingCrypto
   \<Rightarrow> ('k, 's) rotatingCrypto \<times> bytes option" where
  "doRekey P gen sendErr r =
     (case gen of
        Inl e \<Rightarrow> (r\<lparr>rekeyInFlight := False\<rparr>, None)
      | Inr x \<Rightarrow>
          let r1 = r\<lparr>clientPriKey := Some x\<rparr>
          in (case sendErr of
                Some e \<Rightarrow> (r1\<lparr>rekeyInFlight := False\<rparr>, None)
              | None \<Rightarrow> (r1, Some (p_pubBytes P (snd x)))))"

text \<open>\<open>handleClientRekey\<close> up to its \<open>CompareAndSwap\<close>; the result has the key it will compare with.\<close>

definition handleClientRekey ::
  "('k, 's, 'p) prims \<Rightarrow> bytes \<Rightarrow> int \<Rightarrow> ('k, 's) rotatingCrypto
   \<Rightarrow> (('k, 's) rotatingCrypto \<times> (nat \<times> 's)) result" where
  "handleClientRekey P pubKey now r =
     (case p_newPub P pubKey of
        Inl e \<Rightarrow> Inl (ErrFlat ''new public key failed'' e)
      | Inr serverPubKey \<Rightarrow>
          (case clientPriKey r of
             None \<Rightarrow> Inl (ErrText ''client private key is nil'')
           | Some x \<Rightarrow>
               (case p_ecdh P (snd x) serverPubKey of
                  Inl e \<Rightarrow> Inl (ErrFlat ''ecdh failed'' e)
                | Inr secret \<Rightarrow>
                    (case installKey P secret True now r of
                       Inl e \<Rightarrow> Inl e
                     | Inr r' \<Rightarrow> Inr (r', x)))))"

definition swapPriKey :: "nat \<times> 's \<Rightarrow> ('k, 's) rotatingCrypto \<Rightarrow> ('k, 's) rotatingCrypto" where
  "swapPriKey x r =
     (case clientPriKey r of
        Some y \<Rightarrow> if fst y = fst x then r\<lparr>clientPriKey := None\<rparr> else r
      | None \<Rightarrow> r)"

text \<open>\<open>handleServerRekey\<close> with the generated key; the result has the public key it replies with.\<close>

definition handleServerRekey ::
  "('k, 's, 'p) prims \<Rightarrow> 's \<Rightarrow> bytes \<Rightarrow> int \<Rightarrow> ('k, 's) rotatingCrypto
   \<Rightarrow> (('k, 's) rotatingCrypto \<times> bytes) result" where
  "handleServerRekey P serverPriKey pubKey now r =
     (case p_newPub P pubKey of
        Inl e \<Rightarrow> Inl (ErrFlat ''new public key failed'' e)
      | Inr clientPubKey \<Rightarrow>
          (case p_ecdh P serverPriKey clientPubKey of
             Inl e \<Rightarrow> Inl (ErrFlat ''ecdh failed'' e)
           | Inr secret \<Rightarrow>
               (case installKey P secret False now r of
                  Inl e \<Rightarrow> Inl e
                | Inr r' \<Rightarrow> Inr (r', p_pubBytes P serverPriKey))))"

definition crypto_Close :: "('k, 's) rotatingCrypto \<Rightarrow> ('k, 's) rotatingCrypto" where
  "crypto_Close r = (if rc_closed r then r else r\<lparr>rc_closed := True, stopped := True\<rparr>)"

text \<open>\<open>sizes\<close> are the nonce size and the overhead of a key.\<close>

definition newRotatingCrypto ::
  "('k, 's, 'p) prims \<Rightarrow> ('k \<Rightarrow> nat \<times> nat) \<Rightarrow> bytes \<Rightarrow> bytes \<Rightarrow> u64 \<Rightarrow> int \<Rightarrow> bool \<Rightarrow> int
   \<Rightarrow> ('k, 's) rotatingCrypto result" where
  "newRotatingCrypto P sizes pass salt bytesThr timeThr delegToProxy now =
     (case installKey P pass True now
             \<lparr>keySalt = salt, gcmList = [], activeIdx = 0, nonceSize = 0, overhead = 0,
              timeThreshold = timeThr, bytesConsumed = 0, bytesThreshold = bytesThr, bytesTriggered = False,
              rekeyInFlight = False, lastRekeyTime = None, clientPriKey = None, rc_closed = False,
              stopped = False, delegatedToProxy = delegToProxy\<rparr> of
        Inl e \<Rightarrow> Inl e
      | Inr r \<Rightarrow> Inr (r\<lparr>nonceSize := fst (sizes (gcmList r ! 0)), overhead := snd (sizes (gcmList r ! 0))\<rparr>))"

section \<open>The exchange\<close>

text \<open>
  Both sides, the network and the bus. The bus messages travel in the packets: \<open>segment pt\<close> says
  which bus message (number and content) the datagram \<open>pt\<close> carries, if any. The transport seals
  and resends what was given to it at any time, hands a message over only if a packet with it was
  opened, in order and once. \<open>rk_hist\<close> are all keys the server ever derived, for the statements.
\<close>

record ('k, 's) rk_state =
  rk_c :: "('k, 's) rotatingCrypto"
  rk_s :: "('k, 's) rotatingCrypto"
  rk_c2s :: "(bytes \<times> bytes) list"
  rk_s2c :: "(bytes \<times> bytes) list"
  rk_req :: "bytes list"
  rk_rep :: "bytes list"
  rk_cin :: "(nat \<times> bytes) list"
  rk_sin :: "(nat \<times> bytes) list"
  rk_cgot :: nat
  rk_sgot :: nat
  rk_cpend :: "(nat \<times> bytes) option"
  rk_spend :: "(nat \<times> bytes) option"
  rk_doing :: bool
  rk_cas :: "(nat \<times> 's) option"
  rk_alloc :: nat
  rk_hist :: "'k list"

datatype 's rk_act =
    CSeal bytes bytes
  | SSeal bytes bytes
  | COpen bytes bytes
  | CPromote
  | SOpen bytes bytes
  | SPromote
  | CStart int
  | CDo "'s result" "go_error option"
  | CHandle int
  | CSwap
  | SHandle 's int "go_error option"

text \<open>What the transport may put in a datagram: other traffic, or a message it was given.\<close>

definition carries :: "(bytes \<Rightarrow> (nat \<times> bytes) option) \<Rightarrow> bytes list \<Rightarrow> bytes \<Rightarrow> bool" where
  "carries segment sent pt \<longleftrightarrow>
     (case segment pt of None \<Rightarrow> True | Some (m, p) \<Rightarrow> m < length sent \<and> sent ! m = p)"

text \<open>What can arrive: a packet of the other side, any number of times, or one that no key opens.\<close>

definition arrives :: "('k, 's, 'p) prims \<Rightarrow> (bytes \<times> bytes) list \<Rightarrow> 'k list \<Rightarrow> bytes \<Rightarrow> bytes \<Rightarrow> bool" where
  "arrives P net hist nonce ct \<longleftrightarrow>
     (nonce, ct) \<in> set net \<or> list_all (\<lambda>k. isl (p_open P k nonce ct)) hist"

definition opened :: "(bytes \<Rightarrow> (nat \<times> bytes) option) \<Rightarrow> bytes \<Rightarrow> (nat \<times> bytes) list \<Rightarrow> (nat \<times> bytes) list" where
  "opened segment pt inbox = (case segment pt of None \<Rightarrow> inbox | Some m \<Rightarrow> m # inbox)"

definition next_msg :: "nat \<Rightarrow> (nat \<times> bytes) list \<Rightarrow> bytes option" where
  "next_msg got inbox = map_of inbox got"

text \<open>
  A request on the bus reaches the server. The key that \<open>handleServerRekey\<close> installs comes from a private key drawn at
  that moment. The runs considered are those in which it is none of the keys that came before: a step that would derive
  an old key again is not taken.
\<close>

definition rk_server_msg ::
  "('k, 's, 'p) prims \<Rightarrow> 's \<Rightarrow> bytes \<Rightarrow> int \<Rightarrow> go_error option \<Rightarrow> ('k, 's) rk_state \<Rightarrow> ('k, 's) rk_state option" where
  "rk_server_msg P x pubKey now sendErr s =
     (case handleServerRekey P x pubKey now (rk_s s) of
        Inl e \<Rightarrow> Some (s\<lparr>rk_sgot := Suc (rk_sgot s)\<rparr>)
      | Inr (r, reply) \<Rightarrow>
          if last (gcmList r) \<in> set (rk_hist s) then None
          else Some (s\<lparr>rk_s := r, rk_sgot := Suc (rk_sgot s), rk_hist := rk_hist s @ [last (gcmList r)],
                 rk_rep := (case sendErr of None \<Rightarrow> rk_rep s @ [reply] | Some e \<Rightarrow> rk_rep s)\<rparr>))"

definition rk_exec ::
  "('k, 's, 'p) prims \<Rightarrow> (bytes \<Rightarrow> (nat \<times> bytes) option) \<Rightarrow> 's rk_act \<Rightarrow> ('k, 's) rk_state \<Rightarrow> ('k, 's) rk_state option" where
  "rk_exec P segment a s =
     (case a of
        CSeal nonce pt \<Rightarrow>
          if carries segment (rk_req s) pt then
            (case Seal P [] nonce pt (rk_c s) of ((r, _), ct) \<Rightarrow>
               Some (s\<lparr>rk_c := r, rk_c2s := (nonce, ct) # rk_c2s s\<rparr>))
          else None
      | SSeal nonce pt \<Rightarrow>
          if carries segment (rk_rep s) pt then
            (case Seal P [] nonce pt (rk_s s) of ((r, _), ct) \<Rightarrow>
               Some (s\<lparr>rk_s := r, rk_s2c := (nonce, ct) # rk_s2c s\<rparr>))
          else None
      | COpen nonce ct \<Rightarrow>
          if rk_cpend s = None \<and> arrives P (rk_s2c s) (rk_hist s) nonce ct then
            (case open_loop P nonce ct 0 None (gcmList (rk_c s)) of
               Inl e \<Rightarrow> Some s | Inr p \<Rightarrow> Some (s\<lparr>rk_cpend := Some p\<rparr>))
          else None
      | CPromote \<Rightarrow>
          (case rk_cpend s of
             None \<Rightarrow> None
           | Some (i, pt) \<Rightarrow> Some (s\<lparr>rk_c := fst (open_done i pt (rk_c s)), rk_cpend := None,
                               rk_cin := opened segment pt (rk_cin s)\<rparr>))
      | SOpen nonce ct \<Rightarrow>
          if rk_spend s = None \<and> arrives P (rk_c2s s) (rk_hist s) nonce ct then
            (case open_loop P nonce ct 0 None (gcmList (rk_s s)) of
               Inl e \<Rightarrow> Some s | Inr p \<Rightarrow> Some (s\<lparr>rk_spend := Some p\<rparr>))
          else None
      | SPromote \<Rightarrow>
          (case rk_spend s of
             None \<Rightarrow> None
           | Some (i, pt) \<Rightarrow> Some (s\<lparr>rk_s := fst (open_done i pt (rk_s s)), rk_spend := None,
                               rk_sin := opened segment pt (rk_sin s)\<rparr>))
      | CStart now \<Rightarrow>
          (case startRekey now (rk_c s) of (r, go) \<Rightarrow>
             Some (s\<lparr>rk_c := r, rk_doing := rk_doing s \<or> go\<rparr>))
      | CDo gen sendErr \<Rightarrow>
          if rk_doing s then
            (case doRekey P (map_sum id (Pair (rk_alloc s)) gen) sendErr (rk_c s) of (r, msg) \<Rightarrow>
               Some (s\<lparr>rk_c := r, rk_doing := False, rk_alloc := Suc (rk_alloc s),
                      rk_req := (case msg of None \<Rightarrow> rk_req s | Some m \<Rightarrow> rk_req s @ [m])\<rparr>))
          else None
      | CHandle now \<Rightarrow>
          (case next_msg (rk_cgot s) (rk_cin s) of
             None \<Rightarrow> None
           | Some m \<Rightarrow>
               if rk_cas s \<noteq> None then None
               else (case handleClientRekey P m now (rk_c s) of
                   Inl e \<Rightarrow> Some (s\<lparr>rk_cgot := Suc (rk_cgot s)\<rparr>)
                 | Inr (r, x) \<Rightarrow> Some (s\<lparr>rk_c := r, rk_cas := Some x, rk_cgot := Suc (rk_cgot s)\<rparr>)))
      | CSwap \<Rightarrow>
          (case rk_cas s of None \<Rightarrow> None
           | Some x \<Rightarrow> Some (s\<lparr>rk_c := swapPriKey x (rk_c s), rk_cas := None\<rparr>))
      | SHandle x now sendErr \<Rightarrow>
          (case next_msg (rk_sgot s) (rk_sin s) of
             None \<Rightarrow> None
           | Some m \<Rightarrow> rk_server_msg P x m now sendErr s))"

text \<open>Both sides as they are created, with the same password and salt.\<close>

definition rk_init :: "('k, 's) rotatingCrypto \<Rightarrow> ('k, 's) rotatingCrypto \<Rightarrow> ('k, 's) rk_state" where
  "rk_init c s = \<lparr>rk_c = c, rk_s = s, rk_c2s = [], rk_s2c = [], rk_req = [], rk_rep = [], rk_cin = [],
     rk_sin = [], rk_cgot = 0, rk_sgot = 0, rk_cpend = None, rk_spend = None, rk_doing = False, rk_cas = None,
     rk_alloc = 0, rk_hist = gcmList c\<rparr>"

text \<open>
  What the exchange relies on: a key opens what it sealed and nothing another key sealed, and both
  ends of a key agreement get the same secret.
\<close>

definition prims_ok :: "('k, 's, 'p) prims \<Rightarrow> bool" where
  "prims_ok P \<longleftrightarrow>
     (\<forall>k n p. p_open P k n (p_seal P k n p) = Inr p)
   \<and> (\<forall>k k' n p. k \<noteq> k' \<longrightarrow> isl (p_open P k n (p_seal P k' n p)))
   \<and> (\<forall>x y u v. p_newPub P (p_pubBytes P x) = Inr u \<and> p_newPub P (p_pubBytes P y) = Inr v
        \<longrightarrow> p_ecdh P x v = p_ecdh P y u)"

definition active_key :: "('k, 's) rotatingCrypto \<Rightarrow> 'k" where
  "active_key r = gcmList r ! activeIdx r"

text \<open>The number of a key in the history.\<close>

definition key_no :: "'k list \<Rightarrow> 'k \<Rightarrow> nat" where
  "key_no hist k = length (takeWhile (\<lambda>x. x \<noteq> k) hist)"

section \<open>One side\<close>

lemma consumeBytes_keeps [simp]:
  "gcmList (fst (consumeBytes n r)) = gcmList r" "activeIdx (fst (consumeBytes n r)) = activeIdx r"
  "keySalt (fst (consumeBytes n r)) = keySalt r" "delegatedToProxy (fst (consumeBytes n r)) = delegatedToProxy r"
  "clientPriKey (fst (consumeBytes n r)) = clientPriKey r" "rekeyInFlight (fst (consumeBytes n r)) = rekeyInFlight r"
  by (simp_all add: consumeBytes_def Let_def)

lemma promoteKey_keeps [simp]:
  "keySalt (promoteKey i r) = keySalt r" "delegatedToProxy (promoteKey i r) = delegatedToProxy r"
  "clientPriKey (promoteKey i r) = clientPriKey r" "rekeyInFlight (promoteKey i r) = rekeyInFlight r"
  by (simp_all add: promoteKey_def)

lemma open_done_keeps [simp]:
  "keySalt (fst (open_done i pt r)) = keySalt r" "delegatedToProxy (fst (open_done i pt r)) = delegatedToProxy r"
  "clientPriKey (fst (open_done i pt r)) = clientPriKey r" "rekeyInFlight (fst (open_done i pt r)) = rekeyInFlight r"
  by (simp_all add: open_done_def)

lemma open_done_list [simp]:
  "i < length (gcmList r) \<Longrightarrow> gcmList (fst (open_done i pt r)) = drop i (gcmList r)"
  "i < length (gcmList r) \<Longrightarrow> activeIdx (fst (open_done i pt r)) = (if i > 0 then 0 else activeIdx r)"
  by (simp_all add: open_done_def promoteKey_def)

lemma open_loop_key:
  "open_loop P n ct i e ks = Inr (j, pt) \<Longrightarrow>
   i \<le> j \<and> j - i < length ks \<and> p_open P (ks ! (j - i)) n ct = Inr pt"
proof (induction ks arbitrary: i e)
  case (Cons k ks)
  show ?case
  proof (cases "p_open P k n ct")
    case (Inl err)
    with Cons.prems have "open_loop P n ct (Suc i) (Some err) ks = Inr (j, pt)" by simp
    from Cons.IH [OF this] show ?thesis by (simp add: Suc_diff_Suc [symmetric] Suc_le_eq less_imp_le)
  next
    case (Inr p)
    with Cons.prems show ?thesis by simp
  qed
qed simp

lemma open_loop_none:
  "isl (open_loop P n ct i e ks) \<longleftrightarrow> list_all (\<lambda>k. isl (p_open P k n ct)) ks"
  by (induction ks arbitrary: i e) (auto split: sum.split)

lemma seal_opens: "prims_ok P \<Longrightarrow> p_open P k n (p_seal P k' n p) = Inr q \<longleftrightarrow> k = k' \<and> q = p"
  unfolding prims_ok_def by (metis Inr_inject sum.disc(2))

lemma open_loop_sealed:
  assumes "prims_ok P" "k \<in> set ks"
  shows "\<exists>j. open_loop P n (p_seal P k n p) i e ks = Inr (j, p)"
  using assms(2)
proof (induction ks arbitrary: i e)
  case (Cons x ks)
  show ?case
  proof (cases "x = k")
    case True
    with assms(1) show ?thesis by (simp add: prims_ok_def)
  next
    case False
    with assms(1) have "isl (p_open P x n (p_seal P k n p))" by (simp add: prims_ok_def)
    then obtain err where "p_open P x n (p_seal P k n p) = Inl err" by (auto simp: isl_def)
    with Cons False show ?thesis by simp
  qed
qed simp

section \<open>The invariant of the exchange\<close>

definition carried :: "(bytes \<Rightarrow> (nat \<times> bytes) option) \<Rightarrow> bytes list \<Rightarrow> nat \<Rightarrow> bytes \<Rightarrow> bool" where
  "carried segment sent j pt \<longleftrightarrow>
     (\<forall>m p. segment pt = Some (m, p) \<longrightarrow> m \<le> j \<and> m < length sent \<and> sent ! m = p)"

text \<open>A packet: sealed by a key up to number \<open>bound\<close>, no older than the message it carries.\<close>

definition pkt ::
  "('k, 's, 'p) prims \<Rightarrow> (bytes \<Rightarrow> (nat \<times> bytes) option) \<Rightarrow> 'k list \<Rightarrow> bytes list \<Rightarrow> nat \<Rightarrow> bytes \<times> bytes \<Rightarrow> bool" where
  "pkt P segment hist sent bound x \<longleftrightarrow>
     (\<exists>j pt. j \<le> bound \<and> snd x = p_seal P (hist ! j) (fst x) pt \<and> carried segment sent j pt)"

definition inbox_ok :: "bytes list \<Rightarrow> nat \<Rightarrow> (nat \<times> bytes) list \<Rightarrow> bool" where
  "inbox_ok sent base inbox \<longleftrightarrow> (\<forall>(m, p) \<in> set inbox. m \<le> base \<and> m < length sent \<and> sent ! m = p)"

definition pend_ok ::
  "(bytes \<Rightarrow> (nat \<times> bytes) option) \<Rightarrow> bytes list \<Rightarrow> nat \<Rightarrow> nat \<Rightarrow> (nat \<times> bytes) option \<Rightarrow> bool" where
  "pend_ok segment sent base bound pend \<longleftrightarrow>
     (\<forall>i pt. pend = Some (i, pt) \<longrightarrow> base + i \<le> bound \<and> carried segment sent (base + i) pt)"

definition rk_lists :: "('k, 's) rk_state \<Rightarrow> nat \<Rightarrow> nat \<Rightarrow> nat \<Rightarrow> bool" where
  "rk_lists s a b c \<longleftrightarrow>
     c \<le> Suc b \<and> b \<le> a \<and> a \<le> c \<and> c < length (rk_hist s) \<and> length (rk_hist s) \<le> Suc (Suc a)
   \<and> distinct (rk_hist s)
   \<and> gcmList (rk_c s) = take (Suc c - b) (drop b (rk_hist s)) \<and> activeIdx (rk_c s) = c - b
   \<and> gcmList (rk_s s) = drop a (rk_hist s) \<and> activeIdx (rk_s s) = 0
   \<and> \<not> delegatedToProxy (rk_c s) \<and> \<not> delegatedToProxy (rk_s s) \<and> keySalt (rk_c s) = keySalt (rk_s s)"

definition rk_counts :: "('k, 's, 'p) prims \<Rightarrow> ('k, 's) rk_state \<Rightarrow> nat \<Rightarrow> bool" where
  "rk_counts P s c \<longleftrightarrow>
     c \<le> rk_cgot s \<and> rk_cgot s \<le> length (rk_rep s) \<and> length (rk_rep s) < length (rk_hist s)
   \<and> length (rk_hist s) \<le> Suc (rk_sgot s) \<and> rk_sgot s \<le> length (rk_req s) \<and> length (rk_req s) \<le> Suc c
   \<and> (rk_doing s \<longrightarrow> rekeyInFlight (rk_c s) \<and> length (rk_req s) = c)
   \<and> (\<forall>y. rk_cas s = Some y \<longrightarrow> fst y < rk_alloc s)
   \<and> (\<forall>y. clientPriKey (rk_c s) = Some y \<longrightarrow> fst y < rk_alloc s)
   \<and> (length (rk_req s) = Suc c \<longrightarrow> rekeyInFlight (rk_c s)
        \<and> (\<exists>i x. clientPriKey (rk_c s) = Some (i, x) \<and> p_pubBytes P x = rk_req s ! c
             \<and> (\<forall>y. rk_cas s = Some y \<longrightarrow> fst y \<noteq> i)))"

definition rk_traffic ::
  "('k, 's, 'p) prims \<Rightarrow> (bytes \<Rightarrow> (nat \<times> bytes) option) \<Rightarrow> ('k, 's) rk_state \<Rightarrow> nat \<Rightarrow> nat \<Rightarrow> nat \<Rightarrow> bool" where
  "rk_traffic P segment s a b c \<longleftrightarrow>
     (\<forall>x \<in> set (rk_c2s s). pkt P segment (rk_hist s) (rk_req s) c x)
   \<and> (\<forall>x \<in> set (rk_s2c s). pkt P segment (rk_hist s) (rk_rep s) a x)
   \<and> inbox_ok (rk_req s) a (rk_sin s) \<and> inbox_ok (rk_rep s) b (rk_cin s)
   \<and> pend_ok segment (rk_req s) a c (rk_spend s) \<and> pend_ok segment (rk_rep s) b a (rk_cpend s)"

text \<open>Reply \<open>m\<close> answers request \<open>m\<close> and the secret of the two is that of key \<open>m + 1\<close>.\<close>

definition rk_agreed :: "('k, 's, 'p) prims \<Rightarrow> ('k, 's) rk_state \<Rightarrow> bool" where
  "rk_agreed P s \<longleftrightarrow>
     (\<forall>m < length (rk_rep s). \<exists>y q sec. rk_rep s ! m = p_pubBytes P y \<and> p_newPub P (rk_req s ! m) = Inr q
        \<and> p_ecdh P y q = Inr sec \<and> p_newGcm P sec (keySalt (rk_s s)) = Inr (rk_hist s ! Suc m))"

definition rk_inv ::
  "('k, 's, 'p) prims \<Rightarrow> (bytes \<Rightarrow> (nat \<times> bytes) option) \<Rightarrow> ('k, 's) rk_state \<Rightarrow> nat \<Rightarrow> nat \<Rightarrow> nat \<Rightarrow> bool" where
  "rk_inv P segment s a b c \<longleftrightarrow>
     rk_lists s a b c \<and> rk_counts P s c \<and> rk_traffic P segment s a b c \<and> rk_agreed P s"

lemma carried_mono:
  "carried segment sent j pt \<Longrightarrow> carried segment (sent @ extra) j pt"
  by (auto simp: carried_def nth_append)

lemma pkt_mono:
  assumes "pkt P segment hist sent bound x" "bound \<le> bound'" "bound < length hist"
  shows "pkt P segment (hist @ keys) (sent @ extra) bound' x"
proof -
  from assms(1) obtain j pt where "j \<le> bound" "snd x = p_seal P (hist ! j) (fst x) pt" "carried segment sent j pt"
    by (auto simp: pkt_def)
  with assms(2,3) carried_mono show ?thesis
    unfolding pkt_def by (intro exI [of _ j] exI [of _ pt]) (auto simp: nth_append)
qed

lemmas pkt_bound = pkt_mono [where keys = "[]" and extra = "[]", simplified]
lemmas pkt_keys = pkt_mono [where extra = "[]", simplified]
lemmas pkt_sent = pkt_mono [where keys = "[]", simplified]

lemma inbox_mono: "inbox_ok sent base inbox \<Longrightarrow> base \<le> base' \<Longrightarrow> inbox_ok (sent @ extra) base' inbox"
  by (fastforce simp: inbox_ok_def nth_append)

lemmas inbox_base = inbox_mono [where extra = "[]", simplified]
lemmas inbox_sent = inbox_mono [OF _ order_refl]

lemma pend_mono: "pend_ok segment sent base bound pend \<Longrightarrow> bound \<le> bound' \<Longrightarrow> pend_ok segment (sent @ extra) base bound' pend"
  by (fastforce simp: pend_ok_def intro: carried_mono)

lemmas pend_bound = pend_mono [where extra = "[]", simplified]
lemmas pend_sent = pend_mono [OF _ order_refl]

lemma inbox_next:
  "inbox_ok sent base inbox \<Longrightarrow> next_msg got inbox = Some p \<Longrightarrow> got \<le> base \<and> got < length sent \<and> sent ! got = p"
  by (auto simp: inbox_ok_def next_msg_def dest!: map_of_SomeD)

lemma inbox_opened:
  "inbox_ok sent base inbox \<Longrightarrow> carried segment sent base pt \<Longrightarrow> inbox_ok sent base (opened segment pt inbox)"
  by (auto simp: inbox_ok_def opened_def carried_def split: option.split)

lemma carries_carried:
  "carries segment sent pt \<Longrightarrow> length sent \<le> Suc j \<Longrightarrow> carried segment sent j pt"
  by (auto simp: carries_def carried_def split: option.splits)

text \<open>Opening a packet that arrives tells which key of the history sealed it.\<close>

lemma open_history:
  assumes "prims_ok P" "distinct hist" "bound < length hist" "base + n \<le> length hist"
    and pkts: "\<forall>x \<in> set net. pkt P segment hist sent bound x" and arr: "arrives P net hist nonce ct"
    and op: "open_loop P nonce ct 0 None (take n (drop base hist)) = Inr (i, pt)"
  shows "base + i \<le> bound \<and> carried segment sent (base + i) pt"
proof -
  from open_loop_key [OF op] assms(4) have i: "i < n" "p_open P (hist ! (base + i)) nonce ct = Inr pt"
    by auto
  have "\<not> list_all (\<lambda>k. isl (p_open P k nonce ct)) hist"
    using i assms(4) by (auto simp: list_all_length intro!: exI [of _ "base + i"])
  with arr have "(nonce, ct) \<in> set net" by (simp add: arrives_def)
  with pkts obtain j q where j: "j \<le> bound" "ct = p_seal P (hist ! j) nonce q" "carried segment sent j q"
    by (fastforce simp: pkt_def)
  from i(2) seal_opens [OF assms(1)] have same: "hist ! (base + i) = hist ! j" "pt = q"
    unfolding j(2) by blast+
  with assms(2,3,4) i j(1) have "base + i = j"
    by (intro nth_eq_iff_index_eq [THEN iffD1]) auto
  then show ?thesis using j same by simp
qed

section \<open>Every step keeps the invariant\<close>

lemmas rk_inv_defs = rk_inv_def rk_lists_def rk_counts_def rk_traffic_def rk_agreed_def

lemma client_active: "rk_lists s a b c \<Longrightarrow> gcmList (rk_c s) ! activeIdx (rk_c s) = rk_hist s ! c"
  by (simp add: rk_lists_def Suc_diff_le)

lemma server_active: "rk_lists s a b c \<Longrightarrow> gcmList (rk_s s) ! activeIdx (rk_s s) = rk_hist s ! a"
  by (simp add: rk_lists_def)

lemma inv_CSeal:
  assumes inv: "rk_inv P segment s a b c" and step: "rk_exec P segment (CSeal nonce pt) s = Some s'"
  shows "rk_inv P segment s' a b c"
proof -
  let ?ct = "p_seal P (rk_hist s ! c) nonce pt"
  have lists: "rk_lists s a b c" and deleg: "\<not> delegatedToProxy (rk_c s)"
    using inv by (simp_all add: rk_inv_def rk_lists_def)
  from step have car: "carries segment (rk_req s) pt"
    by (simp add: rk_exec_def split: if_split_asm)
  with step deleg client_active [OF lists]
  have s': "s' = s\<lparr>rk_c := fst (consumeBytes (of_nat (length pt)) (rk_c s)), rk_c2s := (nonce, ?ct) # rk_c2s s\<rparr>"
    by (simp add: rk_exec_def Seal_def split: prod.split_asm)
  have "carried segment (rk_req s) c pt"
    using carries_carried [OF car] inv by (simp add: rk_inv_def rk_counts_def)
  then have "pkt P segment (rk_hist s) (rk_req s) c (nonce, ?ct)"
    by (auto simp: pkt_def)
  with inv show ?thesis unfolding s' by (simp add: rk_inv_defs)
qed

lemma inv_SSeal:
  assumes inv: "rk_inv P segment s a b c" and step: "rk_exec P segment (SSeal nonce pt) s = Some s'"
  shows "rk_inv P segment s' a b c"
proof -
  let ?ct = "p_seal P (rk_hist s ! a) nonce pt"
  have lists: "rk_lists s a b c" and deleg: "\<not> delegatedToProxy (rk_s s)"
    using inv by (simp_all add: rk_inv_def rk_lists_def)
  from step have car: "carries segment (rk_rep s) pt"
    by (simp add: rk_exec_def split: if_split_asm)
  with step deleg server_active [OF lists]
  have s': "s' = s\<lparr>rk_s := fst (consumeBytes (of_nat (length pt)) (rk_s s)), rk_s2c := (nonce, ?ct) # rk_s2c s\<rparr>"
    by (simp add: rk_exec_def Seal_def split: prod.split_asm)
  have "carried segment (rk_rep s) a pt"
    using carries_carried [OF car, of a] inv by (simp add: rk_inv_def rk_counts_def rk_lists_def)
  then have "pkt P segment (rk_hist s) (rk_rep s) a (nonce, ?ct)"
    by (auto simp: pkt_def)
  with inv show ?thesis unfolding s' by (simp add: rk_inv_defs)
qed

lemma inv_COpen:
  assumes P: "prims_ok P" and inv: "rk_inv P segment s a b c" and step: "rk_exec P segment (COpen nonce ct) s = Some s'"
  shows "rk_inv P segment s' a b c"
proof (cases "open_loop P nonce ct 0 None (gcmList (rk_c s))")
  case (Inl e)
  with step inv show ?thesis by (simp add: rk_exec_def split: if_split_asm)
next
  case (Inr x)
  obtain i pt where x: "x = (i, pt)" by (metis surj_pair)
  from step Inr have arr: "arrives P (rk_s2c s) (rk_hist s) nonce ct" and s': "s' = s\<lparr>rk_cpend := Some x\<rparr>"
    by (simp_all add: rk_exec_def split: if_split_asm)
  from inv Inr have "open_loop P nonce ct 0 None (take (Suc c - b) (drop b (rk_hist s))) = Inr (i, pt)"
    by (simp add: x rk_inv_def rk_lists_def)
  from open_history [OF P _ _ _ _ arr this, of a segment "rk_rep s"] inv
  have "b + i \<le> a \<and> carried segment (rk_rep s) (b + i) pt"
    by (simp add: rk_inv_def rk_lists_def rk_traffic_def)
  then have "pend_ok segment (rk_rep s) b a (Some x)"
    by (simp add: pend_ok_def x)
  with inv show ?thesis unfolding s' by (simp add: rk_inv_defs)
qed

lemma inv_SOpen:
  assumes P: "prims_ok P" and inv: "rk_inv P segment s a b c" and step: "rk_exec P segment (SOpen nonce ct) s = Some s'"
  shows "rk_inv P segment s' a b c"
proof (cases "open_loop P nonce ct 0 None (gcmList (rk_s s))")
  case (Inl e)
  with step inv show ?thesis by (simp add: rk_exec_def split: if_split_asm)
next
  case (Inr x)
  obtain i pt where x: "x = (i, pt)" by (metis surj_pair)
  from step Inr have arr: "arrives P (rk_c2s s) (rk_hist s) nonce ct" and s': "s' = s\<lparr>rk_spend := Some x\<rparr>"
    by (simp_all add: rk_exec_def split: if_split_asm)
  from inv Inr have "open_loop P nonce ct 0 None (take (length (rk_hist s) - a) (drop a (rk_hist s))) = Inr (i, pt)"
    by (simp add: x rk_inv_def rk_lists_def)
  from open_history [OF P _ _ _ _ arr this, of c segment "rk_req s"] inv
  have "a + i \<le> c \<and> carried segment (rk_req s) (a + i) pt"
    by (simp add: rk_inv_def rk_lists_def rk_traffic_def)
  then have "pend_ok segment (rk_req s) a c (Some x)"
    by (simp add: pend_ok_def x)
  with inv show ?thesis unfolding s' by (simp add: rk_inv_defs)
qed

lemma inv_CPromote:
  assumes inv: "rk_inv P segment s a b c" and step: "rk_exec P segment CPromote s = Some s'"
  shows "\<exists>b'. rk_inv P segment s' a b' c"
proof -
  from step obtain i pt where pend: "rk_cpend s = Some (i, pt)"
    and s': "s' = s\<lparr>rk_c := fst (open_done i pt (rk_c s)), rk_cpend := None, rk_cin := opened segment pt (rk_cin s)\<rparr>"
    by (simp add: rk_exec_def split: option.split_asm prod.split_asm)
  let ?b = "b + i"
  have bi: "?b \<le> a" and car: "carried segment (rk_rep s) ?b pt"
    using inv pend by (simp_all add: rk_inv_def rk_traffic_def pend_ok_def)
  have l: "b \<le> c" "c \<le> Suc b" "a \<le> c" "c < length (rk_hist s)"
      "gcmList (rk_c s) = take (Suc c - b) (drop b (rk_hist s))" "activeIdx (rk_c s) = c - b"
    using inv by (simp_all add: rk_inv_def rk_lists_def)
  then have len: "i < length (gcmList (rk_c s))" using bi by simp
  have "drop i (gcmList (rk_c s)) = take (Suc c - ?b) (drop ?b (rk_hist s))"
    using l by (simp add: drop_take add.commute)
  moreover have "(if i > 0 then 0 else activeIdx (rk_c s)) = c - ?b"
    using l bi by auto
  moreover have "inbox_ok (rk_rep s) ?b (opened segment pt (rk_cin s))"
    using inbox_opened [OF inbox_base [of "rk_rep s" b "rk_cin s" ?b] car] inv
    by (simp add: rk_inv_def rk_traffic_def)
  ultimately have "rk_inv P segment s' a ?b c"
    using inv bi l(2,3) len unfolding s' by (simp add: rk_inv_defs pend_ok_def)
  then show ?thesis by blast
qed

lemma inv_SPromote:
  assumes inv: "rk_inv P segment s a b c" and step: "rk_exec P segment SPromote s = Some s'"
  shows "\<exists>a'. a \<le> a' \<and> rk_inv P segment s' a' b c"
proof -
  from step obtain i pt where pend: "rk_spend s = Some (i, pt)"
    and s': "s' = s\<lparr>rk_s := fst (open_done i pt (rk_s s)), rk_spend := None, rk_sin := opened segment pt (rk_sin s)\<rparr>"
    by (simp add: rk_exec_def split: option.split_asm prod.split_asm)
  let ?a = "a + i"
  have ai: "?a \<le> c" and car: "carried segment (rk_req s) ?a pt"
    using inv pend by (simp_all add: rk_inv_def rk_traffic_def pend_ok_def)
  have l: "b \<le> a" "c < length (rk_hist s)" "gcmList (rk_s s) = drop a (rk_hist s)" "activeIdx (rk_s s) = 0"
    using inv by (simp_all add: rk_inv_def rk_lists_def)
  then have len: "i < length (gcmList (rk_s s))" using ai by simp
  have "drop i (gcmList (rk_s s)) = drop ?a (rk_hist s)"
    using l by (simp add: add.commute)
  moreover have "inbox_ok (rk_req s) ?a (opened segment pt (rk_sin s))"
    using inbox_opened [OF inbox_base [of "rk_req s" a "rk_sin s" ?a] car] inv
    by (simp add: rk_inv_def rk_traffic_def)
  moreover have "\<forall>x \<in> set (rk_s2c s). pkt P segment (rk_hist s) (rk_rep s) ?a x"
    using inv l pkt_bound [of P segment "rk_hist s" "rk_rep s" a _ ?a]
    by (simp add: rk_inv_def rk_traffic_def rk_lists_def)
  moreover have "pend_ok segment (rk_rep s) b ?a (rk_cpend s)"
    using inv pend_bound [of segment "rk_rep s" b a "rk_cpend s" ?a] by (simp add: rk_inv_def rk_traffic_def)
  ultimately have "rk_inv P segment s' ?a b c"
    using inv ai l len unfolding s' by (simp add: rk_inv_defs pend_ok_def)
  then show ?thesis by (intro exI [of _ ?a]) simp
qed

lemma inv_CStart:
  assumes inv: "rk_inv P segment s a b c" and step: "rk_exec P segment (CStart now) s = Some s'"
  shows "rk_inv P segment s' a b c"
proof (cases "snd (startRekey now (rk_c s))")
  case False
  then have "startRekey now (rk_c s) = (rk_c s, False)"
    by (simp add: startRekey_def split: if_split_asm)
  with step inv show ?thesis by (simp add: rk_exec_def)
next
  case True
  then have go: "startRekey now (rk_c s) = ((rk_c s)\<lparr>rekeyInFlight := True\<rparr>, True)" "\<not> rekeyInFlight (rk_c s)"
    by (simp_all add: startRekey_def split: if_split_asm)
  with step have s': "s' = s\<lparr>rk_c := (rk_c s)\<lparr>rekeyInFlight := True\<rparr>, rk_doing := True\<rparr>"
    by (simp add: rk_exec_def)
  have "length (rk_req s) \<noteq> Suc c" using inv go(2) by (simp add: rk_inv_def rk_counts_def)
  with inv show ?thesis unfolding s' by (simp add: rk_inv_defs)
qed

lemma inv_CSwap:
  assumes inv: "rk_inv P segment s a b c" and step: "rk_exec P segment CSwap s = Some s'"
  shows "rk_inv P segment s' a b c"
proof -
  from step obtain x where x: "rk_cas s = Some x"
    and s': "s' = s\<lparr>rk_c := swapPriKey x (rk_c s), rk_cas := None\<rparr>"
    by (simp add: rk_exec_def split: option.split_asm)
  have keeps: "gcmList (swapPriKey x r) = gcmList r" "activeIdx (swapPriKey x r) = activeIdx r"
      "keySalt (swapPriKey x r) = keySalt r" "delegatedToProxy (swapPriKey x r) = delegatedToProxy r"
      "rekeyInFlight (swapPriKey x r) = rekeyInFlight r"
      "clientPriKey (swapPriKey x r) = (case clientPriKey r of Some y \<Rightarrow> if fst y = fst x then None else Some y | None \<Rightarrow> None)"
    for r :: "('a, 'b) rotatingCrypto"
    by (simp_all add: swapPriKey_def split: option.split)
  have "rk_counts P s c" using inv by (simp add: rk_inv_def)
  then have "rk_counts P s' c"
    using x unfolding s' by (cases "clientPriKey (rk_c s)") (auto simp: rk_counts_def keeps)
  with inv show ?thesis
    unfolding rk_inv_def by (simp add: s' rk_lists_def rk_traffic_def rk_agreed_def keeps)
qed

lemma inv_CDo:
  assumes inv: "rk_inv P segment s a b c" and step: "rk_exec P segment (CDo gen sendErr) s = Some s'"
  shows "rk_inv P segment s' a b c"
proof -
  have counts: "rk_counts P s c" using inv by (simp add: rk_inv_def)
  from step have doing: "rk_doing s" by (simp add: rk_exec_def split: if_split_asm)
  then have len: "length (rk_req s) = c" using counts by (simp add: rk_counts_def)
  obtain r msg where do: "doRekey P (map_sum id (Pair (rk_alloc s)) gen) sendErr (rk_c s) = (r, msg)"
    by (metis surj_pair)
  have req: "(case msg of None \<Rightarrow> rk_req s | Some m \<Rightarrow> rk_req s @ [m]) = rk_req s @ (case msg of None \<Rightarrow> [] | Some m \<Rightarrow> [m])"
    by (cases msg) simp_all
  from step doing do have s': "s' = s\<lparr>rk_c := r, rk_doing := False, rk_alloc := Suc (rk_alloc s),
      rk_req := rk_req s @ (case msg of None \<Rightarrow> [] | Some m \<Rightarrow> [m])\<rparr>"
    by (simp add: rk_exec_def req)
  have keeps: "gcmList r = gcmList (rk_c s)" "activeIdx r = activeIdx (rk_c s)" "keySalt r = keySalt (rk_c s)"
      "delegatedToProxy r = delegatedToProxy (rk_c s)"
    using do by (simp_all add: doRekey_def Let_def split: sum.split_asm option.split_asm) auto
  have "rk_counts P s' c"
    using counts len do doing unfolding s'
    by (cases gen; cases sendErr) (auto simp: rk_counts_def doRekey_def Let_def less_Suc_eq nth_append)
  moreover have "rk_traffic P segment s' a b c"
    using inv pkt_sent [of P segment "rk_hist s" "rk_req s" c] inbox_sent [of "rk_req s" a "rk_sin s"]
      pend_sent [of segment "rk_req s" a c "rk_spend s"]
    by (simp add: rk_inv_def rk_traffic_def rk_lists_def s')
  moreover have "rk_agreed P s'"
    using inv counts unfolding rk_inv_def rk_agreed_def rk_counts_def s'
    by (simp add: nth_append)
  ultimately show ?thesis
    using inv unfolding rk_inv_def by (simp add: s' rk_lists_def keeps)
qed

lemma rk_ineqs:
  assumes "rk_inv P segment s a b c"
  shows "c \<le> rk_cgot s" "rk_cgot s \<le> length (rk_rep s)" "length (rk_rep s) < length (rk_hist s)"
    "length (rk_hist s) \<le> Suc (rk_sgot s)" "rk_sgot s \<le> length (rk_req s)" "length (rk_req s) \<le> Suc c"
  using assms by (simp_all add: rk_inv_def rk_counts_def)

text \<open>A reply that reaches the client is the answer to its only request.\<close>

lemma client_reply:
  assumes inv: "rk_inv P segment s a b c" and msg: "next_msg (rk_cgot s) (rk_cin s) = Some m"
  shows "rk_cgot s = c \<and> b = c \<and> length (rk_rep s) = Suc c \<and> length (rk_req s) = Suc c
    \<and> length (rk_hist s) = Suc (Suc c) \<and> m = rk_rep s ! c"
proof -
  have "rk_cgot s \<le> b \<and> rk_cgot s < length (rk_rep s) \<and> rk_rep s ! rk_cgot s = m"
    using inbox_next [OF _ msg, of "rk_rep s" b] inv by (simp add: rk_inv_def rk_traffic_def)
  moreover have "b \<le> c" using inv by (simp add: rk_inv_def rk_lists_def)
  moreover note rk_ineqs [OF inv]
  moreover from calculation have "rk_cgot s = c" by linarith
  ultimately show ?thesis by auto
qed

lemma client_key_agrees:
  assumes P: "prims_ok P" and inv: "rk_inv P segment s a b c"
    and msg: "next_msg (rk_cgot s) (rk_cin s) = Some m"
    and ok: "handleClientRekey P m now (rk_c s) = Inr (r, x)"
  shows "\<exists>sec. installKey P sec True now (rk_c s) = Inr r \<and> p_newGcm P sec (keySalt (rk_c s)) = Inr (rk_hist s ! Suc c)
      \<and> clientPriKey (rk_c s) = Some x"
proof -
  note cr = client_reply [OF inv msg]
  obtain i z where z: "clientPriKey (rk_c s) = Some (i, z)" "p_pubBytes P z = rk_req s ! c"
    using inv cr by (auto simp: rk_inv_def rk_counts_def)
  obtain y q sec where y: "m = p_pubBytes P y" "p_newPub P (p_pubBytes P z) = Inr q"
      "p_ecdh P y q = Inr sec" "p_newGcm P sec (keySalt (rk_c s)) = Inr (rk_hist s ! Suc c)"
    using inv cr z(2) unfolding rk_inv_def rk_agreed_def rk_lists_def by (metis lessI)
  obtain q' sec' where q': "p_newPub P (p_pubBytes P y) = Inr q'" "p_ecdh P z q' = Inr sec'"
      "installKey P sec' True now (rk_c s) = Inr r" "x = (i, z)"
    using ok z(1) unfolding handleClientRekey_def y(1) by (auto split: sum.split_asm)
  have "p_ecdh P z q' = p_ecdh P y q"
    using P y(2) q'(1) unfolding prims_ok_def by blast
  with y(3) q'(2) have "sec' = sec" by simp
  with q' y(4) z(1)
  show "\<exists>sec. installKey P sec True now (rk_c s) = Inr r \<and> p_newGcm P sec (keySalt (rk_c s)) = Inr (rk_hist s ! Suc c)
      \<and> clientPriKey (rk_c s) = Some x"
    by blast
qed

lemma inv_CHandle:
  assumes P: "prims_ok P" and inv: "rk_inv P segment s a b c" and step: "rk_exec P segment (CHandle now) s = Some s'"
  shows "\<exists>c'. c \<le> c' \<and> rk_inv P segment s' a b c'"
proof -
  from step obtain m where m: "next_msg (rk_cgot s) (rk_cin s) = Some m" "rk_cas s = None"
    by (cases "next_msg (rk_cgot s) (rk_cin s)"; cases "rk_cas s") (simp_all add: rk_exec_def)
  note cr = client_reply [OF inv m(1)]
  show ?thesis
  proof (cases "handleClientRekey P m now (rk_c s)")
    case (Inl e)
    with step m have s': "s' = s\<lparr>rk_cgot := Suc (rk_cgot s)\<rparr>" by (simp add: rk_exec_def)
    from inv cr have "rk_inv P segment s' a b c" unfolding s' by (simp add: rk_inv_defs)
    then show ?thesis by blast
  next
    case (Inr rx)
    obtain r x where rx: "rx = (r, x)" by (metis surj_pair)
    with Inr step m have s': "s' = s\<lparr>rk_c := r, rk_cas := Some x, rk_cgot := Suc (rk_cgot s)\<rparr>"
      by (simp add: rk_exec_def)
    from client_key_agrees [OF P inv m(1) Inr [unfolded rx]] have r: "gcmList r = gcmList (rk_c s) @ [rk_hist s ! Suc c]"
        "activeIdx r = length (gcmList (rk_c s))" "keySalt r = keySalt (rk_c s)"
        "delegatedToProxy r = delegatedToProxy (rk_c s)" "clientPriKey r = clientPriKey (rk_c s)"
        "clientPriKey (rk_c s) = Some x"
      by (auto simp: installKey_def Let_def)
    have l: "gcmList (rk_c s) = [rk_hist s ! c]" "a = c"
      using inv cr by (auto simp: rk_inv_def rk_lists_def take_Suc_conv_app_nth)
    have "take (Suc (Suc c) - b) (drop b (rk_hist s)) = [rk_hist s ! c, rk_hist s ! Suc c]"
      using cr by (simp add: Cons_nth_drop_Suc [symmetric])
    then have "rk_lists s' a b (Suc c)"
      using inv cr l r unfolding rk_inv_def rk_lists_def s' by simp
    moreover have "rk_counts P s' (Suc c)"
      using inv cr r unfolding rk_inv_def rk_counts_def s' by simp
    moreover have "rk_traffic P segment s' a b (Suc c)"
      using inv cr pkt_bound [of P segment "rk_hist s" "rk_req s" c _ "Suc c"]
        pend_bound [of segment "rk_req s" a c "rk_spend s" "Suc c"]
      by (simp add: rk_inv_def rk_traffic_def s')
    moreover have "rk_agreed P s'" using inv by (simp add: rk_inv_def rk_agreed_def s')
    ultimately have "rk_inv P segment s' a b (Suc c)" by (simp add: rk_inv_def)
    then show ?thesis by (intro exI [of _ "Suc c"]) simp
  qed
qed

text \<open>A request that reaches the server finds it with the newest key only.\<close>

lemma server_request:
  assumes inv: "rk_inv P segment s a b c" and msg: "next_msg (rk_sgot s) (rk_sin s) = Some m"
  shows "rk_sgot s = c \<and> a = c \<and> rk_cgot s = c \<and> length (rk_rep s) = c \<and> length (rk_req s) = Suc c
    \<and> length (rk_hist s) = Suc c \<and> m = rk_req s ! c"
proof -
  have "rk_sgot s \<le> a \<and> rk_sgot s < length (rk_req s) \<and> rk_req s ! rk_sgot s = m"
    using inbox_next [OF _ msg, of "rk_req s" a] inv by (simp add: rk_inv_def rk_traffic_def)
  moreover have "a \<le> c" using inv by (simp add: rk_inv_def rk_lists_def)
  moreover note rk_ineqs [OF inv]
  moreover from calculation have "rk_sgot s = c" by linarith
  ultimately show ?thesis by auto
qed

lemma handleServerRekey_ok:
  assumes "handleServerRekey P x m now r = Inr (r', reply)"
  shows "\<exists>q sec k. p_newPub P m = Inr q \<and> p_ecdh P x q = Inr sec \<and> p_newGcm P sec (keySalt r) = Inr k
    \<and> reply = p_pubBytes P x \<and> gcmList r' = gcmList r @ [k] \<and> activeIdx r' = activeIdx r
    \<and> keySalt r' = keySalt r \<and> delegatedToProxy r' = delegatedToProxy r"
  using assms by (auto simp: handleServerRekey_def installKey_def Let_def split: sum.split_asm)

lemma inv_SHandle:
  assumes inv: "rk_inv P segment s a b c" and step: "rk_exec P segment (SHandle x now sendErr) s = Some s'"
  shows "rk_inv P segment s' a b c"
proof -
  from step obtain m where m: "next_msg (rk_sgot s) (rk_sin s) = Some m" "rk_server_msg P x m now sendErr s = Some s'"
    by (cases "next_msg (rk_sgot s) (rk_sin s)") (simp_all add: rk_exec_def)
  note sr = server_request [OF inv m(1)]
  show ?thesis
  proof (cases "handleServerRekey P x m now (rk_s s)")
    case (Inl e)
    with m have s': "s' = s\<lparr>rk_sgot := Suc (rk_sgot s)\<rparr>" by (simp add: rk_server_msg_def)
    from inv sr show ?thesis unfolding s' by (simp add: rk_inv_defs)
  next
    case (Inr rx)
    obtain r reply where rx: "rx = (r, reply)" by (metis surj_pair)
    with Inr obtain q sec k where k: "p_newPub P m = Inr q" "p_ecdh P x q = Inr sec"
        "p_newGcm P sec (keySalt (rk_s s)) = Inr k" "reply = p_pubBytes P x"
        "gcmList r = gcmList (rk_s s) @ [k]" "activeIdx r = activeIdx (rk_s s)"
        "keySalt r = keySalt (rk_s s)" "delegatedToProxy r = delegatedToProxy (rk_s s)"
      using handleServerRekey_ok by metis
    with Inr rx m have new: "k \<notin> set (rk_hist s)"
      and s': "s' = s\<lparr>rk_s := r, rk_sgot := Suc (rk_sgot s), rk_hist := rk_hist s @ [k],
          rk_rep := rk_rep s @ (case sendErr of None \<Rightarrow> [reply] | Some e \<Rightarrow> [])\<rparr>"
      by (cases sendErr; simp add: rk_server_msg_def split: if_split_asm)+
    have "rk_lists s' a b c"
      using inv sr k new unfolding rk_inv_def rk_lists_def s' by simp
    moreover have "rk_counts P s' c"
      using inv sr unfolding rk_inv_def rk_counts_def s' by (cases sendErr) simp_all
    moreover have "rk_traffic P segment s' a b c"
    proof -
      have "pkt P segment (rk_hist s @ [k]) (rk_req s) c y" if "y \<in> set (rk_c2s s)" for y
        using that inv pkt_keys [of P segment "rk_hist s" "rk_req s" c y c "[k]"]
        by (simp add: rk_inv_def rk_traffic_def rk_lists_def)
      moreover have "pkt P segment (rk_hist s @ [k]) (rk_rep s @ ex) a y" if "y \<in> set (rk_s2c s)" for y ex
        using that inv pkt_mono [of P segment "rk_hist s" "rk_rep s" a y a "[k]" ex]
        by (simp add: rk_inv_def rk_traffic_def rk_lists_def)
      ultimately show ?thesis
        using inv inbox_sent [of "rk_rep s" b "rk_cin s"] pend_sent [of segment "rk_rep s" b a "rk_cpend s"]
        by (simp add: rk_inv_def rk_traffic_def s')
    qed
    moreover have "rk_agreed P s'"
      using inv sr k unfolding rk_inv_def rk_agreed_def s'
      by (cases sendErr) (auto simp: nth_append less_Suc_eq)
    ultimately show ?thesis by (simp add: rk_inv_def)
  qed
qed

lemma rk_step_inv:
  assumes "prims_ok P" "rk_inv P segment s a b c" "rk_exec P segment x s = Some s'"
  shows "\<exists>a' b' c'. a \<le> a' \<and> c \<le> c' \<and> rk_inv P segment s' a' b' c'"
proof (cases x)
  case CSeal with assms inv_CSeal show ?thesis by (metis order_refl)
next
  case SSeal with assms inv_SSeal show ?thesis by (metis order_refl)
next
  case COpen with assms inv_COpen show ?thesis by (metis order_refl)
next
  case CPromote with assms inv_CPromote show ?thesis by (metis order_refl)
next
  case SOpen with assms inv_SOpen show ?thesis by (metis order_refl)
next
  case SPromote with assms inv_SPromote show ?thesis by (metis order_refl)
next
  case CStart with assms inv_CStart show ?thesis by (metis order_refl)
next
  case CDo with assms inv_CDo show ?thesis by (metis order_refl)
next
  case CHandle with assms inv_CHandle show ?thesis by (metis order_refl)
next
  case CSwap with assms inv_CSwap show ?thesis by (metis order_refl)
next
  case SHandle with assms inv_SHandle show ?thesis by (metis order_refl)
qed

lemma rk_hist_grows:
  assumes "rk_exec P segment x s = Some s'"
  shows "\<exists>ks. rk_hist s' = rk_hist s @ ks"
proof (cases "\<exists>y now err. x = SHandle y now err")
  case True
  then obtain y now err where "x = SHandle y now err" by blast
  with assms obtain m where "rk_server_msg P y m now err s = Some s'"
    by (cases "next_msg (rk_sgot s) (rk_sin s)") (simp_all add: rk_exec_def)
  then show ?thesis
    by (auto simp: rk_server_msg_def split: sum.split_asm prod.split_asm if_split_asm)
next
  case False
  with assms have "rk_hist s' = rk_hist s"
    by (cases x) (auto simp: rk_exec_def split: if_split_asm prod.split_asm sum.split_asm option.split_asm)
  then show ?thesis by simp
qed

lemma key_no_nth: "distinct hist \<Longrightarrow> i < length hist \<Longrightarrow> key_no hist (hist ! i) = i"
proof (induction hist arbitrary: i)
  case (Cons k hist)
  then show ?case by (cases i) (auto simp: key_no_def)
qed simp

text \<open>The number of the key each side seals with.\<close>

definition client_key_no :: "('k, 's) rk_state \<Rightarrow> nat" where
  "client_key_no s = key_no (rk_hist s) (active_key (rk_c s))"

definition server_key_no :: "('k, 's) rk_state \<Rightarrow> nat" where
  "server_key_no s = key_no (rk_hist s) (active_key (rk_s s))"

lemma rk_key_no:
  assumes "rk_inv P segment s a b c"
  shows "client_key_no s = c" "server_key_no s = a"
proof -
  have l: "rk_lists s a b c" "distinct (rk_hist s)" "c < length (rk_hist s)" "a < length (rk_hist s)"
    using assms by (simp_all add: rk_inv_def rk_lists_def)
  with client_active [OF l(1)] server_active [OF l(1)] show "client_key_no s = c" "server_key_no s = a"
    by (simp_all add: client_key_no_def server_key_no_def active_key_def key_no_nth)
qed

interpretation exchange: progress_machine "rk_exec P segment"
  "\<lambda>s. prims_ok P \<and> (\<exists>a b c. rk_inv P segment s a b c)"
  "\<lambda>s t. (\<exists>ks. rk_hist t = rk_hist s @ ks) \<and> client_key_no s \<le> client_key_no t \<and> server_key_no s \<le> server_key_no t"
proof
  fix s x s'
  assume inv: "prims_ok P \<and> (\<exists>a b c. rk_inv P segment s a b c)" and step: "rk_exec P segment x s = Some s'"
  then obtain a b c where s: "rk_inv P segment s a b c" by blast
  with inv step rk_step_inv obtain a' b' c' where s': "a \<le> a'" "c \<le> c'" "rk_inv P segment s' a' b' c'"
    by metis
  with inv show "prims_ok P \<and> (\<exists>a b c. rk_inv P segment s' a b c)" by blast
  show "(\<exists>ks. rk_hist s' = rk_hist s @ ks) \<and> client_key_no s \<le> client_key_no s' \<and> server_key_no s \<le> server_key_no s'"
    using rk_hist_grows [OF step] rk_key_no [OF s] rk_key_no [OF s'(3)] s'(1,2) by simp
next
  fix s t u :: "('a, 'b) rk_state"
  assume "(\<exists>ks. rk_hist t = rk_hist s @ ks) \<and> client_key_no s \<le> client_key_no t \<and> server_key_no s \<le> server_key_no t"
    "(\<exists>ks. rk_hist u = rk_hist t @ ks) \<and> client_key_no t \<le> client_key_no u \<and> server_key_no t \<le> server_key_no u"
  then show "(\<exists>ks. rk_hist u = rk_hist s @ ks) \<and> client_key_no s \<le> client_key_no u \<and> server_key_no s \<le> server_key_no u"
    by (metis append.assoc order_trans)
qed simp

lemma newRotatingCrypto_ok:
  assumes "newRotatingCrypto P sizes pass salt bt tt False now = Inr r"
  shows "\<exists>k. p_newGcm P pass salt = Inr k \<and> gcmList r = [k] \<and> activeIdx r = 0 \<and> keySalt r = salt
    \<and> \<not> delegatedToProxy r \<and> clientPriKey r = None \<and> \<not> rekeyInFlight r"
  using assms by (auto simp: newRotatingCrypto_def installKey_def Let_def split: sum.split_asm)

lemma rk_init_inv:
  assumes "newRotatingCrypto P sizes pass salt bt tt False now = Inr c"
    "newRotatingCrypto P sizes' pass salt bt' tt' False now' = Inr s"
  shows "rk_inv P segment (rk_init c s) 0 0 0"
  using newRotatingCrypto_ok [OF assms(1)] newRotatingCrypto_ok [OF assms(2)]
  by (auto simp: rk_inv_defs rk_init_def inbox_ok_def pend_ok_def)

lemma active_in_peer:
  assumes "rk_lists s a b c"
  shows "active_key (rk_c s) \<in> set (gcmList (rk_s s))" "active_key (rk_s s) \<in> set (gcmList (rk_c s))"
proof -
  have l: "b \<le> a" "a \<le> c" "c < length (rk_hist s)" "gcmList (rk_s s) = drop a (rk_hist s)"
      "gcmList (rk_c s) = take (Suc c - b) (drop b (rk_hist s))"
    using assms by (simp_all add: rk_lists_def)
  have "gcmList (rk_s s) ! (c - a) = rk_hist s ! c" "c - a < length (gcmList (rk_s s))"
    using l by simp_all
  then show "active_key (rk_c s) \<in> set (gcmList (rk_s s))"
    using client_active [OF assms] unfolding active_key_def by (metis nth_mem)
  have "gcmList (rk_c s) ! (a - b) = rk_hist s ! a" "a - b < length (gcmList (rk_c s))"
    using l by (simp_all add: Suc_diff_le)
  then show "active_key (rk_s s) \<in> set (gcmList (rk_c s))"
    using server_active [OF assms] unfolding active_key_def by (metis nth_mem)
qed

text \<open>A small instance of the primitives and one complete exchange, for the witnesses.\<close>

definition demo_prims :: "(byte, byte, byte) prims" where
  "demo_prims = \<lparr>p_seal = (\<lambda>k n p. k # p),
     p_open = (\<lambda>k n ct. case ct of [] \<Rightarrow> Inl ErrEOF | x # p \<Rightarrow> if x = k then Inr p else Inl ErrEOF),
     p_newPub = (\<lambda>b. case b of [x] \<Rightarrow> Inr x | _ \<Rightarrow> Inl ErrEOF), p_pubBytes = (\<lambda>x. [x]),
     p_ecdh = (\<lambda>x v. Inr [x * v]), p_newGcm = (\<lambda>sec salt. case sec of [k] \<Rightarrow> Inr k | _ \<Rightarrow> Inl ErrEOF)\<rparr>"

definition demo_side :: "(byte, byte) rotatingCrypto" where
  "demo_side = projr (newRotatingCrypto demo_prims (\<lambda>_. (0, 1)) [1] [] 0 0 False 0)"

definition demo_segment :: "bytes \<Rightarrow> (nat \<times> bytes) option" where
  "demo_segment pt = (case pt of x # m # p \<Rightarrow> if x = 0 then Some (unat m, p) else None | _ \<Rightarrow> None)"

definition demo_acts :: "byte rk_act list" where
  "demo_acts = [CStart 0, CDo (Inr 3) None, CSeal [] [0, 0, 3], SOpen [] [1, 0, 0, 3], SPromote, SHandle 5 0 None,
     SSeal [] [0, 0, 5], COpen [] [1, 0, 0, 5], CPromote, CHandle 0, CSwap, CSeal [] [7], SOpen [] [15, 7], SPromote,
     SSeal [] [8], COpen [] [15, 8], CPromote]"

lemma demo_prims_ok: "prims_ok demo_prims"
  by (simp add: prims_ok_def demo_prims_def mult.commute)

lemma demo_side_new: "newRotatingCrypto demo_prims (\<lambda>_. (0, 1)) [1] [] 0 0 False 0 = Inr demo_side"
  by (simp add: demo_side_def newRotatingCrypto_def installKey_def demo_prims_def)

section \<open>Properties\<close>

text \<open>
  C2. The two sides never lose each other: start both with the same password and salt, let the network
  lose, repeat, reorder and forge packets and the goroutines interleave in any way, and let key
  exchanges start, fail and complete at any time. Then a packet that either side seals is always
  opened by the other side as it is at that moment, to the same plaintext, and neither side ever
  holds more than two keys.
\<close>

theorem rekey_never_desynchronises:
  assumes "prims_ok P"
    and "newRotatingCrypto P sizes pass salt bt tt False now = Inr c0"
    and "newRotatingCrypto P sizes pass salt bt' tt' False now' = Inr s0"
    and "run_acts (rk_exec P segment) acts (rk_init c0 s0) = Some s"
  shows "snd (Open P nonce (snd (Seal P [] nonce pt (rk_c s))) (rk_s s)) = Inr pt
    \<and> snd (Open P nonce (snd (Seal P [] nonce pt (rk_s s))) (rk_c s)) = Inr pt
    \<and> length (gcmList (rk_c s)) \<le> 2 \<and> length (gcmList (rk_s s)) \<le> 2"
proof -
  have "prims_ok P \<and> (\<exists>a b c. rk_inv P segment (rk_init c0 s0) a b c)"
    using assms(1) rk_init_inv [OF assms(2,3)] by blast
  from exchange.run_inv [OF this assms(4)] obtain a b c where inv: "rk_inv P segment s a b c" by blast
  then have l: "rk_lists s a b c" by (simp add: rk_inv_def)
  have deleg: "\<not> delegatedToProxy (rk_c s)" "\<not> delegatedToProxy (rk_s s)"
    and len: "length (gcmList (rk_c s)) \<le> 2" "length (gcmList (rk_s s)) \<le> 2"
    using l unfolding rk_lists_def by auto
  note act = active_in_peer [OF l]
  from open_loop_sealed [OF assms(1) act(1), of nonce pt 0 None] open_loop_sealed [OF assms(1) act(2), of nonce pt 0 None]
  show ?thesis
    using deleg len by (auto simp: Open_def Seal_def active_key_def)
qed

theorem rekey_never_desynchronises_witness:
  "\<exists>s. run_acts (rk_exec demo_prims demo_segment) demo_acts (rk_init demo_side demo_side) = Some s
     \<and> snd (Open demo_prims [] (snd (Seal demo_prims [] [] [9] (rk_c s))) (rk_s s)) = Inr [9]"
proof -
  have "run_acts (rk_exec demo_prims demo_segment) demo_acts (rk_init demo_side demo_side) \<noteq> None"
    by code_simp
  then obtain s where s: "run_acts (rk_exec demo_prims demo_segment) demo_acts (rk_init demo_side demo_side) = Some s"
    by blast
  from rekey_never_desynchronises [OF demo_prims_ok demo_side_new demo_side_new s, of "[]" "[9]"] s
  show ?thesis by blast
qed

text \<open>
  C27. Keys only move forward: in every run of the exchange, from any reachable state on, the key a side
  seals with is never replaced by one the server derived earlier, and no derived key is forgotten from
  the order.
\<close>

theorem keys_never_go_back:
  assumes "prims_ok P"
    and "newRotatingCrypto P sizes pass salt bt tt False now = Inr c0"
    and "newRotatingCrypto P sizes pass salt bt' tt' False now' = Inr s0"
    and "run_acts (rk_exec P segment) acts (rk_init c0 s0) = Some s"
    and "run_acts (rk_exec P segment) more_acts s = Some t"
  shows "(\<exists>ks. rk_hist t = rk_hist s @ ks)
    \<and> key_no (rk_hist s) (active_key (rk_c s)) \<le> key_no (rk_hist t) (active_key (rk_c t))
    \<and> key_no (rk_hist s) (active_key (rk_s s)) \<le> key_no (rk_hist t) (active_key (rk_s t))"
proof -
  have "prims_ok P \<and> (\<exists>a b c. rk_inv P segment (rk_init c0 s0) a b c)"
    using assms(1) rk_init_inv [OF assms(2,3)] by blast
  from exchange.run_rel [OF exchange.run_inv [OF this assms(4)] assms(5)] show ?thesis
    by (simp add: client_key_no_def server_key_no_def)
qed

theorem keys_never_go_back_witness:
  "\<exists>t. run_acts (rk_exec demo_prims demo_segment) demo_acts (rk_init demo_side demo_side) = Some t
     \<and> key_no [1] (1::byte) \<le> key_no (rk_hist t) (active_key (rk_s t)) \<and> active_key (rk_s t) = 15"
proof -
  let ?s = "rk_init demo_side demo_side"
  have "(case run_acts (rk_exec demo_prims demo_segment) demo_acts ?s of
      None \<Rightarrow> False | Some t \<Rightarrow> active_key (rk_s t) = 15)"
    by code_simp
  then obtain t where t: "run_acts (rk_exec demo_prims demo_segment) demo_acts ?s = Some t" "active_key (rk_s t) = 15"
    by (auto split: option.split_asm)
  have s: "run_acts (rk_exec demo_prims demo_segment) [] ?s = Some ?s" by simp
  have "rk_hist ?s = [1]" "active_key (rk_s ?s) = 1" by code_simp+
  with keys_never_go_back [OF demo_prims_ok demo_side_new demo_side_new s t(1)] t show ?thesis by simp
qed

text \<open>
  Sealing and opening a packet in place are inverse: if the receiver holds the sender's active key
  and both use the same nonce size, the packet that \<open>sealPacket\<close> makes of a buffer with the nonce in
  front is accepted by \<open>openPacket\<close>, which reports the original length and leaves the original bytes at
  the front of the buffer.
\<close>

lemma packet_roundtrip:
  assumes "prims_ok P" "\<not> delegatedToProxy c" "\<not> delegatedToProxy s" "active_key c \<in> set (gcmList s)"
    and "nonceSize c = nonceSize s" "nonceSize c \<le> length buf"
    and "\<forall>k n p. length (p_seal P k n p) = length p + overhead s"
  shows "\<exists>r out r' rest. sealPacket P buf c = (r, Inr out) \<and> length out = length buf + overhead s
    \<and> openPacket P out s = (r', Inr (length buf, buf @ rest))"
proof -
  let ?n = "take (nonceSize c) buf" and ?p = "drop (nonceSize c) buf"
  let ?ct = "p_seal P (active_key c) ?n ?p"
  obtain j where "open_loop P ?n ?ct 0 None (gcmList s) = Inr (j, ?p)"
    using open_loop_sealed [OF assms(1,4)] by blast
  then have op: "Open P ?n ?ct s = (open_done j ?p s, Inr ?p)"
    using assms(3) by (simp add: Open_def)
  have seal: "sealPacket P buf c = (consumeBytes (of_nat (length ?p)) c, Inr (?n @ ?ct))"
    using assms(2,6) by (simp add: sealPacket_def Seal_def active_key_def Let_def not_less)
  have len: "length ?ct = length ?p + overhead s" using assms(7) by blast
  have "length (?n @ ?ct) = length buf + overhead s" using len assms(6) by simp
  moreover have "openPacket P (?n @ ?ct) s =
      (open_done j ?p s, Inr (length buf, buf @ drop (length ?p) ?ct))"
    using len assms(5,6) op unfolding openPacket_def Let_def by (simp flip: append_assoc)
  ultimately show ?thesis using seal by blast
qed

lemma packet_roundtrip_witness:
  "\<exists>r out r' rest. sealPacket demo_prims [7, 8] demo_side = (r, Inr out) \<and> length out = 3
     \<and> openPacket demo_prims out demo_side = (r', Inr (2, [7, 8] @ rest))"
proof -
  have "\<not> delegatedToProxy demo_side" "active_key demo_side \<in> set (gcmList demo_side)" "overhead demo_side = 1"
    "nonceSize demo_side = 0" by code_simp+
  moreover have "\<forall>k n p. length (p_seal demo_prims k n p) = length p + 1"
    by (simp add: demo_prims_def)
  ultimately show ?thesis
    using packet_roundtrip [OF demo_prims_ok, of demo_side demo_side "[7, 8]"] by (simp add: eval_nat_numeral)
qed

end
