(* ===== verification/ProxyServer.thy ===== *)
theory ProxyServer
  imports Rekey
begin

text \<open>
  The server side of the proxy (\<open>proxy_server.go\<close>, \<open>proxy.go\<close>): the clients and their serial numbers,
  the authentication packets, the UDP front end with its address maps, and the reading and writing
  of transport packets. A client is named by its id, which is also the key it is stored under; an
  address stands for the pair of IP and port that \<open>isSameAddr\<close> compares and \<open>String\<close> prints.
  One iteration of a reading loop is one step, and so is each of the other operations, \<open>Close\<close> and
  \<open>timeoutCleanup\<close> included; in the code they consist of several atomic loads and stores, between which
  other goroutines run (\<open>close_race_keeps_address\<close> shows one consequence). The compare-and-swap of
  \<open>setClientAddr\<close> and \<open>setAuthedAddr\<close> compares pointers in the code and addresses here.
\<close>

section \<open>State\<close>

record ('a, 'k, 's) clientState =
  c_sealed :: bool
  c_closed :: bool
  c_server :: bool
  c_serial :: u64
  c_conn :: "nat option"
  c_addr :: "'a option"
  c_authed :: "'a option"
  c_front :: bool
  c_cond :: bool
  c_crypto :: "('k, 's) rotatingCrypto option"

text \<open>
  The proxy and its UDP front end. \<open>p_cipher\<close> is the key of the authentication packets, \<open>p_fresh\<close> the
  result of \<open>newRotatingCrypto\<close> for a new client, \<open>p_clients\<close> are \<open>clientMap\<close> and \<open>soleClient\<close>,
  \<open>f_clientMap\<close> and \<open>f_authedMap\<close> the address maps of the front end.
\<close>

record ('a, 'k, 's) serverProxy =
  p_Attachable :: bool
  p_TCP :: bool
  p_KCP :: bool
  p_cipher :: 'k
  p_fresh :: "('k, 's) rotatingCrypto result"
  p_serverID :: u64
  p_clientID :: u64
  p_clients :: "u64 \<Rightarrow> ('a, 'k, 's) clientState option"
  f_cache :: "u64 option"
  f_clientMap :: "'a \<Rightarrow> u64 option"
  f_authedMap :: "'a \<Rightarrow> u64 option"

section \<open>Clients\<close>

definition newClientState :: "('a, 'k, 's) serverProxy \<Rightarrow> ('a, 'k, 's) clientState result" where
  "newClientState p =
     (let client = \<lparr>c_sealed = False, c_closed = False, c_server = False, c_serial = 0, c_conn = None,
            c_addr = None, c_authed = None, c_front = False, c_cond = p_TCP p, c_crypto = None\<rparr>
      in if p_KCP p \<and> p_Attachable p then
           (case p_fresh p of
              Inl e \<Rightarrow> Inl (ErrFlat ''new rotating crypto failed'' e)
            | Inr crypto \<Rightarrow> Inr (client\<lparr>c_crypto := Some crypto\<rparr>))
         else Inr client)"

text \<open>The result is the client, if there is one afterwards.\<close>

definition getClient ::
  "u64 \<Rightarrow> ('a, 'k, 's) serverProxy \<Rightarrow> ('a, 'k, 's) serverProxy \<times> ('a, 'k, 's) clientState option" where
  "getClient i p =
     (case p_clients p i of
        Some client \<Rightarrow> (p, Some client)
      | None \<Rightarrow>
          (case newClientState p of
             Inl e \<Rightarrow> (p, None)
           | Inr client \<Rightarrow> (p\<lparr>p_clients := (p_clients p)(i \<mapsto> client)\<rparr>, Some client)))"

definition upd_client ::
  "u64 \<Rightarrow> (('a, 'k, 's) clientState \<Rightarrow> ('a, 'k, 's) clientState) \<Rightarrow> ('a, 'k, 's) serverProxy \<Rightarrow> ('a, 'k, 's) serverProxy" where
  "upd_client i f p =
     (case p_clients p i of None \<Rightarrow> p | Some c \<Rightarrow> p\<lparr>p_clients := (p_clients p)(i \<mapsto> f c)\<rparr>)"

definition addClientMap :: "u64 \<Rightarrow> ('a, 'k, 's) serverProxy \<Rightarrow> ('a, 'k, 's) serverProxy" where
  "addClientMap i p =
     (if \<not> p_Attachable p then p
      else (case Option.bind (p_clients p i) c_addr of
          None \<Rightarrow> p | Some a \<Rightarrow> p\<lparr>f_clientMap := (f_clientMap p)(a \<mapsto> i)\<rparr>))"

definition delClientMap :: "'a \<Rightarrow> ('a, 'k, 's) serverProxy \<Rightarrow> ('a, 'k, 's) serverProxy" where
  "delClientMap a p = (if \<not> p_Attachable p then p else p\<lparr>f_clientMap := (f_clientMap p)(a := None)\<rparr>)"

definition addAuthedMap :: "u64 \<Rightarrow> ('a, 'k, 's) serverProxy \<Rightarrow> ('a, 'k, 's) serverProxy" where
  "addAuthedMap i p =
     (if \<not> p_Attachable p then p
      else (case Option.bind (p_clients p i) c_authed of
          None \<Rightarrow> p | Some a \<Rightarrow> p\<lparr>f_authedMap := (f_authedMap p)(a \<mapsto> i)\<rparr>))"

definition delAuthedMap :: "'a \<Rightarrow> ('a, 'k, 's) serverProxy \<Rightarrow> ('a, 'k, 's) serverProxy" where
  "delAuthedMap a p = (if \<not> p_Attachable p then p else p\<lparr>f_authedMap := (f_authedMap p)(a := None)\<rparr>)"

text \<open>
  The swap or compare-and-swap at the start of the three setters: the new value and the value that
  was removed.
\<close>

definition swap_old :: "'x option \<Rightarrow> 'x option \<Rightarrow> 'x option \<Rightarrow> 'x option \<times> 'x option" where
  "swap_old old new cur =
     (case old of
        None \<Rightarrow> (new, cur)
      | Some x \<Rightarrow> if cur = Some x then (new, Some x) else (cur, None))"

definition setClientAddr ::
  "u64 \<Rightarrow> 'a option \<Rightarrow> 'a option \<Rightarrow> ('a, 'k, 's) serverProxy \<Rightarrow> ('a, 'k, 's) serverProxy" where
  "setClientAddr i old new p =
     (case p_clients p i of
        None \<Rightarrow> p
      | Some c \<Rightarrow>
          let (cur, gone) = swap_old old new (c_addr c);
              p1 = p\<lparr>p_clients := (p_clients p)(i \<mapsto> c\<lparr>c_addr := cur\<rparr>)\<rparr>;
              p2 = (if new \<noteq> None \<and> c_front c then addClientMap i p1 else p1)
          in (case gone of Some a \<Rightarrow> if c_front c then delClientMap a p2 else p2 | None \<Rightarrow> p2))"

definition setAuthedAddr ::
  "u64 \<Rightarrow> 'a option \<Rightarrow> 'a option \<Rightarrow> ('a, 'k, 's) serverProxy \<Rightarrow> ('a, 'k, 's) serverProxy" where
  "setAuthedAddr i old new p =
     (case p_clients p i of
        None \<Rightarrow> p
      | Some c \<Rightarrow>
          let (cur, gone) = swap_old old new (c_authed c);
              p1 = p\<lparr>p_clients := (p_clients p)(i \<mapsto> c\<lparr>c_authed := cur\<rparr>)\<rparr>;
              p2 = (if new \<noteq> None \<and> c_front c then addAuthedMap i p1 else p1)
          in (case gone of Some a \<Rightarrow> if c_front c then delAuthedMap a p2 else p2 | None \<Rightarrow> p2))"

text \<open>The second result is the connection that is closed.\<close>

definition setClientConn ::
  "nat option \<Rightarrow> nat option \<Rightarrow> ('a, 'k, 's) clientState \<Rightarrow> ('a, 'k, 's) clientState \<times> nat option" where
  "setClientConn old new c =
     (case swap_old old new (c_conn c) of (cur, gone) \<Rightarrow> (c\<lparr>c_conn := cur\<rparr>, gone))"

definition client_Close :: "u64 \<Rightarrow> ('a, 'k, 's) serverProxy \<Rightarrow> ('a, 'k, 's) serverProxy" where
  "client_Close i p =
     (case p_clients p i of
        None \<Rightarrow> p
      | Some c \<Rightarrow>
          if c_closed c then p
          else
            let p1 = upd_client i (\<lambda>c. fst (setClientConn None None
                  (c\<lparr>c_closed := True, c_cond := False, c_server := False, c_crypto := None\<rparr>))) p
            in upd_client i (\<lambda>c. c\<lparr>c_front := False\<rparr>) (setAuthedAddr i None None (setClientAddr i None None p1)))"

text \<open>
  The timeout callback of \<open>initClientChecker\<close> after its sleep, with the values it loaded before it,
  when the client has still timed out.
\<close>

definition timeoutCleanup ::
  "u64 \<Rightarrow> 'a option \<Rightarrow> 'a option \<Rightarrow> nat option \<Rightarrow> ('a, 'k, 's) serverProxy \<Rightarrow> ('a, 'k, 's) serverProxy" where
  "timeoutCleanup i oldAuthed oldAddr oldConn p =
     upd_client i (\<lambda>c. fst (setClientConn oldConn None c))
       (setClientAddr i oldAddr None (setAuthedAddr i oldAuthed None p))"

section \<open>Authentication packets\<close>

definition gcmNonceSize :: nat where "gcmNonceSize = 12"

definition aesEncrypt :: "('k, 's, 'p) prims \<Rightarrow> 'k \<Rightarrow> bytes \<Rightarrow> bytes \<Rightarrow> bytes" where
  "aesEncrypt P k nonce buf = nonce @ p_seal P k nonce buf"

definition aesDecrypt :: "('k, 's, 'p) prims \<Rightarrow> 'k \<Rightarrow> bytes \<Rightarrow> bytes option" where
  "aesDecrypt P k buf =
     (if length buf < gcmNonceSize then None
      else (case p_open P k (take gcmNonceSize buf) (drop gcmNonceSize buf) of
          Inl e \<Rightarrow> None | Inr plainText \<Rightarrow> Some plainText))"

definition sealAuthPacket :: "('k, 's, 'p) prims \<Rightarrow> bytes \<Rightarrow> u64 \<Rightarrow> ('a, 'k, 's) serverProxy \<Rightarrow> bytes" where
  "sealAuthPacket P nonce serialNumber p =
     aesEncrypt P (p_cipher p) nonce (put_u64 (p_serverID p) @ put_u64 serialNumber)"

definition openAuthPacket :: "('k, 's, 'p) prims \<Rightarrow> bytes \<Rightarrow> ('a, 'k, 's) serverProxy \<Rightarrow> (u64 \<times> u64) option" where
  "openAuthPacket P buf p =
     (case aesDecrypt P (p_cipher p) buf of
        None \<Rightarrow> None
      | Some data \<Rightarrow>
          if length data \<noteq> 16 then None
          else
            let clientID = get_u64 data
            in if \<not> p_Attachable p \<and> clientID \<noteq> p_clientID p then None
               else Some (clientID, get_u64 (drop 8 data)))"

section \<open>The UDP front end\<close>

definition addr_of :: "(('a, 'k, 's) clientState \<Rightarrow> 'a option) \<Rightarrow> ('a, 'k, 's) serverProxy \<Rightarrow> u64 \<Rightarrow> 'a option" where
  "addr_of f p i = Option.bind (p_clients p i) f"

definition has_addr :: "(('a, 'k, 's) clientState \<Rightarrow> 'a option) \<Rightarrow> 'a \<Rightarrow> u64 \<Rightarrow> ('a, 'k, 's) serverProxy \<Rightarrow> bool" where
  "has_addr f a i p \<longleftrightarrow> addr_of f p i = Some a"

text \<open>The client of an address; the flag says that it is the effective address, not a pending one.\<close>

definition front_lookup ::
  "'a \<Rightarrow> ('a, 'k, 's) serverProxy \<Rightarrow> ('a, 'k, 's) serverProxy \<times> (u64 \<times> bool) option" where
  "front_lookup a p =
     (case f_clientMap p a of
        Some i \<Rightarrow>
          if has_addr c_addr a i p then (p\<lparr>f_cache := Some i\<rparr>, Some (i, True))
          else (case f_authedMap p a of
              Some j \<Rightarrow> if has_addr c_authed a j p then (p, Some (j, False)) else (p, None)
            | None \<Rightarrow> (p, None))
      | None \<Rightarrow>
          (case f_authedMap p a of
             Some j \<Rightarrow> if has_addr c_authed a j p then (p, Some (j, False)) else (p, None)
           | None \<Rightarrow> (p, None)))"

definition front_getClient ::
  "'a \<Rightarrow> ('a, 'k, 's) serverProxy \<Rightarrow> ('a, 'k, 's) serverProxy \<times> (u64 \<times> bool) option" where
  "front_getClient a p =
     (let cand = (if p_Attachable p then f_cache p else Some (p_clientID p))
      in (case cand of
            Some i \<Rightarrow>
              if has_addr c_addr a i p then (p, Some (i, True))
              else if has_addr c_authed a i p then (p, Some (i, False))
              else if p_Attachable p then front_lookup a p else (p, None)
          | None \<Rightarrow> front_lookup a p))"

text \<open>What a step does besides changing the state.\<close>

datatype 'a fe_out =
    Reply 'a bytes
  | NewClientConn u64
  | Deliver u64 bytes

definition kSafeToDropPacketLen :: nat where "kSafeToDropPacketLen = 16"

definition deliver :: "u64 \<Rightarrow> bytes \<Rightarrow> 'a fe_out list" where
  "deliver i buf = (if length buf \<le> kSafeToDropPacketLen then [] else [Deliver i buf])"

text \<open>Case 2 of \<open>readFrom\<close>: a packet from an address that has authenticated.\<close>

definition read_authed ::
  "('k, 's, 'p) prims \<Rightarrow> bytes \<Rightarrow> 'a \<Rightarrow> bytes \<Rightarrow> u64 \<Rightarrow> ('a, 'k, 's) serverProxy
   \<Rightarrow> ('a, 'k, 's) serverProxy \<times> 'a fe_out list" where
  "read_authed P nonce a buf i p =
     (case openAuthPacket P buf p of
        None \<Rightarrow>
          (case addr_of c_authed p i of
             None \<Rightarrow> (p, [])
           | Some b \<Rightarrow>
               (setAuthedAddr i None None (setClientAddr i None (Some b) p), NewClientConn i # deliver i buf))
      | Some (clientID, newSerial) \<Rightarrow>
          if clientID \<noteq> i then (setAuthedAddr i None None p, [])
          else (case p_clients p i of
              None \<Rightarrow> (p, [])
            | Some c \<Rightarrow>
                if newSerial < c_serial c then (p, [])
                else (upd_client i (\<lambda>c. c\<lparr>c_serial := newSerial\<rparr>) p,
                      [Reply a (sealAuthPacket P nonce newSerial p)])))"

text \<open>Case 3: a packet from an unknown address.\<close>

definition read_unknown ::
  "('k, 's, 'p) prims \<Rightarrow> bytes \<Rightarrow> 'a \<Rightarrow> bytes \<Rightarrow> ('a, 'k, 's) serverProxy
   \<Rightarrow> ('a, 'k, 's) serverProxy \<times> 'a fe_out list" where
  "read_unknown P nonce a buf p =
     (case openAuthPacket P buf p of
        None \<Rightarrow> (p, [])
      | Some (clientID, newSerial) \<Rightarrow>
          (case getClient clientID p of
             (p1, None) \<Rightarrow> (p1, [])
           | (p1, Some c) \<Rightarrow>
               if c_closed c then (p1, [])
               else
                 let p2 = upd_client clientID (\<lambda>c. c\<lparr>c_front := True\<rparr>) p1
                 in if newSerial \<le> c_serial c then (p2, [])
                    else (setAuthedAddr clientID None (Some a)
                            (upd_client clientID (\<lambda>c. c\<lparr>c_serial := newSerial\<rparr>) p2),
                          [Reply a (sealAuthPacket P nonce newSerial p2)])))"

definition read_step ::
  "('k, 's, 'p) prims \<Rightarrow> bytes \<Rightarrow> 'a \<Rightarrow> bytes \<Rightarrow> ('a, 'k, 's) serverProxy
   \<Rightarrow> ('a, 'k, 's) serverProxy \<times> 'a fe_out list" where
  "read_step P nonce a buf p =
     (case front_getClient a p of
        (p1, Some (i, True)) \<Rightarrow> (p1, deliver i buf)
      | (p1, Some (i, False)) \<Rightarrow> read_authed P nonce a buf i p1
      | (p1, None) \<Rightarrow> read_unknown P nonce a buf p1)"

text \<open>\<open>readFrom\<close> on the packets that arrive, up to the first one it returns; \<open>None\<close>: it still waits.\<close>

fun front_readFrom ::
  "('k, 's, 'p) prims \<Rightarrow> bytes \<Rightarrow> ('a \<times> bytes) list \<Rightarrow> ('a, 'k, 's) serverProxy
   \<Rightarrow> ('a, 'k, 's) serverProxy \<times> 'a fe_out list \<times> (u64 \<times> bytes) option \<times> ('a \<times> bytes) list" where
  "front_readFrom P nonce [] p = (p, [], None, [])"
| "front_readFrom P nonce ((a, buf) # ins) p =
     (case read_step P nonce a buf p of
        (p1, outs) \<Rightarrow>
          (case filter (\<lambda>x. case x of Deliver _ _ \<Rightarrow> True | _ \<Rightarrow> False) outs of
             Deliver i b # _ \<Rightarrow> (p1, outs, Some (i, b), ins)
           | _ \<Rightarrow> (case front_readFrom P nonce ins p1 of (p2, outs2, r) \<Rightarrow> (p2, outs @ outs2, r))))"

text \<open>\<open>initConn\<close> for a connection found by \<open>probeAuth\<close> (\<open>None\<close> as address for a single connection).\<close>

definition initConn :: "('a \<times> u64 \<times> u64) option \<Rightarrow> ('a, 'k, 's) serverProxy \<Rightarrow> ('a, 'k, 's) serverProxy" where
  "initConn auth p =
     (case auth of
        None \<Rightarrow> p
      | Some (a, clientID, newSerial) \<Rightarrow>
          (case getClient clientID p of
             (p1, None) \<Rightarrow> p1
           | (p1, Some c) \<Rightarrow>
               if c_closed c then p1
               else
                 let p2 = upd_client clientID (\<lambda>c. c\<lparr>c_front := True\<rparr>) p1
                 in if newSerial > c_serial c
                    then setAuthedAddr clientID None (Some a) (upd_client clientID (\<lambda>c. c\<lparr>c_serial := newSerial\<rparr>) p2)
                    else p2))"

text \<open>\<open>writeTo\<close>: the address a packet goes to.\<close>

definition front_writeTo :: "u64 \<Rightarrow> ('a, 'k, 's) serverProxy \<Rightarrow> 'a result" where
  "front_writeTo i p =
     (case addr_of c_addr p i of
        None \<Rightarrow> Inl (ErrText ''client disconnected'') | Some a \<Rightarrow> Inr a)"

section \<open>The packet connection of the transport\<close>

lemma front_readFrom_rest: "front_readFrom P nonce ins p = (p1, outs, Some r, rest) \<Longrightarrow> length rest < length ins"
proof (induction ins arbitrary: p outs)
  case (Cons x ins)
  obtain a buf where x: "x = (a, buf)" by (metis surj_pair)
  obtain q os where step: "read_step P nonce a buf p = (q, os)" by (metis surj_pair)
  let ?ds = "filter (\<lambda>x. case x of Deliver _ _ \<Rightarrow> True | _ \<Rightarrow> False) os"
  consider (ret) i b ds where "?ds = Deliver i b # ds" | (go) "\<forall>i b ds. ?ds \<noteq> Deliver i b # ds" by blast
  then show ?case
  proof cases
    case ret
    with Cons.prems show ?thesis by (simp add: x step)
  next
    case go
    obtain p2 outs2 r' where rec: "front_readFrom P nonce ins q = (p2, outs2, r')" by (metis prod_cases3)
    with go Cons.prems have "r' = (Some r, rest) \<and> p2 = p1"
      by (auto simp: x step split: list.splits fe_out.splits)
    with Cons.IH rec show ?thesis by fastforce
  qed
qed simp

text \<open>\<open>ReadFrom\<close>: the first packet that the client's keys open, with the client it is from.\<close>

function proxy_ReadFrom ::
  "('k, 's, 'p) prims \<Rightarrow> bytes \<Rightarrow> ('a \<times> bytes) list \<Rightarrow> ('a, 'k, 's) serverProxy
   \<Rightarrow> ('a, 'k, 's) serverProxy \<times> (u64 \<times> bytes) option" where
  "proxy_ReadFrom P nonce ins p =
     (case front_readFrom P nonce ins p of
        (p1, outs, None, rest) \<Rightarrow> (p1, None)
      | (p1, outs, Some (i, buf), rest) \<Rightarrow>
          (case Option.bind (p_clients p1 i) c_crypto of
             None \<Rightarrow> (p1, Some (i, buf))
           | Some crypto \<Rightarrow>
               (case openPacket P buf crypto of
                  (_, Inl e) \<Rightarrow> proxy_ReadFrom P nonce rest p1
                | ((crypto', _), Inr (n, buf')) \<Rightarrow>
                    (upd_client i (\<lambda>c. c\<lparr>c_crypto := Some crypto'\<rparr>) p1, Some (i, take n buf')))))"
  by pat_completeness auto
termination
proof (relation "measure (\<lambda>(P, nonce, ins, p). length ins)", goal_cases)
  case (2 P nonce ins p)
  then show ?case by (metis (no_types, lifting) case_prod_conv front_readFrom_rest in_measure)
qed simp

declare proxy_ReadFrom.simps [simp del]

text \<open>\<open>WriteTo\<close>: the packet that is sent, if one is, and where to.\<close>

definition proxy_WriteTo ::
  "('k, 's, 'p) prims \<Rightarrow> bytes \<Rightarrow> u64 \<Rightarrow> ('a, 'k, 's) serverProxy \<Rightarrow> ('a, 'k, 's) serverProxy \<times> ('a \<times> bytes) option" where
  "proxy_WriteTo P buf i p =
     (case getClient i p of
        (p1, None) \<Rightarrow> (p1, None)
      | (p1, Some c) \<Rightarrow>
          let sealed = (case c_crypto c of
                None \<Rightarrow> (p1, Inr buf)
              | Some crypto \<Rightarrow>
                  (case sealPacket P buf crypto of ((crypto', _), out) \<Rightarrow>
                     (upd_client i (\<lambda>c. c\<lparr>c_crypto := Some crypto'\<rparr>) p1, out)))
          in (case sealed of
                (p2, Inl e) \<Rightarrow> (p2, None)
              | (p2, Inr out) \<Rightarrow>
                  if c_closed c then (p2, None)
                  else (case front_writeTo i p2 of Inl e \<Rightarrow> (p2, None) | Inr a \<Rightarrow> (p2, Some (a, out)))))"

text \<open>\<open>newSshUdpServer\<close>: a client may be bound to a server once.\<close>

definition seal_client :: "u64 \<Rightarrow> ('a, 'k, 's) serverProxy \<Rightarrow> ('a, 'k, 's) serverProxy \<times> bool" where
  "seal_client i p =
     (case getClient i p of
        (p1, None) \<Rightarrow> (p1, False)
      | (p1, Some c) \<Rightarrow>
          if c_closed c \<or> c_sealed c then (p1, False)
          else (upd_client i (\<lambda>c. c\<lparr>c_sealed := True\<rparr>) p1, True))"

text \<open>\<open>startServerProxy\<close> with the random values it draws.\<close>

definition startServerProxy ::
  "bool \<Rightarrow> bool \<Rightarrow> bool \<Rightarrow> bool \<Rightarrow> 'k \<Rightarrow> ('k, 's) rotatingCrypto result \<Rightarrow> u64 \<Rightarrow> u64 \<Rightarrow> ('a, 'k, 's) serverProxy result" where
  "startServerProxy attachable sock tcp kcp cipherKey fresh clientID serverID =
     (let p = \<lparr>p_Attachable = attachable, p_TCP = tcp, p_KCP = kcp, p_cipher = cipherKey, p_fresh = fresh,
            p_serverID = serverID, p_clientID = (if \<not> attachable \<or> sock then clientID else 0),
            p_clients = Map.empty, f_cache = None, f_clientMap = Map.empty, f_authedMap = Map.empty\<rparr>
      in if attachable then Inr p
         else (case newClientState p of
             Inl e \<Rightarrow> Inl (ErrFlat ''new client state failed'' e)
           | Inr c \<Rightarrow> Inr (p\<lparr>p_clients := [clientID \<mapsto> c]\<rparr>)))"

section \<open>The address maps\<close>

text \<open>
  An address belongs to at most one client, as its effective or its pending address, and the maps
  of the front end say exactly which; a closed client has none.
\<close>

definition map_ok :: "('a \<Rightarrow> 'i option) \<Rightarrow> ('i \<Rightarrow> 'a option) \<Rightarrow> bool" where
  "map_ok m f \<longleftrightarrow> (\<forall>a i. m a = Some i \<longleftrightarrow> f i = Some a)"

definition fe_inv :: "('a, 'k, 's) serverProxy \<Rightarrow> bool" where
  "fe_inv p \<longleftrightarrow>
     (\<forall>a i j. \<not> (has_addr c_addr a i p \<and> has_addr c_authed a j p))
   \<and> (\<forall>i c. p_clients p i = Some c \<longrightarrow>
        ((c_addr c \<noteq> None \<or> c_authed c \<noteq> None) \<longrightarrow> c_front c \<and> \<not> c_closed c))
   \<and> (if p_Attachable p then
        map_ok (f_clientMap p) (addr_of c_addr p) \<and> map_ok (f_authedMap p) (addr_of c_authed p)
      else (\<forall>a i. has_addr c_addr a i p \<or> has_addr c_authed a i p \<longrightarrow> i = p_clientID p))"

lemma fe_inv_unique:
  assumes "fe_inv p"
  shows "has_addr c_addr a i p \<Longrightarrow> has_addr c_addr a j p \<Longrightarrow> i = j"
    and "has_addr c_authed a i p \<Longrightarrow> has_addr c_authed a j p \<Longrightarrow> i = j"
  using assms unfolding fe_inv_def map_ok_def has_addr_def by (metis option.inject)+

lemma fe_disj: "fe_inv p \<Longrightarrow> \<not> (has_addr c_addr a i p \<and> has_addr c_authed a j p)"
  unfolding fe_inv_def by blast

lemma front_lookup_spec:
  assumes inv: "fe_inv p" and "p_Attachable p"
  shows "(snd (front_lookup a p) = Some (i, True) \<longleftrightarrow> has_addr c_addr a i p)
    \<and> (snd (front_lookup a p) = Some (i, False) \<longleftrightarrow> has_addr c_authed a i p)
    \<and> (\<exists>x. fst (front_lookup a p) = p\<lparr>f_cache := x\<rparr>)"
proof -
  have maps: "f_clientMap p a = Some i \<longleftrightarrow> has_addr c_addr a i p" "f_authedMap p a = Some i \<longleftrightarrow> has_addr c_authed a i p" for i
    using assms by (simp_all add: fe_inv_def map_ok_def has_addr_def)
  have disj: "\<not> (has_addr c_addr a i p \<and> has_addr c_authed a j p)" for i j
    using fe_disj [OF inv] .
  have same: "\<exists>x. p = p\<lparr>f_cache := x\<rparr>" by (rule exI [of _ "f_cache p"]) simp
  show ?thesis
  proof (cases "f_clientMap p a")
    case None
    with maps disj same show ?thesis
      by (cases "f_authedMap p a") (simp_all add: front_lookup_def, blast+)
  next
    case (Some j)
    with maps disj same show ?thesis
      by (simp add: front_lookup_def) blast
  qed
qed

lemma front_getClient_spec:
  assumes inv: "fe_inv p"
  shows "(snd (front_getClient a p) = Some (i, True) \<longleftrightarrow> has_addr c_addr a i p)
    \<and> (snd (front_getClient a p) = Some (i, False) \<longleftrightarrow> has_addr c_authed a i p)
    \<and> (\<exists>x. fst (front_getClient a p) = p\<lparr>f_cache := x\<rparr>)"
proof -
  have disj: "\<not> (has_addr c_addr a i p \<and> has_addr c_authed a j p)" for i j
    using fe_disj [OF inv] .
  have same: "\<exists>x. p = p\<lparr>f_cache := x\<rparr>" by (rule exI [of _ "f_cache p"]) simp
  show ?thesis
  proof (cases "p_Attachable p")
    case True
    show ?thesis
    proof (cases "f_cache p")
      case None
      with True front_lookup_spec [OF inv True] show ?thesis by (simp add: front_getClient_def)
    next
      case (Some j)
      have u1: "has_addr c_addr a j p \<Longrightarrow> has_addr c_addr a i p \<longleftrightarrow> j = i"
        and u2: "has_addr c_authed a j p \<Longrightarrow> has_addr c_authed a i p \<longleftrightarrow> j = i"
        using fe_inv_unique [OF inv, of a] by blast+
      consider "has_addr c_addr a j p" | "\<not> has_addr c_addr a j p" "has_addr c_authed a j p"
        | "\<not> has_addr c_addr a j p" "\<not> has_addr c_authed a j p" by blast
      then show ?thesis
      proof cases
        case 1
        with disj [of j i] u1 Some True same show ?thesis by (simp add: front_getClient_def)
      next
        case 2
        with disj [of i j] u2 Some True same show ?thesis by (simp add: front_getClient_def)
      next
        case 3
        with front_lookup_spec [OF inv True] Some True show ?thesis by (simp add: front_getClient_def)
      qed
    qed
  next
    case False
    obtain j where j: "p_clientID p = j" by blast
    from False j have own: "has_addr c_addr a i p \<or> has_addr c_authed a i p \<longrightarrow> i = j"
      using inv by (simp add: fe_inv_def)
    have "front_getClient a p = (if has_addr c_addr a j p then (p, Some (j, True))
        else if has_addr c_authed a j p then (p, Some (j, False)) else (p, None))"
      using False j by (simp add: front_getClient_def)
    with own disj same show ?thesis
      by (cases "has_addr c_addr a j p"; cases "has_addr c_authed a j p"; simp only: if_True if_False snd_conv fst_conv; blast)
  qed
qed

text \<open>What the setters change.\<close>

lemma setClientAddr_eff:
  assumes "p_clients p i = Some c"
  shows "p_clients (setClientAddr i old new p) =
      (p_clients p)(i \<mapsto> c\<lparr>c_addr := fst (swap_old old new (c_addr c))\<rparr>)"
    "f_authedMap (setClientAddr i old new p) = f_authedMap p"
    "p_Attachable (setClientAddr i old new p) = p_Attachable p"
    "p_clientID (setClientAddr i old new p) = p_clientID p"
  using assms
  by (simp_all add: setClientAddr_def Let_def addClientMap_def delClientMap_def split: option.split prod.split)

lemma setAuthedAddr_eff:
  assumes "p_clients p i = Some c"
  shows "p_clients (setAuthedAddr i old new p) =
      (p_clients p)(i \<mapsto> c\<lparr>c_authed := fst (swap_old old new (c_authed c))\<rparr>)"
    "f_clientMap (setAuthedAddr i old new p) = f_clientMap p"
    "p_Attachable (setAuthedAddr i old new p) = p_Attachable p"
    "p_clientID (setAuthedAddr i old new p) = p_clientID p"
  using assms
  by (simp_all add: setAuthedAddr_def Let_def addAuthedMap_def delAuthedMap_def split: option.split prod.split)

text \<open>The map after a setter, when the client is known to the front end.\<close>

lemma setClientAddr_map:
  assumes "p_clients p i = Some c" "c_front c" "p_Attachable p" "new \<noteq> None \<longrightarrow> old = None"
  shows "f_clientMap (setClientAddr i old new p) =
     (let m = (case new of None \<Rightarrow> f_clientMap p | Some b \<Rightarrow> (f_clientMap p)(b \<mapsto> i))
      in case snd (swap_old old new (c_addr c)) of None \<Rightarrow> m | Some a \<Rightarrow> m(a := None))"
  using assms
  by (cases new; cases old)
    (auto simp: setClientAddr_def Let_def addClientMap_def delClientMap_def swap_old_def split: option.split prod.split)

lemma setAuthedAddr_map:
  assumes "p_clients p i = Some c" "c_front c" "p_Attachable p" "new \<noteq> None \<longrightarrow> old = None"
  shows "f_authedMap (setAuthedAddr i old new p) =
     (let m = (case new of None \<Rightarrow> f_authedMap p | Some b \<Rightarrow> (f_authedMap p)(b \<mapsto> i))
      in case snd (swap_old old new (c_authed c)) of None \<Rightarrow> m | Some a \<Rightarrow> m(a := None))"
  using assms
  by (cases new; cases old)
    (auto simp: setAuthedAddr_def Let_def addAuthedMap_def delAuthedMap_def swap_old_def split: option.split prod.split)

lemma set_noop:
  "p_clients p i = None \<Longrightarrow> setClientAddr i old new p = p"
  "p_clients p i = None \<Longrightarrow> setAuthedAddr i old new p = p"
  "p_clients p i = None \<Longrightarrow> upd_client i f p = p"
  by (simp_all add: setClientAddr_def setAuthedAddr_def upd_client_def)

lemma map_ok_del: "map_ok m f \<Longrightarrow> f i = Some b \<Longrightarrow> map_ok (m(b := None)) (f(i := None))"
  unfolding map_ok_def by (auto, metis option.inject)

lemma map_ok_add: "map_ok m f \<Longrightarrow> \<forall>j. f j \<noteq> Some b \<Longrightarrow> f i = None \<Longrightarrow> map_ok (m(b \<mapsto> i)) (f(i \<mapsto> b))"
  unfolding map_ok_def by auto

lemma map_ok_move: "map_ok m f \<Longrightarrow> \<forall>j. f j \<noteq> Some b \<Longrightarrow> f i = Some a \<Longrightarrow> map_ok ((m(b \<mapsto> i))(a := None)) (f(i \<mapsto> b))"
  unfolding map_ok_def by (auto, metis option.inject)

lemma addr_of_client: "p_clients p i = Some c \<Longrightarrow> addr_of f p i = f c"
  by (simp add: addr_of_def)

lemma addr_of_upd: "p_clients q = (p_clients p)(i \<mapsto> c) \<Longrightarrow> addr_of f q = (addr_of f p)(i := f c)"
  by (auto simp: addr_of_def)

lemma fe_front: "fe_inv p \<Longrightarrow> p_clients p i = Some c \<Longrightarrow> c_addr c \<noteq> None \<or> c_authed c \<noteq> None \<Longrightarrow> c_front c \<and> \<not> c_closed c"
  unfolding fe_inv_def by blast

lemma swap_None [simp]: "fst (swap_old old None cur) = (if old = None \<or> cur = old then None else cur)"
  "snd (swap_old old None cur) = (if old = None \<or> cur = old then cur else None)"
  by (auto simp: swap_old_def split: option.split)

lemma swap_Some [simp]: "swap_old None new cur = (new, cur)"
  by (simp add: swap_old_def)

text \<open>The invariant on the views of the state it is about.\<close>

definition fe_view ::
  "bool \<Rightarrow> u64 \<Rightarrow> (u64 \<Rightarrow> 'a option) \<Rightarrow> (u64 \<Rightarrow> 'a option) \<Rightarrow> (u64 \<Rightarrow> bool) \<Rightarrow> ('a \<Rightarrow> u64 option) \<Rightarrow> ('a \<Rightarrow> u64 option) \<Rightarrow> bool" where
  "fe_view att cid A U ok cm am \<longleftrightarrow>
     (\<forall>a i j. \<not> (A i = Some a \<and> U j = Some a)) \<and> (\<forall>i. A i \<noteq> None \<or> U i \<noteq> None \<longrightarrow> ok i)
   \<and> (if att then map_ok cm A \<and> map_ok am U else (\<forall>i. A i \<noteq> None \<or> U i \<noteq> None \<longrightarrow> i = cid))"

definition usable :: "('a, 'k, 's) serverProxy \<Rightarrow> u64 \<Rightarrow> bool" where
  "usable p i \<longleftrightarrow> (case p_clients p i of None \<Rightarrow> False | Some c \<Rightarrow> c_front c \<and> \<not> c_closed c)"

lemma fe_inv_view:
  "fe_inv p \<longleftrightarrow> fe_view (p_Attachable p) (p_clientID p) (addr_of c_addr p) (addr_of c_authed p) (usable p)
     (f_clientMap p) (f_authedMap p)"
proof -
  have "(\<forall>i c. p_clients p i = Some c \<longrightarrow> (c_addr c \<noteq> None \<or> c_authed c \<noteq> None) \<longrightarrow> c_front c \<and> \<not> c_closed c)
     \<longleftrightarrow> (\<forall>i. addr_of c_addr p i \<noteq> None \<or> addr_of c_authed p i \<noteq> None \<longrightarrow> usable p i)"
    by (simp add: addr_of_def usable_def split: option.split bind_split)
  moreover have "(\<forall>a i. has_addr c_addr a i p \<or> has_addr c_authed a i p \<longrightarrow> i = p_clientID p)
     \<longleftrightarrow> (\<forall>i. addr_of c_addr p i \<noteq> None \<or> addr_of c_authed p i \<noteq> None \<longrightarrow> i = p_clientID p)"
    unfolding has_addr_def by blast
  ultimately show ?thesis unfolding fe_inv_def fe_view_def by (simp add: has_addr_def)
qed

lemma view_clear_A:
  assumes "fe_view att cid A U ok cm am"
  shows "fe_view att cid (A(i := None)) U ok (case A i of None \<Rightarrow> cm | Some a \<Rightarrow> cm(a := None)) am"
  using assms map_ok_del [of cm A i] unfolding fe_view_def
  by (cases "A i") (auto simp: fun_upd_idem split: if_split_asm)

lemma view_clear_U:
  assumes "fe_view att cid A U ok cm am"
  shows "fe_view att cid A (U(i := None)) ok cm (case U i of None \<Rightarrow> am | Some a \<Rightarrow> am(a := None))"
  using assms map_ok_del [of am U i] unfolding fe_view_def
  by (cases "U i") (auto simp: fun_upd_idem split: if_split_asm)

lemma view_set_U:
  assumes "fe_view att cid A U ok cm am" "\<forall>j. A j \<noteq> Some b \<and> U j \<noteq> Some b" "ok i" "att \<or> i = cid"
  shows "fe_view att cid A (U(i \<mapsto> b)) ok cm
     (case U i of None \<Rightarrow> am(b \<mapsto> i) | Some a \<Rightarrow> (am(b \<mapsto> i))(a := None))"
  using assms map_ok_add [of am U b i] map_ok_move [of am U b i] unfolding fe_view_def
  by (cases "U i") (auto split: if_split_asm)

text \<open>The promotion of a pending address.\<close>

lemma view_promote:
  assumes "fe_view att cid A U ok cm am" "U i = Some b"
  shows "fe_view att cid (A(i \<mapsto> b)) (U(i := None)) ok
     (case A i of None \<Rightarrow> cm(b \<mapsto> i) | Some a \<Rightarrow> (cm(b \<mapsto> i))(a := None)) (am(b := None))"
proof -
  have free: "\<forall>j. A j \<noteq> Some b" using assms unfolding fe_view_def by blast
  have own: "U j = Some b \<Longrightarrow> j = i" for j
    using assms unfolding fe_view_def map_ok_def by (metis option.distinct(1) option.inject)
  have d: "A x = Some a \<Longrightarrow> U j = Some a \<Longrightarrow> False" for a x j
    using assms(1) unfolding fe_view_def by blast
  have k: "A x \<noteq> None \<or> U x \<noteq> None \<Longrightarrow> ok x" "\<not> att \<Longrightarrow> A x \<noteq> None \<or> U x \<noteq> None \<Longrightarrow> x = cid" for x
    using assms(1) unfolding fe_view_def by (simp_all del: not_None_eq)
  have "\<not> ((A(i \<mapsto> b)) x = Some a \<and> (U(i := None)) j = Some a)" for a x j
    using own [of j] by (auto dest: d split: if_split_asm)
  moreover have "(A(i \<mapsto> b)) x \<noteq> None \<or> (U(i := None)) x \<noteq> None \<longrightarrow> ok x" for x
    using k(1) [of x] assms(2) by (cases "x = i") simp_all
  moreover have "map_ok (case A i of None \<Rightarrow> cm(b \<mapsto> i) | Some a \<Rightarrow> (cm(b \<mapsto> i))(a := None)) (A(i \<mapsto> b))" if att
    using that assms(1) free map_ok_add [of cm A b i] map_ok_move [of cm A b i] unfolding fe_view_def
    by (cases "A i") simp_all
  moreover have "map_ok (am(b := None)) (U(i := None))" if att
    using that assms map_ok_del [of am U i b] unfolding fe_view_def by simp
  moreover have "(A(i \<mapsto> b)) x \<noteq> None \<or> (U(i := None)) x \<noteq> None \<longrightarrow> x = cid" if "\<not> att" for x
    using k(2) [OF that, of x] assms(2) by (cases "x = i") simp_all
  ultimately show ?thesis unfolding fe_view_def by (simp del: not_None_eq fun_upd_apply)
qed

lemma view_ok: "fe_view att cid A U ok cm am \<Longrightarrow> (\<And>i. ok i \<Longrightarrow> ok' i) \<Longrightarrow> fe_view att cid A U ok' cm am"
  unfolding fe_view_def by blast

lemma view_no_maps: "fe_view False cid A U ok cm am \<Longrightarrow> fe_view False cid A U ok cm' am'"
  by (simp add: fe_view_def)

lemma usable_upd:
  "p_clients p i = Some c \<Longrightarrow> p_clients q = (p_clients p)(i \<mapsto> c') \<Longrightarrow> c_front c' = c_front c \<Longrightarrow> c_closed c' = c_closed c
   \<Longrightarrow> usable q = usable p"
  by (rule ext) (simp add: usable_def)

text \<open>Each operation, as a change of the views.\<close>

lemma inv_setClientAddr_None:
  assumes inv: "fe_inv p"
  shows "fe_inv (setClientAddr i old None p)"
proof (cases "\<exists>c b. p_clients p i = Some c \<and> c_addr c = Some b \<and> (old = None \<or> old = Some b)")
  case True
  then obtain c b where c: "p_clients p i = Some c" "c_addr c = Some b" "old = None \<or> old = Some b" by blast
  let ?q = "setClientAddr i old None p"
  have front: "c_front c" using fe_front [OF inv c(1)] c(2) by simp
  note eff = setClientAddr_eff [OF c(1), of old None]
  have A: "addr_of c_addr ?q = (addr_of c_addr p)(i := None)"
    using addr_of_upd [OF eff(1), of c_addr] c(2,3) by auto
  have U: "addr_of c_authed ?q = addr_of c_authed p"
    using addr_of_upd [OF eff(1), of c_authed] addr_of_client [OF c(1), of c_authed] by (auto simp: fun_upd_idem)
  have ok: "usable ?q = usable p" by (rule usable_upd [OF c(1) eff(1)]) simp_all
  have map: "p_Attachable p \<Longrightarrow> f_clientMap ?q = (f_clientMap p)(b := None)"
    using setClientAddr_map [OF c(1) front, of None old] c(2,3) by auto
  have v: "fe_view (p_Attachable p) (p_clientID p) ((addr_of c_addr p)(i := None)) (addr_of c_authed p) (usable p)
      ((f_clientMap p)(b := None)) (f_authedMap p)"
    using view_clear_A [of "p_Attachable p" "p_clientID p" "addr_of c_addr p" _ _ _ _ i] inv addr_of_client [OF c(1), of c_addr] c(2)
    by (simp add: fe_inv_view)
  show ?thesis
    unfolding fe_inv_view A U ok eff using v map by (cases "p_Attachable p") (simp_all, rule view_no_maps)
next
  case False
  have "setClientAddr i old None p = p"
  proof (cases "p_clients p i")
    case None
    then show ?thesis by (simp add: set_noop)
  next
    case (Some c)
    with False have "swap_old old None (c_addr c) = (c_addr c, None)"
      by (cases "c_addr c"; cases old) (auto simp: swap_old_def)
    with Some show ?thesis by (simp add: setClientAddr_def fun_upd_idem)
  qed
  with inv show ?thesis by simp
qed

lemma inv_setAuthedAddr_None:
  assumes inv: "fe_inv p"
  shows "fe_inv (setAuthedAddr i old None p)"
proof (cases "\<exists>c b. p_clients p i = Some c \<and> c_authed c = Some b \<and> (old = None \<or> old = Some b)")
  case True
  then obtain c b where c: "p_clients p i = Some c" "c_authed c = Some b" "old = None \<or> old = Some b" by blast
  let ?q = "setAuthedAddr i old None p"
  have front: "c_front c" using fe_front [OF inv c(1)] c(2) by simp
  note eff = setAuthedAddr_eff [OF c(1), of old None]
  have U: "addr_of c_authed ?q = (addr_of c_authed p)(i := None)"
    using addr_of_upd [OF eff(1), of c_authed] c(2,3) by auto
  have A: "addr_of c_addr ?q = addr_of c_addr p"
    using addr_of_upd [OF eff(1), of c_addr] addr_of_client [OF c(1), of c_addr] by (auto simp: fun_upd_idem)
  have ok: "usable ?q = usable p" by (rule usable_upd [OF c(1) eff(1)]) simp_all
  have map: "p_Attachable p \<Longrightarrow> f_authedMap ?q = (f_authedMap p)(b := None)"
    using setAuthedAddr_map [OF c(1) front, of None old] c(2,3) by auto
  have v: "fe_view (p_Attachable p) (p_clientID p) (addr_of c_addr p) ((addr_of c_authed p)(i := None)) (usable p)
      (f_clientMap p) ((f_authedMap p)(b := None))"
    using view_clear_U [of "p_Attachable p" "p_clientID p" _ "addr_of c_authed p" _ _ _ i] inv
      addr_of_client [OF c(1), of c_authed] c(2)
    by (simp add: fe_inv_view)
  show ?thesis
    unfolding fe_inv_view A U ok eff using v map by (cases "p_Attachable p") (simp_all, rule view_no_maps)
next
  case False
  have "setAuthedAddr i old None p = p"
  proof (cases "p_clients p i")
    case None
    then show ?thesis by (simp add: set_noop)
  next
    case (Some c)
    with False have "swap_old old None (c_authed c) = (c_authed c, None)"
      by (cases "c_authed c"; cases old) (auto simp: swap_old_def)
    with Some show ?thesis by (simp add: setAuthedAddr_def fun_upd_idem)
  qed
  with inv show ?thesis by simp
qed

lemma inv_promote:
  assumes inv: "fe_inv p" and b: "addr_of c_authed p i = Some b"
  shows "fe_inv (setAuthedAddr i None None (setClientAddr i None (Some b) p))"
proof -
  obtain c where c: "p_clients p i = Some c" "c_authed c = Some b"
    using b by (cases "p_clients p i") (simp_all add: addr_of_def)
  have front: "c_front c" using fe_front [OF inv c(1)] c(2) by simp
  let ?p = "setClientAddr i None (Some b) p"
  let ?q = "setAuthedAddr i None None ?p"
  note e1 = setClientAddr_eff [OF c(1), of None "Some b"]
  have c1: "p_clients ?p i = Some (c\<lparr>c_addr := Some b\<rparr>)" by (simp add: e1)
  note e2 = setAuthedAddr_eff [OF c1, of None None]
  have cl: "p_clients ?q = (p_clients p)(i \<mapsto> c\<lparr>c_addr := Some b, c_authed := None\<rparr>)"
    by (simp add: e1 e2)
  have A: "addr_of c_addr ?q = (addr_of c_addr p)(i \<mapsto> b)" and U: "addr_of c_authed ?q = (addr_of c_authed p)(i := None)"
    using addr_of_upd [OF cl] by simp_all
  have ok: "usable ?q = usable p" by (rule usable_upd [OF c(1) cl]) simp_all
  have maps: "p_Attachable p \<Longrightarrow> f_clientMap ?q =
        (case addr_of c_addr p i of None \<Rightarrow> (f_clientMap p)(b \<mapsto> i) | Some a \<Rightarrow> ((f_clientMap p)(b \<mapsto> i))(a := None))"
      "p_Attachable p \<Longrightarrow> f_authedMap ?q = (f_authedMap p)(b := None)"
    using setClientAddr_map [OF c(1) front, of "Some b" None] setAuthedAddr_map [OF c1, of None None] front c(2)
    by (simp_all add: e1 e2 addr_of_client [OF c(1)] Let_def)
  have "p_Attachable ?q = p_Attachable p" "p_clientID ?q = p_clientID p" by (simp_all add: e1 e2)
  then show ?thesis
    unfolding fe_inv_view A U ok using view_promote [OF inv [unfolded fe_inv_view] b] maps
    by (cases "p_Attachable p") (simp_all, rule view_no_maps)
qed

lemma inv_set_authed:
  assumes inv: "fe_inv p" and c: "p_clients p i = Some c" "c_front c" "\<not> c_closed c"
    and new: "\<forall>j. \<not> has_addr c_addr a j p \<and> \<not> has_addr c_authed a j p" and i: "p_Attachable p \<or> i = p_clientID p"
  shows "fe_inv (setAuthedAddr i None (Some a) p)"
proof -
  let ?q = "setAuthedAddr i None (Some a) p"
  note eff = setAuthedAddr_eff [OF c(1), of None "Some a"]
  have U: "addr_of c_authed ?q = (addr_of c_authed p)(i \<mapsto> a)"
    using addr_of_upd [OF eff(1), of c_authed] by simp
  have A: "addr_of c_addr ?q = addr_of c_addr p"
    using addr_of_upd [OF eff(1), of c_addr] addr_of_client [OF c(1), of c_addr] by (auto simp: fun_upd_idem)
  have ok: "usable ?q = usable p" by (rule usable_upd [OF c(1) eff(1)]) simp_all
  have map: "p_Attachable p \<Longrightarrow> f_authedMap ?q = (case addr_of c_authed p i of
      None \<Rightarrow> (f_authedMap p)(a \<mapsto> i) | Some b \<Rightarrow> ((f_authedMap p)(a \<mapsto> i))(b := None))"
    using setAuthedAddr_map [OF c(1,2), of "Some a" None] by (simp add: addr_of_client [OF c(1)] Let_def)
  have u: "usable p i" using c by (simp add: usable_def)
  have "\<forall>j. addr_of c_addr p j \<noteq> Some a \<and> addr_of c_authed p j \<noteq> Some a"
    using new by (simp add: has_addr_def)
  from view_set_U [OF inv [unfolded fe_inv_view] this u i] map show ?thesis
    unfolding fe_inv_view A U ok eff by (cases "p_Attachable p") (simp_all, rule view_no_maps)
qed

lemma inv_upd_client:
  assumes inv: "fe_inv p"
    and f: "\<And>c. c_addr (f c) = c_addr c" "\<And>c. c_authed (f c) = c_authed c" "\<And>c. c_closed (f c) = c_closed c"
      "\<And>c. c_front c \<Longrightarrow> c_front (f c)"
  shows "fe_inv (upd_client i f p)"
proof (cases "p_clients p i")
  case None
  then show ?thesis using inv by (simp add: set_noop)
next
  case (Some c)
  then have cl: "p_clients (upd_client i f p) = (p_clients p)(i \<mapsto> f c)" by (simp add: upd_client_def)
  have A: "addr_of c_addr (upd_client i f p) = addr_of c_addr p" "addr_of c_authed (upd_client i f p) = addr_of c_authed p"
    using addr_of_upd [OF cl] addr_of_client [OF Some] f by (auto simp: fun_upd_idem)
  have ok: "usable p j \<Longrightarrow> usable (upd_client i f p) j" for j
    using Some f(3,4) [of c] by (auto simp: usable_def cl)
  have same: "p_Attachable (upd_client i f p) = p_Attachable p" "p_clientID (upd_client i f p) = p_clientID p"
      "f_clientMap (upd_client i f p) = f_clientMap p" "f_authedMap (upd_client i f p) = f_authedMap p"
    using Some by (simp_all add: upd_client_def)
  from view_ok [OF inv [unfolded fe_inv_view] ok] show ?thesis unfolding fe_inv_view A same .
qed

definition ser :: "('a, 'k, 's) serverProxy \<Rightarrow> u64 \<Rightarrow> u64" where
  "ser p i = (case p_clients p i of None \<Rightarrow> 0 | Some c \<Rightarrow> c_serial c)"

definition shut :: "('a, 'k, 's) serverProxy \<Rightarrow> u64 \<Rightarrow> bool" where
  "shut p i = (case p_clients p i of None \<Rightarrow> False | Some c \<Rightarrow> c_closed c)"

lemma getClient_cases:
  obtains "fst (getClient i p) = p"
  | c where "p_clients p i = None" "newClientState p = Inr c" "c_addr c = None" "c_authed c = None"
      "c_serial c = 0" "\<not> c_closed c" "fst (getClient i p) = p\<lparr>p_clients := (p_clients p)(i \<mapsto> c)\<rparr>"
proof -
  have "newClientState p = Inr c \<Longrightarrow> c_addr c = None \<and> c_authed c = None \<and> c_serial c = 0 \<and> \<not> c_closed c" for c
    by (auto simp: newClientState_def Let_def split: if_splits sum.splits)
  note new = this
  show ?thesis
  proof (cases "p_clients p i \<noteq> None \<or> isl (newClientState p)")
    case True
    then have "fst (getClient i p) = p" by (auto simp: getClient_def isl_def split: option.split)
    then show ?thesis by (rule that(1))
  next
    case False
    then have none: "p_clients p i = None" by blast
    obtain c where c: "newClientState p = Inr c" using False by (cases "newClientState p") simp_all
    have "fst (getClient i p) = p\<lparr>p_clients := (p_clients p)(i \<mapsto> c)\<rparr>"
      using none c by (simp add: getClient_def)
    with none c new [OF c] show ?thesis by (intro that(2)) blast+
  qed
qed

lemma getClient_same:
  "addr_of c_addr (fst (getClient i p)) = addr_of c_addr p \<and> addr_of c_authed (fst (getClient i p)) = addr_of c_authed p
   \<and> ser (fst (getClient i p)) = ser p \<and> shut (fst (getClient i p)) = shut p
   \<and> p_Attachable (fst (getClient i p)) = p_Attachable p \<and> p_clientID (fst (getClient i p)) = p_clientID p"
proof (rule getClient_cases [of i p])
  assume "fst (getClient i p) = p"
  then show ?thesis by simp
next
  fix c
  assume c: "p_clients p i = None" "c_addr c = None" "c_authed c = None" "c_serial c = 0" "\<not> c_closed c"
    and q: "fst (getClient i p) = p\<lparr>p_clients := (p_clients p)(i \<mapsto> c)\<rparr>"
  from c show ?thesis
    unfolding q by (simp add: fun_eq_iff addr_of_def ser_def shut_def)
qed

lemmas getClient_views = getClient_same [THEN conjunct1] getClient_same [THEN conjunct2, THEN conjunct1]
  getClient_same [THEN conjunct2, THEN conjunct2, THEN conjunct1]
  getClient_same [THEN conjunct2, THEN conjunct2, THEN conjunct2, THEN conjunct1]
  getClient_same [THEN conjunct2, THEN conjunct2, THEN conjunct2, THEN conjunct2, THEN conjunct1]
  getClient_same [THEN conjunct2, THEN conjunct2, THEN conjunct2, THEN conjunct2, THEN conjunct2]

lemma inv_getClient:
  assumes inv: "fe_inv p"
  shows "fe_inv (fst (getClient i p))"
proof (rule getClient_cases [of i p])
  assume "fst (getClient i p) = p"
  with inv show ?thesis by simp
next
  fix c
  let ?q = "fst (getClient i p)"
  assume c: "p_clients p i = None" "newClientState p = Inr c" "c_addr c = None" "c_authed c = None"
    "?q = p\<lparr>p_clients := (p_clients p)(i \<mapsto> c)\<rparr>"
  have ok: "usable p j \<Longrightarrow> usable ?q j" for j using c by (auto simp: usable_def)
  have maps: "f_clientMap ?q = f_clientMap p" "f_authedMap ?q = f_authedMap p" using c(5) by simp_all
  from view_ok [OF inv [unfolded fe_inv_view] ok] show ?thesis
    unfolding fe_inv_view getClient_views maps .
qed

section \<open>One packet\<close>

definition cached :: "('a, 'k, 's) serverProxy \<Rightarrow> u64 option \<Rightarrow> ('a, 'k, 's) serverProxy" where
  "cached p x = p\<lparr>f_cache := x\<rparr>"

text \<open>An accepted authentication: the client, its serial number and the new pending address.\<close>

definition accept_auth :: "u64 \<Rightarrow> u64 \<Rightarrow> 'a \<Rightarrow> ('a, 'k, 's) serverProxy \<Rightarrow> ('a, 'k, 's) serverProxy" where
  "accept_auth i n a p =
     setAuthedAddr i None (Some a) (upd_client i (\<lambda>c. c\<lparr>c_serial := n\<rparr>)
       (upd_client i (\<lambda>c. c\<lparr>c_front := True\<rparr>) (fst (getClient i p))))"

inductive read_case ::
  "('k, 's, 'p) prims \<Rightarrow> bytes \<Rightarrow> 'a \<Rightarrow> bytes \<Rightarrow> ('a, 'k, 's) serverProxy \<Rightarrow> ('a, 'k, 's) serverProxy \<Rightarrow> 'a fe_out list \<Rightarrow> bool"
  for P nonce a buf p where
    effective: "has_addr c_addr a i p \<Longrightarrow> read_case P nonce a buf p (cached p x) (deliver i buf)"
  | promoted: "has_addr c_authed a i p \<Longrightarrow> openAuthPacket P buf p = None \<Longrightarrow>
      read_case P nonce a buf p (setAuthedAddr i None None (setClientAddr i None (Some a) (cached p x)))
        (NewClientConn i # deliver i buf)"
  | mismatch: "has_addr c_authed a i p \<Longrightarrow> read_case P nonce a buf p (setAuthedAddr i None None (cached p x)) []"
  | ignored: "read_case P nonce a buf p (cached p x) []"
  | repeated: "has_addr c_authed a i p \<Longrightarrow> openAuthPacket P buf p = Some (i, n) \<Longrightarrow> ser p i \<le> n \<Longrightarrow>
      read_case P nonce a buf p (upd_client i (\<lambda>c. c\<lparr>c_serial := n\<rparr>) (cached p x))
        [Reply a (sealAuthPacket P nonce n p)]"
  | created: "(\<forall>j. \<not> has_addr c_addr a j p \<and> \<not> has_addr c_authed a j p) \<Longrightarrow>
      read_case P nonce a buf p (fst (getClient i (cached p x))) []"
  | rejected: "(\<forall>j. \<not> has_addr c_addr a j p \<and> \<not> has_addr c_authed a j p) \<Longrightarrow>
      read_case P nonce a buf p (upd_client i (\<lambda>c. c\<lparr>c_front := True\<rparr>) (fst (getClient i (cached p x)))) []"
  | accepted: "(\<forall>j. \<not> has_addr c_addr a j p \<and> \<not> has_addr c_authed a j p) \<Longrightarrow>
      openAuthPacket P buf p = Some (i, n) \<Longrightarrow> ser p i < n \<Longrightarrow> \<not> shut p i \<Longrightarrow>
      snd (getClient i (cached p x)) \<noteq> None \<Longrightarrow>
      read_case P nonce a buf p (accept_auth i n a (cached p x)) [Reply a (sealAuthPacket P nonce n p)]"

lemma cached_simps [simp]:
  "p_clients (cached p x) = p_clients p" "p_Attachable (cached p x) = p_Attachable p"
  "p_clientID (cached p x) = p_clientID p" "f_clientMap (cached p x) = f_clientMap p"
  "f_authedMap (cached p x) = f_authedMap p" "p_serverID (cached p x) = p_serverID p"
  "p_cipher (cached p x) = p_cipher p"
  by (simp_all add: cached_def)

lemma openAuth_cached [simp]: "openAuthPacket P buf (cached p x) = openAuthPacket P buf p"
  by (cases "aesDecrypt P (p_cipher p) buf") (simp_all add: openAuthPacket_def)

lemma cached_views [simp]:
  "addr_of f (cached p x) = addr_of f p" "has_addr f a i (cached p x) \<longleftrightarrow> has_addr f a i p"
  "ser (cached p x) = ser p" "shut (cached p x) = shut p" "usable (cached p x) = usable p"
  "sealAuthPacket P nonce n (cached p x) = sealAuthPacket P nonce n p"
  by (simp_all add: fun_eq_iff addr_of_def has_addr_def ser_def shut_def usable_def sealAuthPacket_def)

lemma fe_inv_cached [simp]: "fe_inv (cached p x) \<longleftrightarrow> fe_inv p"
  by (simp add: fe_inv_view)

lemma getClient_new:
  assumes "getClient i p = (q, Some c)"
  shows "c_serial c = ser p i" "c_closed c = shut p i" "p_clients q i = Some c"
    "sealAuthPacket P nonce n (upd_client i f q) = sealAuthPacket P nonce n p"
  using assms
  by (auto simp: getClient_def ser_def shut_def newClientState_def Let_def sealAuthPacket_def upd_client_def
      split: option.splits sum.splits if_splits)

lemma read_unknown_case:
  assumes "\<forall>j. \<not> has_addr c_addr a j p \<and> \<not> has_addr c_authed a j p"
    and step: "read_unknown P nonce a buf (cached p x) = (q, outs)"
  shows "read_case P nonce a buf p q outs"
proof (cases "openAuthPacket P buf p")
  case None
  with step show ?thesis by (auto simp: read_unknown_def intro: read_case.ignored)
next
  case (Some y)
  obtain i n where y: "y = (i, n)" by (metis surj_pair)
  obtain p1 r where g: "getClient i (cached p x) = (p1, r)" by (metis surj_pair)
  show ?thesis
  proof (cases r)
    case None
    with step Some y g have "q = fst (getClient i (cached p x))" "outs = []" by (simp_all add: read_unknown_def)
    with assms(1) show ?thesis by (simp add: read_case.created)
  next
    case (Some c)
    note g1 = getClient_new(1-3) [OF g [unfolded Some]] getClient_new(4) [OF g [unfolded Some], of P nonce n]
    let ?p2 = "upd_client i (\<lambda>c. c\<lparr>c_front := True\<rparr>) p1"
    have unf: "read_unknown P nonce a buf (cached p x) =
        (if shut p i then (p1, []) else if n \<le> ser p i then (?p2, [])
         else (accept_auth i n a (cached p x), [Reply a (sealAuthPacket P nonce n p)]))"
      using \<open>openAuthPacket P buf p = Some y\<close> g Some y g1
      by (simp add: read_unknown_def Let_def accept_auth_def)
    consider "shut p i" | "\<not> shut p i" "n \<le> ser p i" | "\<not> shut p i" "ser p i < n"
      by (meson not_le)
    then show ?thesis
    proof cases
      case 1
      with step unf g read_case.created [OF assms(1), of P nonce buf i x] show ?thesis by simp
    next
      case 2
      with step unf g read_case.rejected [OF assms(1), of P nonce buf i x] show ?thesis by simp
    next
      case 3
      then have "\<not> n \<le> ser p i" by (simp only: not_le)
      with 3 step unf g Some y \<open>openAuthPacket P buf p = Some y\<close>
        read_case.accepted [OF assms(1), of P buf i n x nonce] show ?thesis
        by simp
    qed
  qed
qed

lemma read_authed_case:
  assumes own: "has_addr c_authed a i p" and step: "read_authed P nonce a buf i (cached p x) = (q, outs)"
  shows "read_case P nonce a buf p q outs"
proof (cases "openAuthPacket P buf p")
  case None
  have "addr_of c_authed p i = Some a" using own by (simp add: has_addr_def)
  with None step read_case.promoted [OF own None, of nonce x] show ?thesis by (simp add: read_authed_def)
next
  case (Some y)
  obtain j n where y: "y = (j, n)" by (metis surj_pair)
  obtain c where c: "p_clients p i = Some c"
    using own by (cases "p_clients p i") (simp_all add: has_addr_def addr_of_def)
  show ?thesis
  proof (cases "j = i")
    case False
    with Some y step read_case.mismatch [OF own, of P nonce buf x] show ?thesis by (simp add: read_authed_def)
  next
    case True
    show ?thesis
    proof (cases "n < c_serial c")
      case True
      with \<open>j = i\<close> Some y c step read_case.ignored [of P nonce a buf p x] show ?thesis by (simp add: read_authed_def)
    next
      case False
      with \<open>j = i\<close> Some y c step read_case.repeated [OF own, of P buf n nonce x] show ?thesis
        by (simp add: read_authed_def ser_def not_less)
    qed
  qed
qed

lemma read_step_case:
  assumes inv: "fe_inv p" and step: "read_step P nonce a buf p = (q, outs)"
  shows "read_case P nonce a buf p q outs"
proof -
  obtain p1 r where g: "front_getClient a p = (p1, r)" by (metis surj_pair)
  with front_getClient_spec [OF inv, of a] obtain x where p1: "p1 = cached p x"
    by (auto simp: cached_def)
  have spec: "r = Some (i, True) \<longleftrightarrow> has_addr c_addr a i p" "r = Some (i, False) \<longleftrightarrow> has_addr c_authed a i p" for i
    using front_getClient_spec [OF inv, of a i] g by simp_all
  consider i where "r = Some (i, True)" | i where "r = Some (i, False)" | "r = None"
    by (cases r) auto
  then show ?thesis
  proof cases
    case 1
    with spec g p1 step read_case.effective [of a _ p P nonce buf x] show ?thesis
      by (auto simp: read_step_def)
  next
    case (2 i)
    with spec(2) [of i] g p1 step have "read_authed P nonce a buf i (cached p x) = (q, outs)" "has_addr c_authed a i p"
      by (simp_all add: read_step_def)
    then show ?thesis by (metis read_authed_case)
  next
    case 3
    with spec g p1 step have "read_unknown P nonce a buf (cached p x) = (q, outs)"
      and "\<forall>j. \<not> has_addr c_addr a j p \<and> \<not> has_addr c_authed a j p"
      by (simp_all add: read_step_def)
    then show ?thesis by (metis read_unknown_case)
  qed
qed

section \<open>Runs of the front end\<close>

text \<open>
  The goroutines around the front end: its reader, the transport that writes, the closing of clients,
  the timeout callback and the binding of clients to servers. \<open>r_conn\<close> is whether the connection was
  chosen (there is one, or \<open>probeAuth\<close> found it). The logs have the authentications
  that were accepted, with the address they came from, and the packets that were handed over.
\<close>

datatype 'a px_act =
    Recv bytes 'a bytes
  | Probe 'a bytes
  | Write bytes u64
  | CloseClient u64
  | Cleanup u64 "'a option" "'a option" "nat option"
  | Bind u64
  | SetServer u64 bool

record ('a, 'k, 's) px_run =
  r_proxy :: "('a, 'k, 's) serverProxy"
  r_conn :: bool
  r_auths :: "(u64 \<times> 'a \<times> u64) list"
  r_dels :: "(u64 \<times> 'a) list"

definition is_reply :: "'a fe_out \<Rightarrow> bool" where
  "is_reply x = (case x of Reply _ _ \<Rightarrow> True | _ \<Rightarrow> False)"

definition delivered :: "'a fe_out list \<Rightarrow> u64 list" where
  "delivered outs = concat (map (\<lambda>x. case x of Deliver i _ \<Rightarrow> [i] | _ \<Rightarrow> []) outs)"

definition px_exec :: "('k, 's, 'p) prims \<Rightarrow> 'a px_act \<Rightarrow> ('a, 'k, 's) px_run \<Rightarrow> ('a, 'k, 's) px_run option" where
  "px_exec P act s =
     (let p = r_proxy s
      in case act of
        Recv nonce a buf \<Rightarrow>
          if r_conn s then
            (case read_step P nonce a buf p of (q, outs) \<Rightarrow>
               Some (s\<lparr>r_proxy := q,
                 r_auths := (case openAuthPacket P buf p of
                     Some (i, n) \<Rightarrow> if list_ex is_reply outs then (i, a, n) # r_auths s else r_auths s
                   | None \<Rightarrow> r_auths s),
                 r_dels := map (\<lambda>i. (i, a)) (delivered outs) @ r_dels s\<rparr>))
          else None
      | Probe a buf \<Rightarrow>
          if r_conn s then None
          else (case openAuthPacket P buf p of
              None \<Rightarrow> None
            | Some (i, n) \<Rightarrow> Some (s\<lparr>r_proxy := initConn (Some (a, i, n)) p, r_conn := True,
                r_auths := (if has_addr c_authed a i (initConn (Some (a, i, n)) p)
                            then (i, a, n) # r_auths s else r_auths s)\<rparr>))
      | Write buf i \<Rightarrow> Some (s\<lparr>r_proxy := fst (proxy_WriteTo P buf i p)\<rparr>)
      | CloseClient i \<Rightarrow> Some (s\<lparr>r_proxy := client_Close i p\<rparr>)
      | Cleanup i oldAuthed oldAddr oldConn \<Rightarrow> Some (s\<lparr>r_proxy := timeoutCleanup i oldAuthed oldAddr oldConn p\<rparr>)
      | Bind i \<Rightarrow> Some (s\<lparr>r_proxy := fst (seal_client i p)\<rparr>)
      | SetServer i x \<Rightarrow> Some (s\<lparr>r_proxy := upd_client i (\<lambda>c. c\<lparr>c_server := x\<rparr>) p\<rparr>))"

text \<open>A change that gives no client a new address and takes no serial number back.\<close>

definition quiet :: "('a, 'k, 's) serverProxy \<Rightarrow> ('a, 'k, 's) serverProxy \<Rightarrow> bool" where
  "quiet p q \<longleftrightarrow>
     (fe_inv p \<longrightarrow> fe_inv q) \<and> (\<forall>i. ser p i \<le> ser q i) \<and> (\<forall>i. shut p i \<longrightarrow> shut q i)
   \<and> (\<forall>a i. has_addr c_addr a i q \<or> has_addr c_authed a i q \<longrightarrow> has_addr c_addr a i p \<or> has_addr c_authed a i p)"

lemma quiet_refl [simp]: "quiet p p"
  by (simp add: quiet_def)

lemma quiet_trans: "quiet p q \<Longrightarrow> quiet q r \<Longrightarrow> quiet p r"
  unfolding quiet_def by (meson order_trans)

lemma quiet_cached [simp]: "quiet p (cached p x)"
  by (simp add: quiet_def)

lemma views_upd:
  assumes "p_clients p i = Some c" "p_clients q = (p_clients p)(i \<mapsto> c')"
  shows "ser q = (ser p)(i := c_serial c')" "shut q = (shut p)(i := c_closed c')"
    "has_addr f a j q \<longleftrightarrow> (if j = i then f c' = Some a else has_addr f a j p)"
  using assms by (auto simp: fun_eq_iff ser_def shut_def has_addr_def addr_of_def)

lemma views_same:
  assumes "p_clients p i = Some c"
  shows "ser p i = c_serial c" "shut p i = c_closed c" "has_addr f a i p \<longleftrightarrow> f c = Some a"
  using assms by (simp_all add: ser_def shut_def has_addr_def addr_of_def)

lemma quiet_setClientAddr [simp]: "quiet p (setClientAddr i old None p)"
proof (cases "p_clients p i")
  case None
  then show ?thesis by (simp add: set_noop)
next
  case (Some c)
  note v = views_upd [OF Some setClientAddr_eff(1) [OF Some, of old None]] views_same [OF Some]
  show ?thesis
    using inv_setClientAddr_None unfolding quiet_def by (auto simp: v split: if_splits)
qed

lemma quiet_setAuthedAddr [simp]: "quiet p (setAuthedAddr i old None p)"
proof (cases "p_clients p i")
  case None
  then show ?thesis by (simp add: set_noop)
next
  case (Some c)
  note v = views_upd [OF Some setAuthedAddr_eff(1) [OF Some, of old None]] views_same [OF Some]
  show ?thesis
    using inv_setAuthedAddr_None unfolding quiet_def by (auto simp: v split: if_splits)
qed

lemma quiet_upd_client:
  assumes "\<And>c. c_addr (f c) = c_addr c" "\<And>c. c_authed (f c) = c_authed c" "\<And>c. c_closed (f c) = c_closed c"
    "\<And>c. c_front c \<Longrightarrow> c_front (f c)" "\<And>c. p_clients p i = Some c \<Longrightarrow> c_serial c \<le> c_serial (f c)"
  shows "quiet p (upd_client i f p)"
proof (cases "p_clients p i")
  case None
  then show ?thesis by (simp add: set_noop)
next
  case (Some c)
  then have "p_clients (upd_client i f p) = (p_clients p)(i \<mapsto> f c)" by (simp add: upd_client_def)
  note v = views_upd [OF Some this] views_same [OF Some]
  show ?thesis
    using assms(5) [OF Some] inv_upd_client [OF _ assms(1-4)] unfolding quiet_def by (auto simp: v assms(1-3) split: if_splits)
qed

lemma quiet_getClient [simp]: "quiet p (fst (getClient i p))"
  using inv_getClient unfolding quiet_def by (auto simp: has_addr_def getClient_views)

lemma quiet_promote:
  assumes "has_addr c_authed a i p"
  shows "quiet p (setAuthedAddr i None None (setClientAddr i None (Some a) p))"
proof -
  obtain c where c: "p_clients p i = Some c" "c_authed c = Some a"
    using assms by (cases "p_clients p i") (simp_all add: has_addr_def addr_of_def)
  let ?p = "setClientAddr i None (Some a) p"
  note v1 = views_upd [OF c(1) setClientAddr_eff(1) [OF c(1), of None "Some a"]] views_same [OF c(1)]
  have c1: "p_clients ?p i = Some (c\<lparr>c_addr := Some a\<rparr>)" by (simp add: setClientAddr_eff(1) [OF c(1)])
  note v2 = views_upd [OF c1 setAuthedAddr_eff(1) [OF c1, of None None]]
  have "fe_inv p \<longrightarrow> fe_inv (setAuthedAddr i None None ?p)"
    using inv_promote [of p i a] assms by (simp add: has_addr_def)
  then show ?thesis unfolding quiet_def using c(2) by (auto simp: v1 v2 split: if_splits)
qed

lemma inv_upd_idle:
  assumes inv: "fe_inv p" and c: "p_clients p i = Some c" "c_addr c = None" "c_authed c = None"
    "c_addr (f c) = None" "c_authed (f c) = None"
  shows "fe_inv (upd_client i f p)"
proof -
  have cl: "p_clients (upd_client i f p) = (p_clients p)(i \<mapsto> f c)" using c by (simp add: upd_client_def)
  have A: "addr_of c_addr (upd_client i f p) = addr_of c_addr p" "addr_of c_authed (upd_client i f p) = addr_of c_authed p"
    using addr_of_upd [OF cl] addr_of_client [OF c(1)] c by (auto simp: fun_upd_idem)
  have ok: "j \<noteq> i \<Longrightarrow> usable (upd_client i f p) j \<longleftrightarrow> usable p j" for j
    by (simp add: usable_def cl)
  have none: "addr_of c_addr p i = None" "addr_of c_authed p i = None" using addr_of_client [OF c(1)] c by simp_all
  have same: "p_Attachable (upd_client i f p) = p_Attachable p" "p_clientID (upd_client i f p) = p_clientID p"
      "f_clientMap (upd_client i f p) = f_clientMap p" "f_authedMap (upd_client i f p) = f_authedMap p"
    using c by (simp_all add: upd_client_def)
  show ?thesis
    using inv ok none unfolding fe_inv_view A same fe_view_def by metis
qed

definition shut_down :: "('a, 'k, 's) clientState \<Rightarrow> ('a, 'k, 's) clientState" where
  "shut_down c = c\<lparr>c_closed := True, c_cond := False, c_server := False, c_crypto := None, c_conn := None, c_front := False\<rparr>"

lemma setClientAddr_commute:
  assumes "\<And>c x. f (c\<lparr>c_addr := x\<rparr>) = (f c)\<lparr>c_addr := x\<rparr>" "\<And>c. c_addr (f c) = c_addr c" "\<And>c. c_front (f c) = c_front c"
  shows "setClientAddr i old None (upd_client i f p) = upd_client i f (setClientAddr i old None p)"
  by (cases "p_clients p i")
    (simp_all add: upd_client_def setClientAddr_def assms Let_def delClientMap_def split: option.split prod.split)

lemma setAuthedAddr_commute:
  assumes "\<And>c x. f (c\<lparr>c_authed := x\<rparr>) = (f c)\<lparr>c_authed := x\<rparr>" "\<And>c. c_authed (f c) = c_authed c" "\<And>c. c_front (f c) = c_front c"
  shows "setAuthedAddr i old None (upd_client i f p) = upd_client i f (setAuthedAddr i old None p)"
  by (cases "p_clients p i")
    (simp_all add: upd_client_def setAuthedAddr_def assms Let_def delAuthedMap_def split: option.split prod.split)

lemma upd_upd: "upd_client i g (upd_client i f p) = upd_client i (\<lambda>c. g (f c)) p"
  by (simp add: upd_client_def split: option.split)

lemma client_Close_alt:
  assumes "p_clients p i = Some c" "\<not> c_closed c"
  shows "client_Close i p = upd_client i shut_down (setAuthedAddr i None None (setClientAddr i None None p))"
  using assms
  by (simp add: client_Close_def Let_def setClientConn_def setClientAddr_commute setAuthedAddr_commute upd_upd shut_down_def [abs_def])

lemma quiet_Close [simp]: "quiet p (client_Close i p)"
proof (cases "\<exists>c. p_clients p i = Some c \<and> \<not> c_closed c")
  case True
  then obtain c where c: "p_clients p i = Some c" "\<not> c_closed c" by blast
  let ?p = "setAuthedAddr i None None (setClientAddr i None None p)"
  have q: "quiet p ?p" by (rule quiet_trans [OF quiet_setClientAddr quiet_setAuthedAddr])
  have c1: "p_clients (setClientAddr i None None p) i = Some (c\<lparr>c_addr := None\<rparr>)"
    by (simp add: setClientAddr_eff(1) [OF c(1)])
  have c2: "p_clients ?p i = Some (c\<lparr>c_addr := None, c_authed := None\<rparr>)"
    by (simp add: setAuthedAddr_eff(1) [OF c1])
  have cl: "p_clients (upd_client i shut_down ?p) = (p_clients ?p)(i \<mapsto> shut_down (c\<lparr>c_addr := None, c_authed := None\<rparr>))"
    using c2 by (simp add: upd_client_def)
  note v = views_upd [OF c2 cl] views_same [OF c2]
  have "quiet ?p (upd_client i shut_down ?p)"
    using inv_upd_idle [OF _ c2, of shut_down] unfolding quiet_def by (auto simp: v shut_down_def split: if_splits)
  with q show ?thesis unfolding client_Close_alt [OF c] by (rule quiet_trans)
next
  case False
  then have "client_Close i p = p" by (cases "p_clients p i") (simp_all add: client_Close_def)
  then show ?thesis by simp
qed

lemma Close_shuts: "p_clients p i \<noteq> None \<Longrightarrow> shut (client_Close i p) i"
proof -
  assume "p_clients p i \<noteq> None"
  then obtain c where c: "p_clients p i = Some c" by blast
  show ?thesis
  proof (cases "c_closed c")
    case True
    with c show ?thesis by (simp add: client_Close_def shut_def)
  next
    case False
    have "p_clients (setClientAddr i None None p) i = Some (c\<lparr>c_addr := None\<rparr>)"
      by (simp add: setClientAddr_eff(1) [OF c])
    from setAuthedAddr_eff(1) [OF this] show ?thesis
      unfolding client_Close_alt [OF c False] by (simp add: shut_def upd_client_def shut_down_def)
  qed
qed

lemma quiet_timeoutCleanup [simp]: "quiet p (timeoutCleanup i oa oc ocn p)"
  unfolding timeoutCleanup_def
  by (rule quiet_trans [OF quiet_trans [OF quiet_setAuthedAddr quiet_setClientAddr] quiet_upd_client])
    (simp_all add: setClientConn_def split: prod.split)

lemma quiet_WriteTo [simp]: "quiet p (fst (proxy_WriteTo P buf i p))"
proof -
  have u: "quiet (fst (getClient i p)) (upd_client i (\<lambda>c. c\<lparr>c_crypto := x\<rparr>) (fst (getClient i p)))" for x
    by (rule quiet_upd_client) simp_all
  obtain p1 r where g: "getClient i p = (p1, r)" by (metis surj_pair)
  have "fst (proxy_WriteTo P buf i p) = p1
      \<or> (\<exists>x. fst (proxy_WriteTo P buf i p) = upd_client i (\<lambda>c. c\<lparr>c_crypto := x\<rparr>) p1)"
  proof (cases "\<exists>c cr. r = Some c \<and> c_crypto c = Some cr")
    case True
    then obtain c cr where c: "r = Some c" "c_crypto c = Some cr" by blast
    obtain cr' b out where o: "sealPacket P buf cr = ((cr', b), out)" by (rule pair3_exhaust)
    have "fst (proxy_WriteTo P buf i p) = upd_client i (\<lambda>c. c\<lparr>c_crypto := Some cr'\<rparr>) p1"
      using g c o by (simp add: proxy_WriteTo_def split: sum.split)
    then show ?thesis by blast
  next
    case False
    with g have "fst (proxy_WriteTo P buf i p) = p1"
      by (cases r) (auto simp: proxy_WriteTo_def split: option.split sum.split)
    then show ?thesis by blast
  qed
  then show ?thesis using quiet_trans [OF quiet_getClient u] quiet_getClient [of p i] g by auto
qed

lemma quiet_seal_client [simp]: "quiet p (fst (seal_client i p))"
proof -
  have u: "quiet (fst (getClient i p)) (upd_client i (\<lambda>c. c\<lparr>c_sealed := True\<rparr>) (fst (getClient i p)))"
    by (rule quiet_upd_client) simp_all
  have "fst (seal_client i p) = fst (getClient i p)
      \<or> fst (seal_client i p) = upd_client i (\<lambda>c. c\<lparr>c_sealed := True\<rparr>) (fst (getClient i p))"
    by (auto simp: seal_client_def split: prod.splits option.splits if_splits)
  then show ?thesis using quiet_trans [OF quiet_getClient u] by auto
qed

text \<open>An accepted authentication adds the one address it came from.\<close>

lemma accept_auth_effect:
  assumes inv: "fe_inv p" and new: "\<forall>j. \<not> has_addr c_addr a j p \<and> \<not> has_addr c_authed a j p"
    and i: "p_Attachable p \<or> i = p_clientID p" and "\<not> shut p i" "snd (getClient i p) \<noteq> None"
  shows "fe_inv (accept_auth i n a p)" "ser (accept_auth i n a p) = (ser p)(i := n)" "shut (accept_auth i n a p) = shut p"
    "has_addr c_addr b j (accept_auth i n a p) \<longleftrightarrow> has_addr c_addr b j p"
    "has_addr c_authed b j (accept_auth i n a p) \<longleftrightarrow> (if j = i then b = a else has_addr c_authed b j p)"
    "has_addr c_authed a i (accept_auth i n a p)"
proof -
  let ?p1 = "fst (getClient i p)"
  let ?p2 = "upd_client i (\<lambda>c. c\<lparr>c_serial := n\<rparr>) (upd_client i (\<lambda>c. c\<lparr>c_front := True\<rparr>) ?p1)"
  obtain q c where g: "getClient i p = (q, Some c)" using assms(5) by (metis not_None_eq prod.collapse)
  note g1 = getClient_new(1-3) [OF g]
  have c1: "p_clients ?p1 i = Some c" using g g1(3) by simp
  have cl: "p_clients ?p2 = (p_clients ?p1)(i \<mapsto> c\<lparr>c_front := True, c_serial := n\<rparr>)"
    using c1 by (simp add: upd_client_def)
  then have c2: "p_clients ?p2 i = Some (c\<lparr>c_front := True, c_serial := n\<rparr>)" by simp
  have inv2: "fe_inv ?p2"
    by (intro inv_upd_client inv_getClient inv) simp_all
  have same: "p_Attachable ?p2 = p_Attachable p" "p_clientID ?p2 = p_clientID p"
    using c1 by (simp_all add: upd_client_def getClient_views)
  have v1: "has_addr f b j ?p1 \<longleftrightarrow> has_addr f b j p" if "f = c_addr \<or> f = c_authed" for f b j
    using that by (auto simp: has_addr_def getClient_views)
  have v2: "has_addr f b j ?p2 \<longleftrightarrow> has_addr f b j p" if "f = c_addr \<or> f = c_authed" for f b j
    using that views_upd(3) [OF c1 cl, of f b j] views_same(3) [OF c1, of f b] v1 [OF that, of b j] by (cases "j = i") auto
  have new2: "\<forall>j. \<not> has_addr c_addr a j ?p2 \<and> \<not> has_addr c_authed a j ?p2"
    using new by (simp add: v2)
  note eff = setAuthedAddr_eff(1) [OF c2, of None "Some a"]
  note v3 = views_upd [OF c2 eff]
  show "fe_inv (accept_auth i n a p)"
    unfolding accept_auth_def using inv_set_authed [OF inv2 c2 _ _ new2] i same g1(2) assms(4) by simp
  show "ser (accept_auth i n a p) = (ser p)(i := n)" "shut (accept_auth i n a p) = shut p"
    unfolding accept_auth_def using g1(2) by (simp_all add: v3 views_upd(1,2) [OF c1 cl] getClient_views fun_eq_iff)
  show "has_addr c_addr b j (accept_auth i n a p) \<longleftrightarrow> has_addr c_addr b j p"
    "has_addr c_authed b j (accept_auth i n a p) \<longleftrightarrow> (if j = i then b = a else has_addr c_authed b j p)"
    "has_addr c_authed a i (accept_auth i n a p)"
    unfolding accept_auth_def using v2 [of c_addr b j] v2 [of c_authed b j] views_same(3) [OF c2, of c_addr b]
    by (auto simp: v3)
qed

lemma addr_open: "fe_inv p \<Longrightarrow> has_addr c_addr a i p \<or> has_addr c_authed a i p \<Longrightarrow> \<not> shut p i"
proof -
  assume "fe_inv p" and a: "has_addr c_addr a i p \<or> has_addr c_authed a i p"
  then have "usable p i"
    unfolding fe_inv_view fe_view_def has_addr_def by (metis option.distinct(1))
  then show ?thesis by (simp add: usable_def shut_def split: option.split_asm)
qed

definition px_inv :: "('a, 'k, 's) px_run \<Rightarrow> bool" where
  "px_inv s \<longleftrightarrow>
     fe_inv (r_proxy s)
   \<and> (\<forall>i a. has_addr c_addr a i (r_proxy s) \<or> has_addr c_authed a i (r_proxy s) \<longrightarrow> (\<exists>n. (i, a, n) \<in> set (r_auths s)))
   \<and> (\<forall>i a n. (i, a, n) \<in> set (r_auths s) \<longrightarrow> n \<le> ser (r_proxy s) i)
   \<and> (\<forall>i a. (i, a) \<in> set (r_dels s) \<longrightarrow> (\<exists>n. (i, a, n) \<in> set (r_auths s)))
   \<and> (\<not> r_conn s \<longrightarrow> (\<forall>i a. \<not> has_addr c_addr a i (r_proxy s) \<and> \<not> has_addr c_authed a i (r_proxy s)))"

text \<open>What one step may do to the logs and the serial numbers.\<close>

definition px_rel :: "('a, 'k, 's) px_run \<Rightarrow> ('a, 'k, 's) px_run \<Rightarrow> bool" where
  "px_rel s t \<longleftrightarrow>
     (\<exists>xs. r_auths t = xs @ r_auths s)
   \<and> (\<exists>ys. r_dels t = ys @ r_dels s \<and> (\<forall>i a. (i, a) \<in> set ys \<longrightarrow> \<not> shut (r_proxy s) i))
   \<and> (\<forall>i. ser (r_proxy s) i \<le> ser (r_proxy t) i) \<and> (\<forall>i. shut (r_proxy s) i \<longrightarrow> shut (r_proxy t) i)"

lemma px_rel_refl: "px_rel s s"
  by (simp add: px_rel_def)

lemma px_rel_trans:
  assumes st: "px_rel s t" and tu: "px_rel t u"
  shows "px_rel s u"
proof -
  from st tu obtain xs xs' ys ys' where
    x: "r_auths t = xs @ r_auths s" "r_auths u = xs' @ r_auths t" and
    y: "r_dels t = ys @ r_dels s" "\<forall>i a. (i, a) \<in> set ys \<longrightarrow> \<not> shut (r_proxy s) i"
       "r_dels u = ys' @ r_dels t" "\<forall>i a. (i, a) \<in> set ys' \<longrightarrow> \<not> shut (r_proxy t) i"
    unfolding px_rel_def by blast
  have m: "ser (r_proxy s) i \<le> ser (r_proxy u) i" "shut (r_proxy s) i \<longrightarrow> shut (r_proxy t) i"
      "shut (r_proxy s) i \<longrightarrow> shut (r_proxy u) i" for i
    using st tu order_trans unfolding px_rel_def by blast+
  have "r_auths u = (xs' @ xs) @ r_auths s" "r_dels u = (ys' @ ys) @ r_dels s" using x y by simp_all
  moreover have "\<forall>i a. (i, a) \<in> set (ys' @ ys) \<longrightarrow> \<not> shut (r_proxy s) i" using y(2,4) m(2) by auto
  ultimately show ?thesis using m(1,3) unfolding px_rel_def by blast
qed

lemma quiet_step:
  assumes inv: "px_inv s" and q: "quiet (r_proxy s) q"
  shows "px_inv (s\<lparr>r_proxy := q\<rparr>)" "px_rel s (s\<lparr>r_proxy := q\<rparr>)"
proof -
  show "px_inv (s\<lparr>r_proxy := q\<rparr>)"
    using inv q unfolding px_inv_def quiet_def by simp (meson order_trans)
  show "px_rel s (s\<lparr>r_proxy := q\<rparr>)"
    using q unfolding px_rel_def quiet_def by simp
qed

lemma quiet_log:
  assumes inv: "px_inv s" and q: "quiet (r_proxy s) q"
    and au: "\<forall>x \<in> set xs. \<exists>i a n. x = (i, a, n) \<and> n \<le> ser q i"
    and de: "\<forall>y \<in> set ys. has_addr c_addr (snd y) (fst y) (r_proxy s) \<or> has_addr c_authed (snd y) (fst y) (r_proxy s)"
  shows "px_inv (s\<lparr>r_proxy := q, r_auths := xs @ r_auths s, r_dels := ys @ r_dels s\<rparr>)"
    "px_rel s (s\<lparr>r_proxy := q, r_auths := xs @ r_auths s, r_dels := ys @ r_dels s\<rparr>)"
proof -
  note q' = quiet_step [OF inv q]
  have de': "\<forall>y \<in> set ys. \<exists>n. (fst y, snd y, n) \<in> set (r_auths s)"
    using de inv unfolding px_inv_def by blast
  have au': "(i, a, n) \<in> set xs \<Longrightarrow> n \<le> ser q i" for i a n using au by fastforce
  show "px_inv (s\<lparr>r_proxy := q, r_auths := xs @ r_auths s, r_dels := ys @ r_dels s\<rparr>)"
    using q'(1) de' au' unfolding px_inv_def by simp fastforce
  have "\<not> shut (r_proxy s) i" if "(i, a) \<in> set ys" for i a
    using addr_open [of "r_proxy s" a i] de that inv unfolding px_inv_def by fastforce
  with q'(2) show "px_rel s (s\<lparr>r_proxy := q, r_auths := xs @ r_auths s, r_dels := ys @ r_dels s\<rparr>)"
    unfolding px_rel_def by simp blast
qed

lemma accept_log:
  assumes inv: "px_inv s" and new: "\<forall>j. \<not> has_addr c_addr a j (r_proxy s) \<and> \<not> has_addr c_authed a j (r_proxy s)"
    and ok: "p_Attachable (r_proxy s) \<or> i = p_clientID (r_proxy s)" "\<not> shut (r_proxy s) i" "ser (r_proxy s) i < n"
    and g: "snd (getClient i (cached (r_proxy s) x)) \<noteq> None"
    and t: "t = s\<lparr>r_proxy := accept_auth i n a (cached (r_proxy s) x), r_auths := (i, a, n) # r_auths s\<rparr>" "r_conn t"
  shows "px_inv t \<and> px_rel s t"
proof -
  let ?p = "cached (r_proxy s) x"
  have "fe_inv ?p" using inv by (simp add: px_inv_def)
  note e = accept_auth_effect [OF this, of a i, unfolded cached_views cached_simps, OF new ok(1,2) g, where n = n]
  have "px_inv t"
    using inv ok(3) e t(2) unfolding px_inv_def t(1) by simp (metis (no_types, lifting) less_imp_le order_trans)
  moreover have "px_rel s t"
    using ok(3) e unfolding px_rel_def t(1) by (simp add: less_imp_le)
  ultimately show ?thesis by simp
qed

lemma delivered_simps [simp]:
  "delivered [] = []" "delivered [Reply a b] = []" "delivered (NewClientConn i # outs) = delivered outs"
  "delivered (deliver i buf) = (if length buf \<le> kSafeToDropPacketLen then [] else [i])"
  "list_ex is_reply (deliver i buf) = False"
  by (simp_all add: delivered_def deliver_def is_reply_def)

lemma openAuth_own: "openAuthPacket P buf p = Some (i, n) \<Longrightarrow> p_Attachable p \<or> i = p_clientID p"
  by (auto simp: openAuthPacket_def Let_def split: option.splits if_splits)

lemma recv_step:
  assumes inv: "px_inv s" and step: "px_exec P (Recv nonce a buf) s = Some t"
  shows "px_inv t \<and> px_rel s t"
proof -
  let ?p = "r_proxy s"
  obtain q outs where rs: "read_step P nonce a buf ?p = (q, outs)" by (metis surj_pair)
  have fe: "fe_inv ?p" using inv by (simp add: px_inv_def)
  define xs where "xs = (case openAuthPacket P buf ?p of
      Some (i, n) \<Rightarrow> if list_ex is_reply outs then [(i, a, n)] else [] | None \<Rightarrow> [])"
  define ys where "ys = map (\<lambda>i. (i, a)) (delivered outs)"
  have conn: "r_conn s" using step by (simp add: px_exec_def Let_def split: if_split_asm)
  have au: "(case openAuthPacket P buf ?p of
      Some (i, n) \<Rightarrow> if list_ex is_reply outs then (i, a, n) # r_auths s else r_auths s | None \<Rightarrow> r_auths s) = xs @ r_auths s"
    by (auto simp: xs_def split: option.split)
  have t: "t = s\<lparr>r_proxy := q, r_auths := xs @ r_auths s, r_dels := ys @ r_dels s\<rparr>"
    using step rs conn au by (simp add: px_exec_def Let_def ys_def)
  have silent: "quiet ?p q \<Longrightarrow> outs = [] \<Longrightarrow> px_inv t \<and> px_rel s t"
    using quiet_log [OF inv, of q "[]" "[]"] unfolding t xs_def ys_def by (auto split: option.split)
  from read_step_case [OF fe rs] show ?thesis
  proof cases
    case (effective i x)
    then have "xs = []" "\<forall>y \<in> set ys. has_addr c_addr (snd y) (fst y) ?p"
      by (auto simp: xs_def ys_def split: option.split)
    with effective quiet_log [OF inv quiet_cached [of _ x], of xs ys] show ?thesis unfolding t by auto
  next
    case (promoted i x)
    then have "xs = []" "\<forall>y \<in> set ys. has_addr c_authed (snd y) (fst y) ?p"
      by (auto simp: xs_def ys_def)
    moreover have "quiet ?p q"
      using quiet_trans [OF quiet_cached quiet_promote [of a i "cached ?p x"]] promoted by simp
    ultimately show ?thesis using quiet_log [OF inv, of q xs ys] unfolding t by auto
  next
    case (mismatch i x)
    then show ?thesis using silent quiet_trans [OF quiet_cached quiet_setAuthedAddr] by blast
  next
    case (ignored x)
    then show ?thesis using silent quiet_cached by blast
  next
    case (repeated i n x)
    have "quiet ?p q"
      unfolding repeated(1)
      by (rule quiet_trans [OF quiet_cached quiet_upd_client]) (use repeated(5) in \<open>simp_all add: ser_def\<close>)
    moreover have "ser q i = n"
      using repeated(3) unfolding repeated(1)
      by (auto simp: ser_def upd_client_def has_addr_def addr_of_def split: option.split)
    then have "\<forall>x \<in> set xs. \<exists>i a n. x = (i, a, n) \<and> n \<le> ser q i" "ys = []"
      using repeated by (simp_all add: xs_def ys_def is_reply_def)
    ultimately show ?thesis using quiet_log [OF inv, of q xs ys] unfolding t by simp
  next
    case (created i x)
    then show ?thesis using silent quiet_trans [OF quiet_cached quiet_getClient] by blast
  next
    case (rejected i x)
    have "quiet ?p q"
      unfolding rejected(1)
      by (rule quiet_trans [OF quiet_trans [OF quiet_cached quiet_getClient] quiet_upd_client]) simp_all
    with rejected show ?thesis using silent by blast
  next
    case (accepted i n x)
    have "xs = [(i, a, n)]" "ys = []" using accepted by (simp_all add: xs_def ys_def is_reply_def)
    then have "t = s\<lparr>r_proxy := accept_auth i n a (cached ?p x), r_auths := (i, a, n) # r_auths s\<rparr>"
      unfolding t using accepted(1) by simp
    from accept_log [OF inv accepted(3) openAuth_own [OF accepted(4)] accepted(6,5,7) this] conn t show ?thesis by simp
  qed
qed

lemma initConn_case:
  assumes "\<forall>j. \<not> has_addr c_addr a j p \<and> \<not> has_addr c_authed a j p"
  shows "quiet p (initConn (Some (a, i, n)) p)
    \<or> initConn (Some (a, i, n)) p = accept_auth i n a p \<and> ser p i < n \<and> \<not> shut p i \<and> snd (getClient i p) \<noteq> None"
proof -
  obtain q r where g: "getClient i p = (q, r)" by (metis surj_pair)
  show ?thesis
  proof (cases r)
    case None
    with g quiet_getClient [of p i] show ?thesis by (simp add: initConn_def)
  next
    case (Some c)
    note g1 = getClient_new(1-3) [OF g [unfolded Some]]
    have f: "quiet p (upd_client i (\<lambda>c. c\<lparr>c_front := True\<rparr>) q)"
      using quiet_trans [OF quiet_getClient [of p i] quiet_upd_client [of "\<lambda>c. c\<lparr>c_front := True\<rparr>" "fst (getClient i p)" i]] g
      by simp
    show ?thesis
      using g g1 Some f quiet_getClient [of p i]
      by (cases "shut p i"; cases "n > ser p i") (simp_all add: initConn_def accept_auth_def)
  qed
qed

lemma probe_step:
  assumes inv: "px_inv s" and step: "px_exec P (Probe a buf) s = Some t"
  shows "px_inv t \<and> px_rel s t"
proof -
  let ?p = "r_proxy s"
  from step obtain i n where o: "openAuthPacket P buf ?p = Some (i, n)" and conn: "\<not> r_conn s"
    and t: "t = s\<lparr>r_proxy := initConn (Some (a, i, n)) ?p, r_conn := True,
      r_auths := (if has_addr c_authed a i (initConn (Some (a, i, n)) ?p) then (i, a, n) # r_auths s else r_auths s)\<rparr>"
    by (cases "openAuthPacket P buf ?p") (auto simp: px_exec_def Let_def split: if_split_asm)
  have none: "\<forall>j. \<not> has_addr c_addr a j ?p \<and> \<not> has_addr c_authed a j ?p"
    using inv conn unfolding px_inv_def by blast
  from initConn_case [OF none, of i n] show ?thesis
  proof (elim disjE conjE)
    assume q: "quiet ?p (initConn (Some (a, i, n)) ?p)"
    then have "\<not> has_addr c_authed a i (initConn (Some (a, i, n)) ?p)" using none unfolding quiet_def by blast
    with t have "t = (s\<lparr>r_proxy := initConn (Some (a, i, n)) ?p\<rparr>)\<lparr>r_conn := True\<rparr>" by simp
    with quiet_step [OF inv q] show ?thesis by (simp add: px_inv_def px_rel_def)
  next
    assume acc: "initConn (Some (a, i, n)) ?p = accept_auth i n a ?p" "ser ?p i < n" "\<not> shut ?p i"
      "snd (getClient i ?p) \<noteq> None"
    have own: "p_Attachable ?p \<or> i = p_clientID ?p" using o by (rule openAuth_own)
    have fe: "fe_inv ?p" using inv by (simp add: px_inv_def)
    have "has_addr c_authed a i (accept_auth i n a ?p)"
      using accept_auth_effect(6) [OF fe none own acc(3,4)] .
    with t acc(1) have t': "t = (s\<lparr>r_conn := True\<rparr>)\<lparr>r_proxy := accept_auth i n a ?p, r_auths := (i, a, n) # r_auths s\<rparr>"
      by simp
    have "px_inv (s\<lparr>r_conn := True\<rparr>)" using inv by (simp add: px_inv_def)
    from accept_log [OF this, of a i n "f_cache ?p" t] t' none own acc show ?thesis
      by (simp add: cached_def px_rel_def)
  qed
qed

interpretation front: progress_machine "px_exec P" px_inv px_rel
proof
  fix s x t
  assume inv: "px_inv s" and step: "px_exec P x s = Some t"
  have q: "px_inv t \<and> px_rel s t" if "t = s\<lparr>r_proxy := q\<rparr>" "quiet (r_proxy s) q" for q
    using quiet_step [OF inv that(2)] that(1) by simp
  have "px_inv t \<and> px_rel s t"
  proof (cases x)
    case Recv
    with recv_step inv step show ?thesis by metis
  next
    case Probe
    with probe_step inv step show ?thesis by metis
  next
    case (Write buf i)
    with step q [OF _ quiet_WriteTo [of _ P buf i]] show ?thesis by (simp add: px_exec_def Let_def)
  next
    case (CloseClient i)
    with step q [OF _ quiet_Close [of _ i]] show ?thesis by (simp add: px_exec_def Let_def)
  next
    case (Cleanup i oa oc ocn)
    with step q [OF _ quiet_timeoutCleanup [of _ i oa oc ocn]] show ?thesis by (simp add: px_exec_def Let_def)
  next
    case (Bind i)
    with step q [OF _ quiet_seal_client [of _ i]] show ?thesis by (simp add: px_exec_def Let_def)
  next
    case (SetServer i y)
    have "quiet (r_proxy s) (upd_client i (\<lambda>c. c\<lparr>c_server := y\<rparr>) (r_proxy s))"
      by (rule quiet_upd_client) simp_all
    from SetServer step q [OF _ this] show ?thesis by (simp add: px_exec_def Let_def)
  qed
  then show "px_inv t" "px_rel s t" by simp_all
qed (simp_all add: px_rel_refl px_rel_trans)

section \<open>Properties\<close>

lemma upd_front_views:
  "ser (upd_client j (\<lambda>c. c\<lparr>c_front := True\<rparr>) r) = ser r"
  "addr_of c_addr (upd_client j (\<lambda>c. c\<lparr>c_front := True\<rparr>) r) = addr_of c_addr r"
  "addr_of c_authed (upd_client j (\<lambda>c. c\<lparr>c_front := True\<rparr>) r) = addr_of c_authed r"
  by (simp_all add: fun_eq_iff ser_def addr_of_def upd_client_def split: option.split)

definition px_init :: "bool \<Rightarrow> ('a, 'k, 's) serverProxy \<Rightarrow> ('a, 'k, 's) px_run" where
  "px_init single p = \<lparr>r_proxy = p, r_conn = single, r_auths = [], r_dels = []\<rparr>"

lemma px_init_inv:
  assumes "startServerProxy att sock tcp kcp k fresh cid sid = Inr p"
  shows "px_inv (px_init single p)"
proof -
  have "\<forall>i. addr_of c_addr p i = None \<and> addr_of c_authed p i = None" and maps: "f_clientMap p = Map.empty" "f_authedMap p = Map.empty"
    using assms
    by (auto simp: startServerProxy_def Let_def addr_of_def newClientState_def split: if_splits sum.splits)
  then show ?thesis
    by (simp add: px_inv_def px_init_def fe_inv_view fe_view_def map_ok_def has_addr_def)
qed

text \<open>A small run for the witnesses: a client authenticates, sends, moves to another address and sends.\<close>

definition demo_proxy :: "(nat, byte, byte) serverProxy" where
  "demo_proxy = projr (startServerProxy True False False False 7 (Inl ErrEOF) 0 9)"

definition demo_auth :: "u64 \<Rightarrow> u64 \<Rightarrow> bytes" where
  "demo_auth i n = replicate 12 0 @ [7] @ put_u64 i @ put_u64 n"

definition demo_run :: "nat px_act list" where
  "demo_run = [Recv [] 1 (demo_auth 5 1), Recv [] 1 (replicate 20 0), Recv [] 2 (demo_auth 5 2), Recv [] 2 (replicate 17 3)]"

lemma demo_proxy_start: "startServerProxy True False False False 7 (Inl ErrEOF) 0 9 = Inr demo_proxy"
  by (simp add: demo_proxy_def startServerProxy_def Let_def)

lemma demo_run_result:
  obtains s where "run_acts (px_exec demo_prims) demo_run (px_init True demo_proxy) = Some s"
    "r_dels s = [(5, 2), (5, 1)]" "r_auths s = [(5, 2, 2), (5, 1, 1)]" "addr_of c_addr (r_proxy s) 5 = Some 2"
    "openAuthPacket demo_prims (demo_auth 5 1) (r_proxy s) = Some (5, 1)"
proof -
  have "(case run_acts (px_exec demo_prims) demo_run (px_init True demo_proxy) of
      None \<Rightarrow> False
    | Some s \<Rightarrow> r_dels s = [(5, 2), (5, 1)] \<and> r_auths s = [(5, 2, 2), (5, 1, 1)] \<and> addr_of c_addr (r_proxy s) 5 = Some 2
        \<and> openAuthPacket demo_prims (demo_auth 5 1) (r_proxy s) = Some (5, 1))"
    by code_simp
  then show ?thesis using that by (auto split: option.split_asm)
qed

text \<open>
  C1. Only authenticated addresses get through: in every run of the server's UDP front end (packets
  from anywhere, repeated or forged, clients being created, bound, closed, timed out and written to
  in any order), a packet handed to the transport as coming from a client came from an address from
  which an authentication packet of that client had been accepted, and the serial number of that
  packet is not above the client's.
\<close>

theorem deliveries_authenticated:
  assumes "startServerProxy att sock tcp kcp k fresh cid sid = Inr p0"
    and "run_acts (px_exec P) acts (px_init single p0) = Some s"
    and "(i, a) \<in> set (r_dels s)"
  shows "\<exists>n. (i, a, n) \<in> set (r_auths s) \<and> n \<le> ser (r_proxy s) i"
  using front.run_inv [OF px_init_inv [OF assms(1)] assms(2)] assms(3) unfolding px_inv_def by blast

theorem deliveries_authenticated_witness:
  "\<exists>s. run_acts (px_exec demo_prims) demo_run (px_init True demo_proxy) = Some s
     \<and> (\<exists>n. (5, 2, n) \<in> set (r_auths s) \<and> n \<le> ser (r_proxy s) 5)"
proof (rule demo_run_result)
  fix s
  assume s: "run_acts (px_exec demo_prims) demo_run (px_init True demo_proxy) = Some s" "r_dels s = [(5, 2), (5, 1)]"
  with deliveries_authenticated [OF demo_proxy_start s(1), of 5 2] show ?thesis by auto
qed

text \<open>
  The address maps and the cache are only an optimisation as long as the operations run one after the other: in every
  reachable state the lookup of an address returns the client whose effective address it is, or else the one whose
  pending address it is, or nothing, and no two clients share an address.
\<close>

lemma address_lookup_exact:
  assumes "startServerProxy att sock tcp kcp k fresh cid sid = Inr p0"
    and "run_acts (px_exec P) acts (px_init single p0) = Some s"
  shows "(snd (front_getClient a (r_proxy s)) = Some (i, True) \<longleftrightarrow> has_addr c_addr a i (r_proxy s))
    \<and> (snd (front_getClient a (r_proxy s)) = Some (i, False) \<longleftrightarrow> has_addr c_authed a i (r_proxy s))
    \<and> (has_addr c_addr a i (r_proxy s) \<or> has_addr c_authed a i (r_proxy s) \<longrightarrow>
        has_addr c_addr a j (r_proxy s) \<or> has_addr c_authed a j (r_proxy s) \<longrightarrow> i = j)"
proof -
  have inv: "fe_inv (r_proxy s)"
    using front.run_inv [OF px_init_inv [OF assms(1)] assms(2)] by (simp add: px_inv_def)
  show ?thesis
    using front_getClient_spec [OF inv, of a i] fe_inv_unique [OF inv, of a] fe_disj [OF inv, of a] by blast
qed

text \<open>The setters on a client that is not, or no longer, known to the front end.\<close>

lemma setters_unfronted:
  assumes "p_clients p i = Some c" "\<not> c_front c"
  shows "setClientAddr i None new p = p\<lparr>p_clients := (p_clients p)(i \<mapsto> c\<lparr>c_addr := new\<rparr>)\<rparr>"
    "setAuthedAddr i None new p = p\<lparr>p_clients := (p_clients p)(i \<mapsto> c\<lparr>c_authed := new\<rparr>)\<rparr>"
  using assms by (simp_all add: setClientAddr_def setAuthedAddr_def swap_old_def Let_def split: option.split)

text \<open>
  They need not run one after the other: the reader of the front end loads the pending address of a client and then
  promotes it in two more steps, and the client may be closed in between. It is then closed and has an effective address
  again. A server that takes several clients has lost the way from the address to the client, a server with one client
  goes on delivering its packets.
\<close>

lemma close_race_keeps_address:
  assumes "startServerProxy att sock tcp kcp k fresh cid sid = Inr p0"
    and "run_acts (px_exec P) acts (px_init single p0) = Some s"
    and "p_clients (r_proxy s) i = Some c" "c_authed c = Some b"
    and "q = setAuthedAddr i None None (setClientAddr i None (Some b) (client_Close i (r_proxy s)))"
  shows "has_addr c_addr b i q \<and> (\<exists>d. p_clients q i = Some d \<and> c_closed d)
    \<and> (p_Attachable q \<longrightarrow> f_clientMap q b = None \<and> f_authedMap q b = None)
    \<and> (\<not> p_Attachable q \<longrightarrow> read_step P nonce b buf q = (q, deliver i buf))"
proof -
  let ?p = "r_proxy s"
  have inv: "fe_inv ?p"
    using front.run_inv [OF px_init_inv [OF assms(1)] assms(2)] by (simp add: px_inv_def)
  have authed: "has_addr c_authed b i ?p" using assms(3,4) by (simp add: has_addr_def addr_of_def)
  have front: "c_front c" "\<not> c_closed c" using inv assms(3,4) by (auto simp: fe_inv_def)
  have sole: "\<not> p_Attachable ?p \<Longrightarrow> i = p_clientID ?p" using inv authed by (auto simp: fe_inv_def)
  have gone: "p_Attachable ?p \<Longrightarrow> f_clientMap ?p b = None"
    using inv authed fe_disj [OF inv, of b _ i] by (cases "f_clientMap ?p b") (auto simp: fe_inv_def map_ok_def has_addr_def)
  have q: "q = setAuthedAddr i None None (setClientAddr i None (Some b)
      (upd_client i shut_down (setAuthedAddr i None None (setClientAddr i None None ?p))))"
    using client_Close_alt [OF assms(3) front(2)] assms(5) by simp
  define p1 where "p1 = setClientAddr i None None ?p"
  define p2 where "p2 = setAuthedAddr i None None p1"
  have c1: "p_clients p1 i = Some (c\<lparr>c_addr := None\<rparr>)"
    by (simp add: p1_def setClientAddr_eff(1) [OF assms(3)] swap_old_def)
  have c2: "p_clients p2 i = Some (c\<lparr>c_addr := None, c_authed := None\<rparr>)"
    by (simp add: p2_def setAuthedAddr_eff(1) [OF c1] swap_old_def)
  have at: "p_Attachable p2 = p_Attachable ?p" "p_clientID p2 = p_clientID ?p"
    unfolding p2_def setAuthedAddr_eff [OF c1] unfolding p1_def setClientAddr_eff [OF assms(3)] by simp_all
  have m2: "f_clientMap p2 b = None \<and> f_authedMap p2 b = None" if "p_Attachable ?p"
    using that front(1) gone assms(4) c1 setClientAddr_map [OF assms(3) front(1) that, of None None]
      setAuthedAddr_map [OF c1, of None None] setAuthedAddr_eff(2) [OF c1] setClientAddr_eff(3) [OF assms(3)]
    by (auto simp: p2_def p1_def swap_old_def Let_def split: option.splits)
  let ?d = "(shut_down c)\<lparr>c_addr := Some b, c_authed := None\<rparr>"
  have c3: "p_clients (upd_client i shut_down p2) i = Some (shut_down (c\<lparr>c_addr := None, c_authed := None\<rparr>))"
    using c2 by (simp add: upd_client_def)
  have q': "q = p2\<lparr>p_clients := (p_clients p2)(i \<mapsto> ?d)\<rparr>"
    unfolding q p1_def [symmetric] p2_def [symmetric]
    by (simp add: setters_unfronted c3 shut_down_def) (simp add: upd_client_def c2 shut_down_def)
  have cl: "p_clients q i = Some ?d" and maps: "p_Attachable q = p_Attachable ?p" "p_clientID q = p_clientID ?p"
    "p_Attachable ?p \<Longrightarrow> f_clientMap q b = None \<and> f_authedMap q b = None"
    using at m2 unfolding q' by simp_all
  have addr: "has_addr c_addr b i q" using cl by (simp add: has_addr_def addr_of_def)
  moreover have "read_step P nonce b buf q = (q, deliver i buf)" if "\<not> p_Attachable q"
    using that addr sole maps(1,2) by (simp add: read_step_def front_getClient_def)
  ultimately show ?thesis using cl maps by (simp add: shut_down_def)
qed

text \<open>
  C8. Authentication packets cannot be replayed: once an authentication with serial number \<open>m\<close> was
  accepted for a client, a packet of that client with a serial number up to \<open>m\<close> that arrives from
  an address of no client changes no address and no serial number, gets no answer and delivers
  nothing.
\<close>

theorem auth_replay_rejected:
  assumes "startServerProxy att sock tcp kcp k fresh cid sid = Inr p0"
    and "run_acts (px_exec P) acts (px_init single p0) = Some s"
    and "(i, b, m) \<in> set (r_auths s)" "openAuthPacket P buf (r_proxy s) = Some (i, n)" "n \<le> m"
    and "\<forall>j. \<not> has_addr c_addr a j (r_proxy s) \<and> \<not> has_addr c_authed a j (r_proxy s)"
    and "read_step P nonce a buf (r_proxy s) = (q, outs)"
  shows "outs = [] \<and> ser q = ser (r_proxy s) \<and> addr_of c_addr q = addr_of c_addr (r_proxy s)
    \<and> addr_of c_authed q = addr_of c_authed (r_proxy s)"
proof -
  let ?p = "r_proxy s"
  have inv: "px_inv s" by (rule front.run_inv [OF px_init_inv [OF assms(1)] assms(2)])
  then have fe: "fe_inv ?p" and le: "n \<le> ser ?p i"
    using assms(3,5) order_trans unfolding px_inv_def by blast+
  from read_step_case [OF fe assms(7)] show ?thesis
  proof cases
    case (accepted j n' x)
    with assms(4) le show ?thesis by simp
  qed (use assms(6) in \<open>simp_all add: upd_front_views getClient_views\<close>)
qed

theorem auth_replay_rejected_witness:
  "\<exists>s. run_acts (px_exec demo_prims) demo_run (px_init True demo_proxy) = Some s
     \<and> snd (read_step demo_prims [] 3 (demo_auth 5 1) (r_proxy s)) = []"
proof (rule demo_run_result)
  fix s
  assume s: "run_acts (px_exec demo_prims) demo_run (px_init True demo_proxy) = Some s"
    "r_auths s = [(5, 2, 2), (5, 1, 1)]" "openAuthPacket demo_prims (demo_auth 5 1) (r_proxy s) = Some (5, 1)"
  have inv: "px_inv s" by (rule front.run_inv [OF px_init_inv [OF demo_proxy_start] s(1)])
  have "\<exists>n. (j, 3, n) \<in> set (r_auths s)" if "has_addr c_addr 3 j (r_proxy s) \<or> has_addr c_authed 3 j (r_proxy s)" for j
    using inv that unfolding px_inv_def by blast
  with s(2) have "\<forall>j. \<not> has_addr c_addr 3 j (r_proxy s) \<and> \<not> has_addr c_authed 3 j (r_proxy s)"
    by fastforce
  moreover obtain q outs where "read_step demo_prims [] 3 (demo_auth 5 1) (r_proxy s) = (q, outs)" by (metis surj_pair)
  ultimately show ?thesis
    using auth_replay_rejected [OF demo_proxy_start s(1) _ s(3), of 2 2 3 "[]" q outs] s by auto
qed

text \<open>
  A closed client stays silent: from the moment a client is closed, whatever arrives, no packet is
  handed over for it any more, it has no address, and the transport cannot send to it.
\<close>

lemma closed_client_silent:
  assumes "startServerProxy att sock tcp kcp k fresh cid sid = Inr p0"
    and "run_acts (px_exec P) acts (px_init single p0) = Some s"
    and "p_clients (r_proxy s) i \<noteq> None"
    and "px_exec P (CloseClient i) s = Some s'" "run_acts (px_exec P) later s' = Some t"
  shows "(\<exists>ys. r_dels t = ys @ r_dels s \<and> i \<notin> fst ` set ys)
    \<and> \<not> has_addr c_addr a i (r_proxy t) \<and> \<not> has_addr c_authed a i (r_proxy t)
    \<and> snd (proxy_WriteTo P buf i (r_proxy t)) = None"
proof -
  have inv: "px_inv s" by (rule front.run_inv [OF px_init_inv [OF assms(1)] assms(2)])
  have inv': "px_inv s'" by (rule front.exec_inv [OF inv assms(4)])
  have s': "r_dels s' = r_dels s" "shut (r_proxy s') i"
    using assms(4) Close_shuts [OF assms(3)] by (auto simp: px_exec_def Let_def)
  have rel: "px_rel s' t" by (rule front.run_rel [OF inv' assms(5)])
  have "px_inv t" by (rule front.run_inv [OF inv' assms(5)])
  then have fe: "fe_inv (r_proxy t)" by (simp add: px_inv_def)
  have shut: "shut (r_proxy t) i" using rel s' unfolding px_rel_def by blast
  have dels: "\<exists>ys. r_dels t = ys @ r_dels s \<and> i \<notin> fst ` set ys"
    using rel s' unfolding px_rel_def by fastforce
  obtain c where c: "p_clients (r_proxy t) i = Some c" "c_closed c"
    using shut by (cases "p_clients (r_proxy t) i") (simp_all add: shut_def)
  have "snd (proxy_WriteTo P buf i (r_proxy t)) = None"
    using c by (simp add: proxy_WriteTo_def getClient_def Let_def split: option.split prod.split sum.split)
  with dels addr_open [OF fe] shut show ?thesis by blast
qed

lemma closed_client_silent_witness:
  "\<exists>t. run_acts (px_exec demo_prims) (demo_run @ [CloseClient 5]) (px_init True demo_proxy) = Some t
     \<and> snd (proxy_WriteTo demo_prims [1] 5 (r_proxy t)) = None"
proof (rule demo_run_result)
  fix s
  assume s: "run_acts (px_exec demo_prims) demo_run (px_init True demo_proxy) = Some s"
    "addr_of c_addr (r_proxy s) 5 = Some 2"
  then have known: "p_clients (r_proxy s) 5 \<noteq> None"
    by (cases "p_clients (r_proxy s) 5") (simp_all add: addr_of_def)
  obtain s' where s': "px_exec demo_prims (CloseClient 5) s = Some s'" by (simp add: px_exec_def Let_def)
  have "run_acts (px_exec demo_prims) [] s' = Some s'" by simp
  from closed_client_silent [OF demo_proxy_start s(1) known s' this, of 0 "[1]"] s(1) s' show ?thesis
    by (auto simp: run_acts_append)
qed

text \<open>
  The cleanup after a timeout can remove a path it never saw: the callback loads the pending
  address, sleeps, and then passes what it loaded to \<open>setAuthedAddr\<close>, which treats ``nothing loaded''
  as ``replace whatever is there''. If there was no pending address when it looked and the client
  authenticated from \<open>b\<close> while it slept, the new address is dropped, although its effective address,
  which was loaded, is only cleared when it is still the same.
\<close>

lemma timeout_drops_new_path:
  assumes "p_clients p i = Some c" "c_authed c = Some b"
  shows "addr_of c_authed (timeoutCleanup i None oldAddr oldConn p) i = None
    \<and> (x \<noteq> b \<longrightarrow> addr_of c_authed (timeoutCleanup i (Some x) oldAddr oldConn p) i = Some b)"
proof -
  have eff: "addr_of c_authed (timeoutCleanup i old oldAddr oldConn p) i = fst (swap_old old None (c_authed c))" for old
  proof -
    have c1: "p_clients (setAuthedAddr i old None p) i = Some (c\<lparr>c_authed := fst (swap_old old None (c_authed c))\<rparr>)"
      by (simp add: setAuthedAddr_eff(1) [OF assms(1)])
    show ?thesis
      unfolding timeoutCleanup_def
      by (simp add: addr_of_def upd_client_def setClientAddr_eff(1) [OF c1] setClientConn_def split: prod.split)
  qed
  show ?thesis using assms(2) by (simp add: eff)
qed

lemma timeout_drops_new_path_witness:
  "\<exists>p. addr_of c_authed (p :: (nat, byte, byte) serverProxy) 5 = Some 3
     \<and> addr_of c_authed (timeoutCleanup 5 None (Some 2) None p) 5 = None"
proof -
  define c :: "(nat, byte, byte) clientState" where
    "c = (projr (newClientState demo_proxy))\<lparr>c_authed := Some 3, c_addr := Some 2\<rparr>"
  define p where "p = demo_proxy\<lparr>p_clients := [5 \<mapsto> c]\<rparr>"
  have "p_clients p 5 = Some c" "c_authed c = Some 3" by (simp_all add: p_def c_def)
  from timeout_drops_new_path [OF this, of "Some 2" None 4] this show ?thesis
    by (intro exI [of _ p]) (simp add: addr_of_def)
qed

end
