(* ===== verification/ProxyClient.thy ===== *)
theory ProxyClient
  imports ProxyServer
begin

text \<open>
  The client side of the proxy (\<open>proxy_client.go\<close>): its serial number, the renewal of the transport
  path over UDP or TCP, and the packet connection it offers to the transport. Connections are
  numbers; what dialing, reading, writing and waiting return is a parameter. The last section puts
  client and server together.
\<close>

section \<open>Definitions\<close>

record 'k clientProxy =
  k_closed :: bool
  k_backend :: "nat option"
  k_proxyTCP :: bool
  k_proxyCmds :: bool
  k_cipher :: 'k
  k_clientID :: u64
  k_serverID :: u64
  k_serial :: u64
  k_sentPackets :: u64
  k_sentBytes :: u64
  k_recvPackets :: u64
  k_recvBytes :: u64

text \<open>The second result is the connection that is closed.\<close>

definition clearBackendConn :: "nat option \<Rightarrow> 'k clientProxy \<Rightarrow> 'k clientProxy \<times> nat option" where
  "clearBackendConn old p =
     (case swap_old old None (k_backend p) of (cur, gone) \<Rightarrow> (p\<lparr>k_backend := cur\<rparr>, gone))"

definition sendAuthPacket :: "('k, 's, 'p) prims \<Rightarrow> bytes \<Rightarrow> 'k clientProxy \<Rightarrow> bytes" where
  "sendAuthPacket P nonce p =
     aesEncrypt P (k_cipher p) nonce (put_u64 (k_clientID p) @ put_u64 (k_serial p))"

definition isAuthSuccessful :: "('k, 's, 'p) prims \<Rightarrow> bytes \<Rightarrow> 'k clientProxy \<Rightarrow> 'k clientProxy \<times> bool" where
  "isAuthSuccessful P buf p =
     (case aesDecrypt P (k_cipher p) buf of
        None \<Rightarrow> (p, False)
      | Some data \<Rightarrow>
          if length data \<noteq> 16 then (p, False)
          else if get_u64 data \<noteq> k_serverID p then (p, False)
          else
            let serialNumber = get_u64 (drop 8 data)
            in if serialNumber > k_serial p then (p\<lparr>k_serial := serialNumber\<rparr>, False)
               else (p, k_serial p = serialNumber))"

text \<open>
  \<open>renewTcpPath\<close>: \<open>dial\<close> is the result of \<open>dialStream\<close>, \<open>sendErr\<close> of writing the authentication packet,
  \<open>recv\<close> of reading the answer within the timeout. The third result are the connections closed.
\<close>

definition renewTcpPath ::
  "('k, 's, 'p) prims \<Rightarrow> nat result \<Rightarrow> go_error option \<Rightarrow> bytes result \<Rightarrow> 'k clientProxy
   \<Rightarrow> 'k clientProxy \<times> nat result \<times> nat list" where
  "renewTcpPath P dial sendErr recv p =
     (case dial of
        Inl e \<Rightarrow> (p, Inl e, [])
      | Inr conn \<Rightarrow>
          (case sendErr of
             Some e \<Rightarrow> (p, Inl e, [conn])
           | None \<Rightarrow>
               (case recv of
                  Inl e \<Rightarrow> (p, Inl (ErrFlat ''recv auth packet failed'' e), [conn])
                | Inr buf \<Rightarrow>
                    (case isAuthSuccessful P buf p of
                       (p', False) \<Rightarrow> (p', Inl (ErrText ''proxy auth failed''), [conn])
                     | (p', True) \<Rightarrow> (p', Inr conn, [])))))"

text \<open>
  \<open>renewUdpPath\<close> after dialing: a datagram or an error is read, the ticker fires (with the result of
  sending the packet again), or the context ends. The second result is \<open>None\<close> while it still waits.
\<close>

datatype udp_event =
    UdpGot bytes
  | UdpReadErr go_error
  | UdpTick "go_error option"
  | UdpTimeout

fun udp_path ::
  "('k, 's, 'p) prims \<Rightarrow> nat \<Rightarrow> udp_event list \<Rightarrow> 'k clientProxy
   \<Rightarrow> 'k clientProxy \<times> nat result option \<times> nat list" where
  "udp_path P conn [] p = (p, None, [])"
| "udp_path P conn (UdpGot buf # evs) p =
     (case isAuthSuccessful P buf p of
        (p', True) \<Rightarrow> (p', Some (Inr conn), [])
      | (p', False) \<Rightarrow> udp_path P conn evs p')"
| "udp_path P conn (UdpReadErr e # evs) p = (p, Some (Inl (ErrFlat ''read auth packet failed'' e)), [])"
| "udp_path P conn (UdpTick sendErr # evs) p =
     (case sendErr of
        None \<Rightarrow> udp_path P conn evs p
      | Some e \<Rightarrow> (p, Some (Inl (ErrFlat ''send auth packet failed'' e)), [conn]))"
| "udp_path P conn (UdpTimeout # evs) p = (p, Some (Inl (ErrText ''renew path timeout'')), [conn])"

definition renewUdpPath ::
  "('k, 's, 'p) prims \<Rightarrow> nat result \<Rightarrow> go_error option \<Rightarrow> udp_event list \<Rightarrow> 'k clientProxy
   \<Rightarrow> 'k clientProxy \<times> nat result option \<times> nat list" where
  "renewUdpPath P dial sendErr evs p =
     (case dial of
        Inl e \<Rightarrow> (p, Some (Inl e), [])
      | Inr conn \<Rightarrow>
          (case sendErr of
             Some e \<Rightarrow> (p, Some (Inl (ErrFlat ''send auth packet failed'' e)), [conn])
           | None \<Rightarrow> udp_path P conn evs p))"

text \<open>
  \<open>renewTransportPath\<close>, in two parts around its wait for the server: the first stores the new
  connection, the second clears it again if nothing arrived. \<open>proxied\<close>: a proxy client was given.
\<close>

definition renew_begin ::
  "('k, 's, 'p) prims \<Rightarrow> bool \<Rightarrow> nat result \<Rightarrow> go_error option \<Rightarrow> bytes result \<Rightarrow> udp_event list \<Rightarrow> 'k clientProxy
   \<Rightarrow> 'k clientProxy \<times> nat result option \<times> nat list" where
  "renew_begin P proxied dial sendErr recv evs p =
     (let (p1, gone) = clearBackendConn None (p\<lparr>k_serial := k_serial p + 1\<rparr>);
          closed = (case gone of None \<Rightarrow> [] | Some c \<Rightarrow> [c])
      in if \<not> proxied \<and> k_proxyCmds p1 \<and> \<not> k_proxyTCP p1
         then (p1, Some (Inl (ErrText ''proxy command only supports tcp proxy mode'')), closed)
         else
           let (p2, r, cl) = (if k_proxyTCP p1
                 then (case renewTcpPath P dial sendErr recv p1 of (p2, r, cl) \<Rightarrow> (p2, Some r, cl))
                 else renewUdpPath P dial sendErr evs p1)
           in (case r of
                 Some (Inr conn) \<Rightarrow> (p2\<lparr>k_backend := Some conn\<rparr>, r, closed @ cl)
               | _ \<Rightarrow> (p2, r, closed @ cl)))"

definition renew_end :: "nat \<Rightarrow> go_error option \<Rightarrow> 'k clientProxy \<Rightarrow> 'k clientProxy \<times> unit result" where
  "renew_end conn waitErr p =
     (case waitErr of
        None \<Rightarrow> (p, Inr ())
      | Some e \<Rightarrow> (fst (clearBackendConn (Some conn) p), Inl (ErrFlat ''wait for server response failed'' e)))"

text \<open>One round of the loop of \<open>ReadFrom\<close>; \<open>None\<close>: it goes round again or waits.\<close>

definition client_ReadFrom :: "bytes result \<Rightarrow> 'k clientProxy \<Rightarrow> 'k clientProxy \<times> bytes result option" where
  "client_ReadFrom recv p =
     (if k_closed p then (p, Some (Inl ErrEOF))
      else (case k_backend p of
          None \<Rightarrow> (p, None)
        | Some conn \<Rightarrow>
            (case recv of
               Inl e \<Rightarrow> (fst (clearBackendConn (Some conn) p), None)
             | Inr buf \<Rightarrow> (p\<lparr>k_recvPackets := k_recvPackets p + 1,
                 k_recvBytes := k_recvBytes p + of_nat (length buf)\<rparr>, Some (Inr buf)))))"

text \<open>\<open>WriteTo\<close>: the second result is the connection that was written to.\<close>

definition client_WriteTo :: "bytes \<Rightarrow> go_error option \<Rightarrow> 'k clientProxy \<Rightarrow> 'k clientProxy \<times> nat option \<times> nat result" where
  "client_WriteTo buf writeErr p =
     (if k_closed p then (p, None, Inl ErrEOF)
      else (case k_backend p of
          None \<Rightarrow> (p, None, Inr (length buf))
        | Some conn \<Rightarrow>
            (case writeErr of
               Some e \<Rightarrow> (fst (clearBackendConn (Some conn) p), Some conn, Inr (length buf))
             | None \<Rightarrow> (p\<lparr>k_sentPackets := k_sentPackets p + 1,
                 k_sentBytes := k_sentBytes p + of_nat (length buf)\<rparr>, Some conn, Inr (length buf)))))"

definition client_proxy_Close :: "'k clientProxy \<Rightarrow> 'k clientProxy" where
  "client_proxy_Close p = (if k_closed p then p else fst (clearBackendConn None (p\<lparr>k_closed := True\<rparr>)))"

section \<open>Lemmas\<close>

lemma aes_roundtrip:
  "prims_ok P \<Longrightarrow> length nonce = gcmNonceSize \<Longrightarrow> aesDecrypt P k (aesEncrypt P k nonce data) = Some data"
  by (simp add: aesDecrypt_def aesEncrypt_def prims_ok_def)

lemma auth_packet_opens:
  assumes "prims_ok P" "length nonce = gcmNonceSize" "p_cipher s = k_cipher c" "p_Attachable s \<or> p_clientID s = k_clientID c"
  shows "openAuthPacket P (sendAuthPacket P nonce c) s = Some (k_clientID c, k_serial c)"
  using assms by (auto simp: openAuthPacket_def sendAuthPacket_def aes_roundtrip)

lemma auth_reply_accepted:
  assumes "prims_ok P" "length nonce = gcmNonceSize" "p_cipher s = k_cipher c" "p_serverID s = k_serverID c"
  shows "isAuthSuccessful P (sealAuthPacket P nonce n s) c =
    (if n > k_serial c then (c\<lparr>k_serial := n\<rparr>, False) else (c, k_serial c = n))"
  using assms by (simp add: isAuthSuccessful_def sealAuthPacket_def aes_roundtrip)

lemma getClient_cached: "snd (getClient i p) \<noteq> None \<Longrightarrow> snd (getClient i (cached p x)) \<noteq> None"
proof -
  have "newClientState (cached p x) = newClientState p"
    by (simp add: newClientState_def cached_def Let_def)
  then show "snd (getClient i p) \<noteq> None \<Longrightarrow> snd (getClient i (cached p x)) \<noteq> None"
    by (auto simp: getClient_def split: option.splits sum.splits)
qed

lemma read_unknown_accepts:
  assumes "fe_inv p" and "\<forall>j. \<not> has_addr c_addr a j p \<and> \<not> has_addr c_authed a j p"
    and "openAuthPacket P buf p = Some (i, n)" "ser p i < n" "\<not> shut p i" "snd (getClient i p) \<noteq> None"
  shows "\<exists>x. read_step P nonce a buf p = (accept_auth i n a (cached p x), [Reply a (sealAuthPacket P nonce n p)])"
proof -
  obtain p1 r where g: "front_getClient a p = (p1, r)" by (metis surj_pair)
  with front_getClient_spec [OF assms(1), of a] obtain x where p1: "p1 = cached p x" by (auto simp: cached_def)
  have none: "r = None"
  proof (cases r)
    case (Some y)
    obtain j b where "y = (j, b)" by (metis surj_pair)
    with Some g front_getClient_spec [OF assms(1), of a j] assms(2) show ?thesis by (cases b) simp_all
  qed simp
  from getClient_cached [OF assms(6), of x] obtain q c where gc: "getClient i (cached p x) = (q, Some c)" by (metis not_None_eq prod.collapse)
  note g1 = getClient_new(1-3) [OF gc] getClient_new(4) [OF gc, of P nonce n]
  have "\<not> n \<le> ser p i" using assms(4) by (simp only: not_le)
  then have "read_unknown P nonce a buf (cached p x) = (accept_auth i n a (cached p x), [Reply a (sealAuthPacket P nonce n p)])"
    using gc g1 assms(3,5) by (simp add: read_unknown_def Let_def accept_auth_def)
  with g p1 none show ?thesis by (auto simp: read_step_def)
qed

lemma read_pending_promotes:
  assumes inv: "fe_inv p" and own: "has_addr c_authed a i p" and "openAuthPacket P buf p = None"
  shows "\<exists>x. read_step P nonce a buf p =
    (setAuthedAddr i None None (setClientAddr i None (Some a) (cached p x)), NewClientConn i # deliver i buf)"
proof -
  obtain p1 r where g: "front_getClient a p = (p1, r)" by (metis surj_pair)
  with front_getClient_spec [OF inv, of a i] own obtain x where "p1 = cached p x" "r = Some (i, False)"
    by (auto simp: cached_def)
  with g own assms(3) show ?thesis by (auto simp: read_step_def read_authed_def has_addr_def)
qed

lemma promote_effect:
  assumes "has_addr c_authed a i p"
  shows "addr_of c_addr (setAuthedAddr i None None (setClientAddr i None (Some a) p)) =
    (addr_of c_addr p)(i \<mapsto> a)"
proof -
  obtain c where c: "p_clients p i = Some c"
    using assms by (cases "p_clients p i") (simp_all add: has_addr_def addr_of_def)
  have c1: "p_clients (setClientAddr i None (Some a) p) i = Some (c\<lparr>c_addr := Some a\<rparr>)"
    by (simp add: setClientAddr_eff(1) [OF c])
  have "p_clients (setAuthedAddr i None None (setClientAddr i None (Some a) p)) =
      (p_clients p)(i \<mapsto> c\<lparr>c_addr := Some a, c_authed := None\<rparr>)"
    by (simp add: setClientAddr_eff(1) [OF c] setAuthedAddr_eff(1) [OF c1])
  from addr_of_upd [OF this, of c_addr] show ?thesis by simp
qed

lemma upd_client_fixed [simp]:
  "p_cipher (upd_client i f p) = p_cipher p" "p_Attachable (upd_client i f p) = p_Attachable p"
  "p_clientID (upd_client i f p) = p_clientID p"
  by (simp_all add: upd_client_def split: option.split)

lemma setAuthedAddr_fixed [simp]:
  "p_cipher (setAuthedAddr i old new p) = p_cipher p" "p_Attachable (setAuthedAddr i old new p) = p_Attachable p"
  "p_clientID (setAuthedAddr i old new p) = p_clientID p"
  by (simp_all add: setAuthedAddr_def addAuthedMap_def delAuthedMap_def Let_def split: option.split prod.split)

lemma getClient_cipher [simp]: "p_cipher (fst (getClient i p)) = p_cipher p"
  by (simp add: getClient_def split: option.split sum.split)

lemma openAuth_cong:
  "p_cipher q = p_cipher p \<Longrightarrow> p_Attachable q = p_Attachable p \<Longrightarrow> p_clientID q = p_clientID p
   \<Longrightarrow> openAuthPacket P buf q = openAuthPacket P buf p"
  by (cases "aesDecrypt P (p_cipher p) buf") (simp_all add: openAuthPacket_def)

lemma openAuth_accept: "openAuthPacket P buf (accept_auth i n a (cached p x)) = openAuthPacket P buf p"
  by (rule openAuth_cong) (simp_all add: accept_auth_def getClient_views)

lemma isAuth_keeps:
  assumes "isAuthSuccessful P buf p = (p', b)"
  shows "k_backend p' = k_backend p" "k_serial p \<le> k_serial p'" "k_proxyTCP p' = k_proxyTCP p"
  using assms by (auto simp: isAuthSuccessful_def Let_def split: option.splits if_splits)

lemma udp_path_spec:
  assumes "udp_path P conn evs p = (p', r, cl)"
  shows "k_backend p' = k_backend p \<and> k_serial p \<le> k_serial p'
    \<and> (r = None \<and> cl = [] \<or> r = Some (Inr conn) \<and> cl = [] \<or> (\<exists>e. r = Some (Inl e) \<and> cl = [conn])
       \<or> (\<exists>e. UdpReadErr e \<in> set evs \<and> r = Some (Inl (ErrFlat ''read auth packet failed'' e)) \<and> cl = []))"
  using assms
proof (induction evs arbitrary: p)
  case (Cons ev evs)
  show ?case
  proof (cases ev)
    case (UdpGot buf)
    obtain q b where q: "isAuthSuccessful P buf p = (q, b)" by (metis surj_pair)
    note k = isAuth_keeps [OF q]
    show ?thesis
    proof (cases b)
      case True
      with UdpGot q k Cons.prems show ?thesis by simp
    next
      case False
      with UdpGot q Cons.prems have "udp_path P conn evs q = (p', r, cl)" by simp
      from Cons.IH [OF this] k show ?thesis by (auto intro: order_trans)
    qed
  next
    case (UdpTick err)
    with Cons show ?thesis by (cases err) auto
  qed (use Cons in auto)
qed simp

lemma path_spec:
  assumes "(if k_proxyTCP p then (case renewTcpPath P dial sendErr recv p of (p2, r, cl) \<Rightarrow> (p2, Some r, cl))
      else renewUdpPath P dial sendErr evs p) = (p2, r, cl)" and "k_backend p = None"
  shows "k_backend p2 = None \<and> k_serial p \<le> k_serial p2
    \<and> (\<forall>conn. r = Some (Inr conn) \<longrightarrow> dial = Inr conn)
    \<and> (\<forall>conn. dial = Inr conn \<and> r \<noteq> None \<longrightarrow> r = Some (Inr conn) \<or> conn \<in> set cl
         \<or> \<not> k_proxyTCP p \<and> (\<exists>e. UdpReadErr e \<in> set evs \<and> r = Some (Inl (ErrFlat ''read auth packet failed'' e))))"
proof (cases dial)
  case (Inl e)
  with assms show ?thesis by (auto simp: renewTcpPath_def renewUdpPath_def split: if_splits)
next
  case (Inr conn)
  show ?thesis
  proof (cases sendErr)
    case (Some e)
    with Inr assms show ?thesis by (auto simp: renewTcpPath_def renewUdpPath_def split: if_splits)
  next
    case None
    show ?thesis
    proof (cases "k_proxyTCP p")
      case False
      with Inr None assms(1) have "udp_path P conn evs p = (p2, r, cl)" by (simp add: renewUdpPath_def)
      from udp_path_spec [OF this] Inr False assms(2) show ?thesis by auto
    next
      case True
      show ?thesis
      proof (cases recv)
        case (Inl e)
        with True Inr None assms show ?thesis by (auto simp: renewTcpPath_def)
      next
        case (Inr buf)
        obtain q b where q: "isAuthSuccessful P buf p = (q, b)" by (metis surj_pair)
        from isAuth_keeps [OF q] q True Inr \<open>dial = Inr conn\<close> None assms show ?thesis
          by (cases b) (auto simp: renewTcpPath_def)
      qed
    qed
  qed
qed

definition demo_client :: "byte clientProxy" where
  "demo_client = \<lparr>k_closed = False, k_backend = None, k_proxyTCP = False, k_proxyCmds = False, k_cipher = 7,
     k_clientID = 5, k_serverID = 9, k_serial = 1, k_sentPackets = 0, k_sentBytes = 0, k_recvPackets = 0, k_recvBytes = 0\<rparr>"

section \<open>Properties\<close>

text \<open>
  C17. A client can move to a new path: whatever the server has been through, if the client is not closed at the
  server, its serial number is above the one the server knows and it now sends from an address that no client has,
  then its authentication packet is accepted and answered, the client recognises the answer, the first transport
  packet from that address, if it is longer than the 16 bytes up to which packets are dropped, is handed over as the
  client's, and from then on the server
  sends the client's packets to that address and knows the client by no other effective address.
\<close>

theorem path_migration:
  assumes "startServerProxy att sock tcp kcp k fresh cid sid = Inr p0"
    and "run_acts (px_exec P) acts (px_init single p0) = Some s" and "p = r_proxy s"
    and "prims_ok P" "length nonce = gcmNonceSize" "length nonce' = gcmNonceSize"
    and "p_cipher p = k_cipher c" "p_serverID p = k_serverID c" "p_Attachable p \<or> p_clientID p = k_clientID c"
    and "ser p (k_clientID c) < k_serial c" "\<not> shut p (k_clientID c)" "snd (getClient (k_clientID c) p) \<noteq> None"
    and "\<forall>j. \<not> has_addr c_addr a j p \<and> \<not> has_addr c_authed a j p"
    and "openAuthPacket P buf p = None" "length buf > kSafeToDropPacketLen"
  shows "\<exists>p1 reply p2. read_step P nonce' a (sendAuthPacket P nonce c) p = (p1, [Reply a reply])
      \<and> isAuthSuccessful P reply c = (c, True)
      \<and> read_step P nonce' a buf p1 = (p2, [NewClientConn (k_clientID c), Deliver (k_clientID c) buf])
      \<and> front_writeTo (k_clientID c) p2 = Inr a"
proof -
  let ?i = "k_clientID c"
  have fe: "fe_inv p"
    using front.run_inv [OF px_init_inv [OF assms(1)] assms(2)] assms(3) by (simp add: px_inv_def)
  have open1: "openAuthPacket P (sendAuthPacket P nonce c) p = Some (?i, k_serial c)"
    by (rule auth_packet_opens [OF assms(4,5,7,9)])
  let ?reply = "sealAuthPacket P nonce' (k_serial c) p"
  obtain x where s1: "read_step P nonce' a (sendAuthPacket P nonce c) p =
      (accept_auth ?i (k_serial c) a (cached p x), [Reply a ?reply])"
    using read_unknown_accepts [OF fe assms(13) open1 assms(10-12)] by blast
  let ?p1 = "accept_auth ?i (k_serial c) a (cached p x)"
  have "fe_inv (cached p x)" using fe by simp
  note e = accept_auth_effect [OF this, of a ?i, unfolded cached_views cached_simps, OF assms(13) _ assms(11)
      getClient_cached [OF assms(12)], where n = "k_serial c"]
  have own: "p_Attachable p \<or> ?i = p_clientID p" using assms(9) by auto
  note e1 = e(1,6) [OF own]
  have open2: "openAuthPacket P buf ?p1 = None" using assms(14) by (simp add: openAuth_accept)
  obtain y where s2: "read_step P nonce' a buf ?p1 =
      (setAuthedAddr ?i None None (setClientAddr ?i None (Some a) (cached ?p1 y)), NewClientConn ?i # deliver ?i buf)"
    using read_pending_promotes [OF e1(1,2) open2] by blast
  have "addr_of c_addr (setAuthedAddr ?i None None (setClientAddr ?i None (Some a) (cached ?p1 y))) ?i = Some a"
    using promote_effect [of a ?i "cached ?p1 y"] e1(2) by simp
  moreover have "isAuthSuccessful P ?reply c = (c, True)"
    using auth_reply_accepted [OF assms(4,6,7,8), of "k_serial c"] by simp
  ultimately show ?thesis
    using s1 s2 assms(15) by (auto simp: front_writeTo_def deliver_def)
qed

theorem path_migration_witness:
  "\<exists>p1 reply p2. read_step demo_prims (replicate 12 1) 3 (sendAuthPacket demo_prims (replicate 12 0) demo_client) demo_proxy
        = (p1, [Reply 3 reply])
      \<and> isAuthSuccessful demo_prims reply demo_client = (demo_client, True)
      \<and> read_step demo_prims (replicate 12 1) 3 (replicate 17 0) p1 = (p2, [NewClientConn 5, Deliver 5 (replicate 17 0)])
      \<and> front_writeTo 5 p2 = Inr 3"
proof -
  have run: "run_acts (px_exec demo_prims) [] (px_init True demo_proxy) = Some (px_init True demo_proxy)" by simp
  have k: "k_clientID demo_client = 5" "k_serial demo_client = 1" by (simp_all add: demo_client_def)
  have "p_cipher demo_proxy = k_cipher demo_client" "p_serverID demo_proxy = k_serverID demo_client" "p_Attachable demo_proxy"
    by (simp_all add: demo_proxy_def demo_client_def startServerProxy_def Let_def)
  moreover have "ser demo_proxy 5 < 1" "\<not> shut demo_proxy 5" "snd (getClient 5 demo_proxy) \<noteq> None"
    by (simp_all add: demo_proxy_def startServerProxy_def Let_def ser_def shut_def getClient_def newClientState_def)
  moreover have "\<forall>j. \<not> has_addr c_addr 3 j demo_proxy \<and> \<not> has_addr c_authed 3 j demo_proxy"
    by (simp add: demo_proxy_def startServerProxy_def Let_def has_addr_def addr_of_def)
  moreover have "openAuthPacket demo_prims (replicate 17 0) demo_proxy = None" by code_simp
  ultimately show ?thesis
    using path_migration [OF demo_proxy_start run, of demo_proxy "replicate 12 0" "replicate 12 1" demo_client 3 "replicate 17 0"]
      demo_prims_ok
    unfolding k by (simp add: px_init_def gcmNonceSize_def kSafeToDropPacketLen_def)
qed

text \<open>
  The path in use follows the last renewal, and renewals do not lose connections: the connection a
  renewal leaves in place is the one it returned, and none while it waits or after it failed; the
  previous connection is closed; the serial number is at least the next one; and a connection that
  was dialed is returned or closed, unless over UDP reading the answer failed, when it is neither.
\<close>

lemma renewal_connections:
  assumes "renew_begin P proxied dial sendErr recv evs p = (p', r, closed)"
    and "k_serial p + 1 \<noteq> 0"
  shows "k_backend p' = (case r of Some (Inr conn) \<Rightarrow> Some conn | _ \<Rightarrow> None)
    \<and> (\<forall>c. k_backend p = Some c \<longrightarrow> c \<in> set closed)
    \<and> k_serial p < k_serial p'
    \<and> (\<forall>conn. dial = Inr conn \<and> r \<noteq> None \<and> (proxied \<or> \<not> k_proxyCmds p \<or> k_proxyTCP p) \<longrightarrow>
         r = Some (Inr conn) \<or> conn \<in> set closed
         \<or> \<not> k_proxyTCP p \<and> (\<exists>e. UdpReadErr e \<in> set evs \<and> r = Some (Inl (ErrFlat ''read auth packet failed'' e))))"
proof -
  define p1 where "p1 = p\<lparr>k_serial := k_serial p + 1, k_backend := None\<rparr>"
  define cl1 where "cl1 = (case k_backend p of None \<Rightarrow> [] | Some c \<Rightarrow> [c])"
  have p1: "k_backend p1 = None" "k_serial p1 = k_serial p + 1" "k_proxyTCP p1 = k_proxyTCP p"
      "k_proxyCmds p1 = k_proxyCmds p"
    by (simp_all add: p1_def)
  have less: "k_serial p < k_serial p + 1" using assms(2) unatSuc [of "k_serial p"] by (simp add: word_less_nat_alt add.commute)
  have clear: "clearBackendConn None (p\<lparr>k_serial := k_serial p + 1\<rparr>) = (p1, k_backend p)"
    by (simp add: clearBackendConn_def p1_def)
  show ?thesis
  proof (cases "\<not> proxied \<and> k_proxyCmds p \<and> \<not> k_proxyTCP p")
    case True
    with assms(1) p1 less show ?thesis by (auto simp: renew_begin_def Let_def clear)
  next
    case False
    obtain p2 r2 cl2 where path: "(if k_proxyTCP p1
         then (case renewTcpPath P dial sendErr recv p1 of (p2, r, cl) \<Rightarrow> (p2, Some r, cl))
         else renewUdpPath P dial sendErr evs p1) = (p2, r2, cl2)" by (metis prod_cases3)
    note spec = path_spec [OF path p1(1)]
    have "r = r2" "closed = cl1 @ cl2"
      "p' = (case r2 of Some (Inr conn) \<Rightarrow> p2\<lparr>k_backend := Some conn\<rparr> | _ \<Rightarrow> p2)"
      using assms(1) path False p1
      by (auto simp: renew_begin_def Let_def clear cl1_def split: option.splits sum.splits)
    moreover have "k_backend p' = (case r of Some (Inr conn) \<Rightarrow> Some conn | _ \<Rightarrow> None) \<and> k_serial p' = k_serial p2"
      using calculation spec by (cases r2; cases "the r2") auto
    moreover have "\<forall>c. k_backend p = Some c \<longrightarrow> c \<in> set cl1" by (simp add: cl1_def)
    ultimately show ?thesis using spec less p1(2,3) by (auto intro: less_le_trans)
  qed
qed

lemma renewal_connections_witness:
  "\<exists>p'. renew_begin demo_prims False (Inr 8) None (Inl ErrEOF) [UdpTick None, UdpTimeout]
       (demo_client\<lparr>k_backend := Some 7\<rparr>) = (p', Some (Inl (ErrText ''renew path timeout'')), [7, 8])
     \<and> k_backend p' = None \<and> k_serial p' > 1"
proof -
  let ?r = "renew_begin demo_prims False (Inr 8) None (Inl ErrEOF) [UdpTick None, UdpTimeout] (demo_client\<lparr>k_backend := Some 7\<rparr>)"
  have "snd ?r = (Some (Inl (ErrText ''renew path timeout'')), [7, 8])" by code_simp
  then obtain p' where p': "?r = (p', Some (Inl (ErrText ''renew path timeout'')), [7, 8])"
    by (metis prod.collapse)
  have "k_serial (demo_client\<lparr>k_backend := Some 7\<rparr>) = 1" by (simp add: demo_client_def)
  with renewal_connections [OF p'] p' show ?thesis by simp
qed

end
