(* ===== verification/ProxyTcp.thy ===== *)
theory ProxyTcp
  imports ProxyServer Codec
begin

text \<open>
  The TCP front end of the server proxy (\<open>proxy_server.go\<close>): the handshakes, each a goroutine of its
  own that interleaves with the others at its reads and writes of the shared serial number and
  connection, and the reading of frames, which in attachable mode is split between the goroutine of
  the connection and the reader.
\<close>

section \<open>Handshakes\<close>

text \<open>Where a handshake is: about to read the packet, before its compare-and-swap, after it, ended.\<close>

datatype hs =
    HsRead reader
  | HsLoaded u64 u64 u64
  | HsAccepted u64 u64
  | HsDone
  | HsFailed

record ('k, 's) tcp_run =
  t_proxy :: "(unit, 'k, 's) serverProxy"
  t_hs :: "hs list"
  t_closed :: "nat list"
  t_accepted :: "(u64 \<times> u64) list"

definition hs_fail :: "nat \<Rightarrow> ('k, 's) tcp_run \<Rightarrow> ('k, 's) tcp_run" where
  "hs_fail j s = s\<lparr>t_hs := (t_hs s)[j := HsFailed], t_closed := j # t_closed s\<rparr>"

text \<open>The packet is read and opened, and the serial number of the client loaded.\<close>

definition hs_read :: "('k, 's, 'p) prims \<Rightarrow> nat \<Rightarrow> reader \<Rightarrow> ('k, 's) tcp_run \<Rightarrow> ('k, 's) tcp_run" where
  "hs_read P j r s =
     (case recvUdpPacket 128 r of
        (Inl e, _) \<Rightarrow> hs_fail j s
      | (Inr buf, _) \<Rightarrow>
          (case openAuthPacket P buf (t_proxy s) of
             None \<Rightarrow> hs_fail j s
           | Some (i, newSerial) \<Rightarrow>
               (case getClient i (t_proxy s) of
                  (p, None) \<Rightarrow> hs_fail j (s\<lparr>t_proxy := p\<rparr>)
                | (p, Some c) \<Rightarrow>
                    if c_closed c \<or> newSerial \<le> c_serial c then hs_fail j (s\<lparr>t_proxy := p\<rparr>)
                    else s\<lparr>t_proxy := p, t_hs := (t_hs s)[j := HsLoaded i (c_serial c) newSerial]\<rparr>)))"

definition hs_swap :: "nat \<Rightarrow> u64 \<Rightarrow> u64 \<Rightarrow> u64 \<Rightarrow> ('k, 's) tcp_run \<Rightarrow> ('k, 's) tcp_run" where
  "hs_swap j i oldSerial newSerial s =
     (if p_clients (t_proxy s) i \<noteq> None \<and> ser (t_proxy s) i = oldSerial
      then s\<lparr>t_proxy := upd_client i (\<lambda>c. c\<lparr>c_serial := newSerial\<rparr>) (t_proxy s),
             t_hs := (t_hs s)[j := HsAccepted i newSerial], t_accepted := (i, newSerial) # t_accepted s\<rparr>
      else hs_fail j s)"

text \<open>The answer is sent (\<open>sendErr\<close>) and the connection becomes that of the client.\<close>

definition hs_finish :: "nat \<Rightarrow> u64 \<Rightarrow> go_error option \<Rightarrow> ('k, 's) tcp_run \<Rightarrow> ('k, 's) tcp_run" where
  "hs_finish j i sendErr s =
     (case sendErr of
        Some e \<Rightarrow> hs_fail j s
      | None \<Rightarrow>
          (case p_clients (t_proxy s) i of
             None \<Rightarrow> hs_fail j s
           | Some c \<Rightarrow>
               (case setClientConn None (Some j) c of (c', gone) \<Rightarrow>
                  s\<lparr>t_proxy := upd_client i (\<lambda>_. c') (t_proxy s), t_hs := (t_hs s)[j := HsDone],
                    t_closed := (case gone of None \<Rightarrow> [] | Some k \<Rightarrow> [k]) @ t_closed s\<rparr>)))"

datatype tcp_act =
    Accept reader
  | Step nat "go_error option"
  | Clear u64 "nat option"
  | Close u64

definition tcp_exec :: "('k, 's, 'p) prims \<Rightarrow> tcp_act \<Rightarrow> ('k, 's) tcp_run \<Rightarrow> ('k, 's) tcp_run option" where
  "tcp_exec P a s =
     (case a of
        Accept r \<Rightarrow> Some (s\<lparr>t_hs := t_hs s @ [HsRead r]\<rparr>)
      | Step j sendErr \<Rightarrow>
          if j < length (t_hs s) then
            (case t_hs s ! j of
               HsRead r \<Rightarrow> Some (hs_read P j r s)
             | HsLoaded i oldSerial newSerial \<Rightarrow> Some (hs_swap j i oldSerial newSerial s)
             | HsAccepted i newSerial \<Rightarrow> Some (hs_finish j i sendErr s)
             | _ \<Rightarrow> None)
          else None
      | Clear i old \<Rightarrow> Some (s\<lparr>t_proxy := upd_client i (\<lambda>c. fst (setClientConn old None c)) (t_proxy s)\<rparr>)
      | Close i \<Rightarrow> Some (s\<lparr>t_proxy := client_Close i (t_proxy s)\<rparr>))"

definition tcp_init :: "(unit, 'k, 's) serverProxy \<Rightarrow> ('k, 's) tcp_run" where
  "tcp_init p = \<lparr>t_proxy = p, t_hs = [], t_closed = [], t_accepted = []\<rparr>"

section \<open>Frames\<close>

text \<open>
  \<open>readLoop\<close> reads the length of a frame and signals it; \<open>readFrom\<close> then reads the frame itself from
  the same connection. The result of the first is the length, of the second the packet.
\<close>

definition readLoop_signal :: "reader \<Rightarrow> nat result \<times> reader" where
  "readLoop_signal r =
     (case read_full 2 r of
        (Inl e, r1) \<Rightarrow> (Inl e, r1)
      | (Inr buf, r1) \<Rightarrow> (Inr (unat (get_u16 buf)), r1))"

definition readFrom_frame :: "nat \<Rightarrow> nat \<Rightarrow> reader \<Rightarrow> bytes result \<times> reader" where
  "readFrom_frame blen n r = (if blen < n then (Inl ErrShortBuffer, r) else read_full n r)"

text \<open>\<open>writeTo\<close>: a failed write clears the connection if it is still the client's.\<close>

definition tcp_writeTo :: "bytes \<Rightarrow> writer \<Rightarrow> ('a, 'k, 's) clientState \<Rightarrow> ('a, 'k, 's) clientState \<times> writer \<times> go_error option" where
  "tcp_writeTo buf w c =
     (case c_conn c of
        None \<Rightarrow> (c, w, Some (ErrText ''client disconnected''))
      | Some conn \<Rightarrow>
          (case sendUdpPacket buf w of
             (Some e, w') \<Rightarrow> (fst (setClientConn (Some conn) None c), w', Some e)
           | (None, w') \<Rightarrow> (c, w', None)))"

section \<open>Lemmas\<close>

lemma split_frame_reads_packet:
  "n \<le> blen \<Longrightarrow> readLoop_signal r = (Inr n, r1) \<Longrightarrow> readFrom_frame blen n r1 = recvUdpPacket blen r"
  by (auto simp: readLoop_signal_def readFrom_frame_def recvUdpPacket_def Let_def split: prod.splits sum.splits)

definition accepted_of :: "u64 \<Rightarrow> ('k, 's) tcp_run \<Rightarrow> u64 list" where
  "accepted_of i s = map snd (filter (\<lambda>x. fst x = i) (t_accepted s))"

text \<open>The accepted serial numbers of a client fall from its current one, and pending ones are above what they loaded.\<close>

definition hs_ok :: "hs \<Rightarrow> bool" where
  "hs_ok h = (case h of HsLoaded i old new \<Rightarrow> old < new | _ \<Rightarrow> True)"

definition tcp_inv :: "('k, 's) tcp_run \<Rightarrow> bool" where
  "tcp_inv s \<longleftrightarrow>
     (\<forall>i. sorted_wrt (>) (accepted_of i s) \<and> (\<forall>n \<in> set (accepted_of i s). n \<le> ser (t_proxy s) i))
   \<and> list_all hs_ok (t_hs s)"

lemma ser_getClient: "ser (fst (getClient i p)) = ser p"
  by (rule getClient_views(3))

lemma ser_Close: "ser (client_Close i p) = ser p"
proof (cases "\<exists>c. p_clients p i = Some c \<and> \<not> c_closed c")
  case True
  then obtain c where c: "p_clients p i = Some c" "\<not> c_closed c" by blast
  have c1: "p_clients (setClientAddr i None None p) i = Some (c\<lparr>c_addr := None\<rparr>)"
    by (simp add: setClientAddr_eff(1) [OF c(1)])
  show ?thesis
    unfolding client_Close_alt [OF c] using c(1)
    by (auto simp: fun_eq_iff ser_def upd_client_def setAuthedAddr_eff(1) [OF c1] setClientAddr_eff(1) [OF c(1)] shut_down_def)
next
  case False
  then show ?thesis by (cases "p_clients p i") (simp_all add: client_Close_def)
qed

lemma list_all_update: "list_all Q xs \<Longrightarrow> Q x \<Longrightarrow> list_all Q (xs[j := x])"
  using set_update_subset_insert [of xs j x] by (auto simp: list_all_iff)

lemma hs_fail_inv: "tcp_inv s \<Longrightarrow> tcp_inv (hs_fail j s)"
  unfolding tcp_inv_def hs_fail_def accepted_of_def by (simp add: list_all_update hs_ok_def)

lemma tcp_inv_proxy: "tcp_inv s \<Longrightarrow> (\<And>i. ser (t_proxy s) i \<le> ser p i) \<Longrightarrow> tcp_inv (s\<lparr>t_proxy := p\<rparr>)"
  unfolding tcp_inv_def accepted_of_def by (auto intro: order_trans)

lemma tcp_inv_hs: "tcp_inv s \<Longrightarrow> hs_ok h \<Longrightarrow> tcp_inv (s\<lparr>t_hs := (t_hs s)[j := h]\<rparr>)"
  unfolding tcp_inv_def accepted_of_def by (simp add: list_all_update)

lemma hs_read_inv:
  assumes inv: "tcp_inv s"
  shows "tcp_inv (hs_read P j r s)"
proof -
  have p: "tcp_inv (s\<lparr>t_proxy := fst (getClient i (t_proxy s))\<rparr>)" for i
    by (rule tcp_inv_proxy [OF inv]) (simp add: ser_getClient)
  show ?thesis
  proof (cases "\<exists>buf r' i n p c. recvUdpPacket 128 r = (Inr buf, r') \<and> openAuthPacket P buf (t_proxy s) = Some (i, n)
      \<and> getClient i (t_proxy s) = (p, Some c) \<and> \<not> c_closed c \<and> c_serial c < n")
    case True
    then obtain buf r' i n p' c where c: "recvUdpPacket 128 r = (Inr buf, r')"
      "openAuthPacket P buf (t_proxy s) = Some (i, n)" "getClient i (t_proxy s) = (p', Some c)"
      "\<not> c_closed c" "c_serial c < n" by blast
    then have "hs_read P j r s = s\<lparr>t_proxy := p', t_hs := (t_hs s)[j := HsLoaded i (c_serial c) n]\<rparr>"
      by (auto simp: hs_read_def)
    then show ?thesis using tcp_inv_hs [OF p [of i], of "HsLoaded i (c_serial c) n" j] c by (simp add: hs_ok_def)
  next
    case False
    have "hs_read P j r s = hs_fail j s \<or> (\<exists>i. hs_read P j r s = hs_fail j (s\<lparr>t_proxy := fst (getClient i (t_proxy s))\<rparr>))"
    proof (cases "recvUdpPacket 128 r")
      case (Pair res r')
      show ?thesis
      proof (cases "\<exists>buf i n. res = Inr buf \<and> openAuthPacket P buf (t_proxy s) = Some (i, n)")
        case True
        then obtain buf i n where b: "res = Inr buf" "openAuthPacket P buf (t_proxy s) = Some (i, n)" by blast
        obtain p' x where g: "getClient i (t_proxy s) = (p', x)" by (metis surj_pair)
        show ?thesis
        proof (cases x)
          case None
          with g b Pair have "hs_read P j r s = hs_fail j (s\<lparr>t_proxy := fst (getClient i (t_proxy s))\<rparr>)"
            by (simp add: hs_read_def)
          then show ?thesis by blast
        next
          case (Some c)
          with False Pair b g have "c_closed c \<or> n \<le> c_serial c" by (metis not_le)
          with Some g b Pair have "hs_read P j r s = hs_fail j (s\<lparr>t_proxy := fst (getClient i (t_proxy s))\<rparr>)"
            by (simp add: hs_read_def)
          then show ?thesis by blast
        qed
      next
        case False
        with Pair show ?thesis by (auto simp: hs_read_def split: sum.split option.split)
      qed
    qed
    then show ?thesis using hs_fail_inv [OF inv] hs_fail_inv [OF p] by metis
  qed
qed

lemma hs_swap_inv:
  assumes inv: "tcp_inv s" and less: "old < new"
  shows "tcp_inv (hs_swap j i old new s)"
proof (cases "p_clients (t_proxy s) i \<noteq> None \<and> ser (t_proxy s) i = old")
  case False
  then have "hs_swap j i old new s = hs_fail j s" by (simp only: hs_swap_def if_False)
  then show ?thesis using hs_fail_inv [OF inv] by simp
next
  case True
  let ?p = "upd_client i (\<lambda>c. c\<lparr>c_serial := new\<rparr>) (t_proxy s)"
  have ser: "ser ?p = (ser (t_proxy s))(i := new)"
    using True by (auto simp: fun_eq_iff ser_def upd_client_def)
  have acc: "accepted_of k (hs_swap j i old new s) = (if k = i then new # accepted_of k s else accepted_of k s)" for k
    using True by (simp add: hs_swap_def accepted_of_def)
  have below: "n \<in> set (accepted_of i s) \<Longrightarrow> n < new" for n
    using inv True less unfolding tcp_inv_def by (metis le_less_trans)
  have hs: "list_all hs_ok (t_hs (hs_swap j i old new s))" and pr: "t_proxy (hs_swap j i old new s) = ?p"
    using inv True by (simp_all add: hs_swap_def tcp_inv_def list_all_update hs_ok_def)
  show ?thesis
    using inv below hs unfolding tcp_inv_def acc pr ser by (auto intro: less_imp_le)
qed

lemma hs_finish_inv:
  assumes inv: "tcp_inv s"
  shows "tcp_inv (hs_finish j i sendErr s)"
proof (cases "sendErr = None \<and> p_clients (t_proxy s) i \<noteq> None")
  case False
  then show ?thesis using hs_fail_inv [OF inv] by (auto simp: hs_finish_def split: option.split)
next
  case True
  then obtain c where c: "p_clients (t_proxy s) i = Some c" by blast
  obtain c' gone where s: "setClientConn None (Some j) c = (c', gone)" by (metis surj_pair)
  have "ser (upd_client i (\<lambda>_. c') (t_proxy s)) = ser (t_proxy s)"
    using c s by (auto simp: fun_eq_iff ser_def upd_client_def setClientConn_def)
  with tcp_inv_hs [OF tcp_inv_proxy [OF inv], of "upd_client i (\<lambda>_. c') (t_proxy s)" HsDone j]
  show ?thesis using True c s by (simp add: hs_finish_def hs_ok_def tcp_inv_def accepted_of_def)
qed

interpretation handshakes: machine "tcp_exec P" tcp_inv
proof
  fix s a t
  assume inv: "tcp_inv s" and step: "tcp_exec P a s = Some t"
  show "tcp_inv t"
  proof (cases a)
    case (Accept r)
    with step inv show ?thesis by (auto simp: tcp_exec_def tcp_inv_def accepted_of_def hs_ok_def)
  next
    case (Step j err)
    with step have "hs_ok (t_hs s ! j)" using inv by (auto simp: tcp_exec_def tcp_inv_def list_all_length split: if_splits)
    with Step step show ?thesis
      using hs_read_inv [OF inv] hs_swap_inv [OF inv] hs_finish_inv [OF inv]
      by (auto simp: tcp_exec_def hs_ok_def split: if_splits hs.splits)
  next
    case (Clear i old)
    have "ser (upd_client i (\<lambda>c. fst (setClientConn old None c)) (t_proxy s)) = ser (t_proxy s)"
      by (auto simp: fun_eq_iff ser_def upd_client_def setClientConn_def split: option.split prod.split)
    with Clear step tcp_inv_proxy [OF inv] show ?thesis by (auto simp: tcp_exec_def)
  next
    case (Close i)
    with step tcp_inv_proxy [OF inv, of "client_Close i (t_proxy s)"] show ?thesis
      by (auto simp: tcp_exec_def ser_Close)
  qed
qed

text \<open>A handshake that waits to install its connection was accepted with the serial number it holds.\<close>

definition pending_ok :: "('k, 's) tcp_run \<Rightarrow> bool" where
  "pending_ok s \<longleftrightarrow> (\<forall>i m. HsAccepted i m \<in> set (t_hs s) \<longrightarrow> (i, m) \<in> set (t_accepted s))"

lemma set_hs_update: "h \<in> set (hs[j := x]) \<Longrightarrow> h = x \<or> h \<in> set hs"
  using set_update_subset_insert [of hs j x] by blast

lemma hs_read_pending: "t_accepted (hs_read P j r s) = t_accepted s \<and> (HsAccepted i m \<in> set (t_hs (hs_read P j r s)) \<longrightarrow> HsAccepted i m \<in> set (t_hs s))"
  by (auto simp: hs_read_def hs_fail_def dest!: set_hs_update split: prod.split sum.split option.split)

lemma hs_finish_pending:
  "t_accepted (hs_finish j k e s) = t_accepted s \<and> (HsAccepted i m \<in> set (t_hs (hs_finish j k e s)) \<longrightarrow> HsAccepted i m \<in> set (t_hs s))"
  by (auto simp: hs_finish_def hs_fail_def dest!: set_hs_update split: prod.split option.split)

interpretation pending: machine "tcp_exec P" pending_ok
proof
  fix s a t
  assume inv: "pending_ok s" and step: "tcp_exec P a s = Some t"
  show "pending_ok t"
  proof (cases a)
    case (Step j err)
    show ?thesis
    proof (cases "t_hs s ! j")
      case (HsLoaded i old new)
      with Step step have "t = hs_swap j i old new s" by (simp add: tcp_exec_def split: if_splits)
      with inv show ?thesis by (auto simp: pending_ok_def hs_swap_def hs_fail_def dest!: set_hs_update)
    next
      case (HsRead r)
      with Step step have "t = hs_read P j r s" by (simp add: tcp_exec_def split: if_splits)
      with inv hs_read_pending [of P j r s] show ?thesis by (auto simp: pending_ok_def)
    next
      case (HsAccepted i new)
      with Step step have "t = hs_finish j i err s" by (simp add: tcp_exec_def split: if_splits)
      with inv hs_finish_pending [of j i err s] show ?thesis by (auto simp: pending_ok_def)
    qed (use Step step in \<open>simp_all add: tcp_exec_def split: if_splits\<close>)
  qed (use inv step in \<open>auto simp: tcp_exec_def pending_ok_def\<close>)
qed

text \<open>A handshake with a fresh serial number that runs alone is accepted and installs its connection.\<close>

lemma handshake_alone:
  assumes "recvUdpPacket 128 r = (Inr buf, r')" "openAuthPacket P buf (t_proxy s) = Some (i, n)"
    and "p_clients (t_proxy s) i = Some c" "\<not> c_closed c" "c_serial c < n" "k = length (t_hs s)"
  shows "\<exists>s' c'. run_acts (tcp_exec P) [Accept r, Step k None, Step k None, Step k None] s = Some s'
    \<and> t_hs s' = t_hs s @ [HsDone] \<and> p_clients (t_proxy s') i = Some c' \<and> c_serial c' = n \<and> c_conn c' = Some k
    \<and> t_accepted s' = (i, n) # t_accepted s"
proof -
  have "getClient i (t_proxy s) = (t_proxy s, Some c)" using assms(3) by (simp add: getClient_def)
  then have "hs_read P k r (s\<lparr>t_hs := t_hs s @ [HsRead r]\<rparr>) = s\<lparr>t_hs := t_hs s @ [HsLoaded i (c_serial c) n]\<rparr>"
    using assms by (simp add: hs_read_def)
  then show ?thesis
    using assms(3,6)
    by (simp add: tcp_exec_def hs_swap_def ser_def upd_client_def hs_finish_def setClientConn_def
        split: prod.split option.split)
qed

lemma sorted_desc_distinct: "sorted_wrt (>) (xs :: u64 list) \<Longrightarrow> distinct xs"
  by (induction xs) auto

definition demo_tcp :: "(byte, byte) tcp_run" where
  "demo_tcp = tcp_init (projr (startServerProxy True False True False 7 (Inl ErrEOF) 0 9))"

definition demo_reader :: "u64 \<Rightarrow> reader" where
  "demo_reader n = \<lparr>rd_chunks = [[0, 29] @ replicate 12 0 @ [7] @ put_u64 5 @ put_u64 n], rd_end = ErrEOF\<rparr>"

definition stale_run :: "tcp_act list" where
  "stale_run = [Accept (demo_reader 1), Step 0 None, Step 0 None, Accept (demo_reader 2), Step 1 None, Step 1 None,
     Step 1 None, Step 0 None]"

section \<open>Properties\<close>

text \<open>
  C28. No authentication packet opens two connections: however the handshakes of the TCP front end
  interleave with each other and with the clearing and closing of clients, the serial numbers that
  were accepted for a client are all different and strictly increase with time, up to the client's
  current one.
\<close>

theorem tcp_serials_increase:
  assumes "run_acts (tcp_exec P) acts (tcp_init p0) = Some s"
  shows "sorted_wrt (>) (accepted_of i s) \<and> distinct (accepted_of i s)
    \<and> (\<forall>n \<in> set (accepted_of i s). n \<le> ser (t_proxy s) i)"
proof -
  have "tcp_inv (tcp_init p0)" by (simp add: tcp_inv_def tcp_init_def accepted_of_def)
  from handshakes.run_inv [OF this assms] show ?thesis
    using sorted_desc_distinct unfolding tcp_inv_def by blast
qed

theorem tcp_serials_increase_witness:
  "\<exists>s. run_acts (tcp_exec demo_prims) stale_run demo_tcp = Some s \<and> accepted_of 5 s = [2, 1] \<and> distinct (accepted_of 5 s)"
proof -
  have "(case run_acts (tcp_exec demo_prims) stale_run demo_tcp of None \<Rightarrow> False | Some s \<Rightarrow> accepted_of 5 s = [2, 1])"
    by code_simp
  then obtain s where s: "run_acts (tcp_exec demo_prims) stale_run demo_tcp = Some s" "accepted_of 5 s = [2, 1]"
    by (auto split: option.split_asm)
  with tcp_serials_increase [OF s(1) [unfolded demo_tcp_def], of 5] show ?thesis by blast
qed

text \<open>
  C38. An older handshake can win: the compare-and-swap on the serial number and the installation of the connection are
  separate steps, so a handshake \<open>j\<close> that was accepted can stop between the two. In every reachable state in which one
  has, a newer handshake of the same client, with any higher serial number, is accepted and installs its connection
  \<open>k\<close>; when \<open>j\<close> then goes on, the client is still known by the serial number \<open>n\<close> of the newer handshake, but uses the
  connection of the older one, and the newer connection is closed.
\<close>

theorem stale_handshake_wins:
  assumes "run_acts (tcp_exec P) acts (tcp_init p0) = Some s"
    and "j < length (t_hs s)" "t_hs s ! j = HsAccepted i m"
    and "recvUdpPacket 128 r = (Inr buf, r')" "openAuthPacket P buf (t_proxy s) = Some (i, n)"
    and "p_clients (t_proxy s) i = Some c" "\<not> c_closed c" "c_serial c < n" "k = length (t_hs s)"
  shows "\<exists>u e s' d. run_acts (tcp_exec P) (acts @ [Accept r, Step k None, Step k None, Step k None]) (tcp_init p0) = Some u
    \<and> p_clients (t_proxy u) i = Some e \<and> c_conn e = Some k \<and> tcp_exec P (Step j None) u = Some s'
    \<and> p_clients (t_proxy s') i = Some d \<and> c_serial d = n \<and> m < n \<and> c_conn d = Some j \<and> k \<in> set (t_closed s')"
proof -
  have "pending_ok (tcp_init p0)" by (simp add: pending_ok_def tcp_init_def)
  from pending.run_inv [OF this assms(1)] assms(2,3) have acc: "m \<in> set (accepted_of i s)"
    by (force simp: pending_ok_def accepted_of_def dest: nth_mem)
  have "tcp_inv (tcp_init p0)" by (simp add: tcp_inv_def tcp_init_def accepted_of_def)
  from handshakes.run_inv [OF this assms(1)] acc have "m \<le> ser (t_proxy s) i" by (auto simp: tcp_inv_def)
  with assms(6,8) have less: "m < n" by (simp add: ser_def)
  from handshake_alone [OF assms(4-9)] obtain u c' where
    u: "run_acts (tcp_exec P) [Accept r, Step k None, Step k None, Step k None] s = Some u" "t_hs u = t_hs s @ [HsDone]"
      "p_clients (t_proxy u) i = Some c'" "c_serial c' = n" "c_conn c' = Some k" by blast
  have "tcp_exec P (Step j None) u = Some (hs_finish j i None u)"
    using assms(2,3) u(2) by (simp add: tcp_exec_def nth_append)
  moreover have "p_clients (t_proxy (hs_finish j i None u)) i = Some (c'\<lparr>c_conn := Some j\<rparr>) \<and> k \<in> set (t_closed (hs_finish j i None u))"
    using u by (simp add: hs_finish_def setClientConn_def swap_old_def upd_client_def)
  moreover have "run_acts (tcp_exec P) (acts @ [Accept r, Step k None, Step k None, Step k None]) (tcp_init p0) = Some u"
    using assms(1) u(1) by (simp add: run_acts_append)
  ultimately show ?thesis using u less by auto
qed

theorem stale_handshake_wins_witness:
  "\<exists>s u s' d. run_acts (tcp_exec demo_prims) (take 3 stale_run) demo_tcp = Some s
     \<and> run_acts (tcp_exec demo_prims) (take 3 stale_run @ take 4 (drop 3 stale_run)) demo_tcp = Some u
     \<and> tcp_exec demo_prims (Step 0 None) u = Some s' \<and> p_clients (t_proxy s') 5 = Some d
     \<and> c_serial d = 2 \<and> c_conn d = Some 0 \<and> 1 \<in> set (t_closed s')"
proof -
  let ?buf = "replicate 12 0 @ [7] @ put_u64 5 @ put_u64 2"
  have "(case run_acts (tcp_exec demo_prims) (take 3 stale_run) demo_tcp of
      None \<Rightarrow> False
    | Some s \<Rightarrow> t_hs s = [HsAccepted 5 1] \<and> openAuthPacket demo_prims ?buf (t_proxy s) = Some (5, 2)
        \<and> (case p_clients (t_proxy s) 5 of None \<Rightarrow> False | Some c \<Rightarrow> \<not> c_closed c \<and> c_serial c < 2))"
    by code_simp
  then obtain s c where s: "run_acts (tcp_exec demo_prims) (take 3 stale_run) demo_tcp = Some s" "t_hs s = [HsAccepted 5 1]"
      "openAuthPacket demo_prims ?buf (t_proxy s) = Some (5, 2)"
    and c: "p_clients (t_proxy s) 5 = Some c" "\<not> c_closed c" "c_serial c < 2"
    by (auto split: option.split_asm)
  have r: "recvUdpPacket 128 (demo_reader 2) = (Inr ?buf, snd (recvUdpPacket 128 (demo_reader 2)))" by code_simp
  have j: "0 < length (t_hs s)" "t_hs s ! 0 = HsAccepted 5 1" "1 = length (t_hs s)" using s(2) by simp_all
  from stale_handshake_wins [OF s(1) [unfolded demo_tcp_def] j(1,2) r s(3) c j(3)] s(1) show ?thesis
    by (auto simp: stale_run_def demo_tcp_def)
qed

end
