(* ===== verification/Datagram.thy ===== *)
theory Datagram
  imports Machine Codec "HOL-Library.Sublist"
begin

text \<open>
  Forwarding of datagrams (\<open>datagram.go\<close>): a \<open>udpForwarder\<close> tags every datagram with the number of its
  channel and distributes what arrives over the channels of its connections; a listener keeps one
  forwarding session per peer, which collects packets until the client has accepted it.
\<close>

section \<open>Tags\<close>

definition kUdpForwardChannelIdSize :: nat where "kUdpForwardChannelIdSize = 8"

definition kMaxUdpForwardPendingPackets :: nat where "kMaxUdpForwardPendingPackets = 1024"

definition tag_datagram :: "u64 \<Rightarrow> bytes \<Rightarrow> bytes" where
  "tag_datagram i buf = buf @ put_u64 i"

definition datagram_id :: "bytes \<Rightarrow> u64" where
  "datagram_id buf = get_u64 (drop (length buf - kUdpForwardChannelIdSize) buf)"

definition datagram_payload :: "bytes \<Rightarrow> bytes" where
  "datagram_payload buf = take (length buf - kUdpForwardChannelIdSize) buf"

text \<open>\<open>send\<close> is the transport's \<open>SendDatagram\<close>; the result tells whether the datagram was sent.\<close>

definition sendDatagram :: "bool \<Rightarrow> nat \<Rightarrow> (bytes \<Rightarrow> go_error option) \<Rightarrow> u64 \<Rightarrow> bytes \<Rightarrow> bytes option" where
  "sendDatagram closed maxSize send i buf =
     (if closed then None
      else if length buf > maxSize then None
      else if send (tag_datagram i buf) \<noteq> None then None
      else Some (tag_datagram i buf))"

section \<open>The forwarder\<close>

text \<open>
  A channel with its number, its buffer and everything that was put into it. The worker runs, drains the
  closing queue after the connection failed or was closed, or is done. \<open>u_arrived\<close> are the datagrams
  the connection delivered to it.
\<close>

record channel =
  ch_id :: u64
  ch_queue :: "bytes list"
  ch_closed :: bool
  ch_all :: "bytes list"

datatype fw_worker = FwNone | FwRun | FwDrain | FwDone

record udpForwarder =
  u_channelMap :: "u64 \<Rightarrow> nat option"
  u_channels :: "channel list"
  u_closing :: "u64 list"
  u_closed :: bool
  u_worker :: fw_worker
  u_arrived :: "bytes list"
  u_panic :: bool

definition upd_channel :: "nat \<Rightarrow> (channel \<Rightarrow> channel) \<Rightarrow> udpForwarder \<Rightarrow> udpForwarder" where
  "upd_channel c f u = (if c < length (u_channels u) then u\<lparr>u_channels := (u_channels u)[c := f (u_channels u ! c)]\<rparr> else u)"

definition startWorker :: "udpForwarder \<Rightarrow> udpForwarder" where
  "startWorker u = (if u_worker u = FwNone then u\<lparr>u_worker := FwRun\<rparr> else u)"

definition addChannel :: "u64 \<Rightarrow> udpForwarder \<Rightarrow> udpForwarder \<times> nat option" where
  "addChannel i u =
     (if u_closed u then (u, None)
      else let u1 = startWorker u; c = length (u_channels u1)
        in (u1\<lparr>u_channels := u_channels u1 @ [\<lparr>ch_id = i, ch_queue = [], ch_closed = False, ch_all = []\<rparr>],
               u_channelMap := (u_channelMap u1)(i := Some c)\<rparr>, Some c))"

text \<open>\<open>None\<close>: the closing queue is full and the caller waits.\<close>

definition removeChannel :: "u64 \<Rightarrow> udpForwarder \<Rightarrow> udpForwarder option" where
  "removeChannel i u =
     (if u_closed u then Some u
      else let u1 = startWorker u
        in if length (u_closing u1) < 10 then Some (u1\<lparr>u_closing := u_closing u1 @ [i]\<rparr>) else None)"

definition close_channel :: "nat \<Rightarrow> udpForwarder \<Rightarrow> udpForwarder" where
  "close_channel c u =
     (if c < length (u_channels u) \<and> ch_closed (u_channels u ! c) then u\<lparr>u_panic := True\<rparr>
      else upd_channel c (\<lambda>ch. ch\<lparr>ch_closed := True\<rparr>) u)"

definition close_id :: "u64 \<Rightarrow> udpForwarder \<Rightarrow> udpForwarder" where
  "close_id i u =
     (case u_channelMap u i of
        None \<Rightarrow> u
      | Some c \<Rightarrow> close_channel c (u\<lparr>u_channelMap := (u_channelMap u)(i := None)\<rparr>))"

text \<open>A datagram reaches the worker; the reader goroutine has dropped those without a tag.\<close>

definition worker_datagram :: "bytes \<Rightarrow> udpForwarder \<Rightarrow> udpForwarder" where
  "worker_datagram buf u =
     (if length buf < kUdpForwardChannelIdSize then u
      else let u1 = u\<lparr>u_arrived := u_arrived u @ [buf]\<rparr>
        in (case u_channelMap u1 (datagram_id buf) of
              None \<Rightarrow> u1
            | Some c \<Rightarrow>
                if c < length (u_channels u1) \<and> ch_closed (u_channels u1 ! c) then u1\<lparr>u_panic := True\<rparr>
                else upd_channel c (\<lambda>ch. if length (ch_queue ch) < 1024
                    then ch\<lparr>ch_queue := ch_queue ch @ [datagram_payload buf], ch_all := ch_all ch @ [datagram_payload buf]\<rparr>
                    else ch) u1))"

text \<open>The worker takes a number off the closing queue, in its loop or while draining.\<close>

definition worker_closing :: "udpForwarder \<Rightarrow> udpForwarder option" where
  "worker_closing u =
     (case u_closing u of
        [] \<Rightarrow> None
      | i # is \<Rightarrow> Some (close_id i (u\<lparr>u_closing := is\<rparr>)))"

text \<open>
  The loop ends when the reader goroutine has (the connection failed) or when the closing queue is
  closed and empty; the draining ends with the latter, and then all remaining channels are closed.
\<close>

definition worker_leave :: "bool \<Rightarrow> udpForwarder \<Rightarrow> udpForwarder option" where
  "worker_leave connFailed u =
     (if u_worker u = FwRun \<and> (connFailed \<or> u_closed u \<and> u_closing u = []) then Some (u\<lparr>u_worker := FwDrain\<rparr>) else None)"

definition worker_finish :: "udpForwarder \<Rightarrow> udpForwarder option" where
  "worker_finish u =
     (if u_worker u = FwDrain \<and> u_closed u \<and> u_closing u = []
      then Some ((fold close_channel
          (filter (\<lambda>c. u_channelMap u (ch_id (u_channels u ! c)) = Some c) [0..<length (u_channels u)]) u)\<lparr>u_worker := FwDone\<rparr>)
      else None)"

definition forwarder_Close :: "udpForwarder \<Rightarrow> udpForwarder" where
  "forwarder_Close u = (if u_closed u then u else u\<lparr>u_closed := True\<rparr>)"

text \<open>A connection receives the next packet of its channel.\<close>

definition channel_recv :: "nat \<Rightarrow> udpForwarder \<Rightarrow> udpForwarder option" where
  "channel_recv c u =
     (if c < length (u_channels u) \<and> ch_queue (u_channels u ! c) \<noteq> []
      then Some (upd_channel c (\<lambda>ch. ch\<lparr>ch_queue := tl (ch_queue ch)\<rparr>) u) else None)"

datatype udp_act =
    UAdd u64 | URemove u64 | UDatagram bytes | UClosing | ULeave bool | UFinish | UClose | URecv nat

definition udp_exec :: "udp_act \<Rightarrow> udpForwarder \<Rightarrow> udpForwarder option" where
  "udp_exec a u =
     (if u_panic u then None
      else (case a of
          UAdd i \<Rightarrow> Some (fst (addChannel i u))
        | URemove i \<Rightarrow> removeChannel i u
        | UDatagram buf \<Rightarrow> if u_worker u = FwRun then Some (worker_datagram buf u) else None
        | UClosing \<Rightarrow> if u_worker u = FwRun \<or> u_worker u = FwDrain then worker_closing u else None
        | ULeave connFailed \<Rightarrow> worker_leave connFailed u
        | UFinish \<Rightarrow> worker_finish u
        | UClose \<Rightarrow> Some (forwarder_Close u)
        | URecv c \<Rightarrow> channel_recv c u))"

definition new_forwarder :: udpForwarder where
  "new_forwarder = \<lparr>u_channelMap = (\<lambda>_. None), u_channels = [], u_closing = [], u_closed = False, u_worker = FwNone,
     u_arrived = [], u_panic = False\<rparr>"

section \<open>Forwarding sessions\<close>

text \<open>
  \<open>us_written\<close> is what was handed to the connection's \<open>Write\<close>, in order; \<open>us_ended\<close> that the session was
  released.
\<close>

record udpForwardSession =
  us_key :: string
  us_id :: u64
  us_pendingFlag :: bool
  us_pendingBuf :: "bytes list"
  us_written :: "bytes list"
  us_ended :: bool

definition us_doWrite :: "bytes \<Rightarrow> udpForwardSession \<Rightarrow> udpForwardSession" where
  "us_doWrite data se = se\<lparr>us_written := us_written se @ [data]\<rparr>"

definition us_writePacket :: "bytes \<Rightarrow> udpForwardSession \<Rightarrow> udpForwardSession" where
  "us_writePacket data se =
     (if us_pendingFlag se then
        if length (us_pendingBuf se) \<ge> kMaxUdpForwardPendingPackets then se
        else se\<lparr>us_pendingBuf := us_pendingBuf se @ [data]\<rparr>
      else us_doWrite data se)"

definition us_attachStream :: "udpForwardSession \<Rightarrow> udpForwardSession" where
  "us_attachStream se =
     (fold us_doWrite (us_pendingBuf se) (se\<lparr>us_pendingFlag := False\<rparr>))\<lparr>us_pendingBuf := []\<rparr>"

record udp_server =
  d_sessions :: "udpForwardSession list"
  d_map :: "string \<Rightarrow> nat option"
  d_pending :: "u64 \<Rightarrow> nat option"
  d_nextID :: u64

definition upd_us :: "nat \<Rightarrow> (udpForwardSession \<Rightarrow> udpForwardSession) \<Rightarrow> udp_server \<Rightarrow> udp_server" where
  "upd_us x f d = (if x < length (d_sessions d) then d\<lparr>d_sessions := (d_sessions d)[x := f (d_sessions d ! x)]\<rparr> else d)"

definition acquireUdpForwardSession :: "string \<Rightarrow> udp_server \<Rightarrow> udp_server \<times> nat \<times> bool" where
  "acquireUdpForwardSession key d =
     (case d_map d key of
        Some x \<Rightarrow> (d, x, True)
      | None \<Rightarrow>
          let i = d_nextID d + 1; x = length (d_sessions d)
          in (d\<lparr>d_nextID := i, d_map := (d_map d)(key := Some x),
                d_sessions := d_sessions d @ [\<lparr>us_key = key, us_id = i, us_pendingFlag = True, us_pendingBuf = [], us_written = [], us_ended = False\<rparr>]\<rparr>,
              x, False))"

definition releaseUdpForwardSession :: "nat \<Rightarrow> udp_server \<Rightarrow> udp_server" where
  "releaseUdpForwardSession x d =
     upd_us x (\<lambda>se. se\<lparr>us_ended := True\<rparr>) (d\<lparr>d_map := (d_map d)(us_key (d_sessions d ! x) := None)\<rparr>)"

definition takeUdpFwdPendingSession :: "u64 \<Rightarrow> udp_server \<Rightarrow> udp_server \<times> nat option" where
  "takeUdpFwdPendingSession i d = (d\<lparr>d_pending := (d_pending d)(i := None)\<rparr>, d_pending d i)"

definition addUdpFwdPendingSession :: "u64 \<Rightarrow> nat \<Rightarrow> udp_server \<Rightarrow> udp_server" where
  "addUdpFwdPendingSession i x d = d\<lparr>d_pending := (d_pending d)(i := Some x)\<rparr>"

text \<open>
  A packet from the peer \<open>key\<close> arrives at the listener; \<open>sendErr\<close> is the error of telling the client about
  a new session.
\<close>

definition listen_packet :: "string \<Rightarrow> bytes \<Rightarrow> go_error option \<Rightarrow> udp_server \<Rightarrow> udp_server" where
  "listen_packet key data sendErr d =
     (case acquireUdpForwardSession key d of
        (d1, x, exists) \<Rightarrow>
          let d2 = upd_us x (us_writePacket data) d1
          in if exists then d2
             else
               let i = us_id (d_sessions d2 ! x); d3 = addUdpFwdPendingSession i x d2
               in (case sendErr of
                     None \<Rightarrow> d3
                   | Some e \<Rightarrow> releaseUdpForwardSession x (fst (takeUdpFwdPendingSession i d3))))"

text \<open>The client accepts a session; \<open>ackErr\<close> is the error of the acknowledgement.\<close>

definition handleAcceptUdpEvent :: "u64 \<Rightarrow> go_error option \<Rightarrow> udp_server \<Rightarrow> udp_server \<times> go_error option" where
  "handleAcceptUdpEvent i ackErr d =
     (case takeUdpFwdPendingSession i d of
        (d1, None) \<Rightarrow> (d1, Some (ErrText ''invalid accept udp id''))
      | (d1, Some x) \<Rightarrow>
          (case ackErr of
             Some e \<Rightarrow> (d1, None)
           | None \<Rightarrow> (upd_us x us_attachStream d1, None)))"

datatype dg_act = DPacket string bytes "go_error option" | DAccept u64 "go_error option" | DEnd nat

text \<open>\<open>DEnd x\<close> is the end of an accepted session, which its handler releases.\<close>

definition dg_exec :: "dg_act \<Rightarrow> udp_server \<Rightarrow> udp_server option" where
  "dg_exec a d =
     (case a of
        DPacket key data sendErr \<Rightarrow> Some (listen_packet key data sendErr d)
      | DAccept i ackErr \<Rightarrow> Some (fst (handleAcceptUdpEvent i ackErr d))
      | DEnd x \<Rightarrow>
          if x < length (d_sessions d) \<and> \<not> us_pendingFlag (d_sessions d ! x) \<and> \<not> us_ended (d_sessions d ! x) then Some (releaseUdpForwardSession x d) else None)"

definition new_udp_server :: udp_server where
  "new_udp_server = \<lparr>d_sessions = [], d_map = (\<lambda>_. None), d_pending = (\<lambda>_. None), d_nextID = 0\<rparr>"

section \<open>Lemmas on forwarders\<close>

lemma tag_roundtrip: "datagram_id (tag_datagram i buf) = i" "datagram_payload (tag_datagram i buf) = buf"
  by (simp_all add: datagram_id_def datagram_payload_def tag_datagram_def kUdpForwardChannelIdSize_def)

lemma sendDatagram_tag:
  "sendDatagram cl m send i buf = Some wire \<Longrightarrow>
     datagram_id wire = i \<and> datagram_payload wire = buf \<and> length wire = length buf + kUdpForwardChannelIdSize"
  by (auto simp: sendDatagram_def tag_roundtrip split: if_splits)
    (simp add: tag_datagram_def kUdpForwardChannelIdSize_def)

definition of_channel :: "u64 \<Rightarrow> bytes list \<Rightarrow> bytes list" where
  "of_channel i ds = map datagram_payload (filter (\<lambda>d. datagram_id d = i) ds)"

definition channel_ok :: "bytes list \<Rightarrow> channel \<Rightarrow> bool" where
  "channel_ok arrived ch \<longleftrightarrow>
     subseq (ch_all ch) (of_channel (ch_id ch) arrived) \<and> suffix (ch_queue ch) (ch_all ch) \<and> length (ch_queue ch) \<le> 1024"

definition open_channels :: "(u64 \<Rightarrow> nat option) \<Rightarrow> channel list \<Rightarrow> bool" where
  "open_channels m chs \<longleftrightarrow> (\<forall>i c. m i = Some c \<longrightarrow> c < length chs \<and> ch_id (chs ! c) = i \<and> \<not> ch_closed (chs ! c))"

definition udp_inv :: "udpForwarder \<Rightarrow> bool" where
  "udp_inv u \<longleftrightarrow>
     \<not> u_panic u \<and> (u_worker u \<noteq> FwDone \<longrightarrow> open_channels (u_channelMap u) (u_channels u)) \<and>
     (u_worker u = FwDone \<longrightarrow> u_closed u) \<and> (u_worker u = FwNone \<or> u_worker u = FwDone \<longrightarrow> u_closing u = []) \<and>
     (\<forall>ch \<in> set (u_channels u). channel_ok (u_arrived u) ch)"

lemma channel_ok_arrived: "channel_ok ds ch \<Longrightarrow> channel_ok (ds @ [d]) ch"
  by (auto simp: channel_ok_def of_channel_def intro: subseq_order.trans [OF _ list_emb_append2])

lemma channels_upd:
  "(\<forall>ch \<in> set chs. channel_ok ds ch) \<Longrightarrow> channel_ok ds ch' \<Longrightarrow> \<forall>ch \<in> set (chs[c := ch']). channel_ok ds ch"
  using set_update_subset_insert [of chs c ch'] by auto

lemma open_upd:
  assumes "open_channels m chs" "\<And>i. m i = Some c \<Longrightarrow> c < length chs \<Longrightarrow> ch_id ch' = ch_id (chs ! c) \<and> \<not> ch_closed ch'"
  shows "open_channels m (chs[c := ch'])"
  unfolding open_channels_def
proof (intro allI impI)
  fix i k assume m: "m i = Some k"
  with assms(1) have k: "k < length chs" "ch_id (chs ! k) = i" "\<not> ch_closed (chs ! k)" by (auto simp: open_channels_def)
  with assms(2) [of i] m show "k < length (chs[c := ch']) \<and> ch_id (chs[c := ch'] ! k) = i \<and> \<not> ch_closed (chs[c := ch'] ! k)"
    by (cases "k = c") auto
qed

lemma close_id_inv:
  assumes inv: "udp_inv u" and w: "u_worker u \<noteq> FwDone"
  shows "udp_inv (close_id i u)"
proof (cases "u_channelMap u i")
  case None
  with inv show ?thesis by (simp add: close_id_def)
next
  case (Some c)
  let ?m = "(u_channelMap u)(i := None)" and ?ch = "(u_channels u ! c)\<lparr>ch_closed := True\<rparr>"
  have op: "open_channels (u_channelMap u) (u_channels u)" using inv w by (simp add: udp_inv_def)
  with Some have c: "c < length (u_channels u)" "ch_id (u_channels u ! c) = i" "\<not> ch_closed (u_channels u ! c)"
    by (auto simp: open_channels_def)
  have "open_channels ?m (u_channels u)" using op by (simp add: open_channels_def)
  moreover have "?m j \<noteq> Some c" for j using op c by (auto simp: open_channels_def)
  ultimately have "open_channels ?m ((u_channels u)[c := ?ch])" by (intro open_upd) auto
  moreover have "channel_ok (u_arrived u) (u_channels u ! c)" using inv c(1) by (simp add: udp_inv_def)
  then have "channel_ok (u_arrived u) ?ch" by (simp add: channel_ok_def)
  ultimately show ?thesis
    using inv c w Some channels_upd [of "u_channels u" "u_arrived u" ?ch c]
    by (simp add: close_id_def close_channel_def upd_channel_def udp_inv_def)
qed

lemma worker_datagram_inv:
  assumes inv: "udp_inv u" and w: "u_worker u = FwRun"
  shows "udp_inv (worker_datagram buf u)"
proof -
  let ?ds = "u_arrived u @ [buf]"
  define u1 where "u1 = u\<lparr>u_arrived := ?ds\<rparr>"
  have inv1: "udp_inv u1" using inv by (auto simp: udp_inv_def u1_def channel_ok_arrived)
  show ?thesis
  proof (cases "u_channelMap u (datagram_id buf)")
    case None
    with inv inv1 show ?thesis by (simp add: worker_datagram_def u1_def Let_def)
  next
    case (Some c)
    have op: "open_channels (u_channelMap u) (u_channels u)" using inv w by (simp add: udp_inv_def)
    with Some have c: "c < length (u_channels u)" "ch_id (u_channels u ! c) = datagram_id buf" "\<not> ch_closed (u_channels u ! c)"
      by (auto simp: open_channels_def)
    let ?ch = "u_channels u ! c"
    define ch' where "ch' = (if length (ch_queue ?ch) < 1024
      then ?ch\<lparr>ch_queue := ch_queue ?ch @ [datagram_payload buf], ch_all := ch_all ?ch @ [datagram_payload buf]\<rparr> else ?ch)"
    have old: "channel_ok (u_arrived u) ?ch" using inv c by (simp add: udp_inv_def)
    have "channel_ok ?ds ch'"
    proof (cases "length (ch_queue ?ch) < 1024")
      case True
      have "of_channel (datagram_id buf) ?ds = of_channel (datagram_id buf) (u_arrived u) @ [datagram_payload buf]"
        by (simp add: of_channel_def)
      with old c(2) True show ?thesis by (auto simp: channel_ok_def ch'_def suffix_def intro: list_emb_append_mono)
    qed (use old channel_ok_arrived in \<open>simp add: ch'_def\<close>)
    then have chs: "\<forall>ch \<in> set ((u_channels u)[c := ch']). channel_ok ?ds ch"
      using inv1 by (intro channels_upd) (simp_all add: udp_inv_def u1_def)
    have op': "open_channels (u_channelMap u) ((u_channels u)[c := ch'])"
      by (rule open_upd [OF op]) (use c in \<open>simp add: ch'_def\<close>)
    have "worker_datagram buf u = (if length buf < kUdpForwardChannelIdSize then u else u1\<lparr>u_channels := (u_channels u)[c := ch']\<rparr>)"
      using c Some by (simp add: worker_datagram_def upd_channel_def u1_def Let_def ch'_def)
    then show ?thesis using chs op' inv w by (simp add: udp_inv_def u1_def)
  qed
qed

lemma close_all_inv:
  assumes "distinct cs" "\<forall>c \<in> set cs. c < length (u_channels u) \<and> \<not> ch_closed (u_channels u ! c)" "\<not> u_panic u"
    "\<forall>ch \<in> set (u_channels u). channel_ok (u_arrived u) ch"
  shows "\<not> u_panic (fold close_channel cs u) \<and> (\<forall>ch \<in> set (u_channels (fold close_channel cs u)). channel_ok (u_arrived u) ch)
    \<and> u_arrived (fold close_channel cs u) = u_arrived u \<and> u_closed (fold close_channel cs u) = u_closed u
    \<and> u_closing (fold close_channel cs u) = u_closing u"
  using assms
proof (induction cs arbitrary: u)
  case (Cons c cs)
  let ?ch = "(u_channels u ! c)\<lparr>ch_closed := True\<rparr>"
  define u1 where "u1 = close_channel c u"
  have u1: "u_channels u1 = (u_channels u)[c := ?ch]" "\<not> u_panic u1" "u_arrived u1 = u_arrived u" "u_closed u1 = u_closed u"
    "u_closing u1 = u_closing u"
    using Cons.prems by (simp_all add: u1_def close_channel_def upd_channel_def)
  have "channel_ok (u_arrived u) (u_channels u ! c)" using Cons.prems by simp
  then have "channel_ok (u_arrived u) ?ch" by (simp add: channel_ok_def)
  with channels_upd [OF Cons.prems(4)] have "\<forall>ch \<in> set (u_channels u1). channel_ok (u_arrived u1) ch" unfolding u1 by blast
  moreover have "\<forall>d \<in> set cs. d < length (u_channels u1) \<and> \<not> ch_closed (u_channels u1 ! d)"
    using Cons.prems(1,2) by (auto simp: u1 nth_list_update)
  ultimately show ?case using Cons.IH [of u1] Cons.prems(1) u1 by (simp add: u1_def [symmetric])
qed simp

lemma udp_exec_inv:
  assumes inv: "udp_inv u" and e: "udp_exec a u = Some u'"
  shows "udp_inv u'"
proof -
  have np: "\<not> u_panic u" using inv by (simp add: udp_inv_def)
  have start: "udp_inv (startWorker u)" using inv by (auto simp: udp_inv_def startWorker_def)
  show ?thesis
  proof (cases a)
    case (UAdd i)
    show ?thesis
    proof (cases "u_closed u")
      case False
      let ?u = "startWorker u" and ?ch = "\<lparr>ch_id = i, ch_queue = [], ch_closed = False, ch_all = []\<rparr>"
      have "u_worker ?u \<noteq> FwDone" using False inv by (simp add: startWorker_def udp_inv_def)
      then have "open_channels (u_channelMap ?u) (u_channels ?u)" using start by (simp add: udp_inv_def)
      then have "open_channels ((u_channelMap ?u)(i := Some (length (u_channels ?u)))) (u_channels ?u @ [?ch])"
        by (auto simp: open_channels_def nth_append less_SucI split: if_splits)
      moreover have "channel_ok (u_arrived ?u) ?ch" by (simp add: channel_ok_def)
      ultimately show ?thesis using UAdd e np False start by (auto simp: udp_exec_def addChannel_def Let_def udp_inv_def)
    qed (use UAdd e np inv in \<open>simp add: udp_exec_def addChannel_def\<close>)
  next
    case (URemove i)
    have "u_closed u \<or> u_worker (startWorker u) = FwRun \<or> u_worker (startWorker u) = FwDrain"
      using inv by (cases "u_worker u") (simp_all add: startWorker_def udp_inv_def)
    then have "u_closed u \<or> udp_inv ((startWorker u)\<lparr>u_closing := z\<rparr>)" for z using start by (auto simp: udp_inv_def)
    with URemove e np inv show ?thesis by (auto simp: udp_exec_def removeChannel_def Let_def split: if_splits)
  next
    case (UDatagram buf)
    with e np worker_datagram_inv [OF inv] show ?thesis by (auto simp: udp_exec_def split: if_splits)
  next
    case UClosing
    then obtain i r where c: "u_closing u = i # r" "u' = close_id i (u\<lparr>u_closing := r\<rparr>)" and w: "u_worker u \<noteq> FwDone"
      using e np by (auto simp: udp_exec_def worker_closing_def split: if_splits list.splits)
    have "udp_inv (u\<lparr>u_closing := r\<rparr>)" using inv c(1) by (auto simp: udp_inv_def)
    from close_id_inv [OF this] w c(2) show ?thesis by simp
  next
    case (ULeave f)
    then have "u' = u\<lparr>u_worker := FwDrain\<rparr>" "u_worker u = FwRun" using e np by (auto simp: udp_exec_def worker_leave_def split: if_splits)
    with inv show ?thesis by (simp add: udp_inv_def)
  next
    case UFinish
    let ?cs = "filter (\<lambda>c. u_channelMap u (ch_id (u_channels u ! c)) = Some c) [0..<length (u_channels u)]"
    from UFinish have u': "u' = (fold close_channel ?cs u)\<lparr>u_worker := FwDone\<rparr>" and w: "u_worker u = FwDrain" "u_closed u" "u_closing u = []"
      using e np by (auto simp: udp_exec_def worker_finish_def split: if_splits)
    have "open_channels (u_channelMap u) (u_channels u)" using inv w by (simp add: udp_inv_def)
    then have "\<forall>c \<in> set ?cs. c < length (u_channels u) \<and> \<not> ch_closed (u_channels u ! c)" by (auto simp: open_channels_def)
    from close_all_inv [OF _ this np] inv w show ?thesis unfolding u' by (simp add: udp_inv_def)
  next
    case UClose
    with e np have "u' = forwarder_Close u" by (simp add: udp_exec_def)
    with inv show ?thesis by (cases "u_closed u") (simp_all add: forwarder_Close_def udp_inv_def)
  next
    case (URecv c)
    let ?ch = "(u_channels u ! c)\<lparr>ch_queue := tl (ch_queue (u_channels u ! c))\<rparr>"
    from URecv have c: "c < length (u_channels u)" "ch_queue (u_channels u ! c) \<noteq> []" and u': "u' = u\<lparr>u_channels := (u_channels u)[c := ?ch]\<rparr>"
      using e np by (auto simp: udp_exec_def channel_recv_def upd_channel_def split: if_splits)
    have "channel_ok (u_arrived u) (u_channels u ! c)" using inv c(1) by (simp add: udp_inv_def)
    moreover have "suffix (tl q) xs" if "suffix q xs" for q xs :: "bytes list" using that by (metis suffix_order.trans suffix_tl)
    ultimately have ok: "channel_ok (u_arrived u) ?ch" by (auto simp: channel_ok_def)
    have "open_channels (u_channelMap u) ((u_channels u)[c := ?ch])" if "u_worker u \<noteq> FwDone"
      using inv that by (intro open_upd) (auto simp: udp_inv_def open_channels_def)
    with inv ok channels_upd [of "u_channels u" "u_arrived u" ?ch c] show ?thesis unfolding u' by (simp add: udp_inv_def)
  qed
qed

interpretation forwarder: machine udp_exec udp_inv
  by unfold_locales (rule udp_exec_inv)

lemma removal_waits: "udp_inv u \<Longrightarrow> removeChannel i u = None \<Longrightarrow> udp_exec UClosing u \<noteq> None"
  by (cases "u_worker u"; cases "u_closing u")
    (simp_all add: udp_inv_def udp_exec_def removeChannel_def startWorker_def worker_closing_def Let_def split: if_splits)

lemma new_forwarder_inv: "udp_inv new_forwarder"
  by (simp add: udp_inv_def new_forwarder_def open_channels_def)

section \<open>Lemmas on forwarding sessions\<close>

lemma fold_doWrite: "fold us_doWrite bs se = se\<lparr>us_written := us_written se @ bs\<rparr>"
  by (induction bs arbitrary: se) (simp_all add: us_doWrite_def)

text \<open>What a session forwards: the first packets from before the client accepted it, then all later ones.\<close>

lemma packets_in_order:
  assumes "us_pendingFlag se" "us_pendingBuf se = []"
  shows "us_written (fold us_writePacket later (us_attachStream (fold us_writePacket early se))) =
    us_written se @ take kMaxUdpForwardPendingPackets early @ later"
proof -
  have early: "fold us_writePacket ps t = t\<lparr>us_pendingBuf := take (max (length (us_pendingBuf t)) kMaxUdpForwardPendingPackets) (us_pendingBuf t @ ps)\<rparr>"
    if "us_pendingFlag t" for t ps
    using that
  proof (induction ps arbitrary: t)
    case (Cons p ps)
    then show ?case
      by (cases "length (us_pendingBuf t) \<ge> kMaxUdpForwardPendingPackets")
        (simp_all add: us_writePacket_def max_def not_le Suc_le_eq take_Cons')
  qed simp
  have later: "fold us_writePacket ps t = t\<lparr>us_written := us_written t @ ps\<rparr>" if "\<not> us_pendingFlag t" for t ps
    using that by (induction ps arbitrary: t) (simp_all add: us_writePacket_def us_doWrite_def)
  show ?thesis using assms by (simp add: early later us_attachStream_def fold_doWrite)
qed

text \<open>
  The invariant: the map holds the sessions that were not released under their keys, attached sessions
  are in it, and the sessions waiting for the client have forwarded nothing.
\<close>

definition dg_inv :: "udp_server \<Rightarrow> bool" where
  "dg_inv d \<longleftrightarrow>
     (\<forall>k y. d_map d k = Some y \<longrightarrow> y < length (d_sessions d) \<and> us_key (d_sessions d ! y) = k \<and> \<not> us_ended (d_sessions d ! y)) \<and>
     (\<forall>y < length (d_sessions d). \<not> us_pendingFlag (d_sessions d ! y) \<and> \<not> us_ended (d_sessions d ! y) \<longrightarrow>
        d_map d (us_key (d_sessions d ! y)) = Some y) \<and>
     (\<forall>i y. d_pending d i = Some y \<longrightarrow> y < length (d_sessions d) \<and> us_id (d_sessions d ! y) = i \<and> us_pendingFlag (d_sessions d ! y)
        \<and> d_map d (us_key (d_sessions d ! y)) = Some y) \<and>
     (\<forall>y < length (d_sessions d). us_pendingFlag (d_sessions d ! y) \<longrightarrow> us_written (d_sessions d ! y) = [])"

lemma dg_invD:
  assumes "dg_inv d"
  shows "d_map d k = Some y \<Longrightarrow> y < length (d_sessions d) \<and> us_key (d_sessions d ! y) = k \<and> \<not> us_ended (d_sessions d ! y)"
    and "y < length (d_sessions d) \<Longrightarrow> \<not> us_pendingFlag (d_sessions d ! y) \<Longrightarrow> \<not> us_ended (d_sessions d ! y) \<Longrightarrow>
      d_map d (us_key (d_sessions d ! y)) = Some y"
    and "d_pending d i = Some y \<Longrightarrow> y < length (d_sessions d) \<and> us_id (d_sessions d ! y) = i \<and> us_pendingFlag (d_sessions d ! y)
      \<and> d_map d (us_key (d_sessions d ! y)) = Some y"
    and "y < length (d_sessions d) \<Longrightarrow> us_pendingFlag (d_sessions d ! y) \<Longrightarrow> us_written (d_sessions d ! y) = []"
  using assms unfolding dg_inv_def by blast+

lemma dg_invI:
  assumes "\<And>k y. d_map d k = Some y \<Longrightarrow>
      y < length (d_sessions d) \<and> us_key (d_sessions d ! y) = k \<and> \<not> us_ended (d_sessions d ! y)"
    and "\<And>y. y < length (d_sessions d) \<Longrightarrow> \<not> us_pendingFlag (d_sessions d ! y) \<Longrightarrow> \<not> us_ended (d_sessions d ! y) \<Longrightarrow>
      d_map d (us_key (d_sessions d ! y)) = Some y"
    and "\<And>i y. d_pending d i = Some y \<Longrightarrow> y < length (d_sessions d) \<and> us_id (d_sessions d ! y) = i
      \<and> us_pendingFlag (d_sessions d ! y) \<and> d_map d (us_key (d_sessions d ! y)) = Some y"
    and "\<And>y. y < length (d_sessions d) \<Longrightarrow> us_pendingFlag (d_sessions d ! y) \<Longrightarrow> us_written (d_sessions d ! y) = []"
  shows "dg_inv d"
  using assms unfolding dg_inv_def by blast

definition stuck_peer :: "nat \<Rightarrow> string \<Rightarrow> udp_server \<Rightarrow> bool" where
  "stuck_peer x key d \<longleftrightarrow>
     d_map d key = Some x \<and> us_pendingFlag (d_sessions d ! x) \<and> (\<forall>i. d_pending d i \<noteq> Some x) \<and> dg_inv d"

lemma dg_upd:
  assumes inv: "dg_inv d" and y: "y < length (d_sessions d)"
    and f: "us_key (f (d_sessions d ! y)) = us_key (d_sessions d ! y)" "us_id (f (d_sessions d ! y)) = us_id (d_sessions d ! y)"
      "us_ended (f (d_sessions d ! y)) = us_ended (d_sessions d ! y)"
      "us_pendingFlag (f (d_sessions d ! y)) = us_pendingFlag (d_sessions d ! y)"
      "us_pendingFlag (d_sessions d ! y) \<Longrightarrow> us_written (f (d_sessions d ! y)) = us_written (d_sessions d ! y)"
  shows "dg_inv (upd_us y f d)"
proof -
  have nth: "us_key ((d_sessions d)[y := f (d_sessions d ! y)] ! z) = us_key (d_sessions d ! z)"
      "us_id ((d_sessions d)[y := f (d_sessions d ! y)] ! z) = us_id (d_sessions d ! z)"
      "us_ended ((d_sessions d)[y := f (d_sessions d ! y)] ! z) = us_ended (d_sessions d ! z)"
      "us_pendingFlag ((d_sessions d)[y := f (d_sessions d ! y)] ! z) = us_pendingFlag (d_sessions d ! z)"
      "us_pendingFlag (d_sessions d ! z) \<Longrightarrow>
        us_written ((d_sessions d)[y := f (d_sessions d ! y)] ! z) = us_written (d_sessions d ! z)" for z
    using f y by (cases "z = y"; simp)+
  show ?thesis using inv y by (simp add: dg_inv_def upd_us_def nth)
qed

lemma dg_append:
  assumes inv: "dg_inv d" and key: "d_map d key = None" and se: "us_key se = key" "us_pendingFlag se" "us_written se = []"
    and m: "m = (if us_ended se then d_map d else (d_map d)(key := Some (length (d_sessions d))))"
    and p: "\<And>i y. p i = Some y \<Longrightarrow> d_pending d i = Some y \<or> y = length (d_sessions d) \<and> \<not> us_ended se \<and> us_id se = i"
  shows "dg_inv (d\<lparr>d_nextID := j, d_map := m, d_sessions := d_sessions d @ [se], d_pending := p\<rparr>)"
proof -
  let ?n = "length (d_sessions d)" and ?ss = "d_sessions d @ [se]"
  have old: "d_map d k = Some y \<Longrightarrow> y < ?n \<and> us_key (d_sessions d ! y) = k \<and> \<not> us_ended (d_sessions d ! y)"
      "y < ?n \<Longrightarrow> \<not> us_pendingFlag (d_sessions d ! y) \<and> \<not> us_ended (d_sessions d ! y) \<Longrightarrow> d_map d (us_key (d_sessions d ! y)) = Some y"
      "d_pending d i = Some y \<Longrightarrow> y < ?n \<and> us_id (d_sessions d ! y) = i \<and> us_pendingFlag (d_sessions d ! y) \<and> d_map d (us_key (d_sessions d ! y)) = Some y"
      "y < ?n \<Longrightarrow> us_pendingFlag (d_sessions d ! y) \<Longrightarrow> us_written (d_sessions d ! y) = []" for k y i
    using inv unfolding dg_inv_def by blast+
  have nth: "?ss ! y = d_sessions d ! y" if "y < ?n" for y using that by (simp add: nth_append)
  have keep: "m k = Some y" if "d_map d k = Some y" for k y using that key m by auto
  have 1: "y < Suc ?n \<and> us_key (?ss ! y) = k \<and> \<not> us_ended (?ss ! y)" if "m k = Some y" for k y
  proof (cases "d_map d k = Some y")
    case True
    with old(1) [OF True] nth [of y] show ?thesis by simp
  next
    case False
    with that m have "k = key" "y = ?n" "\<not> us_ended se" by (auto split: if_splits)
    with se show ?thesis by simp
  qed
  have 2: "m (us_key (?ss ! y)) = Some y" if "y < Suc ?n" "\<not> us_pendingFlag (?ss ! y)" "\<not> us_ended (?ss ! y)" for y
  proof (cases "y < ?n")
    case True
    with that nth [OF True] old(2) [OF True] keep show ?thesis by simp
  next
    case False
    with that have "y = ?n" by simp
    with that se show ?thesis by simp
  qed
  have 3: "y < Suc ?n \<and> us_id (?ss ! y) = i \<and> us_pendingFlag (?ss ! y) \<and> m (us_key (?ss ! y)) = Some y" if "p i = Some y" for i y
    using p [OF that]
  proof
    assume "d_pending d i = Some y"
    with old(3) [OF this] nth [of y] keep show ?thesis by simp
  next
    assume "y = ?n \<and> \<not> us_ended se \<and> us_id se = i"
    with se m show ?thesis by simp
  qed
  have 4: "us_written (?ss ! y) = []" if "y < Suc ?n" "us_pendingFlag (?ss ! y)" for y
    using that nth [of y] old(4) [of y] se by (cases "y < ?n") (simp_all add: less_Suc_eq)
  show ?thesis unfolding dg_inv_def using 1 2 3 4 by simp
qed

lemma listen_packet_new:
  assumes "d_map d key = None"
  obtains se where "us_key se = key" "us_pendingFlag se" "us_written se = []" "us_id se = d_nextID d + 1"
    "us_ended se = (sendErr \<noteq> None)"
    "listen_packet key data sendErr d = d\<lparr>d_nextID := d_nextID d + 1,
       d_map := (if us_ended se then d_map d else (d_map d)(key := Some (length (d_sessions d)))),
       d_sessions := d_sessions d @ [se],
       d_pending := (d_pending d)(d_nextID d + 1 := (if us_ended se then None else Some (length (d_sessions d))))\<rparr>"
proof -
  let ?se = "us_writePacket data \<lparr>us_key = key, us_id = d_nextID d + 1, us_pendingFlag = True, us_pendingBuf = [],
      us_written = [], us_ended = False\<rparr>"
  have se: "us_key ?se = key" "us_id ?se = d_nextID d + 1" "us_pendingFlag ?se" "us_written ?se = []" "\<not> us_ended ?se"
    by (simp_all add: us_writePacket_def)
  have m: "(d_map d)(key := None) = d_map d" using assms by auto
  show thesis
  proof (cases sendErr)
    case None
    show thesis
      by (rule that [of ?se]) (use assms se None in \<open>simp_all add: listen_packet_def acquireUdpForwardSession_def Let_def
          upd_us_def addUdpFwdPendingSession_def\<close>)
  next
    case (Some e)
    show thesis
      by (rule that [of "?se\<lparr>us_ended := True\<rparr>"]) (use assms se Some m in \<open>simp_all add: listen_packet_def
          acquireUdpForwardSession_def Let_def upd_us_def addUdpFwdPendingSession_def releaseUdpForwardSession_def
          takeUdpFwdPendingSession_def\<close>)
  qed
qed

lemma listen_packet_inv:
  assumes inv: "dg_inv d"
  shows "dg_inv (listen_packet key data sendErr d)"
proof (cases "d_map d key")
  case (Some x)
  then have x: "x < length (d_sessions d)" using inv by (simp add: dg_inv_def)
  have "dg_inv (upd_us x (us_writePacket data) d)"
    by (rule dg_upd [OF inv x]) (simp_all add: us_writePacket_def us_doWrite_def)
  with Some show ?thesis by (simp add: listen_packet_def acquireUdpForwardSession_def)
next
  case None
  then show ?thesis
  proof (rule listen_packet_new [of _ _ sendErr data])
    fix se assume se: "us_key se = key" "us_pendingFlag se" "us_written se = []"
      and i: "us_id se = d_nextID d + 1"
      and eq: "listen_packet key data sendErr d = d\<lparr>d_nextID := d_nextID d + 1,
       d_map := (if us_ended se then d_map d else (d_map d)(key := Some (length (d_sessions d)))),
       d_sessions := d_sessions d @ [se],
       d_pending := (d_pending d)(d_nextID d + 1 := (if us_ended se then None else Some (length (d_sessions d))))\<rparr>"
    show ?thesis unfolding eq by (rule dg_append [OF inv None se refl]) (use i in \<open>auto split: if_splits\<close>)
  qed
qed

lemma accept_inv:
  assumes inv: "dg_inv d"
  shows "dg_inv (fst (handleAcceptUdpEvent i ackErr d))"
proof -
  define d1 where "d1 = d\<lparr>d_pending := (d_pending d)(i := None)\<rparr>"
  have inv1: "dg_inv d1" using inv by (simp add: dg_inv_def d1_def)
  show ?thesis
  proof (cases "d_pending d i = None \<or> ackErr \<noteq> None")
    case True
    with inv1 show ?thesis
      by (auto simp: handleAcceptUdpEvent_def takeUdpFwdPendingSession_def d1_def split: option.splits)
  next
    case False
    then obtain x where x: "d_pending d i = Some x" by auto
    with inv have xi: "x < length (d_sessions d)" "us_id (d_sessions d ! x) = i" "d_map d (us_key (d_sessions d ! x)) = Some x"
      by (auto simp: dg_inv_def)
    have other: "y \<noteq> x" if "d_pending d1 j = Some y" for j y using that inv xi(2) by (auto simp: dg_inv_def d1_def split: if_splits)
    let ?ss = "(d_sessions d1)[x := us_attachStream (d_sessions d1 ! x)]"
    have nth: "us_key (?ss ! z) = us_key (d_sessions d1 ! z)" "us_id (?ss ! z) = us_id (d_sessions d1 ! z)"
      "us_ended (?ss ! z) = us_ended (d_sessions d1 ! z)" for z
      using xi(1) by (cases "z = x"; simp add: us_attachStream_def fold_doWrite d1_def)+
    have flag: "us_pendingFlag (?ss ! z) \<longleftrightarrow> z \<noteq> x \<and> us_pendingFlag (d_sessions d1 ! z)" for z
      using xi(1) by (cases "z = x") (simp_all add: us_attachStream_def fold_doWrite d1_def)
    note i1 = dg_invD [OF inv1]
    have "dg_inv (d1\<lparr>d_sessions := ?ss\<rparr>)"
    proof (rule dg_invI, goal_cases)
      case (1 k y) then show ?case using i1(1) [of k y] by (simp add: nth)
    next
      case (2 y) then show ?case using i1(2) [of y] xi(3) nth(1) [of y]
        by (cases "y = x") (simp_all add: us_attachStream_def fold_doWrite flag d1_def)
    next
      case (3 j y) then show ?case using i1(3) [of j y] other [of j y] by (simp add: nth flag)
    next
      case (4 y) then show ?case using i1(4) [of y] by (simp add: flag)
    qed
    with False x xi(1) show ?thesis
      by (simp add: handleAcceptUdpEvent_def takeUdpFwdPendingSession_def d1_def upd_us_def)
  qed
qed

lemma release_inv:
  assumes inv: "dg_inv d" and x: "x < length (d_sessions d)" "\<not> us_pendingFlag (d_sessions d ! x)" "\<not> us_ended (d_sessions d ! x)"
  shows "dg_inv (releaseUdpForwardSession x d)"
proof -
  let ?k = "us_key (d_sessions d ! x)" and ?ss = "(d_sessions d)[x := (d_sessions d ! x)\<lparr>us_ended := True\<rparr>]"
  have k: "d_map d ?k = Some x" using inv x by (simp add: dg_inv_def)
  have nth: "us_key (?ss ! z) = us_key (d_sessions d ! z)" "us_id (?ss ! z) = us_id (d_sessions d ! z)"
    "us_pendingFlag (?ss ! z) = us_pendingFlag (d_sessions d ! z)" "us_written (?ss ! z) = us_written (d_sessions d ! z)"
    "us_ended (?ss ! z) \<longleftrightarrow> z = x \<or> us_ended (d_sessions d ! z)" for z
    using x(1) by (cases "z = x"; simp)+
  note i1 = dg_invD [OF inv]
  have "dg_inv (d\<lparr>d_map := (d_map d)(?k := None), d_sessions := ?ss\<rparr>)"
  proof (rule dg_invI, goal_cases)
    case (1 l y) then show ?case using i1(1) [of l y] by (auto simp: nth split: if_splits)
  next
    case (2 y) then show ?case using i1(2) [of y] k by (auto simp: nth)
  next
    case (3 j y) then show ?case using i1(3) [of j y] x(2) k by (auto simp: nth)
  next
    case (4 y) then show ?case using i1(4) [of y] by (simp add: nth)
  qed
  with x(1) show ?thesis by (simp add: releaseUdpForwardSession_def upd_us_def)
qed

lemma dg_exec_inv: "dg_inv d \<Longrightarrow> dg_exec a d = Some d' \<Longrightarrow> dg_inv d'"
  using listen_packet_inv [of d] accept_inv [of d] release_inv [of d]
  by (cases a) (auto simp: dg_exec_def split: if_splits)

interpretation forwards: machine dg_exec dg_inv
  by unfold_locales (rule dg_exec_inv)

lemma new_udp_server_inv: "dg_inv new_udp_server"
  by (simp add: dg_inv_def new_udp_server_def)

lemma stuck_listen:
  assumes st: "stuck_peer x key d"
  shows "stuck_peer x key (listen_packet k data sendErr d)"
proof -
  have s: "d_map d key = Some x" "us_pendingFlag (d_sessions d ! x)" "\<And>i. d_pending d i \<noteq> Some x" and inv: "dg_inv d"
    using st by (auto simp: stuck_peer_def)
  have x: "x < length (d_sessions d)" using inv s(1) by (simp add: dg_inv_def)
  have inv': "dg_inv (listen_packet k data sendErr d)" by (rule listen_packet_inv [OF inv])
  show ?thesis
  proof (cases "d_map d k")
    case (Some y)
    then have y: "y < length (d_sessions d)" using inv by (simp add: dg_inv_def)
    have "us_pendingFlag ((d_sessions d)[y := us_writePacket data (d_sessions d ! y)] ! x)"
      using s(2) y by (cases "y = x") (simp_all add: us_writePacket_def)
    with Some y s inv' show ?thesis by (simp add: stuck_peer_def listen_packet_def acquireUdpForwardSession_def upd_us_def)
  next
    case None
    then show ?thesis
    proof (rule listen_packet_new [of _ _ sendErr data])
      fix se assume eq: "listen_packet k data sendErr d = d\<lparr>d_nextID := d_nextID d + 1,
         d_map := (if us_ended se then d_map d else (d_map d)(k := Some (length (d_sessions d)))),
         d_sessions := d_sessions d @ [se],
         d_pending := (d_pending d)(d_nextID d + 1 := (if us_ended se then None else Some (length (d_sessions d))))\<rparr>"
      have "k \<noteq> key" using None s(1) by auto
      then show ?thesis using s x inv' unfolding stuck_peer_def eq by (auto simp: nth_append split: if_splits)
    qed
  qed
qed

lemma stuck_accept:
  assumes st: "stuck_peer x key d"
  shows "stuck_peer x key (fst (handleAcceptUdpEvent i ackErr d))"
proof -
  have "us_pendingFlag ((d_sessions d)[y := f] ! x)" if "y \<noteq> x" for y f using st that by (simp add: stuck_peer_def)
  moreover have "y \<noteq> x" if "d_pending d i = Some y" for y using st that by (auto simp: stuck_peer_def)
  ultimately have "us_pendingFlag ((d_sessions d)[y := f] ! x)" if "d_pending d i = Some y" for y f using that by blast
  then show ?thesis
    using st accept_inv [of d i ackErr]
    by (auto simp: stuck_peer_def handleAcceptUdpEvent_def takeUdpFwdPendingSession_def upd_us_def split: option.splits)
qed

lemma stuck_exec:
  assumes st: "stuck_peer x key d" and e: "dg_exec a d = Some d'"
  shows "stuck_peer x key d'"
proof (cases a)
  case (DEnd y)
  with e have y: "y < length (d_sessions d)" "\<not> us_pendingFlag (d_sessions d ! y)" "\<not> us_ended (d_sessions d ! y)"
    and d': "d' = releaseUdpForwardSession y d" by (auto simp: dg_exec_def split: if_splits)
  have inv: "dg_inv d" using st by (simp add: stuck_peer_def)
  have yx: "y \<noteq> x" using st y by (auto simp: stuck_peer_def)
  have "d_map d (us_key (d_sessions d ! y)) = Some y" using inv y by (simp add: dg_inv_def)
  then have "us_key (d_sessions d ! y) \<noteq> key" using st yx by (auto simp: stuck_peer_def)
  with st y yx release_inv [OF inv y] show ?thesis unfolding d' by (simp add: stuck_peer_def releaseUdpForwardSession_def upd_us_def)
qed (use e stuck_listen [OF st] stuck_accept [OF st] in \<open>auto simp: dg_exec_def\<close>)

interpretation stuck: machine dg_exec "stuck_peer x key" for x key
  by unfold_locales (rule stuck_exec)

section \<open>Properties\<close>

text \<open>
  C20. In every run of a forwarder, whatever the order in which channels are added, closed and read,
  datagrams arrive and the forwarder is closed, nothing is ever sent on or closed twice a closed channel
  (which would panic); what a connection's channel was given is a subsequence of the payloads of the
  datagrams that arrived tagged with its number, so no connection sees another's packets and none is
  reordered; what it still has to read is at most 1024 packets, the last of those. A connection that has
  to wait for room in the closing queue does not wait for nothing: the worker can take a number off it.
  The tag that \<open>sendDatagram\<close> appends is the number the other side reads, in front of it the packet.
\<close>

theorem datagram_channels:
  assumes "run_acts udp_exec acts new_forwarder = Some u"
  shows "\<not> u_panic u
    \<and> (\<forall>ch \<in> set (u_channels u). subseq (ch_all ch) (of_channel (ch_id ch) (u_arrived u))
      \<and> suffix (ch_queue ch) (ch_all ch) \<and> length (ch_queue ch) \<le> 1024)
    \<and> (removeChannel j u = None \<longrightarrow> udp_exec UClosing u \<noteq> None)
    \<and> (sendDatagram cl m send i buf = Some wire \<longrightarrow>
      datagram_id wire = i \<and> datagram_payload wire = buf \<and> length wire = length buf + kUdpForwardChannelIdSize)"
  using forwarder.run_inv [OF new_forwarder_inv assms]
    sendDatagram_tag [of cl m send i buf wire] removal_waits [of u j]
  by (simp add: udp_inv_def channel_ok_def)

definition forward_acts :: "udp_act list" where
  "forward_acts =
     [UAdd 1, UAdd 2, UDatagram (tag_datagram 2 [10]), UDatagram (tag_datagram 1 [20]), UDatagram (tag_datagram 2 [30]),
      URecv 1, URemove 1, UClosing, UDatagram (tag_datagram 1 [40]), UClose, ULeave False, UFinish]"

theorem datagram_channels_witness:
  "\<exists>u. run_acts udp_exec forward_acts new_forwarder = Some u \<and> \<not> u_panic u \<and> length (u_channels u) = 2
     \<and> ch_all (u_channels u ! 1) = [[10], [30]] \<and> ch_queue (u_channels u ! 1) = [[30]]
     \<and> subseq (ch_all (u_channels u ! 1)) (of_channel 2 (u_arrived u))
     \<and> datagram_id (tag_datagram 7 [1]) = 7"
proof -
  have "case run_acts udp_exec forward_acts new_forwarder of None \<Rightarrow> False
      | Some u \<Rightarrow> length (u_channels u) = 2 \<and> ch_id (u_channels u ! 1) = 2
        \<and> ch_all (u_channels u ! 1) = [[10], [30]] \<and> ch_queue (u_channels u ! 1) = [[30]]" by code_simp
  then obtain u where u: "run_acts udp_exec forward_acts new_forwarder = Some u" "length (u_channels u) = 2"
      "ch_id (u_channels u ! 1) = 2" "ch_all (u_channels u ! 1) = [[10], [30]]" "ch_queue (u_channels u ! 1) = [[30]]"
    by (auto split: option.splits)
  have "sendDatagram False 1200 (\<lambda>_. None) 7 [1] = Some (tag_datagram 7 [1])" by (simp add: sendDatagram_def)
  with datagram_channels [OF u(1), of 0 False 1200 "\<lambda>_. None" 7 "[1]" "tag_datagram 7 [1]"]
  have d: "\<not> u_panic u" "datagram_id (tag_datagram 7 [1]) = 7"
    "\<forall>ch \<in> set (u_channels u). subseq (ch_all ch) (of_channel (ch_id ch) (u_arrived u))" by blast+
  have "u_channels u ! 1 \<in> set (u_channels u)" using u(2) by simp
  with d(3) have "subseq (ch_all (u_channels u ! 1)) (of_channel (ch_id (u_channels u ! 1)) (u_arrived u))" by blast
  with d(1,2) u show ?thesis by auto
qed

text \<open>
  C39. When the acknowledgement of an accepted forwarding session fails, the handler leaves the session
  registered for its peer but no longer waiting for a client: whatever happens afterwards, it stays the
  peer's session, it can never be accepted, and no packet of the peer is forwarded. (The handler returns
  without \<open>releaseUdpForwardSession\<close>.)
\<close>

theorem unacknowledged_peer_stuck:
  assumes "run_acts dg_exec acts new_udp_server = Some d" "d_pending d i = Some x"
    and "handleAcceptUdpEvent i (Some e) d = (d1, r)" "run_acts dg_exec later d1 = Some d2"
  shows "d_map d2 (us_key (d_sessions d ! x)) = Some x \<and> us_written (d_sessions d2 ! x) = [] \<and> d_pending d2 j \<noteq> Some x"
proof -
  have inv: "dg_inv d" by (rule forwards.run_inv [OF new_udp_server_inv assms(1)])
  have d1: "d1 = fst (handleAcceptUdpEvent i (Some e) d)" "d1 = d\<lparr>d_pending := (d_pending d)(i := None)\<rparr>"
    using assms(2,3) by (simp_all add: handleAcceptUdpEvent_def takeUdpFwdPendingSession_def)
  have "dg_inv d1" unfolding d1(1) by (rule accept_inv [OF inv])
  moreover have "d_pending d1 k \<noteq> Some x" for k
    using dg_invD(3) [OF inv, of k x] dg_invD(3) [OF inv assms(2)] by (auto simp: d1(2))
  ultimately have "stuck_peer x (us_key (d_sessions d ! x)) d1"
    using dg_invD(3) [OF inv assms(2)] by (simp add: stuck_peer_def d1(2))
  then have "stuck_peer x (us_key (d_sessions d ! x)) d2" by (rule stuck.run_inv [OF _ assms(4)])
  then show ?thesis
    using dg_invD(1,4) [of d2] by (auto simp: stuck_peer_def)
qed

definition unacked_acts :: "dg_act list" where
  "unacked_acts = [DPacket ''1_peer'' [1] None, DPacket ''1_other'' [2] None, DAccept 2 None]"

theorem unacknowledged_peer_stuck_witness:
  "\<exists>d d1 d2. run_acts dg_exec unacked_acts new_udp_server = Some d
     \<and> handleAcceptUdpEvent 1 (Some ErrNetClosed) d = (d1, None)
     \<and> run_acts dg_exec [DPacket ''1_peer'' [3] None, DAccept 1 None, DEnd 1, DPacket ''1_peer'' [4] None] d1 = Some d2
     \<and> d_map d2 ''1_peer'' = Some 0 \<and> us_written (d_sessions d2 ! 0) = [] \<and> d_pending d2 1 \<noteq> Some 0"
proof -
  let ?later = "[DPacket ''1_peer'' [3] None, DAccept 1 None, DEnd 1, DPacket ''1_peer'' [4] None]"
  have "case run_acts dg_exec unacked_acts new_udp_server of None \<Rightarrow> False
      | Some d \<Rightarrow> d_pending d 1 = Some 0 \<and> us_key (d_sessions d ! 0) = ''1_peer''
          \<and> snd (handleAcceptUdpEvent 1 (Some ErrNetClosed) d) = None
          \<and> run_acts dg_exec ?later (fst (handleAcceptUdpEvent 1 (Some ErrNetClosed) d)) \<noteq> None" by code_simp
  then obtain d d1 d2 where d: "run_acts dg_exec unacked_acts new_udp_server = Some d" "d_pending d 1 = Some 0"
      "us_key (d_sessions d ! 0) = ''1_peer''" "handleAcceptUdpEvent 1 (Some ErrNetClosed) d = (d1, None)"
      "run_acts dg_exec ?later d1 = Some d2"
    by (auto split: option.splits simp: prod_eq_iff)
  from unacknowledged_peer_stuck [OF d(1,2,4,5)] d show ?thesis by auto
qed

end
