(* ===== verification/PacketConn.thy ===== *)
theory PacketConn
  imports Datagram "HOL-Library.Multiset"
begin

text \<open>
  The connections of forwarded datagrams (\<open>packetConn\<close> of \<open>datagram.go\<close>): a packet goes out as a
  tagged datagram when the transport takes it and as a frame of the reliable stream otherwise; packets
  come in over the channel of the forwarder and over a goroutine that reads the stream.
\<close>

section \<open>Sending\<close>

record packetConn =
  pc_forwarder :: bool
  pc_channelID :: u64
  pc_datagramOnly :: bool
  pc_closed :: bool
  pc_closeCh :: bool
  pc_stream :: bool
  pc_streamClosed :: bool

definition newPacketConn :: "bool \<Rightarrow> u64 \<Rightarrow> udpForwarder option \<Rightarrow> packetConn \<times> udpForwarder option \<times> nat option" where
  "newPacketConn stream i forwarder =
     (let pc = \<lparr>pc_forwarder = forwarder \<noteq> None, pc_channelID = i, pc_datagramOnly = False, pc_closed = False, pc_closeCh = False,
                pc_stream = stream, pc_streamClosed = False\<rparr>
      in (case forwarder of
            None \<Rightarrow> (pc, None, None)
          | Some u \<Rightarrow> (case addChannel i u of (u', ch) \<Rightarrow> (pc, Some u', ch))))"

text \<open>
  What one \<open>Write\<close> meets: whether the peer timed out and how waiting for it ends, whether the
  forwarder is closed, the size of a datagram and the result of the transport's \<open>SendDatagram\<close>.
\<close>

record write_env =
  e_isTimeout :: bool
  e_reconnected :: "go_error option"
  e_closed :: bool
  e_maxSize :: nat
  e_send :: "bytes \<Rightarrow> go_error option"

text \<open>The error, the datagram that went out, and the stream afterwards.\<close>

definition packetConn_Write :: "packetConn \<Rightarrow> write_env \<Rightarrow> bytes \<Rightarrow> writer \<Rightarrow> go_error option \<times> bytes option \<times> writer" where
  "packetConn_Write c e buf w =
     (if pc_datagramOnly c then
        if \<not> pc_forwarder c \<or> e_closed e then (Some ErrClosedPipe, None, w)
        else if e_isTimeout e then (None, None, w)
        else (None, sendDatagram (e_closed e) (e_maxSize e) (e_send e) (pc_channelID c) buf, w)
      else if e_isTimeout e \<and> e_reconnected e \<noteq> None then (e_reconnected e, None, w)
      else (case (if pc_forwarder c then sendDatagram (e_closed e) (e_maxSize e) (e_send e) (pc_channelID c) buf else None) of
          Some wire \<Rightarrow> (None, Some wire, w)
        | None \<Rightarrow> (case sendUdpPacket buf w of (err, w') \<Rightarrow> (err, None, w'))))"

text \<open>\<open>None\<close>: the closing queue of the forwarder is full and the caller waits.\<close>

definition packetConn_Close :: "packetConn \<Rightarrow> udpForwarder option \<Rightarrow> (packetConn \<times> udpForwarder option) option" where
  "packetConn_Close c forwarder =
     (if pc_closed c then Some (c, forwarder)
      else let c1 = c\<lparr>pc_closed := True, pc_closeCh := True\<rparr>; c2 = (if pc_stream c1 then c1\<lparr>pc_streamClosed := True\<rparr> else c1)
        in (case forwarder of
              None \<Rightarrow> Some (c2, None)
            | Some u \<Rightarrow> (case removeChannel (pc_channelID c) u of None \<Rightarrow> None | Some u' \<Rightarrow> Some (c2, Some u'))))"

fun write_packets :: "packetConn \<Rightarrow> (write_env \<times> bytes) list \<Rightarrow> writer \<Rightarrow> go_error option \<times> bytes list \<times> writer" where
  "write_packets c [] w = (None, [], w)"
| "write_packets c ((e, buf) # ps) w =
     (case packetConn_Write c e buf w of
        (Some err, _, w1) \<Rightarrow> (Some err, [], w1)
      | (None, d, w1) \<Rightarrow>
          (case write_packets c ps w1 of (err, ds, w2) \<Rightarrow> (err, (case d of None \<Rightarrow> ds | Some wire \<Rightarrow> wire # ds), w2)))"

section \<open>Receiving\<close>

text \<open>
  The stream reader is not started, waits for the stream, holds a packet for \<open>streamCh\<close>, or has ended.
  \<open>pr_got\<close> are the packets it read off the stream, \<open>pr_taken\<close> those handed to the callers.
\<close>

datatype stream_reader = RdNone | RdWait | RdHold bytes | RdEnd

datatype caller = CNone | CRead | CConsume

record packet_reader =
  pr_closed :: bool
  pr_consumeFn :: bool
  pr_caller :: caller
  pr_reader :: stream_reader
  pr_streamCh :: "bytes list"
  pr_got :: "bytes list"
  pr_taken :: "bytes list"
  pr_dropped :: "bytes list"

definition startStreamReader :: "packet_reader \<Rightarrow> packet_reader" where
  "startStreamReader p = (if pr_reader p = RdNone then p\<lparr>pr_reader := RdWait\<rparr> else p)"

definition begin_Consume :: "packet_reader \<Rightarrow> packet_reader option" where
  "begin_Consume p =
     (if pr_caller p \<noteq> CNone then None
      else if pr_closed p then Some p
      else Some (startStreamReader (p\<lparr>pr_caller := CConsume, pr_consumeFn := True\<rparr>)))"

definition begin_Read :: "packet_reader \<Rightarrow> packet_reader option" where
  "begin_Read p =
     (if pr_caller p \<noteq> CNone then None
      else if pr_closed p then Some p
      else Some (startStreamReader (p\<lparr>pr_caller := CRead\<rparr>)))"

definition finish_call :: "packet_reader \<Rightarrow> packet_reader" where
  "finish_call p = p\<lparr>pr_caller := CNone, pr_consumeFn := (if pr_caller p = CConsume then False else pr_consumeFn p)\<rparr>"

text \<open>
  The caller takes from \<open>streamCh\<close>, or finds it closed and empty; \<open>ok\<close> tells whether \<open>consumeFn\<close> accepted
  the packet. A call also ends on the forwarder's channel (\<open>call_channel\<close>).
\<close>

definition call_stream :: "bool \<Rightarrow> packet_reader \<Rightarrow> packet_reader option" where
  "call_stream ok p =
     (if pr_caller p = CNone then None
      else (case pr_streamCh p of
          buf # rest \<Rightarrow>
            let p1 = p\<lparr>pr_streamCh := rest, pr_taken := pr_taken p @ [buf]\<rparr>
            in Some (if pr_caller p = CConsume \<and> ok then p1 else finish_call p1)
        | [] \<Rightarrow> if pr_reader p = RdEnd then Some (finish_call p) else None))"

definition call_channel :: "bool \<Rightarrow> packet_reader \<Rightarrow> packet_reader option" where
  "call_channel ok p =
     (if pr_caller p = CNone then None
      else Some (if pr_caller p = CConsume \<and> ok then p else finish_call p))"

text \<open>The goroutine reads a packet (or fails); \<open>ok\<close> as above.\<close>

definition reader_step :: "bytes result \<Rightarrow> bool \<Rightarrow> packet_reader \<Rightarrow> packet_reader option" where
  "reader_step res ok p =
     (if pr_reader p \<noteq> RdWait then None
      else (case res of
          Inl e \<Rightarrow> Some (p\<lparr>pr_reader := RdEnd\<rparr>)
        | Inr buf \<Rightarrow>
            let p1 = p\<lparr>pr_got := pr_got p @ [buf]\<rparr>
            in if pr_consumeFn p
               then Some (p1\<lparr>pr_taken := pr_taken p1 @ [buf], pr_reader := (if ok then RdWait else RdEnd)\<rparr>)
               else Some (p1\<lparr>pr_reader := RdHold buf\<rparr>)))"

definition reader_put :: "packet_reader \<Rightarrow> packet_reader option" where
  "reader_put p =
     (case pr_reader p of
        RdHold buf \<Rightarrow>
          if length (pr_streamCh p) < 1 then Some (p\<lparr>pr_streamCh := pr_streamCh p @ [buf], pr_reader := RdWait\<rparr>) else None
      | _ \<Rightarrow> None)"

definition reader_stop :: "packet_reader \<Rightarrow> packet_reader option" where
  "reader_stop p =
     (case pr_reader p of
        RdHold buf \<Rightarrow> if pr_closed p then Some (p\<lparr>pr_dropped := pr_dropped p @ [buf], pr_reader := RdEnd\<rparr>) else None
      | _ \<Rightarrow> None)"

datatype pr_act =
    PConsume | PRead | PStream bool | PChannel bool | PPacket "bytes result" bool | PPut | PStop | PClose

definition pr_exec :: "pr_act \<Rightarrow> packet_reader \<Rightarrow> packet_reader option" where
  "pr_exec a p =
     (case a of
        PConsume \<Rightarrow> begin_Consume p
      | PRead \<Rightarrow> begin_Read p
      | PStream ok \<Rightarrow> call_stream ok p
      | PChannel ok \<Rightarrow> call_channel ok p
      | PPacket res ok \<Rightarrow> reader_step res ok p
      | PPut \<Rightarrow> reader_put p
      | PStop \<Rightarrow> reader_stop p
      | PClose \<Rightarrow> Some (p\<lparr>pr_closed := True\<rparr>))"

definition new_reader :: packet_reader where
  "new_reader = \<lparr>pr_closed = False, pr_consumeFn = False, pr_caller = CNone, pr_reader = RdNone, pr_streamCh = [],
     pr_got = [], pr_taken = [], pr_dropped = []\<rparr>"

section \<open>Lemmas\<close>

lemma write_split:
  assumes "write_packets c ps w = (None, wires, w')" "\<not> pc_datagramOnly c"
  shows "\<exists>fs. map snd ps \<in> shuffles (of_channel (pc_channelID c) wires) fs
    \<and> w_sink w' = w_sink w @ concat (map packet_frame fs)
    \<and> (\<forall>wire \<in> set wires. datagram_id wire = pc_channelID c)"
  using assms
proof (induction ps arbitrary: w wires)
  case Nil
  then show ?case by (auto simp: of_channel_def)
next
  case (Cons p ps)
  obtain e buf where p: "p = (e, buf)" by (cases p)
  from Cons.prems obtain d w1 ds where 1: "packetConn_Write c e buf w = (None, d, w1)"
    and 2: "write_packets c ps w1 = (None, ds, w')" and wires: "wires = (case d of None \<Rightarrow> ds | Some wire \<Rightarrow> wire # ds)"
    by (auto simp: p split: prod.splits option.splits)
  from Cons.IH [OF 2 Cons.prems(2)] obtain fs where fs: "map snd ps \<in> shuffles (of_channel (pc_channelID c) ds) fs"
    "w_sink w' = w_sink w1 @ concat (map packet_frame fs)" "\<forall>wire \<in> set ds. datagram_id wire = pc_channelID c" by blast
  show ?case
  proof (cases d)
    case None
    with 1 Cons.prems(2) have "sendUdpPacket buf w = (None, w1)"
      by (auto simp: packetConn_Write_def split: if_splits option.splits prod.splits)
    with sendUdpPacket_frame [of buf w w1] fs None show ?thesis
      by (intro exI [of _ "buf # fs"]) (auto simp: p wires intro: Cons_in_shuffles_rightI)
  next
    case (Some wire)
    with 1 Cons.prems(2) have "sendDatagram (e_closed e) (e_maxSize e) (e_send e) (pc_channelID c) buf = Some wire" and "w1 = w"
      by (auto simp: packetConn_Write_def split: if_splits option.splits prod.splits)
    with sendDatagram_tag [of "e_closed e" "e_maxSize e" "e_send e" "pc_channelID c" buf wire] fs Some show ?thesis
      by (intro exI [of _ fs]) (auto simp: p wires of_channel_def intro: Cons_in_shuffles_leftI)
  qed
qed

definition held :: "packet_reader \<Rightarrow> bytes list" where
  "held p = (case pr_reader p of RdHold buf \<Rightarrow> [buf] | _ \<Rightarrow> [])"

text \<open>
  Every packet read off the stream is in one place; without \<open>Consume\<close> the order is kept as well.
\<close>

definition pr_inv :: "packet_reader \<Rightarrow> bool" where
  "pr_inv p \<longleftrightarrow>
     mset (pr_got p) = mset (pr_taken p) + mset (pr_streamCh p) + mset (held p) + mset (pr_dropped p)
     \<and> length (pr_streamCh p) \<le> 1 \<and> (pr_dropped p \<noteq> [] \<longrightarrow> pr_closed p \<and> pr_reader p = RdEnd)"

lemma held_simps [simp]:
  "pr_reader p = RdHold buf \<Longrightarrow> held p = [buf]" "pr_reader p = RdNone \<Longrightarrow> held p = []"
  "pr_reader p = RdWait \<Longrightarrow> held p = []" "pr_reader p = RdEnd \<Longrightarrow> held p = []"
  by (simp_all add: held_def)

lemma held_start: "pr_inv p \<Longrightarrow> pr_inv (startStreamReader (p\<lparr>pr_caller := c, pr_consumeFn := b\<rparr>))"
  by (cases "pr_reader p") (simp_all add: startStreamReader_def pr_inv_def held_def)

lemma held_finish: "pr_inv p \<Longrightarrow> pr_inv (finish_call p)"
  by (simp add: finish_call_def pr_inv_def held_def)

lemma call_stream_inv:
  assumes inv: "pr_inv p" and e: "call_stream ok p = Some p'"
  shows "pr_inv p'"
proof (cases "pr_streamCh p")
  case Nil
  with e inv held_finish show ?thesis by (auto simp: call_stream_def split: if_splits)
next
  case (Cons buf rest)
  have "pr_inv (p\<lparr>pr_streamCh := rest, pr_taken := pr_taken p @ [buf]\<rparr>)"
    using inv Cons by (simp add: pr_inv_def held_def)
  with e Cons held_finish show ?thesis by (auto simp: call_stream_def Let_def split: if_splits)
qed

lemma reader_inv:
  assumes inv: "pr_inv p"
  shows "reader_step res ok p = Some p' \<Longrightarrow> pr_inv p'" "reader_put p = Some p' \<Longrightarrow> pr_inv p'"
    "reader_stop p = Some p' \<Longrightarrow> pr_inv p'"
  using inv
  by (auto simp: reader_step_def reader_put_def reader_stop_def pr_inv_def held_def Let_def
      split: if_splits stream_reader.splits sum.splits)

lemma pr_exec_inv:
  assumes inv: "pr_inv p" and e: "pr_exec a p = Some p'"
  shows "pr_inv p'"
proof (cases a)
  case PConsume
  with e inv held_start show ?thesis by (auto simp: pr_exec_def begin_Consume_def split: if_splits)
next
  case PRead
  with e inv held_start [OF inv, where c = CRead and b = "pr_consumeFn p"] show ?thesis by (auto simp: pr_exec_def begin_Read_def split: if_splits)
next
  case (PStream ok)
  with e call_stream_inv [OF inv] show ?thesis by (simp add: pr_exec_def)
next
  case (PChannel ok)
  with e inv held_finish show ?thesis by (auto simp: pr_exec_def call_channel_def split: if_splits)
next
  case PClose
  with e inv show ?thesis by (auto simp: pr_exec_def pr_inv_def held_def)
qed (use e reader_inv [OF inv] in \<open>simp_all add: pr_exec_def\<close>)

interpretation packet_reading: machine pr_exec pr_inv
  by unfold_locales (rule pr_exec_inv)

text \<open>In every run no packet of the stream is lost or handed out twice before the connection is closed.\<close>

lemma stream_packets_once:
  assumes "run_acts pr_exec acts new_reader = Some p" "\<not> pr_closed p"
  shows "mset (pr_got p) = mset (pr_taken p @ pr_streamCh p @ held p)" "length (pr_streamCh p @ held p) \<le> 2"
proof -
  have "pr_inv new_reader" by (simp add: pr_inv_def new_reader_def held_def)
  with packet_reading.run_inv [OF _ assms(1)] have inv: "pr_inv p" by blast
  with assms(2) show "mset (pr_got p) = mset (pr_taken p @ pr_streamCh p @ held p)" by (auto simp: pr_inv_def)
  from inv show "length (pr_streamCh p @ held p) \<le> 2" by (cases "pr_reader p") (simp_all add: pr_inv_def)
qed

text \<open>
  The length of a packet is sent in 16 bits. Sending a longer packet reports success, and the peer takes its beginning
  for the packet and the rest for what follows.
\<close>

lemma oversized_packet_cut:
  assumes "sendUdpPacket d w = (None, w')" "w_sink w = []" "2 ^ 16 \<le> length d" "rd_bytes r = w_sink w'"
  shows "\<exists>r'. recvUdpPacket 65535 r = (Inr (take (length d mod 2 ^ 16) d), r')
    \<and> rd_bytes r' = drop (length d mod 2 ^ 16) d \<and> rd_bytes r' \<noteq> []"
proof -
  define n where "n = length d mod 2 ^ 16"
  have n: "n < 2 ^ 16" by (simp add: n_def)
  with assms(3) have less: "n < length d" by linarith
  have "(word_of_nat (length d) :: u16) = word_of_nat n"
    unfolding n_def by (simp add: word_unat_eq_iff unat_of_nat)
  then have "packet_frame d = packet_frame (take n d) @ drop n d" using less by (simp add: packet_frame_def min_def)
  with sendUdpPacket_frame [OF assms(1)] assms(2,4) have "rd_bytes r = packet_frame (take n d) @ drop n d" by simp
  moreover have "length (take n d) \<le> 65535" "length (take n d) < 2 ^ 16" using n by simp_all
  ultimately obtain r' where "recvUdpPacket 65535 r = (Inr (take n d), r')" "rd_after r (drop n d) r'"
    using recvUdpPacket_frame by blast
  with less show ?thesis unfolding n_def [symmetric] by (simp add: rd_after_def)
qed

section \<open>Properties\<close>

text \<open>
  C16. Packets of a reliable connection reach the peer with their boundaries and in two ordered halves:
  when no packet has 64 KiB or more (\<open>oversized_packet_cut\<close> says what happens to one that has) and all writes succeed, the packets are an interleaving of those that went out as datagrams, whose tags
  carry the connection's number, and those that went out over the stream, and a peer that receives the
  stream in any chunks reads exactly the latter; no packet is lost between the two ways.
\<close>

theorem packets_reach_peer:
  assumes "write_packets c ps w = (None, wires, w')" "\<not> pc_datagramOnly c" "w_sink w = []"
    and "list_all (\<lambda>d. length d < 2 ^ 16) (map snd ps)"
    and "rd_wf r" "rd_bytes r = w_sink w'"
  shows "\<exists>fs r'. map snd ps \<in> shuffles (of_channel (pc_channelID c) wires) fs
    \<and> recv_many (recvUdpPacket 65535) (length fs) r = (Inr fs, r') \<and> rd_bytes r' = []
    \<and> (\<forall>wire \<in> set wires. datagram_id wire = pc_channelID c)"
proof -
  from write_split [OF assms(1,2)] obtain fs where fs: "map snd ps \<in> shuffles (of_channel (pc_channelID c) wires) fs"
    "w_sink w' = w_sink w @ concat (map packet_frame fs)" "\<forall>wire \<in> set wires. datagram_id wire = pc_channelID c" by blast
  have "set fs \<subseteq> set (map snd ps)" using set_shuffles [OF fs(1)] by simp
  with assms(4) have "length d < 65536" if "d \<in> set fs" for d using that by (auto simp: list_all_iff)
  then have "list_all (\<lambda>d. length d \<le> 65535 \<and> length d < 2 ^ 16) fs" by (fastforce simp: list_all_iff)
  with udp.dec_many [of 65535 fs r "[]"] fs assms show ?thesis by (auto simp: rd_after_def)
qed

definition demo_conn :: packetConn where
  "demo_conn = fst (newPacketConn True 5 (Some new_forwarder))"

definition demo_envs :: "(write_env \<times> bytes) list" where
  "demo_envs =
     (let e = \<lparr>e_isTimeout = False, e_reconnected = None, e_closed = False, e_maxSize = 2, e_send = (\<lambda>_. None)\<rparr>
      in [(e, [1]), (e, [1, 2, 3]), (e\<lparr>e_send := (\<lambda>_. Some ErrNetClosed)\<rparr>, [4]), (e\<lparr>e_isTimeout := True\<rparr>, [5])])"

theorem packets_reach_peer_witness:
  "\<exists>fs r' wires w'. write_packets demo_conn demo_envs \<lparr>w_sink = [], w_sched = []\<rparr> = (None, wires, w') \<and> length wires = 2
    \<and> map snd demo_envs \<in> shuffles (of_channel 5 wires) fs
    \<and> recv_many (recvUdpPacket 65535) (length fs) \<lparr>rd_chunks = [[0], [3, 1, 2, 3, 0], [1, 4]], rd_end = ErrEOF\<rparr> = (Inr fs, r')
    \<and> rd_bytes r' = []"
proof -
  let ?w = "\<lparr>w_sink = [], w_sched = []\<rparr>" and ?r = "\<lparr>rd_chunks = [[0], [3, 1, 2, 3, 0], [1, 4]], rd_end = ErrEOF\<rparr>"
  have "case write_packets demo_conn demo_envs ?w of
      (err, wires, w') \<Rightarrow> err = None \<and> length wires = 2 \<and> rd_bytes ?r = w_sink w'" by code_simp
  then obtain wires w' where w: "write_packets demo_conn demo_envs ?w = (None, wires, w')" "length wires = 2" "rd_bytes ?r = w_sink w'"
    by (auto split: prod.splits)
  have c: "\<not> pc_datagramOnly demo_conn" "pc_channelID demo_conn = 5"
    "list_all (\<lambda>d. length d < 2 ^ 16) (map snd demo_envs)" "rd_wf ?r" by code_simp+
  from packets_reach_peer [OF w(1) c(1) _ c(3,4) w(3)] w(1,2) c(2) show ?thesis by auto
qed

end
