(* ===== verification/UnixFiles.thy ===== *)
theory UnixFiles
  imports SshdConfig
begin

text \<open>
  Files and Unix sockets: the directory of the control sockets and listening on them
  (\<open>utils_unix.go\<close>), removing stale sockets (\<open>forward.go\<close>) and the clean-up functions that unlink what
  was created (\<open>comm.go\<close>). The file system is a map from paths to inodes with the operations of the
  \<open>os\<close> package on it; which of them the system denies is a parameter (\<open>os_env\<close>). File modes are written in hexadecimal: 0x1C0 is 0700,
  0x180 is 0600 and 0x3F is 0077. Paths are joined with a slash, as \<open>filepath.Join\<close> does for clean paths.
\<close>

unbundle bit_operations_syntax

section \<open>The file system\<close>

datatype file_kind = FSocket | FDir | FRegular | FSymlink string

record inode =
  n_ino :: nat
  n_kind :: file_kind
  n_perm :: "32 word"
  n_uid :: int

definition is_symlink :: "inode \<Rightarrow> bool" where
  "is_symlink n = (case n_kind n of FSymlink t \<Rightarrow> True | _ \<Rightarrow> False)"

record file_system =
  f_files :: "string \<Rightarrow> inode option"
  f_nextIno :: nat

record os_env =
  o_uid :: int
  o_umask :: "32 word"
  o_lstat :: "string \<Rightarrow> go_error option"
  o_remove :: "string \<Rightarrow> go_error option"
  o_chmod :: "string \<Rightarrow> go_error option"
  o_create :: "string \<Rightarrow> go_error option"

text \<open>\<open>Inl None\<close>: the file does not exist (\<open>os.IsNotExist\<close>).\<close>

definition os_Lstat :: "os_env \<Rightarrow> string \<Rightarrow> file_system \<Rightarrow> go_error option + inode" where
  "os_Lstat env p fs =
     (case o_lstat env p of
        Some e \<Rightarrow> Inl (Some e)
      | None \<Rightarrow> (case f_files fs p of None \<Rightarrow> Inl None | Some n \<Rightarrow> Inr n))"

text \<open>\<open>os.Stat\<close> and \<open>os.Chmod\<close> follow symbolic links, at most 40 of them.\<close>

fun follow :: "nat \<Rightarrow> string \<Rightarrow> file_system \<Rightarrow> string option" where
  "follow 0 p fs = None"
| "follow (Suc k) p fs =
     (case f_files fs p of
        None \<Rightarrow> None
      | Some n \<Rightarrow> (case n_kind n of FSymlink t \<Rightarrow> follow k t fs | _ \<Rightarrow> Some p))"

definition os_Stat :: "os_env \<Rightarrow> string \<Rightarrow> file_system \<Rightarrow> inode option" where
  "os_Stat env p fs =
     (if o_lstat env p \<noteq> None then None
      else (case follow 41 p fs of None \<Rightarrow> None | Some q \<Rightarrow> f_files fs q))"

definition os_Remove :: "os_env \<Rightarrow> string \<Rightarrow> file_system \<Rightarrow> file_system \<times> go_error option" where
  "os_Remove env p fs =
     (case o_remove env p of
        Some e \<Rightarrow> (fs, Some e)
      | None \<Rightarrow>
          (case f_files fs p of
             None \<Rightarrow> (fs, Some (ErrText ''no such file or directory''))
           | Some n \<Rightarrow> (fs\<lparr>f_files := (f_files fs)(p := None)\<rparr>, None)))"

definition os_Chmod :: "os_env \<Rightarrow> string \<Rightarrow> 32 word \<Rightarrow> file_system \<Rightarrow> file_system \<times> go_error option" where
  "os_Chmod env p mode fs =
     (case o_chmod env p of
        Some e \<Rightarrow> (fs, Some e)
      | None \<Rightarrow>
          (case follow 41 p fs of
             None \<Rightarrow> (fs, Some (ErrText ''no such file or directory''))
           | Some q \<Rightarrow> (fs\<lparr>f_files := (f_files fs)(q := map_option (\<lambda>n. n\<lparr>n_perm := mode\<rparr>) (f_files fs q))\<rparr>, None)))"

definition create_node :: "os_env \<Rightarrow> file_kind \<Rightarrow> 32 word \<Rightarrow> string \<Rightarrow> file_system \<Rightarrow> file_system" where
  "create_node env k mode p fs =
     fs\<lparr>f_files := (f_files fs)(p \<mapsto> \<lparr>n_ino = f_nextIno fs, n_kind = k, n_perm = mode AND NOT (o_umask env), n_uid = o_uid env\<rparr>),
        f_nextIno := Suc (f_nextIno fs)\<rparr>"

text \<open>\<open>os.MkdirAll\<close>, for its last component: nothing to do for a directory that exists.\<close>

definition os_MkdirAll :: "os_env \<Rightarrow> string \<Rightarrow> 32 word \<Rightarrow> file_system \<Rightarrow> file_system \<times> go_error option" where
  "os_MkdirAll env p mode fs =
     (case os_Stat env p fs of
        Some n \<Rightarrow> if n_kind n = FDir then (fs, None) else (fs, Some (ErrText ''not a directory''))
      | None \<Rightarrow>
          (case o_create env p of
             Some e \<Rightarrow> (fs, Some e)
           | None \<Rightarrow>
               if f_files fs p \<noteq> None then (fs, Some (ErrText ''file exists''))
               else (create_node env FDir mode p fs, None)))"

text \<open>\<open>net.Listen\<close> and \<open>net.ListenPacket\<close> bind a socket to a path that must not exist.\<close>

definition net_bind :: "os_env \<Rightarrow> string \<Rightarrow> file_system \<Rightarrow> file_system \<times> go_error option" where
  "net_bind env p fs =
     (case o_create env p of
        Some e \<Rightarrow> (fs, Some e)
      | None \<Rightarrow>
          if f_files fs p \<noteq> None then (fs, Some (ErrText ''bind: address already in use''))
          else (create_node env FSocket 0x1FF p fs, None))"

section \<open>Sockets\<close>

definition unlinkStaleUnixSocket :: "os_env \<Rightarrow> sshd_conf \<Rightarrow> string \<Rightarrow> file_system \<Rightarrow> file_system \<times> go_error option" where
  "unlinkStaleUnixSocket env conf path fs =
     (if \<not> equal_fold (getSshdConfig conf ''StreamLocalBindUnlink'') ''yes'' then (fs, None)
      else (case os_Lstat env path fs of
          Inl None \<Rightarrow> (fs, None)
        | Inl (Some e) \<Rightarrow> (fs, Some e)
        | Inr info \<Rightarrow>
            if n_kind info \<noteq> FSocket then (fs, Some (ErrText (''refusing to unlink non-socket path: '' @ path)))
            else os_Remove env path fs))"

text \<open>
  A file that is to be unlinked: what closes the resource (a Unix stream listener of \<open>net.Listen\<close>
  unlinks its path when it is closed, any other closer does not), the file found at creation, and
  whether the clean-up ran.
\<close>

datatype closer = CloseNil | CloseListener string | CloseOther

record file_unlinker =
  fu_path :: string
  fu_closer :: closer
  fu_created :: "inode option"
  fu_done :: bool

definition closer_Close :: "os_env \<Rightarrow> closer \<Rightarrow> file_system \<Rightarrow> file_system" where
  "closer_Close env c fs = (case c of CloseListener p \<Rightarrow> fst (os_Remove env p fs) | _ \<Rightarrow> fs)"

definition newFileUnlinker :: "os_env \<Rightarrow> string \<Rightarrow> closer \<Rightarrow> file_system \<Rightarrow> file_unlinker" where
  "newFileUnlinker env path c fs =
     \<lparr>fu_path = path, fu_closer = c, fu_created = os_Stat env path fs, fu_done = False\<rparr>"

definition unlinker_cleanup :: "os_env \<Rightarrow> file_unlinker \<Rightarrow> file_system \<Rightarrow> file_unlinker \<times> file_system" where
  "unlinker_cleanup env u fs =
     (if fu_done u then (u, fs)
      else
        let u1 = u\<lparr>fu_done := True\<rparr>; fs1 = closer_Close env (fu_closer u) fs
        in (case fu_created u of
              None \<Rightarrow> (u1, fs1)
            | Some created \<Rightarrow>
                (case os_Stat env (fu_path u) fs1 of
                   None \<Rightarrow> (u1, fs1)
                 | Some current \<Rightarrow>
                     if n_ino created \<noteq> n_ino current then (u1, fs1)
                     else (u1, fst (os_Remove env (fu_path u) fs1)))))"

definition listenOnSocket :: "os_env \<Rightarrow> string \<Rightarrow> file_system \<Rightarrow> file_system \<times> file_unlinker result" where
  "listenOnSocket env sockPath fs =
     (let stale = (case os_Lstat env sockPath fs of
          Inr info \<Rightarrow>
            if n_kind info \<noteq> FSocket then (fs, Some (ErrText (''socket ['' @ sockPath @ ''] exists and is not socket'')))
            else (case os_Remove env sockPath fs of
                (fs1, Some e) \<Rightarrow> (fs1, Some (ErrFlat (''remove stale socket ['' @ sockPath @ ''] failed'') e))
              | (fs1, None) \<Rightarrow> (fs1, None))
        | Inl None \<Rightarrow> (fs, None)
        | Inl (Some e) \<Rightarrow> (fs, Some (ErrFlat (''stat socket ['' @ sockPath @ ''] failed'') e)))
      in (case stale of
            (fs1, Some e) \<Rightarrow> (fs1, Inl e)
          | (fs1, None) \<Rightarrow>
              (case net_bind env sockPath fs1 of
                 (fs2, Some e) \<Rightarrow> (fs2, Inl (ErrFlat (''listen on ['' @ sockPath @ ''] failed'') e))
               | (fs2, None) \<Rightarrow>
                   (case os_Chmod env sockPath 0x180 fs2 of
                      (fs3, Some e) \<Rightarrow>
                        (fst (os_Remove env sockPath (closer_Close env (CloseListener sockPath) fs3)),
                         Inl (ErrFlat (''chmod socket ['' @ sockPath @ ''] failed'') e))
                    | (fs3, None) \<Rightarrow> (fs3, Inr (newFileUnlinker env sockPath (CloseListener sockPath) fs3))))))"

text \<open>\<open>dir\<close> exists and is a directory (\<open>isDirExist\<close>).\<close>

definition isDirExist :: "os_env \<Rightarrow> string \<Rightarrow> file_system \<Rightarrow> bool" where
  "isDirExist env p fs = (case os_Stat env p fs of None \<Rightarrow> False | Some n \<Rightarrow> n_kind n = FDir)"

definition socket_dir_path ::
  "os_env \<Rightarrow> string \<Rightarrow> string \<Rightarrow> string \<Rightarrow> file_system \<Rightarrow> file_system \<times> string" where
  "socket_dir_path env xdg home tmp fs =
     (let fallback = tmp @ ''/tsshd-'' @ int_str (o_uid env)
      in if xdg \<noteq> [] \<and> isDirExist env xdg fs then (fs, xdg @ ''/tsshd'')
         else if home \<noteq> [] then
           let dir = home @ ''/.local/run''
           in if isDirExist env dir fs then (fs, dir @ ''/tsshd'')
              else (case os_MkdirAll env dir 0x1C0 fs of
                  (fs1, Some e) \<Rightarrow> (fs1, fallback)
                | (fs1, None) \<Rightarrow> (fs1, dir @ ''/tsshd''))
         else (fs, fallback))"

definition getSocketDir :: "os_env \<Rightarrow> string \<Rightarrow> string \<Rightarrow> string \<Rightarrow> file_system \<Rightarrow> file_system \<times> string result" where
  "getSocketDir env xdg home tmp fs =
     (case socket_dir_path env xdg home tmp fs of
        (fs1, sockDir) \<Rightarrow>
          let fail = (\<lambda>why. Inl (ErrText (''socket dir ['' @ sockDir @ ''] '' @ why)));
              made = (if os_Lstat env sockDir fs1 = Inl None
                then (case os_MkdirAll env sockDir 0x1C0 fs1 of
                    (fs2, Some e) \<Rightarrow> (fs2, Inl (ErrFlat (''create socket dir ['' @ sockDir @ ''] failed'') e))
                  | (fs2, None) \<Rightarrow> (fs2, Inr ()))
                else (fs1, Inr ()))
          in (case made of
                (fs2, Inl e) \<Rightarrow> (fs2, Inl e)
              | (fs2, Inr _) \<Rightarrow>
                  (case os_Lstat env sockDir fs2 of
                     Inl err \<Rightarrow> (fs2, Inl (ErrText (''stat socket dir ['' @ sockDir @ ''] failed'')))
                   | Inr info \<Rightarrow>
                       if is_symlink info then (fs2, fail ''is symlink'')
                       else if n_kind info \<noteq> FDir then (fs2, fail ''is not directory'')
                       else if n_uid info \<noteq> o_uid env then (fs2, fail ''owner mismatch'')
                       else if n_perm info AND 0x3F \<noteq> 0 then
                         (case os_Chmod env sockDir 0x1C0 fs2 of
                            (fs3, Some e) \<Rightarrow> (fs3, Inl (ErrWrap (''chmod socket dir ['' @ sockDir @ ''] failed'') e))
                          | (fs3, None) \<Rightarrow> (fs3, Inr sockDir))
                       else (fs2, Inr sockDir))))"

definition getSocketPath ::
  "os_env \<Rightarrow> (int \<Rightarrow> bool) \<Rightarrow> string \<Rightarrow> string \<Rightarrow> string \<Rightarrow> int \<Rightarrow> file_system \<Rightarrow> file_system \<times> string result" where
  "getSocketPath env alive xdg home tmp pid fs =
     (if \<not> alive pid then (fs, Inl (ErrText (''tsshd process ['' @ int_str pid @ ''] does not exist'')))
      else (case getSocketDir env xdg home tmp fs of
          (fs1, Inl e) \<Rightarrow> (fs1, Inl e)
        | (fs1, Inr sockDir) \<Rightarrow>
            let sockPath = sockDir @ ''/socket-'' @ int_str pid
            in (case os_Lstat env sockPath fs1 of
                  Inl e \<Rightarrow> (fs1, Inl (ErrText (''stat socket ['' @ sockPath @ ''] failed'')))
                | Inr info \<Rightarrow>
                    if n_kind info \<noteq> FSocket then (fs1, Inl (ErrText (''path ['' @ sockPath @ ''] is not a socket'')))
                    else (fs1, Inr sockPath))))"

text \<open>\<open>names\<close> are the entries of the directory, \<open>alive\<close> whether a signal reaches the process.\<close>

fun socket_entries :: "os_env \<Rightarrow> (int \<Rightarrow> bool) \<Rightarrow> string \<Rightarrow> file_system \<Rightarrow> string list \<Rightarrow> (int \<times> string) list" where
  "socket_entries env alive sockDir fs [] = []"
| "socket_entries env alive sockDir fs (name # names) =
     (let rest = socket_entries env alive sockDir fs names
      in if \<not> has_prefix name ''socket-'' then rest
         else (case parse_int 10 64 (drop 7 name) of
             None \<Rightarrow> rest
           | Some pid \<Rightarrow>
               if \<not> alive pid then rest
               else (case os_Lstat env (sockDir @ ''/'' @ name) fs of
                   Inl e \<Rightarrow> rest
                 | Inr info \<Rightarrow> if n_kind info \<noteq> FSocket then rest else (pid, sockDir @ ''/'' @ name) # rest)))"

definition listSocketPaths ::
  "os_env \<Rightarrow> (int \<Rightarrow> bool) \<Rightarrow> string \<Rightarrow> string \<Rightarrow> string \<Rightarrow> (string \<Rightarrow> string list result) \<Rightarrow> file_system \<Rightarrow>
    file_system \<times> (int \<times> string) list result" where
  "listSocketPaths env alive xdg home tmp readDir fs =
     (case getSocketDir env xdg home tmp fs of
        (fs1, Inl e) \<Rightarrow> (fs1, Inl e)
      | (fs1, Inr sockDir) \<Rightarrow>
          (case readDir sockDir of
             Inl e \<Rightarrow> (fs1, Inl (ErrFlat (''read dir ['' @ sockDir @ ''] failed'') e))
           | Inr names \<Rightarrow> (fs1, Inr (socket_entries env alive sockDir fs1 names))))"

section \<open>Lemmas\<close>

text \<open>Exactly the sockets that are named after a living process are listed.\<close>

lemma socket_entries_iff:
  "(pid, path) \<in> set (socket_entries env alive sockDir fs names)
    \<longleftrightarrow> (\<exists>r info. ''socket-'' @ r \<in> set names \<and> path = sockDir @ ''/socket-'' @ r \<and> parse_int 10 64 r = Some pid \<and> alive pid
          \<and> os_Lstat env path fs = Inr info \<and> n_kind info = FSocket)"
proof (induction names)
  case (Cons name names)
  show ?case
  proof (cases "has_prefix name ''socket-''")
    case True
    then obtain r where "name = ''socket-'' @ r" by (rule has_prefixE)
    with Cons show ?thesis by (auto simp: Let_def has_prefix_def split: option.splits sum.splits)
  next
    case False
    then have "name \<noteq> ''socket-'' @ r" for r by (metis has_prefix_append)
    with False Cons show ?thesis by (auto simp: Let_def)
  qed
qed simp

lemma remove_other: "q \<noteq> p \<Longrightarrow> f_files (fst (os_Remove env p fs)) q = f_files fs q"
  by (simp add: os_Remove_def split: option.splits)

lemma bind_other: "q \<noteq> p \<Longrightarrow> f_files (fst (net_bind env p fs)) q = f_files fs q"
  by (simp add: net_bind_def create_node_def split: option.splits)

lemma follow_plain: "f_files fs p = Some n \<Longrightarrow> \<not> is_symlink n \<Longrightarrow> follow (Suc k) p fs = Some p"
  by (cases "n_kind n") (simp_all add: is_symlink_def)

lemma follow_plain_41: "f_files fs p = Some n \<Longrightarrow> \<not> is_symlink n \<Longrightarrow> follow 41 p fs = Some p"
  using follow_plain [of fs p n 40] by simp

lemma chmod_plain:
  assumes "f_files fs p = Some n" "\<not> is_symlink n"
  shows "os_Chmod env p mode fs = (case o_chmod env p of Some e \<Rightarrow> (fs, Some e)
    | None \<Rightarrow> (fs\<lparr>f_files := (f_files fs)(p \<mapsto> n\<lparr>n_perm := mode\<rparr>)\<rparr>, None))"
  using follow_plain_41 [OF assms] assms(1) by (simp add: os_Chmod_def split: option.splits)

lemma stat_plain: "f_files fs p = Some n \<Longrightarrow> \<not> is_symlink n \<Longrightarrow> o_lstat env p = None \<Longrightarrow> os_Stat env p fs = Some n"
  using follow_plain_41 [of fs p n] by (simp add: os_Stat_def)

lemma bind_ok:
  assumes "net_bind env p fs = (fs', None)"
  shows "f_files fs' p = Some \<lparr>n_ino = f_nextIno fs, n_kind = FSocket, n_perm = 0x1FF AND NOT (o_umask env), n_uid = o_uid env\<rparr>"
    "f_files fs p = None"
  using assms by (auto simp: net_bind_def create_node_def split: option.splits if_splits)

lemma listen_stale:
  assumes "listenOnSocket env p fs = (fs', r)"
  shows "(\<forall>q. q \<noteq> p \<longrightarrow> f_files fs' q = f_files fs q)
    \<and> (\<forall>n. f_files fs p = Some n \<longrightarrow> n_kind n \<noteq> FSocket \<longrightarrow> fs' = fs \<and> (\<exists>e. r = Inl e))"
proof -
  have rm: "f_files (fst (os_Remove env p g)) q = f_files g q" if "q \<noteq> p" for g q using that by (rule remove_other)
  have rm': "os_Remove env p g = (g', e) \<Longrightarrow> q \<noteq> p \<Longrightarrow> f_files g' q = f_files g q" for g g' e q
    using rm [of q g] by simp
  have bd: "net_bind env p g = (g', e) \<Longrightarrow> q \<noteq> p \<Longrightarrow> f_files g' q = f_files g q" for g g' e q
    using bind_other [of q p env g] by simp
  have ch: "net_bind env p g = (g', None) \<Longrightarrow> os_Chmod env p m g' = (g2, e) \<Longrightarrow> q \<noteq> p \<Longrightarrow> f_files g2 q = f_files g q" for g g' g2 e q m
    using chmod_plain [of g' p "\<lparr>n_ino = f_nextIno g, n_kind = FSocket, n_perm = 0x1FF AND NOT (o_umask env), n_uid = o_uid env\<rparr>" env m]
      bind_ok(1) [of env p g g'] bd [of g g' None q] by (auto simp: is_symlink_def split: option.splits)
  have "f_files fs' q = f_files fs q" if q: "q \<noteq> p" for q
    using assms q rm' bd ch
    by (auto simp: listenOnSocket_def Let_def closer_Close_def rm split: sum.splits option.splits if_splits prod.splits)
  moreover have "fs' = fs \<and> (\<exists>e. r = Inl e)" if "f_files fs p = Some n" "n_kind n \<noteq> FSocket" for n
    using assms that by (auto simp: listenOnSocket_def Let_def os_Lstat_def split: sum.splits option.splits)
  ultimately show ?thesis by blast
qed

lemma listen_ok:
  assumes "listenOnSocket env p fs = (fs', Inr u)"
  shows "\<exists>n. f_files fs' p = Some n \<and> n_kind n = FSocket \<and> n_perm n = 0x180 \<and> n_uid n = o_uid env
    \<and> u = newFileUnlinker env p (CloseListener p) fs'"
proof -
  from assms obtain fs1 fs2 where b: "net_bind env p fs1 = (fs2, None)" and c: "os_Chmod env p 0x180 fs2 = (fs', None)"
    and u: "u = newFileUnlinker env p (CloseListener p) fs'"
    by (auto simp: listenOnSocket_def Let_def split: sum.splits option.splits if_splits prod.splits)
  from chmod_plain [OF bind_ok(1) [OF b], of env "0x180"] c u show ?thesis
    by (auto simp: is_symlink_def split: option.splits)
qed

lemma unlink_stale:
  assumes "unlinkStaleUnixSocket env conf p fs = (fs', err)"
  shows "(\<forall>q. q \<noteq> p \<longrightarrow> f_files fs' q = f_files fs q) \<and> (\<forall>n. f_files fs p = Some n \<longrightarrow> n_kind n \<noteq> FSocket \<longrightarrow> fs' = fs)"
  using assms remove_other [of _ p env fs]
  by (auto simp: unlinkStaleUnixSocket_def os_Lstat_def split: if_splits option.splits sum.splits)

section \<open>Properties\<close>

text \<open>
  C30. The directory of the control sockets is private: whenever \<open>getSocketDir\<close> returns a path, whatever
  was there before, the path is a directory itself (not a symbolic link), belongs to the user of the daemon
  and gives no permission to group or others.
\<close>

theorem socket_dir_private:
  assumes "getSocketDir env xdg home tmp fs = (fs', Inr dir)"
  shows "\<exists>n. f_files fs' dir = Some n \<and> n_kind n = FDir \<and> n_uid n = o_uid env \<and> n_perm n AND 0x3F = 0"
proof -
  from assms obtain fs2 info where i: "os_Lstat env dir fs2 = Inr info" "\<not> is_symlink info" "n_kind info = FDir" "n_uid info = o_uid env"
    and last: "n_perm info AND 0x3F = 0 \<and> fs' = fs2 \<or> os_Chmod env dir 0x1C0 fs2 = (fs', None)"
    by (auto simp: getSocketDir_def Let_def split: prod.splits sum.splits option.splits if_splits)
  then have f: "f_files fs2 dir = Some info" by (auto simp: os_Lstat_def split: option.splits)
  from last show ?thesis
  proof
    assume "os_Chmod env dir 0x1C0 fs2 = (fs', None)"
    with chmod_plain [OF f i(2)] have "f_files fs' dir = Some (info\<lparr>n_perm := 0x1C0\<rparr>)" by (auto split: option.splits)
    with i show ?thesis by simp
  qed (use f i in auto)
qed

definition demo_env :: os_env where
  "demo_env = \<lparr>o_uid = 1000, o_umask = 0x12, o_lstat = (\<lambda>_. None), o_remove = (\<lambda>_. None), o_chmod = (\<lambda>_. None),
     o_create = (\<lambda>_. None)\<rparr>"

definition demo_fs :: file_system where
  "demo_fs = \<lparr>f_files = [''/run'' \<mapsto> \<lparr>n_ino = 1, n_kind = FDir, n_perm = 0x1FF, n_uid = 0\<rparr>,
       ''/run/tsshd'' \<mapsto> \<lparr>n_ino = 2, n_kind = FDir, n_perm = 0x1ED, n_uid = 1000\<rparr>,
       ''/run/tsshd/socket-7'' \<mapsto> \<lparr>n_ino = 3, n_kind = FSocket, n_perm = 0x1ED, n_uid = 1000\<rparr>,
       ''/run/notes'' \<mapsto> \<lparr>n_ino = 4, n_kind = FRegular, n_perm = 0x1A4, n_uid = 1000\<rparr>], f_nextIno = 5\<rparr>"

theorem socket_dir_private_witness:
  "\<exists>fs' n. getSocketDir demo_env ''/run'' [] ''/tmp'' demo_fs = (fs', Inr ''/run/tsshd'')
     \<and> f_files fs' ''/run/tsshd'' = Some n \<and> n_kind n = FDir \<and> n_uid n = o_uid demo_env \<and> n_perm n AND 0x3F = 0"
proof -
  have "snd (getSocketDir demo_env ''/run'' [] ''/tmp'' demo_fs) = Inr ''/run/tsshd''" by code_simp
  then obtain fs' where "getSocketDir demo_env ''/run'' [] ''/tmp'' demo_fs = (fs', Inr ''/run/tsshd'')"
    by (cases "getSocketDir demo_env ''/run'' [] ''/tmp'' demo_fs") simp
  with socket_dir_private [OF this] show ?thesis by blast
qed

text \<open>
  Making room for a Unix socket never removes anything but a socket: listening on a control socket and
  unlinking a stale socket of a forwarding leave every other path as it was, and a file at the path that is
  not a socket stays and makes the operation fail. A control socket that was created belongs to the user and
  has mode 0600.
\<close>

lemma only_sockets_replaced:
  assumes "listenOnSocket env p fs = (fs1, r)" "unlinkStaleUnixSocket env conf p fs = (fs2, err)"
  shows "(\<forall>q. q \<noteq> p \<longrightarrow> f_files fs1 q = f_files fs q \<and> f_files fs2 q = f_files fs q)
    \<and> (\<forall>n. f_files fs p = Some n \<and> n_kind n \<noteq> FSocket \<longrightarrow> fs1 = fs \<and> fs2 = fs \<and> (\<exists>e. r = Inl e))
    \<and> (\<forall>u. r = Inr u \<longrightarrow> (\<exists>n. f_files fs1 p = Some n \<and> n_kind n = FSocket \<and> n_perm n = 0x180 \<and> n_uid n = o_uid env))"
proof (intro conjI allI impI)
  note l = listen_stale [OF assms(1)] and u = unlink_stale [OF assms(2)]
  show "f_files fs1 q = f_files fs q" "f_files fs2 q = f_files fs q" if "q \<noteq> p" for q using l u that by simp_all
  show "fs1 = fs" "fs2 = fs" "\<exists>e. r = Inl e" if "f_files fs p = Some n \<and> n_kind n \<noteq> FSocket" for n using l u that by simp_all
  show "\<exists>n. f_files fs1 p = Some n \<and> n_kind n = FSocket \<and> n_perm n = 0x180 \<and> n_uid n = o_uid env" if "r = Inr v" for v
    using listen_ok [of env p fs fs1 v] assms(1) that by auto
qed

lemma only_sockets_replaced_witness:
  "(\<exists>fs1 u n. listenOnSocket demo_env ''/run/tsshd/socket-7'' demo_fs = (fs1, Inr u)
      \<and> f_files fs1 ''/run/notes'' = f_files demo_fs ''/run/notes''
      \<and> f_files fs1 ''/run/tsshd/socket-7'' = Some n \<and> n_perm n = 0x180)
   \<and> fst (listenOnSocket demo_env ''/run/notes'' demo_fs) = demo_fs"
proof -
  let ?p = "''/run/tsshd/socket-7''" and ?conf = "parseSshdConfig (Some [''StreamLocalBindUnlink yes'']) [] []"
  have ok: "case snd (listenOnSocket demo_env ?p demo_fs) of Inl e \<Rightarrow> False | Inr u \<Rightarrow> True" by code_simp
  obtain fs1 r where l: "listenOnSocket demo_env ?p demo_fs = (fs1, r)" by fastforce
  with ok obtain u where r: "r = Inr u" by (cases r) auto
  obtain fs2 e where s: "unlinkStaleUnixSocket demo_env ?conf ?p demo_fs = (fs2, e)" by fastforce
  from only_sockets_replaced [OF l s, THEN conjunct1, rule_format, of "''/run/notes''"]
    only_sockets_replaced [OF l s, THEN conjunct2, THEN conjunct2, rule_format, OF r] l r
  have 1: "\<exists>fs1 u n. listenOnSocket demo_env ?p demo_fs = (fs1, Inr u)
      \<and> f_files fs1 ''/run/notes'' = f_files demo_fs ''/run/notes'' \<and> f_files fs1 ?p = Some n \<and> n_perm n = 0x180" by auto
  obtain gs1 q where l': "listenOnSocket demo_env ''/run/notes'' demo_fs = (gs1, q)" by fastforce
  obtain gs2 e' where s': "unlinkStaleUnixSocket demo_env ?conf ''/run/notes'' demo_fs = (gs2, e')" by fastforce
  have "f_files demo_fs ''/run/notes'' = Some \<lparr>n_ino = 4, n_kind = FRegular, n_perm = 0x1A4, n_uid = 1000\<rparr>
      \<and> n_kind \<lparr>n_ino = 4, n_kind = FRegular, n_perm = 0x1A4, n_uid = 1000\<rparr> \<noteq> FSocket" by (simp add: demo_fs_def)
  from only_sockets_replaced [OF l' s', THEN conjunct2, THEN conjunct1, rule_format, OF this] l' have "fst (listenOnSocket demo_env ''/run/notes'' demo_fs) = demo_fs" by simp
  with 1 show ?thesis by blast
qed

text \<open>
  A clean-up function runs once, and where its closer does not touch the file it respects a file that has
  replaced the one it was made for. For a listener of \<open>net.Listen\<close> the check comes too late: closing the
  listener has already unlinked whatever is at the path.
\<close>

lemma unlinker_identity:
  assumes "u = newFileUnlinker env p c fs" "os_Stat env p fs = Some old"
    and "f_files fs' p = Some new" "\<not> is_symlink new" "n_ino new \<noteq> n_ino old" "o_lstat env p = None" "o_remove env p = None"
    and "unlinker_cleanup env u fs' = (u', fs'')"
  shows "unlinker_cleanup env u' g = (u', g)
    \<and> ((\<forall>q. c \<noteq> CloseListener q) \<longrightarrow> fs'' = fs')
    \<and> (c = CloseListener p \<longrightarrow> f_files fs'' p = None)"
proof (intro conjI impI)
  have u: "fu_path u = p" "fu_closer u = c" "fu_created u = Some old" "\<not> fu_done u" using assms(1,2) by (simp_all add: newFileUnlinker_def)
  show "unlinker_cleanup env u' g = (u', g)"
    using assms(8) u by (auto simp: unlinker_cleanup_def Let_def split: option.splits if_splits)
  show "fs'' = fs'" if "\<forall>q. c \<noteq> CloseListener q"
  proof -
    have "closer_Close env c fs' = fs'" using that by (simp add: closer_Close_def split: closer.splits)
    with assms(5,8) u stat_plain [OF assms(3,4,6)] show ?thesis by (simp add: unlinker_cleanup_def Let_def)
  qed
  show "f_files fs'' p = None" if "c = CloseListener p"
  proof -
    have c: "closer_Close env c fs' = fs'\<lparr>f_files := (f_files fs')(p := None)\<rparr>"
      using that assms(3,7) by (simp add: closer_Close_def os_Remove_def)
    have "follow 41 p (fs'\<lparr>f_files := (f_files fs')(p := None)\<rparr>) = None"
      using follow.simps(2) [of 40 p "fs'\<lparr>f_files := (f_files fs')(p := None)\<rparr>"] by simp
    then have "os_Stat env p (closer_Close env c fs') = None" by (simp add: os_Stat_def c)
    with assms(8) u c have "fs'' = fs'\<lparr>f_files := (f_files fs')(p := None)\<rparr>" by (simp add: unlinker_cleanup_def Let_def)
    then show ?thesis by simp
  qed
qed

definition replaced_fs :: file_system where
  "replaced_fs = demo_fs\<lparr>f_files := (f_files demo_fs)(''/run/tsshd/socket-7'' \<mapsto>
     \<lparr>n_ino = 9, n_kind = FSocket, n_perm = 0x180, n_uid = 1000\<rparr>)\<rparr>"

lemma unlinker_identity_witness:
  "snd (unlinker_cleanup demo_env (newFileUnlinker demo_env ''/run/tsshd/socket-7'' CloseOther demo_fs) replaced_fs) = replaced_fs
   \<and> f_files (snd (unlinker_cleanup demo_env (newFileUnlinker demo_env ''/run/tsshd/socket-7''
       (CloseListener ''/run/tsshd/socket-7'') demo_fs) replaced_fs)) ''/run/tsshd/socket-7'' = None"
proof -
  let ?p = "''/run/tsshd/socket-7''"
  let ?old = "\<lparr>n_ino = 3, n_kind = FSocket, n_perm = 0x1ED, n_uid = 1000\<rparr>"
    and ?new = "\<lparr>n_ino = 9, n_kind = FSocket, n_perm = 0x180, n_uid = 1000\<rparr>"
  have f: "f_files demo_fs ?p = Some ?old" "f_files replaced_fs ?p = Some ?new" "\<not> is_symlink ?old" "\<not> is_symlink ?new"
    "o_lstat demo_env ?p = None" "o_remove demo_env ?p = None" "n_ino ?new \<noteq> n_ino ?old"
    by (simp_all add: demo_fs_def replaced_fs_def is_symlink_def demo_env_def)
  note st = stat_plain [OF f(1,3,5)]
  note use = unlinker_identity [OF refl st f(2,4,7,5,6) prod.collapse [symmetric]]
  from use [of CloseOther] use [of "CloseListener ?p"] show ?thesis by simp
qed

end
