(* ===== verification/Forward.thy ===== *)
theory Forward
  imports UnixFiles PacketConn
begin

text \<open>
  Forwarding (\<open>forward.go\<close>, the handlers of \<open>datagram.go\<close> and the X11 and agent requests of
  \<open>session.go\<close>): what the configuration of \<open>sshd\<close> allows, dialling and listening for the client, the
  connections that wait for the client to claim them, and copying between a stream and a connection.
\<close>

section \<open>Permission\<close>

text \<open>
  The option that prohibits a forwarding, if any. \<open>other\<close> is the direction that excludes this one
  (\<open>remote\<close> for dialling, \<open>local\<close> for listening), \<open>unixNet\<close> the network of Unix sockets.
\<close>

definition forward_prohibited :: "sshd_conf \<Rightarrow> string \<Rightarrow> string \<Rightarrow> string \<Rightarrow> string option" where
  "forward_prohibited conf other unixNet net =
     (let v = getSshdConfig conf ''AllowTcpForwarding''; u = getSshdConfig conf ''AllowStreamLocalForwarding''
      in if equal_fold v ''no'' \<or> equal_fold v other then Some ''AllowTcpForwarding''
         else if net = unixNet \<and> (equal_fold u ''no'' \<or> equal_fold u other) then Some ''AllowStreamLocalForwarding''
         else if equal_fold (getSshdConfig conf ''DisableForwarding'') ''yes'' then Some ''DisableForwarding''
         else None)"

definition streamLocalBindMask :: "sshd_conf \<Rightarrow> 32 word" where
  "streamLocalBindMask conf =
     (let v = getSshdConfig conf ''StreamLocalBindMask''
      in if v = [] then 0x7F
         else (case parse_int 8 32 v of
             None \<Rightarrow> 0x7F
           | Some m \<Rightarrow> if m < 0 \<or> m > 0x1FF then 0x7F else word_of_int m))"

section \<open>Dialling\<close>

text \<open>How a handler ends, and whether the connection it dialled was opened and closed again.\<close>

datatype fwd_end = FwdError go_error | FwdProhibited string | FwdAckFailed | FwdForwarded

record dial_result =
  dr_end :: fwd_end
  dr_opened :: bool
  dr_closed :: bool
  dr_channel :: bool
  dr_removed :: bool

definition dial_nothing :: "fwd_end \<Rightarrow> dial_result" where
  "dial_nothing r = \<lparr>dr_end = r, dr_opened = False, dr_closed = False, dr_channel = False, dr_removed = False\<rparr>"

definition handleDialEvent ::
  "sshd_conf \<Rightarrow> go_error option \<Rightarrow> string \<Rightarrow> go_error option \<Rightarrow> go_error option \<Rightarrow> dial_result" where
  "handleDialEvent conf recvErr net dialErr respErr =
     (case recvErr of
        Some e \<Rightarrow> dial_nothing (FwdError (ErrFlat ''recv dial message failed'' e))
      | None \<Rightarrow>
          if has_prefix net ''udp'' then dial_nothing (FwdError (ErrText (''use DialUDP for ['' @ net @ '']'')))
          else (case forward_prohibited conf ''remote'' ''unix'' net of
              Some option \<Rightarrow> dial_nothing (FwdProhibited option)
            | None \<Rightarrow>
                (case dialErr of
                   Some e \<Rightarrow> dial_nothing (FwdError e)
                 | None \<Rightarrow>
                     (dial_nothing (if respErr \<noteq> None then FwdAckFailed else FwdForwarded))\<lparr>dr_opened := True, dr_closed := True\<rparr>)))"

text \<open>
  The datagram handler. \<open>forwardUDP\<close> closes the socket and the connection when it returns, the early
  returns after dialling close neither.
\<close>

definition handleDialUdpEvent ::
  "sshd_conf \<Rightarrow> go_error option \<Rightarrow> string \<Rightarrow> go_error option \<Rightarrow> go_error option \<Rightarrow> go_error option \<Rightarrow> dial_result" where
  "handleDialUdpEvent conf recvErr net dialErr respErr readyErr =
     (case recvErr of
        Some e \<Rightarrow> dial_nothing (FwdError (ErrFlat ''recv dial udp message failed'' e))
      | None \<Rightarrow>
          (case forward_prohibited conf ''remote'' ''unixgram'' net of
             Some option \<Rightarrow> dial_nothing (FwdProhibited option)
           | None \<Rightarrow>
               (case dialErr of
                  Some e \<Rightarrow> dial_nothing (FwdError e)
                | None \<Rightarrow>
                    let r = (dial_nothing FwdAckFailed)\<lparr>dr_opened := True, dr_channel := True\<rparr>
                    in if respErr \<noteq> None \<or> readyErr \<noteq> None then r
                       else r\<lparr>dr_end := FwdForwarded, dr_closed := True, dr_removed := True\<rparr>)))"

section \<open>Listening\<close>

datatype listen_end = LstError go_error | LstProhibited string | LstAckFailed | LstListening "file_unlinker option"

text \<open>
  The handlers up to their loops. \<open>listenErr\<close> is the error of listening where the network has no path;
  the clean-up of a socket with a path runs when the acknowledgement fails. A path is one in the file system: the
  abstract addresses of Linux, which begin with \<open>@\<close>, are left out.
\<close>

definition listen_unix ::
  "os_env \<Rightarrow> sshd_conf \<Rightarrow> closer \<Rightarrow> string \<Rightarrow> go_error option \<Rightarrow> file_system \<Rightarrow> file_system \<times> listen_end" where
  "listen_unix env conf c addr ackErr fs =
     (case unlinkStaleUnixSocket env conf addr fs of
        (fs1, Some e) \<Rightarrow> (fs1, LstError e)
      | (fs1, None) \<Rightarrow>
          (case net_bind env addr fs1 of
             (fs2, Some e) \<Rightarrow> (fs2, LstError e)
           | (fs2, None) \<Rightarrow>
               (case os_Chmod env addr (0x1B6 AND NOT (streamLocalBindMask conf)) fs2 of
                  (fs3, Some e) \<Rightarrow>
                    (fst (os_Remove env addr (closer_Close env c fs3)),
                     LstError (ErrFlat (''chmod unix socket ['' @ addr @ ''] failed'') e))
                | (fs3, None) \<Rightarrow>
                    let u = newFileUnlinker env addr c fs3
                    in if ackErr \<noteq> None then (snd (unlinker_cleanup env u fs3), LstAckFailed)
                       else (fs3, LstListening (Some u)))))"

text \<open>
  Listening on any other network: the listener is closed when the handler ends. \<open>net.Listen\<close> also knows
  \<open>unixpacket\<close> (\<open>packetNet\<close>), which has a path and for which the code does nothing special.
\<close>

definition listen_plain ::
  "string option \<Rightarrow> closer \<Rightarrow> os_env \<Rightarrow> string \<Rightarrow> string \<Rightarrow> go_error option \<Rightarrow> go_error option \<Rightarrow> file_system \<Rightarrow>
    file_system \<times> listen_end" where
  "listen_plain packetNet c env net addr listenErr ackErr fs =
     (case (if packetNet = Some net then net_bind env addr fs else (fs, listenErr)) of
        (fs1, Some e) \<Rightarrow> (fs1, LstError e)
      | (fs1, None) \<Rightarrow>
          if ackErr \<noteq> None then (if packetNet = Some net then closer_Close env c fs1 else fs1, LstAckFailed)
          else (fs1, LstListening None))"

definition listen_setup ::
  "string \<Rightarrow> string option \<Rightarrow> closer \<Rightarrow> os_env \<Rightarrow> sshd_conf \<Rightarrow> string \<Rightarrow> string \<Rightarrow> go_error option \<Rightarrow> go_error option \<Rightarrow>
    file_system \<Rightarrow> file_system \<times> listen_end" where
  "listen_setup unixNet packetNet c env conf net addr listenErr ackErr fs =
     (case forward_prohibited conf ''local'' unixNet net of
        Some option \<Rightarrow> (fs, LstProhibited option)
      | None \<Rightarrow>
          if net = unixNet then listen_unix env conf c addr ackErr fs
          else listen_plain packetNet c env net addr listenErr ackErr fs)"

definition handleListenEvent ::
  "os_env \<Rightarrow> sshd_conf \<Rightarrow> go_error option \<Rightarrow> string \<Rightarrow> string \<Rightarrow> go_error option \<Rightarrow> go_error option \<Rightarrow> file_system \<Rightarrow>
    file_system \<times> listen_end" where
  "handleListenEvent env conf recvErr net addr listenErr ackErr fs =
     (case recvErr of
        Some e \<Rightarrow> (fs, LstError (ErrFlat ''recv listen message failed'' e))
      | None \<Rightarrow> listen_setup ''unix'' (Some ''unixpacket'') (CloseListener addr) env conf net addr listenErr ackErr fs)"

definition handleListenUdpEvent ::
  "os_env \<Rightarrow> sshd_conf \<Rightarrow> go_error option \<Rightarrow> string \<Rightarrow> string \<Rightarrow> go_error option \<Rightarrow> go_error option \<Rightarrow> file_system \<Rightarrow>
    file_system \<times> listen_end" where
  "handleListenUdpEvent env conf recvErr net addr listenErr ackErr fs =
     (case recvErr of
        Some e \<Rightarrow> (fs, LstError (ErrFlat ''recv listen udp message failed'' e))
      | None \<Rightarrow> listen_setup ''unixgram'' None CloseOther env conf net addr listenErr ackErr fs)"

section \<open>X11 and agent requests\<close>

text \<open>\<open>low\<close> and \<open>high\<close> are the ports tried for X11; \<open>None\<close>: the request is refused.\<close>

definition x11_ports :: "bool \<Rightarrow> sshd_conf \<Rightarrow> (nat \<times> nat) option" where
  "x11_ports enableForwardings conf =
     (if \<not> enableForwardings then None
      else if \<not> equal_fold (getSshdConfig conf ''X11Forwarding'') ''yes'' then None
      else if equal_fold (getSshdConfig conf ''DisableForwarding'') ''yes'' then None
      else
        let offset = getSshdConfig conf ''X11DisplayOffset'';
            displayOffset = (if offset = [] then 10
              else (case parse_uint 10 32 offset of
                  None \<Rightarrow> 10
                | Some off \<Rightarrow> if off < 65535 - 6000 - 1000 then off else 10))
        in Some (6000 + displayOffset, min (6000 + displayOffset + 1000) 65535))"

text \<open>
  The search for a free port: \<open>nets\<close> are the networks that work at all, \<open>can net port\<close> whether the
  port can be bound; every listener of a port that did not get all of them is closed again. The result is
  the port with the listeners left open, by network and port.
\<close>

function listen_port_from :: "'n list \<Rightarrow> ('n \<Rightarrow> nat \<Rightarrow> bool) \<Rightarrow> nat \<Rightarrow> nat \<Rightarrow> nat option \<times> ('n \<times> nat) list" where
  "listen_port_from nets can port high =
     (if port > high then (None, [])
      else
        let listenerList = filter (\<lambda>n. can n port) nets
        in if length listenerList = length nets then (Some port, map (\<lambda>n. (n, port)) listenerList)
           else listen_port_from nets can (Suc port) high)"
  by pat_completeness auto
termination by (relation "measure (\<lambda>(nets, can, port, high). Suc high - port)") auto

declare listen_port_from.simps [simp del]

definition listenTcpOnFreePort ::
  "bool \<Rightarrow> bool \<Rightarrow> (string \<Rightarrow> nat \<Rightarrow> bool) \<Rightarrow> nat \<Rightarrow> nat \<Rightarrow> (nat \<times> (string \<times> nat) list) result" where
  "listenTcpOnFreePort ok4 ok6 can low high =
     (if \<not> ok4 \<and> \<not> ok6 then Inl (ErrText ''ipv4 and ipv6 both listen failed'')
      else (case listen_port_from ((if ok4 then [''tcp4''] else []) @ (if ok6 then [''tcp6''] else [])) can low high of
          (Some port, ls) \<Rightarrow> Inr (port, ls)
        | (None, _) \<Rightarrow> Inl (ErrText ''listen tcp failed'')))"

definition handleX11Request ::
  "bool \<Rightarrow> sshd_conf \<Rightarrow> string \<Rightarrow> bool \<Rightarrow> bool \<Rightarrow> (string \<Rightarrow> nat \<Rightarrow> bool) \<Rightarrow> nat \<Rightarrow>
    ((string \<times> nat) list \<times> string \<times> string) option" where
  "handleX11Request enableForwardings conf hostname ok4 ok6 can screen =
     (case x11_ports enableForwardings conf of
        None \<Rightarrow> None
      | Some (low, high) \<Rightarrow>
          let useLocalhost = \<not> equal_fold (getSshdConfig conf ''X11UseLocalhost'') ''no''
          in (case listenTcpOnFreePort ok4 ok6 can low high of
                Inl e \<Rightarrow> None
              | Inr (port, ls) \<Rightarrow>
                  let num = nat_str (port - 6000) @ ''.'' @ nat_str screen;
                      display = (if useLocalhost then ''localhost'' else hostname) @ '':'' @ num;
                      authDisplay = (if useLocalhost then ''unix:'' @ num else display)
                  in Some (ls, display, authDisplay)))"

definition handleAgentRequest :: "bool \<Rightarrow> sshd_conf \<Rightarrow> 'l result \<Rightarrow> 'l option" where
  "handleAgentRequest enableForwardings conf listener =
     (if \<not> enableForwardings then None
      else if equal_fold (getSshdConfig conf ''AllowAgentForwarding'') ''no'' then None
      else if equal_fold (getSshdConfig conf ''DisableForwarding'') ''yes'' then None
      else (case listener of Inl e \<Rightarrow> None | Inr l \<Rightarrow> Some l))"

section \<open>Accepted connections\<close>

text \<open>
  A connection waits for the client (\<open>Parked\<close>), has been claimed by the handler of an accept, or is
  closed. \<open>ac_fired\<close> are the numbers whose timers fired, \<open>ac_closes\<close> the calls of \<open>Close\<close>.
\<close>

datatype parked_conn = Parked | Claimed | Gone

record accept_server =
  ac_map :: "u64 \<Rightarrow> nat option"
  ac_next :: u64
  ac_conns :: "parked_conn list"
  ac_fired :: "u64 list"
  ac_closes :: "nat list"

definition addAcceptConn :: "accept_server \<Rightarrow> accept_server \<times> u64" where
  "addAcceptConn s =
     (let i = ac_next s
      in (s\<lparr>ac_next := i + 1, ac_map := (ac_map s)(i := Some (length (ac_conns s))), ac_conns := ac_conns s @ [Parked]\<rparr>, i))"

definition takeAcceptConn :: "u64 \<Rightarrow> accept_server \<Rightarrow> accept_server \<times> nat option" where
  "takeAcceptConn i s =
     (case ac_map s i of
        Some c \<Rightarrow> (s\<lparr>ac_map := (ac_map s)(i := None)\<rparr>, Some c)
      | None \<Rightarrow> (s, None))"

definition close_conn :: "nat \<Rightarrow> accept_server \<Rightarrow> accept_server" where
  "close_conn c s = s\<lparr>ac_conns := (ac_conns s)[c := Gone], ac_closes := ac_closes s @ [c]\<rparr>"

definition take_and_close :: "u64 \<Rightarrow> accept_server \<Rightarrow> accept_server" where
  "take_and_close i s = (case takeAcceptConn i s of (s1, Some c) \<Rightarrow> close_conn c s1 | (s1, None) \<Rightarrow> s1)"

definition reap_timer :: "u64 \<Rightarrow> accept_server \<Rightarrow> accept_server" where
  "reap_timer i s = take_and_close i (s\<lparr>ac_fired := ac_fired s @ [i]\<rparr>)"

definition handleAcceptEvent :: "u64 \<Rightarrow> accept_server \<Rightarrow> accept_server \<times> go_error option" where
  "handleAcceptEvent i s =
     (case takeAcceptConn i s of
        (s1, None) \<Rightarrow> (s1, Some (ErrText ''invalid accept id''))
      | (s1, Some c) \<Rightarrow> (s1\<lparr>ac_conns := (ac_conns s1)[c := Claimed]\<rparr>, None))"

text \<open>
  A listener accepts a connection (\<open>AcAccept\<close>) and may fail to tell the client (\<open>AcSendFailed\<close>); a timer
  fires; the client claims a number; the handler that claimed a connection returns (\<open>AcReturn\<close>).
\<close>

datatype accept_act = AcAccept | AcSendFailed u64 | AcTimer u64 | AcClaim u64 | AcReturn nat

definition accept_exec :: "accept_act \<Rightarrow> accept_server \<Rightarrow> accept_server option" where
  "accept_exec a s =
     (case a of
        AcAccept \<Rightarrow> Some (fst (addAcceptConn s))
      | AcSendFailed i \<Rightarrow> if unat i < length (ac_conns s) then Some (take_and_close i s) else None
      | AcTimer i \<Rightarrow> if unat i < length (ac_conns s) \<and> i \<notin> set (ac_fired s) then Some (reap_timer i s) else None
      | AcClaim i \<Rightarrow> Some (fst (handleAcceptEvent i s))
      | AcReturn c \<Rightarrow> if c < length (ac_conns s) \<and> ac_conns s ! c = Claimed then Some (close_conn c s) else None)"

definition new_accept_server :: accept_server where
  "new_accept_server = \<lparr>ac_map = (\<lambda>_. None), ac_next = 0, ac_conns = [], ac_fired = [], ac_closes = []\<rparr>"

section \<open>Copying\<close>

definition kForwardBuffer :: nat where "kForwardBuffer = 32768"

text \<open>Stream to connection: the writer afterwards.\<close>

function forwardConnInput :: "reader \<Rightarrow> writer \<Rightarrow> go_error option \<times> writer" where
  "forwardConnInput r w =
     (case rd_read kForwardBuffer r of
        ((buf, err), r') \<Rightarrow>
          (case (if buf \<noteq> [] then writeAll buf w else (None, w)) of
             (Some e, w') \<Rightarrow> (Some e, w')
           | (None, w') \<Rightarrow> (case err of Some e \<Rightarrow> (None, w') | None \<Rightarrow> forwardConnInput r' w')))"
  by pat_completeness auto
termination
proof (relation "measure (\<lambda>(r, w). length (rd_chunks r) + length (concat (rd_chunks r)))")
  fix r w x r' buf err y w' 
  assume "(x, r') = rd_read kForwardBuffer r" "(buf, err) = x" "err = None"
  then show "((r', w'), r, w) \<in> measure (\<lambda>(r, w). length (rd_chunks r) + length (concat (rd_chunks r)))"
    using rd_read_decr [of 32767 r buf r'] by (simp add: kForwardBuffer_def)
qed simp_all

declare forwardConnInput.simps [simp del]

text \<open>
  Connection to stream: \<open>waits\<close> tells for every write whether the client has timed out and how waiting for
  it ended.
\<close>

function forwardConnOutput :: "(bool \<times> go_error option) list \<Rightarrow> reader \<Rightarrow> writer \<Rightarrow> go_error option \<times> writer" where
  "forwardConnOutput waits r w =
     (case rd_read kForwardBuffer r of
        ((buf, err), r') \<Rightarrow>
          let wait = (case waits of [] \<Rightarrow> None | (timeout, e) # _ \<Rightarrow> if timeout then e else None)
          in (case (if buf = [] then (None, w) else if wait \<noteq> None then (wait, w) else writeAll buf w) of
                (Some e, w') \<Rightarrow> (Some e, w')
              | (None, w') \<Rightarrow>
                  (case err of Some e \<Rightarrow> (None, w') | None \<Rightarrow> forwardConnOutput (if buf = [] then waits else tl waits) r' w')))"
  by pat_completeness auto
termination
proof (relation "measure (\<lambda>(ws, r, w). length (rd_chunks r) + length (concat (rd_chunks r)))")
  fix waits r w x r' buf err wait y w'
  assume "(x, r') = rd_read kForwardBuffer r" "(buf, err) = x" "err = None"
  then show "((if buf = [] then waits else tl waits, r', w'), waits, r, w)
      \<in> measure (\<lambda>(ws, r, w). length (rd_chunks r) + length (concat (rd_chunks r)))"
    using rd_read_decr [of 32767 r buf r'] by (simp add: kForwardBuffer_def)
qed simp_all

declare forwardConnOutput.simps [simp del]

section \<open>Specifications\<close>

text \<open>What the manual of \<open>sshd_config\<close> says of a forwarding in the direction excluded by \<open>other\<close>.\<close>

definition forward_allowed :: "sshd_conf \<Rightarrow> string \<Rightarrow> bool \<Rightarrow> bool" where
  "forward_allowed conf other unix \<longleftrightarrow>
     to_lower (getSshdConfig conf ''DisableForwarding'') \<noteq> ''yes''
     \<and> to_lower (getSshdConfig conf ''AllowTcpForwarding'') \<notin> {''no'', other}
     \<and> (unix \<longrightarrow> to_lower (getSshdConfig conf ''AllowStreamLocalForwarding'') \<notin> {''no'', other})"

definition listen_denied :: "file_system \<Rightarrow> file_system \<times> listen_end \<Rightarrow> bool" where
  "listen_denied fs res \<longleftrightarrow> fst res = fs \<and> (\<forall>u. snd res \<noteq> LstListening u)"

text \<open>What a copy loop leaves in the writer: a prefix of the input, all of it when no write failed.\<close>

definition copied :: "writer \<Rightarrow> reader \<Rightarrow> go_error option \<times> writer \<Rightarrow> bool" where
  "copied w r res \<longleftrightarrow>
     (\<exists>ps. w_sink (snd res) = w_sink w @ ps \<and> prefix ps (rd_bytes r) \<and> (fst res = None \<longrightarrow> ps = rd_bytes r))"

definition accept_inv :: "accept_server \<Rightarrow> bool" where
  "accept_inv s \<longleftrightarrow>
     ac_next s = word_of_nat (length (ac_conns s))
     \<and> (\<forall>i c. ac_map s i = Some c \<longleftrightarrow> c < length (ac_conns s) \<and> i = word_of_nat c \<and> ac_conns s ! c = Parked)
     \<and> distinct (ac_closes s) \<and> (\<forall>c. c \<in> set (ac_closes s) \<longleftrightarrow> c < length (ac_conns s) \<and> ac_conns s ! c = Gone)
     \<and> (\<forall>i \<in> set (ac_fired s). unat i < length (ac_conns s) \<and> ac_conns s ! unat i \<noteq> Parked)"

definition accept_ok :: "accept_server \<Rightarrow> bool" where
  "accept_ok s \<longleftrightarrow> (length (ac_conns s) < 2 ^ 64 \<longrightarrow> accept_inv s)"

section \<open>Lemmas\<close>

lemma prohibited_iff:
  assumes "to_lower other = other"
  shows "forward_prohibited conf other unixNet net = None \<longleftrightarrow> forward_allowed conf other (net = unixNet)"
proof -
  have "to_lower ''no'' = ''no''" "to_lower ''yes'' = ''yes''" by code_simp+
  with assms show ?thesis
    by (auto simp: forward_prohibited_def forward_allowed_def equal_fold_def Let_def split: if_splits)
qed

lemma directions: "to_lower ''remote'' = ''remote''" "to_lower ''local'' = ''local''"
  by code_simp+

lemma unat_of_nat64: "a < 2 ^ 64 \<Longrightarrow> unat (word_of_nat a :: u64) = a"
  using unat_of_length [of a, where 'a = 64] by simp

lemma word_of_nat_inj64: "a < 2 ^ 64 \<Longrightarrow> b < 2 ^ 64 \<Longrightarrow> (word_of_nat a :: u64) = word_of_nat b \<longleftrightarrow> a = b"
  using unat_of_nat64 [of a] unat_of_nat64 [of b] by metis

lemma add_inv:
  assumes inv: "accept_inv s" and len: "Suc (length (ac_conns s)) < 2 ^ 64"
  shows "accept_inv (fst (addAcceptConn s))"
proof -
  let ?n = "length (ac_conns s)"
  have m: "ac_map s i = Some c \<longleftrightarrow> c < ?n \<and> i = word_of_nat c \<and> ac_conns s ! c = Parked" for i c
    using inv by (simp add: accept_inv_def)
  have nxt: "ac_next s = word_of_nat ?n" using inv by (simp add: accept_inv_def)
  have "((ac_map s)(word_of_nat ?n \<mapsto> ?n)) i = Some c \<longleftrightarrow>
      c < Suc ?n \<and> i = word_of_nat c \<and> (ac_conns s @ [Parked]) ! c = Parked" for i c
  proof (cases "i = word_of_nat ?n")
    case True
    have "c = ?n" if "c < Suc ?n" "i = word_of_nat c" using that True word_of_nat_inj64 [of c ?n] len by simp
    with True show ?thesis by auto
  next
    case False
    then have "i = word_of_nat c \<Longrightarrow> c \<noteq> ?n" by blast
    with False m [of i c] show ?thesis by (auto simp: nth_append less_Suc_eq)
  qed
  moreover have "c \<in> set (ac_closes s) \<longleftrightarrow> c < Suc ?n \<and> (ac_conns s @ [Parked]) ! c = Gone" for c
    using inv by (auto simp: accept_inv_def nth_append less_Suc_eq)
  moreover have "\<forall>i \<in> set (ac_fired s). unat i < Suc ?n \<and> (ac_conns s @ [Parked]) ! unat i \<noteq> Parked"
    using inv by (auto simp: accept_inv_def nth_append)
  ultimately show ?thesis using inv nxt by (simp add: accept_inv_def addAcceptConn_def Let_def ac_simps)
qed

lemma resolve_inv:
  assumes inv: "accept_inv s" and len: "length (ac_conns s) < 2 ^ 64" and c: "ac_map s i = Some c" and st: "st = Claimed \<or> st = Gone"
  shows "accept_inv (s\<lparr>ac_map := (ac_map s)(i := None), ac_conns := (ac_conns s)[c := st],
    ac_closes := (if st = Gone then ac_closes s @ [c] else ac_closes s)\<rparr>)"
proof -
  let ?n = "length (ac_conns s)" and ?cs = "(ac_conns s)[c := st]"
  have m: "ac_map s j = Some d \<longleftrightarrow> d < ?n \<and> j = word_of_nat d \<and> ac_conns s ! d = Parked" for j d
    using inv by (simp add: accept_inv_def)
  from m [of i c] c have cn: "c < ?n" "i = word_of_nat c" "ac_conns s ! c = Parked" by auto
  have nth: "?cs ! d = (if d = c then st else ac_conns s ! d)" for d using cn by (simp add: nth_list_update)
  have "((ac_map s)(i := None)) j = Some d \<longleftrightarrow> d < ?n \<and> j = word_of_nat d \<and> ?cs ! d = Parked" for j d
  proof (cases "j = i")
    case True
    have "d = c" if "d < ?n" "j = word_of_nat d" using that True cn word_of_nat_inj64 [of d c] len by simp
    with True st show ?thesis by (auto simp: nth)
  next
    case False
    then have "j = word_of_nat d \<Longrightarrow> d \<noteq> c" using cn by blast
    with False m [of j d] show ?thesis by (auto simp: nth)
  qed
  moreover have old: "d \<in> set (ac_closes s) \<longleftrightarrow> d < ?n \<and> ac_conns s ! d = Gone" for d using inv by (simp add: accept_inv_def)
  then have "c \<notin> set (ac_closes s)" using cn by simp
  moreover have "d \<in> set (if st = Gone then ac_closes s @ [c] else ac_closes s) \<longleftrightarrow> d < ?n \<and> ?cs ! d = Gone" for d
    using old cn st by (auto simp: nth)
  moreover have "\<forall>j \<in> set (ac_fired s). unat j < ?n \<and> ?cs ! unat j \<noteq> Parked" using inv st by (auto simp: accept_inv_def nth)
  ultimately show ?thesis using inv by (auto simp: accept_inv_def)
qed

lemma take_and_close_inv:
  assumes "accept_inv s" "length (ac_conns s) < 2 ^ 64"
  shows "accept_inv (take_and_close i s)"
proof (cases "ac_map s i")
  case (Some c)
  from resolve_inv [OF assms Some, of Gone] show ?thesis by (simp add: take_and_close_def takeAcceptConn_def close_conn_def Some)
qed (use assms in \<open>simp add: take_and_close_def takeAcceptConn_def\<close>)

lemma not_parked_after:
  assumes inv: "accept_inv s" and len: "length (ac_conns s) < 2 ^ 64" and i: "unat i < length (ac_conns s)"
  shows "unat i < length (ac_conns (take_and_close i s)) \<and> ac_conns (take_and_close i s) ! unat i \<noteq> Parked"
proof (cases "ac_map s i")
  case None
  then have "ac_map s (word_of_nat (unat i)) \<noteq> Some (unat i)" by simp
  then have "ac_conns s ! unat i \<noteq> Parked" using inv i unfolding accept_inv_def by blast
  with None i show ?thesis by (simp add: take_and_close_def takeAcceptConn_def)
next
  case (Some c)
  with inv have c: "c < length (ac_conns s)" "i = word_of_nat c" by (auto simp: accept_inv_def)
  with len have "unat i = c" by (simp add: unat_of_nat64)
  with Some c i show ?thesis by (simp add: take_and_close_def takeAcceptConn_def close_conn_def)
qed

lemma reap_inv:
  assumes inv: "accept_inv s" and len: "length (ac_conns s) < 2 ^ 64" and i: "unat i < length (ac_conns s)"
  shows "accept_inv (reap_timer i s)"
proof -
  have "reap_timer i s = (take_and_close i s)\<lparr>ac_fired := ac_fired s @ [i]\<rparr>" "ac_fired (take_and_close i s) = ac_fired s"
    by (auto simp: reap_timer_def take_and_close_def takeAcceptConn_def close_conn_def split: option.splits)
  with take_and_close_inv [OF inv len, of i] not_parked_after [OF assms] show ?thesis by (auto simp: accept_inv_def)
qed

lemma return_inv:
  assumes inv: "accept_inv s" and c: "c < length (ac_conns s)" "ac_conns s ! c = Claimed"
  shows "accept_inv (close_conn c s)"
proof -
  have nth: "(ac_conns s)[c := Gone] ! d = (if d = c then Gone else ac_conns s ! d)" for d using c by (simp add: nth_list_update)
  have "c \<notin> set (ac_closes s)" using inv c by (simp add: accept_inv_def)
  then show ?thesis using inv c unfolding accept_inv_def close_conn_def by (auto simp: nth)
qed

lemma accept_exec_ok:
  assumes ok: "accept_ok s" and e: "accept_exec a s = Some s'"
  shows "accept_ok s'"
  unfolding accept_ok_def
proof
  assume len: "length (ac_conns s') < 2 ^ 64"
  have "length (ac_conns s) \<le> length (ac_conns s')"
    using e by (cases a) (auto simp: accept_exec_def addAcceptConn_def take_and_close_def takeAcceptConn_def close_conn_def
        reap_timer_def handleAcceptEvent_def Let_def split: if_splits option.splits)
  with len have ls: "length (ac_conns s) < 2 ^ 64" by simp
  with ok have inv: "accept_inv s" by (simp add: accept_ok_def)
  show "accept_inv s'"
  proof (cases a)
    case AcAccept
    with e len add_inv [OF inv] show ?thesis by (auto simp: accept_exec_def addAcceptConn_def Let_def)
  next
    case (AcSendFailed i)
    with e take_and_close_inv [OF inv ls] show ?thesis by (auto simp: accept_exec_def split: if_splits)
  next
    case (AcTimer i)
    with e reap_inv [OF inv ls] show ?thesis by (auto simp: accept_exec_def split: if_splits)
  next
    case (AcClaim i)
    then have s': "s' = fst (handleAcceptEvent i s)" using e by (simp add: accept_exec_def)
    show ?thesis
    proof (cases "ac_map s i")
      case None
      with s' inv show ?thesis by (simp add: handleAcceptEvent_def takeAcceptConn_def)
    next
      case (Some c)
      from resolve_inv [OF inv ls Some, of Claimed] show ?thesis by (simp add: s' handleAcceptEvent_def takeAcceptConn_def Some)
    qed
  next
    case (AcReturn c)
    with e return_inv [OF inv] show ?thesis by (auto simp: accept_exec_def split: if_splits)
  qed
qed

interpretation accepting: machine accept_exec accept_ok
  by unfold_locales (rule accept_exec_ok)

lemma new_accept_ok: "accept_ok new_accept_server"
  by (simp add: accept_ok_def accept_inv_def new_accept_server_def)

lemma copy_step:
  assumes "(if buf = [] then (None, w) else writeAll buf w) = (e, w1)"
  shows "\<exists>ps. w_sink w1 = w_sink w @ ps \<and> prefix ps buf \<and> (e = None \<longrightarrow> ps = buf)"
proof (cases "buf = []")
  case False
  with assms writeAll_sink [of buf w e w1] show ?thesis by (auto simp: take_is_prefix)
qed (use assms in auto)

lemma copied_more:
  assumes "copied w1 r' res" "w_sink w1 = w_sink w @ buf" "rd_bytes r = buf @ rd_bytes r'"
  shows "copied w r res"
proof -
  from assms(1) obtain qs where "w_sink (snd res) = w_sink w1 @ qs \<and> prefix qs (rd_bytes r') \<and> (fst res = None \<longrightarrow> qs = rd_bytes r')"
    unfolding copied_def ..
  with assms(2,3) show ?thesis unfolding copied_def by (intro exI [of _ "buf @ qs"]) simp
qed

lemma copied_stop:
  assumes "w_sink w1 = w_sink w @ ps" "prefix ps buf" "rd_bytes r = buf @ rd_bytes r'" "e = None \<Longrightarrow> ps = buf \<and> rd_bytes r' = []"
  shows "copied w r (e, w1)"
  unfolding copied_def using assms by (intro exI [of _ ps]) (auto simp: prefix_def)

lemma input_copies: "copied w r (forwardConnInput r w)"
proof (induction r w rule: forwardConnInput.induct)
  case (1 r w)
  obtain buf err r' where rd: "rd_read kForwardBuffer r = ((buf, err), r')" by (metis surj_pair)
  obtain e w1 where wr: "(if buf \<noteq> [] then writeAll buf w else (None, w)) = (e, w1)" by fastforce
  then obtain ps where ps: "w_sink w1 = w_sink w @ ps" "prefix ps buf" "e = None \<longrightarrow> ps = buf"
    using copy_step [of buf w e w1] by (auto split: if_splits)
  show ?case
  proof (cases "e = None \<and> err = None")
    case True
    have "copied w1 r' (forwardConnInput r' w1)" using "1" [OF rd [symmetric] refl wr [symmetric]] True by simp
    moreover have "forwardConnInput r w = forwardConnInput r' w1" using rd wr True by (subst forwardConnInput.simps) simp
    ultimately show ?thesis using copied_more [of w1 r' _ w buf r] ps True rd_read_bytes(1) [OF rd] by simp
  next
    case False
    have "forwardConnInput r w = (e, w1)"
      using rd wr False by (subst forwardConnInput.simps) (auto split: option.splits)
    moreover have "copied w r (e, w1)"
      by (rule copied_stop [OF ps(1,2) rd_read_bytes(1) [OF rd]]) (use ps(3) rd_read_bytes(2) [OF rd] False in auto)
    ultimately show ?thesis by simp
  qed
qed

lemma output_copies: "copied w r (forwardConnOutput ws r w)"
proof (induction ws r w rule: forwardConnOutput.induct)
  case (1 ws r w)
  obtain buf err r' where rd: "rd_read kForwardBuffer r = ((buf, err), r')" by (metis surj_pair)
  define wait where "wait = (case ws of [] \<Rightarrow> None | (timeout, e) # _ \<Rightarrow> if timeout then e else None)"
  obtain e w1 where wr: "(if buf = [] then (None, w) else if wait \<noteq> None then (wait, w) else writeAll buf w) = (e, w1)" by fastforce
  then obtain ps where ps: "w_sink w1 = w_sink w @ ps" "prefix ps buf" "e = None \<longrightarrow> ps = buf"
    using copy_step [of buf w e w1] by (auto split: if_splits)
  let ?ws = "if buf = [] then ws else tl ws"
  show ?case
  proof (cases "e = None \<and> err = None")
    case True
    have "copied w1 r' (forwardConnOutput ?ws r' w1)" using "1" [OF rd [symmetric] refl wait_def wr [symmetric]] True by simp
    moreover have "forwardConnOutput ws r w = forwardConnOutput ?ws r' w1"
      using rd wr True by (subst forwardConnOutput.simps) (simp add: Let_def wait_def [symmetric])
    ultimately show ?thesis using copied_more [of w1 r' _ w buf r] ps True rd_read_bytes(1) [OF rd] by simp
  next
    case False
    have "forwardConnOutput ws r w = (e, w1)"
      using rd wr False by (subst forwardConnOutput.simps) (auto simp: Let_def wait_def [symmetric] split: option.splits)
    moreover have "copied w r (e, w1)"
      by (rule copied_stop [OF ps(1,2) rd_read_bytes(1) [OF rd]]) (use ps(3) rd_read_bytes(2) [OF rd] False in auto)
    ultimately show ?thesis by simp
  qed
qed

lemma listen_port_first:
  assumes "listen_port_from nets can port high = (r, ls)"
  shows "case r of
      None \<Rightarrow> ls = [] \<and> (\<forall>q. port \<le> q \<and> q \<le> high \<longrightarrow> (\<exists>n \<in> set nets. \<not> can n q))
    | Some q \<Rightarrow> port \<le> q \<and> q \<le> high \<and> ls = map (\<lambda>n. (n, q)) nets \<and> (\<forall>n \<in> set nets. can n q)
        \<and> (\<forall>q'. port \<le> q' \<and> q' < q \<longrightarrow> (\<exists>n \<in> set nets. \<not> can n q'))"
  using assms
proof (induction nets can port high rule: listen_port_from.induct)
  case (1 nets can port high)
  have all: "length (filter (\<lambda>n. can n port) nets) = length nets \<longleftrightarrow> (\<forall>n \<in> set nets. can n port)"
    by (metis filter_True length_filter_less nat_neq_iff)
  consider "port > high" | "port \<le> high" "\<forall>n \<in> set nets. can n port" | "port \<le> high" "\<not> (\<forall>n \<in> set nets. can n port)" by force
  then show ?case
  proof cases
    case 3
    with "1.prems" all have "listen_port_from nets can (Suc port) high = (r, ls)"
      by (subst (asm) listen_port_from.simps) (simp add: Let_def)
    with "1.IH" 3 all show ?thesis
      by (auto simp: Let_def not_less split: option.splits) (metis Suc_leI le_neq_implies_less)+
  qed (use "1.prems" all in \<open>auto simp: listen_port_from.simps [of nets can port high] Let_def\<close>)
qed

lemma listen_unix_mode:
  assumes "listen_unix env conf c addr ackErr fs = (fs', LstListening u)"
  shows "\<exists>n. f_files fs' addr = Some n \<and> n_kind n = FSocket \<and> n_perm n = 0x1B6 AND NOT (streamLocalBindMask conf)"
proof -
  from assms obtain fs1 fs2 where b: "net_bind env addr fs1 = (fs2, None)"
    and c: "os_Chmod env addr (0x1B6 AND NOT (streamLocalBindMask conf)) fs2 = (fs', None)"
    by (auto simp: listen_unix_def Let_def split: option.splits if_splits prod.splits)
  from chmod_plain [OF bind_ok(1) [OF b], of env "0x1B6 AND NOT (streamLocalBindMask conf)"] c show ?thesis
    by (auto simp: is_symlink_def split: option.splits)
qed

lemma listen_setup_allowed:
  assumes "\<not> forward_allowed conf ''local'' (net = unixNet)"
  shows "\<exists>why. listen_setup unixNet packetNet c env conf net addr listenErr ackErr fs = (fs, LstProhibited why)"
  using assms prohibited_iff [OF directions(2), of conf unixNet net] by (auto simp: listen_setup_def)

lemma handleListen_denied:
  "\<not> forward_allowed conf ''local'' (net = ''unix'') \<Longrightarrow>
     listen_denied fs (handleListenEvent env conf recvErr net addr listenErr ackErr fs)"
  "\<not> forward_allowed conf ''local'' (net = ''unixgram'') \<Longrightarrow>
     listen_denied fs (handleListenUdpEvent env conf recvErr net addr listenErr ackErr fs)"
  using listen_setup_allowed [of conf net "''unix''" "Some ''unixpacket''" "CloseListener addr" env addr listenErr ackErr fs]
    listen_setup_allowed [of conf net "''unixgram''" None CloseOther env addr listenErr ackErr fs]
  by (auto simp: handleListenEvent_def handleListenUdpEvent_def listen_denied_def split: option.splits)

lemma dial_policy:
  "dr_opened (handleDialEvent conf recvErr net dialErr respErr) \<longleftrightarrow>
     recvErr = None \<and> \<not> has_prefix net ''udp'' \<and> forward_allowed conf ''remote'' (net = ''unix'') \<and> dialErr = None"
  "dr_opened (handleDialUdpEvent conf recvErr net dialErr respErr readyErr) \<longleftrightarrow>
     recvErr = None \<and> forward_allowed conf ''remote'' (net = ''unixgram'') \<and> dialErr = None"
  using prohibited_iff [OF directions(1), of conf "''unix''" net] prohibited_iff [OF directions(1), of conf "''unixgram''" net]
  by (auto simp: handleDialEvent_def handleDialUdpEvent_def dial_nothing_def Let_def split: option.splits)

lemma listen_event_mode:
  "\<forall>fs' u. handleListenEvent env conf recvErr ''unix'' addr listenErr ackErr fs = (fs', LstListening u) \<longrightarrow>
     (\<exists>n. f_files fs' addr = Some n \<and> n_kind n = FSocket \<and> n_perm n = 0x1B6 AND NOT (streamLocalBindMask conf))"
  "\<forall>fs' u. handleListenUdpEvent env conf recvErr ''unixgram'' addr listenErr ackErr fs = (fs', LstListening u) \<longrightarrow>
     (\<exists>n. f_files fs' addr = Some n \<and> n_kind n = FSocket \<and> n_perm n = 0x1B6 AND NOT (streamLocalBindMask conf))"
  using listen_unix_mode [of env conf "CloseListener addr" addr ackErr fs] listen_unix_mode [of env conf CloseOther addr ackErr fs]
  by (auto simp: handleListenEvent_def handleListenUdpEvent_def listen_setup_def split: option.splits)

lemma packet_listen:
  assumes "forward_allowed conf ''local'' False" "o_create env addr = None" "f_files fs addr = None"
  shows "handleListenEvent env conf None ''unixpacket'' addr listenErr None fs = (create_node env FSocket 0x1FF addr fs, LstListening None)"
proof -
  have "forward_prohibited conf ''local'' ''unix'' ''unixpacket'' = None"
    using prohibited_iff [OF directions(2), of conf "''unix''" "''unixpacket''"] assms(1) by (simp add: forward_allowed_def)
  with assms(2,3) show ?thesis by (simp add: handleListenEvent_def listen_setup_def listen_plain_def net_bind_def)
qed

lemma disabled_requests:
  assumes "to_lower (getSshdConfig conf ''DisableForwarding'') = ''yes''"
  shows "handleX11Request en conf host ok4 ok6 can screen = None" "handleAgentRequest en conf listener = None"
proof -
  have "to_lower ''yes'' = ''yes''" by code_simp
  with assms have "equal_fold (getSshdConfig conf ''DisableForwarding'') ''yes''" by (simp add: equal_fold_def)
  then show "handleX11Request en conf host ok4 ok6 can screen = None" "handleAgentRequest en conf listener = None"
    by (simp_all add: handleX11Request_def x11_ports_def handleAgentRequest_def)
qed

lemma x11_range:
  assumes "x11_ports en conf = Some (low, high)"
  shows "6000 \<le> low \<and> high = low + 1000 \<and> high < 65535"
  using assms by (auto simp: x11_ports_def Let_def split: if_splits option.splits)

lemma accepted_conn:
  assumes "run_acts accept_exec acts new_accept_server = Some s" "length (ac_conns s) < 2 ^ 64"
  shows "distinct (ac_closes s)"
    and "c < length (ac_conns s) \<Longrightarrow> ac_conns s ! c = Gone \<longleftrightarrow> c \<in> set (ac_closes s)"
    and "c < length (ac_conns s) \<Longrightarrow> ac_conns s ! c = Parked \<longleftrightarrow> ac_map s (word_of_nat c) = Some c"
    and "ac_conns s ! c \<noteq> Parked \<Longrightarrow> c < length (ac_conns s) \<Longrightarrow> snd (handleAcceptEvent (word_of_nat c) s) \<noteq> None"
    and "c < length (ac_conns s) \<Longrightarrow> word_of_nat c \<in> set (ac_fired s) \<Longrightarrow> ac_conns s ! c \<noteq> Parked"
proof -
  have inv: "accept_inv s" using accepting.run_inv [OF new_accept_ok assms(1)] assms(2) by (simp add: accept_ok_def)
  have m: "ac_map s i = Some d \<longleftrightarrow> d < length (ac_conns s) \<and> i = word_of_nat d \<and> ac_conns s ! d = Parked" for i d
    using inv by (simp add: accept_inv_def)
  show "distinct (ac_closes s)" using inv by (simp add: accept_inv_def)
  assume c: "c < length (ac_conns s)"
  then have u: "unat (word_of_nat c :: u64) = c" using assms(2) by (simp add: unat_of_nat64)
  show "ac_conns s ! c = Gone \<longleftrightarrow> c \<in> set (ac_closes s)" using inv c by (simp add: accept_inv_def)
  show "ac_conns s ! c = Parked \<longleftrightarrow> ac_map s (word_of_nat c) = Some c" using m c by simp
  show "ac_conns s ! c \<noteq> Parked" if "word_of_nat c \<in> set (ac_fired s)" using inv that u unfolding accept_inv_def by metis
  show "snd (handleAcceptEvent (word_of_nat c) s) \<noteq> None" if "ac_conns s ! c \<noteq> Parked"
  proof -
    have "ac_map s (word_of_nat c) = None"
    proof (rule ccontr)
      assume "ac_map s (word_of_nat c) \<noteq> None"
      then obtain d where "ac_map s (word_of_nat c) = Some d" by blast
      with m have "d < length (ac_conns s)" "(word_of_nat c :: u64) = word_of_nat d" "ac_conns s ! d = Parked" by blast+
      with that c assms(2) word_of_nat_inj64 [of c d] show False by simp
    qed
    then show ?thesis by (simp add: handleAcceptEvent_def takeAcceptConn_def)
  qed
qed

section \<open>Properties\<close>

text \<open>
  C7. What \<open>sshd_config\<close> decides about forwarding. A connection is dialled exactly when the message is well-formed,
  \<open>AllowTcpForwarding\<close> and \<open>DisableForwarding\<close> allow this direction, so does \<open>AllowStreamLocalForwarding\<close> if the
  network is \<open>unix\<close> (\<open>unixgram\<close> for the datagram handler), and dialling works; a listener that these options do not
  allow is not created and the file system stays as it was; a socket that is created for the network \<open>unix\<close> or
  \<open>unixgram\<close> has mode 0666 without the bits of \<open>StreamLocalBindMask\<close>; and under
  \<open>DisableForwarding\<close> neither X11 nor an agent is forwarded, whatever else is set. Other networks with a path are
  the subject of \<open>unix_policy_bypassed\<close>.
\<close>

theorem forwarding_policy:
  "(dr_opened (handleDialEvent conf recvErr net dialErr respErr) \<longleftrightarrow>
      recvErr = None \<and> \<not> has_prefix net ''udp'' \<and> forward_allowed conf ''remote'' (net = ''unix'') \<and> dialErr = None)
   \<and> (dr_opened (handleDialUdpEvent conf recvErr net dialErr respErr readyErr) \<longleftrightarrow>
      recvErr = None \<and> forward_allowed conf ''remote'' (net = ''unixgram'') \<and> dialErr = None)
   \<and> (\<not> forward_allowed conf ''local'' (net = ''unix'') \<longrightarrow>
      listen_denied fs (handleListenEvent env conf recvErr net addr listenErr ackErr fs))
   \<and> (\<not> forward_allowed conf ''local'' (net = ''unixgram'') \<longrightarrow>
      listen_denied fs (handleListenUdpEvent env conf recvErr net addr listenErr ackErr fs))
   \<and> (\<forall>fs' u. handleListenEvent env conf recvErr ''unix'' addr listenErr ackErr fs = (fs', LstListening u) \<longrightarrow>
      (\<exists>n. f_files fs' addr = Some n \<and> n_kind n = FSocket \<and> n_perm n = 0x1B6 AND NOT (streamLocalBindMask conf)))
   \<and> (\<forall>fs' u. handleListenUdpEvent env conf recvErr ''unixgram'' addr listenErr ackErr fs = (fs', LstListening u) \<longrightarrow>
      (\<exists>n. f_files fs' addr = Some n \<and> n_kind n = FSocket \<and> n_perm n = 0x1B6 AND NOT (streamLocalBindMask conf)))
   \<and> (to_lower (getSshdConfig conf ''DisableForwarding'') = ''yes'' \<longrightarrow>
      handleX11Request en conf host ok4 ok6 can screen = None \<and> handleAgentRequest en conf listener = None)"
  by (intro conjI dial_policy impI handleListen_denied listen_event_mode disabled_requests)

theorem forwarding_policy_witness:
  "\<exists>fs'. handleListenEvent demo_env (parseSshdConfig (Some [''AllowTcpForwarding LOCAL'']) [] []) None ''unix'' ''/run/x'' None None demo_fs
     = (fs', LstProhibited ''AllowTcpForwarding'') \<and> fs' = demo_fs"
proof -
  let ?conf = "parseSshdConfig (Some [''AllowTcpForwarding LOCAL'']) [] []"
  have d: "snd (handleListenEvent demo_env ?conf None ''unix'' ''/run/x'' None None demo_fs) = LstProhibited ''AllowTcpForwarding''"
    "\<not> forward_allowed ?conf ''local'' (''unix'' = ''unix'')" by code_simp+
  then obtain fs' where l: "handleListenEvent demo_env ?conf None ''unix'' ''/run/x'' None None demo_fs = (fs', LstProhibited ''AllowTcpForwarding'')"
    by (cases "handleListenEvent demo_env ?conf None ''unix'' ''/run/x'' None None demo_fs") simp
  from forwarding_policy [where conf = ?conf and net = "''unix''" and fs = demo_fs and env = demo_env and recvErr = None
      and addr = "''/run/x''" and listenErr = None and ackErr = None] d(2)
  have "listen_denied demo_fs (handleListenEvent demo_env ?conf None ''unix'' ''/run/x'' None None demo_fs)" by blast
  with l show ?thesis by (simp add: listen_denied_def)
qed

text \<open>
  The options for Unix sockets are tested by the literal name of one network, so other networks with a path escape
  them. Where forwarding as such is allowed, a socket of type \<open>unixpacket\<close> is created and listened on whatever
  \<open>AllowStreamLocalForwarding\<close> and \<open>StreamLocalBindMask\<close> say, with all permissions the process' umask leaves, and
  sockets are dialled over \<open>unixpacket\<close> and \<open>unixgram\<close> by the stream handler whatever \<open>AllowStreamLocalForwarding\<close> says.
\<close>

lemma unix_policy_bypassed:
  assumes "forward_allowed conf ''local'' False" "o_create env addr = None" "f_files fs addr = None"
    and "forward_allowed conf ''remote'' False" "net = ''unixpacket'' \<or> net = ''unixgram''"
  shows "(\<exists>fs' n. handleListenEvent env conf None ''unixpacket'' addr listenErr None fs = (fs', LstListening None)
      \<and> f_files fs' addr = Some n \<and> n_kind n = FSocket \<and> n_perm n = 0x1FF AND NOT (o_umask env))
    \<and> dr_opened (handleDialEvent conf None net None respErr)"
  using packet_listen [OF assms(1-3)] assms(4,5) by (auto simp: create_node_def dial_policy has_prefix_def)

lemma unix_policy_bypassed_witness:
  "\<exists>fs' n. handleListenEvent demo_env (parseSshdConfig (Some [''AllowStreamLocalForwarding no'', ''StreamLocalBindMask 0177'']) [] []) None
      ''unixpacket'' ''/run/x'' None None demo_fs = (fs', LstListening None) \<and> f_files fs' ''/run/x'' = Some n
    \<and> n_perm n AND 0x7F \<noteq> 0"
proof -
  let ?conf = "parseSshdConfig (Some [''AllowStreamLocalForwarding no'', ''StreamLocalBindMask 0177'']) [] []"
  have "forward_allowed ?conf ''local'' False" "forward_allowed ?conf ''remote'' False" "o_create demo_env ''/run/x'' = None"
    "f_files demo_fs ''/run/x'' = None" "(0x1FF AND NOT (o_umask demo_env)) AND 0x7F \<noteq> 0" by code_simp+
  with unix_policy_bypassed [of ?conf demo_env "''/run/x''" demo_fs "''unixpacket''" None None] show ?thesis by auto
qed

text \<open>
  C32. No accepted connection is left over. As long as fewer than \<open>2^64\<close> connections were accepted, in every
  run each of them waits under its number, or was claimed by one handler, or was closed, by exactly one call of
  \<open>Close\<close>; a connection that is not waiting cannot be claimed; and once its timer has fired it does not wait
  any more.
\<close>

theorem accepted_conns_resolved:
  assumes "run_acts accept_exec acts new_accept_server = Some s" "length (ac_conns s) < 2 ^ 64"
  shows "distinct (ac_closes s) \<and> (\<forall>c < length (ac_conns s).
    (ac_conns s ! c = Gone \<longleftrightarrow> c \<in> set (ac_closes s))
    \<and> (ac_conns s ! c = Parked \<longleftrightarrow> ac_map s (word_of_nat c) = Some c)
    \<and> (ac_conns s ! c \<noteq> Parked \<longrightarrow> snd (handleAcceptEvent (word_of_nat c) s) \<noteq> None)
    \<and> (word_of_nat c \<in> set (ac_fired s) \<longrightarrow> ac_conns s ! c \<noteq> Parked))"
  using accepted_conn [OF assms] by blast

definition accept_acts :: "accept_act list" where
  "accept_acts = [AcAccept, AcAccept, AcAccept, AcClaim 1, AcTimer 0, AcTimer 1, AcSendFailed 2, AcReturn 1, AcClaim 0]"

theorem accepted_conns_resolved_witness:
  "\<exists>s. run_acts accept_exec accept_acts new_accept_server = Some s \<and> length (ac_conns s) = 3
     \<and> distinct (ac_closes s) \<and> ac_conns s ! 0 \<noteq> Parked \<and> snd (handleAcceptEvent 0 s) \<noteq> None \<and> set (ac_closes s) = {0, 1, 2}"
proof -
  have "case run_acts accept_exec accept_acts new_accept_server of None \<Rightarrow> False
      | Some s \<Rightarrow> length (ac_conns s) = 3 \<and> (0 :: u64) \<in> set (ac_fired s) \<and> ac_closes s = [0, 2, 1]" by code_simp
  then obtain s where s: "run_acts accept_exec accept_acts new_accept_server = Some s" "length (ac_conns s) = 3"
    "(0 :: u64) \<in> set (ac_fired s)" "ac_closes s = [0, 2, 1]" by (auto split: option.splits)
  have len: "length (ac_conns s) < 2 ^ 64" using s(2) by simp
  note use = accepted_conns_resolved [OF s(1) len]
  from use have "\<forall>c < length (ac_conns s). (ac_conns s ! c \<noteq> Parked \<longrightarrow> snd (handleAcceptEvent (word_of_nat c) s) \<noteq> None)
    \<and> (word_of_nat c \<in> set (ac_fired s) \<longrightarrow> ac_conns s ! c \<noteq> Parked)" and d: "distinct (ac_closes s)" by blast+
  from this(1) [rule_format, of 0] s have "ac_conns s ! 0 \<noteq> Parked" "snd (handleAcceptEvent 0 s) \<noteq> None" by auto
  with d s show ?thesis by auto
qed

text \<open>
  The X11 display of a session is on a valid port: whatever \<open>X11DisplayOffset\<close> says, the ports tried
  are between 6000 and 65534, the display has one listener for each working network, all on the first of
  these ports that all of them can bind, and nothing is left listening on the ports tried before.
\<close>

lemma x11_display_port:
  assumes "handleX11Request en conf host ok4 ok6 can screen = Some (ls, display, auth)"
  shows "\<exists>port low. 6000 \<le> low \<and> low \<le> port \<and> port \<le> low + 1000 \<and> port < 65535
    \<and> ls = map (\<lambda>n. (n, port)) ((if ok4 then [''tcp4''] else []) @ (if ok6 then [''tcp6''] else [])) \<and> ls \<noteq> []
    \<and> (\<forall>(n, q) \<in> set ls. can n q)
    \<and> (\<forall>q. low \<le> q \<and> q < port \<longrightarrow> (\<exists>(n, p) \<in> set ls. \<not> can n q))
    \<and> (\<exists>h. display = h @ '':'' @ nat_str (port - 6000) @ ''.'' @ nat_str screen)"
proof -
  let ?nets = "(if ok4 then [''tcp4''] else []) @ (if ok6 then [''tcp6''] else [])"
  from assms obtain low high port where r: "x11_ports en conf = Some (low, high)" and l: "listenTcpOnFreePort ok4 ok6 can low high = Inr (port, ls)"
    and d: "\<exists>h. display = h @ '':'' @ nat_str (port - 6000) @ ''.'' @ nat_str screen"
    by (auto simp: handleX11Request_def Let_def split: option.splits sum.splits)
  from l have p: "listen_port_from ?nets can low high = (Some port, ls)" and ok: "ok4 \<or> ok6"
    by (auto simp: listenTcpOnFreePort_def split: if_splits option.splits prod.splits)
  from listen_port_first [OF p] have q: "low \<le> port" "port \<le> high" "ls = map (\<lambda>n. (n, port)) ?nets" "\<forall>n \<in> set ?nets. can n port"
    "\<forall>q'. low \<le> q' \<and> q' < port \<longrightarrow> (\<exists>n \<in> set ?nets. \<not> can n q')" by simp_all
  have "\<exists>(n, p) \<in> set ls. \<not> can n q'" if "low \<le> q' \<and> q' < port" for q' using q(3,5) that by fastforce
  moreover have "\<forall>(n, q) \<in> set ls. can n q" "ls \<noteq> []" using q(3,4) ok by (auto split: if_splits)
  ultimately show ?thesis using x11_range [OF r] q(1-3) d by (intro exI [of _ port] exI [of _ low]) auto
qed

lemma x11_display_port_witness:
  "\<exists>ls display auth. handleX11Request True (parseSshdConfig (Some [''X11Forwarding yes'', ''X11DisplayOffset 60000'']) [] []) ''host'' True False
      (\<lambda>n p. p > 6011) 0 = Some (ls, display, auth) \<and> display = ''localhost:12.0'' \<and> length ls = 1 \<and> (\<forall>(n, q) \<in> set ls. q > 6011)"
proof -
  let ?r = "handleX11Request True (parseSshdConfig (Some [''X11Forwarding yes'', ''X11DisplayOffset 60000'']) [] []) ''host'' True False
      (\<lambda>n p. p > 6011) 0"
  have "case ?r of None \<Rightarrow> False | Some (ls, display, auth) \<Rightarrow> display = ''localhost:12.0''" by code_simp
  then obtain ls display auth where r: "?r = Some (ls, display, auth)" and d: "display = ''localhost:12.0''"
    by (auto split: option.splits)
  from x11_display_port [OF r] have "length ls = 1 \<and> (\<forall>(n, q) \<in> set ls. q > 6011)" by auto
  with r d show ?thesis by blast
qed

text \<open>
  Copying between a stream and a connection ends and keeps the data: in both directions the destination
  receives a prefix of what the source delivers, in order and with nothing added, and everything when no
  write and no wait for the client failed.
\<close>

lemma forwarding_copies:
  "copied w r (forwardConnInput r w) \<and> copied w r (forwardConnOutput waits r w)"
  by (intro conjI input_copies output_copies)

text \<open>
  A stream connection the server dialled is closed on every path of its handler. For datagrams this
  fails: when the response cannot be sent or the client's ready message does not come, the socket stays open
  and its channel stays registered with the forwarder.
\<close>

lemma dialled_conns_closed:
  "dr_closed (handleDialEvent conf recvErr net dialErr respErr) = dr_opened (handleDialEvent conf recvErr net dialErr respErr)"
  "dr_opened (handleDialUdpEvent conf recvErr net dialErr respErr readyErr) \<Longrightarrow> respErr \<noteq> None \<or> readyErr \<noteq> None \<Longrightarrow>
     \<not> dr_closed (handleDialUdpEvent conf recvErr net dialErr respErr readyErr)
     \<and> dr_channel (handleDialUdpEvent conf recvErr net dialErr respErr readyErr)
     \<and> \<not> dr_removed (handleDialUdpEvent conf recvErr net dialErr respErr readyErr)"
  by (auto simp: handleDialEvent_def handleDialUdpEvent_def dial_nothing_def Let_def split: option.splits if_splits)

lemma dialled_conns_closed_witness:
  "dr_opened (handleDialUdpEvent (parseSshdConfig None [] []) None ''udp'' None (Some ErrNetClosed) None)
   \<and> \<not> dr_closed (handleDialUdpEvent (parseSshdConfig None [] []) None ''udp'' None (Some ErrNetClosed) None)"
proof -
  have "dr_opened (handleDialUdpEvent (parseSshdConfig None [] []) None ''udp'' None (Some ErrNetClosed) None)" by code_simp
  from dialled_conns_closed(2) [OF this] this show ?thesis by simp
qed

end
