(* ===== verification/Processes.thy ===== *)
theory Processes
  imports Go_Strings "HOL-Library.Multiset"
begin

text \<open>
  The processes of a session (\<open>comm.go\<close>, \<open>utils_unix.go\<close>): reading the list of \<open>ps\<close>, the
  descendants of the daemon, the leaves among them, and the process in the foreground. A Go map from
  process numbers is a list of its entries in the order in which a loop visits them.
\<close>

section \<open>Processes\<close>

record procInfo =
  p_pid :: int
  p_ppid :: int
  p_pgid :: int
  p_name :: string

definition proc_store :: "procInfo \<Rightarrow> procInfo list \<Rightarrow> procInfo list" where
  "proc_store p ps = filter (\<lambda>q. p_pid q \<noteq> p_pid p) ps @ [p]"

fun join_space :: "string list \<Rightarrow> string" where
  "join_space [] = []"
| "join_space [s] = s"
| "join_space (s # t # ss) = s @ '' '' @ join_space (t # ss)"

definition proc_line :: "string \<Rightarrow> procInfo option" where
  "proc_line line =
     (case str_fields line of
        stat # f1 # f2 # f3 # rest \<Rightarrow>
          if rest = [] \<or> has_prefix stat ''Z'' then None
          else (case parse_int 10 64 f1 of None \<Rightarrow> None | Some pid \<Rightarrow>
               (case parse_int 10 64 f2 of None \<Rightarrow> None | Some ppid \<Rightarrow>
               (case parse_int 10 64 f3 of None \<Rightarrow> None | Some pgid \<Rightarrow>
                  Some \<lparr>p_pid = pid, p_ppid = ppid, p_pgid = pgid, p_name = join_space rest\<rparr>)))
      | _ \<Rightarrow> None)"

text \<open>\<open>out\<close> is what \<open>ps\<close> printed, or the error of running it.\<close>

definition getProcInfos :: "string result \<Rightarrow> procInfo list result" where
  "getProcInfos out =
     (case out of
        Inl e \<Rightarrow> Inl (ErrFlat ''ps command failed'' e)
      | Inr text \<Rightarrow>
          let lines = split_char (CHR 0x0A) (trim_space text)
          in if length lines \<le> 1 then Inl (ErrText ''no process found'')
             else Inr (fold (\<lambda>line ps. case proc_line line of None \<Rightarrow> ps | Some p \<Rightarrow> proc_store p ps) (tl lines) []))"

section \<open>Descendants and leaves\<close>

definition children_of :: "procInfo list \<Rightarrow> int \<Rightarrow> int list" where
  "children_of procs pid = map p_pid (filter (\<lambda>p. p_ppid p = pid) procs)"

definition proc_lookup :: "procInfo list \<Rightarrow> int \<Rightarrow> procInfo option" where
  "proc_lookup procs pid = find (\<lambda>p. p_pid p = pid) procs"

text \<open>The loop over the queue; \<open>None\<close> is a loop that does not end.\<close>

partial_function (option) descend :: "procInfo list \<Rightarrow> int list \<Rightarrow> procInfo list \<Rightarrow> procInfo list option" where
  "descend procs queue descendants =
     (case queue of
        [] \<Rightarrow> Some descendants
      | currPid # rest \<Rightarrow>
          (case proc_lookup procs currPid of
             None \<Rightarrow> descend procs rest descendants
           | Some p \<Rightarrow> descend procs (rest @ children_of procs currPid) (proc_store p descendants)))"

declare descend.simps [code]

definition findAllDescendants :: "procInfo list \<Rightarrow> int \<Rightarrow> procInfo list option" where
  "findAllDescendants procs rootPid = descend procs (children_of procs rootPid) []"

definition findLeafProcesses :: "procInfo list \<Rightarrow> procInfo list" where
  "findLeafProcesses procs = filter (\<lambda>p. \<not> list_ex (\<lambda>q. p_ppid q = p_pid p) procs) procs"

definition best_leaf :: "procInfo \<Rightarrow> procInfo option \<Rightarrow> procInfo option" where
  "best_leaf p best = (case best of None \<Rightarrow> Some p | Some b \<Rightarrow> if p_pid p < p_pid b then Some p else Some b)"

definition group_of :: "int \<Rightarrow> procInfo list \<Rightarrow> int" where
  "group_of pgid procs = (if pgid = 0 then fold (\<lambda>p g. if p_pgid p > g then p_pgid p else g) procs 0 else pgid)"

definition getForegroundProcess :: "procInfo list result \<Rightarrow> int \<Rightarrow> int \<Rightarrow> string result option" where
  "getForegroundProcess infos self pgid =
     (case infos of
        Inl e \<Rightarrow> Some (Inl e)
      | Inr all \<Rightarrow>
          (case findAllDescendants all self of
             None \<Rightarrow> None
           | Some procs \<Rightarrow>
               let procs' = filter (\<lambda>p. p_pgid p = group_of pgid procs) procs
               in (case fold best_leaf (findLeafProcesses procs') None of
                     Some best \<Rightarrow> Some (Inr (p_name best))
                   | None \<Rightarrow> Some (Inl (ErrText ''no leaf process'')))))"

section \<open>Specification\<close>

text \<open>\<open>(a, b)\<close>: the process \<open>b\<close> is a child of \<open>a\<close>.\<close>

definition child_rel :: "procInfo list \<Rightarrow> (int \<times> int) set" where
  "child_rel procs = {(p_ppid p, p_pid p) | p. p \<in> set procs}"

definition descendant_procs :: "procInfo list \<Rightarrow> int \<Rightarrow> procInfo set" where
  "descendant_procs procs root = {p \<in> set procs. (root, p_pid p) \<in> (child_rel procs)\<^sup>+}"

definition pids_distinct :: "procInfo list \<Rightarrow> bool" where
  "pids_distinct procs \<longleftrightarrow> distinct (map p_pid procs)"

section \<open>Lemmas\<close>

text \<open>A line is taken exactly when it has five fields, three of them numbers, and is not of a zombie.\<close>

lemma proc_line_iff:
  "proc_line line = Some p \<longleftrightarrow>
     (\<exists>stat f1 f2 f3 rest. str_fields line = stat # f1 # f2 # f3 # rest \<and> rest \<noteq> [] \<and> (\<nexists>t. stat = ''Z'' @ t)
       \<and> parse_int 10 64 f1 = Some (p_pid p) \<and> parse_int 10 64 f2 = Some (p_ppid p)
       \<and> parse_int 10 64 f3 = Some (p_pgid p) \<and> p_name p = join_space rest)"
proof -
  have z: "has_prefix stat ''Z'' \<longleftrightarrow> (\<exists>t. stat = ''Z'' @ t)" for stat
    by (metis has_prefixE has_prefix_append)
  show ?thesis unfolding proc_line_def z by (cases p) (auto split: list.splits option.splits if_splits)
qed

lemma pid_inj: "pids_distinct procs \<Longrightarrow> p \<in> set procs \<Longrightarrow> q \<in> set procs \<Longrightarrow> p_pid p = p_pid q \<Longrightarrow> p = q"
  by (auto simp: pids_distinct_def distinct_map inj_on_def)

lemma set_proc_store: "set (proc_store p ps) = insert p {q \<in> set ps. p_pid q \<noteq> p_pid p}"
  by (auto simp: proc_store_def)

lemma store_distinct: "pids_distinct ps \<Longrightarrow> pids_distinct (proc_store p ps)"
  by (auto simp: pids_distinct_def proc_store_def distinct_map inj_on_def)

lemma set_children_of: "set (children_of procs x) = {y. (x, y) \<in> child_rel procs}"
  by (auto simp: children_of_def child_rel_def)

lemma lookup_some:
  "pids_distinct procs \<Longrightarrow> proc_lookup procs x = Some p \<longleftrightarrow> p \<in> set procs \<and> p_pid p = x"
  by (induction procs) (auto simp: proc_lookup_def pids_distinct_def)

lemma lookup_child: "(x, y) \<in> child_rel procs \<Longrightarrow> \<exists>p. proc_lookup procs y = Some p"
  by (auto simp: child_rel_def proc_lookup_def) (metis (mono_tags, lifting) find_None_iff not_None_eq)

text \<open>Every process has one parent, so whoever reaches a cycle is on it.\<close>

lemma parent_unique:
  assumes "pids_distinct procs" "(a, y) \<in> child_rel procs" "(b, y) \<in> child_rel procs"
  shows "a = b"
proof -
  from assms(2,3) obtain p q where "p \<in> set procs" "q \<in> set procs" "p_pid p = p_pid q" "a = p_ppid p" "b = p_ppid q"
    by (auto simp: child_rel_def)
  with pid_inj [OF assms(1), of p q] show ?thesis by simp
qed

lemma reaches_cycle:
  assumes wf: "pids_distinct procs" and "(root, x) \<in> (child_rel procs)\<^sup>*" "(x, x) \<in> (child_rel procs)\<^sup>+"
  shows "(root, root) \<in> (child_rel procs)\<^sup>+"
  using assms(2,3)
proof (induction rule: rtrancl_induct)
  case (step y z)
  from step.prems obtain u where u: "(z, u) \<in> (child_rel procs)\<^sup>*" "(u, z) \<in> child_rel procs" by (meson tranclD2)
  with parent_unique [OF wf step.hyps(2)] have "u = y" by blast
  with u step.hyps(2) have "(y, y) \<in> (child_rel procs)\<^sup>+" by (meson rtrancl_into_trancl2)
  with step.IH show ?case by blast
qed

text \<open>Below a root that is not on a cycle the relation is well-founded.\<close>

definition below :: "procInfo list \<Rightarrow> int \<Rightarrow> (int \<times> int) set" where
  "below procs root = {(y, x). (x, y) \<in> child_rel procs \<and> (root, x) \<in> (child_rel procs)\<^sup>*}"

lemma below_trancl: "(y, x) \<in> (below procs root)\<^sup>+ \<Longrightarrow> (x, y) \<in> (child_rel procs)\<^sup>+ \<and> (root, x) \<in> (child_rel procs)\<^sup>*"
  by (induction rule: trancl_induct) (auto simp: below_def intro: trancl_into_trancl2)

lemma wf_below:
  assumes "pids_distinct procs" "(root, root) \<notin> (child_rel procs)\<^sup>+"
  shows "wf (below procs root)"
proof (rule finite_acyclic_wf)
  have "child_rel procs = (\<lambda>p. (p_ppid p, p_pid p)) ` set procs" by (auto simp: child_rel_def)
  then have "finite ((child_rel procs)\<inverse>)" by simp
  moreover have "below procs root \<subseteq> (child_rel procs)\<inverse>" by (auto simp: below_def)
  ultimately show "finite (below procs root)" by (rule rev_finite_subset)
  show "acyclic (below procs root)" 
    unfolding acyclic_def using below_trancl reaches_cycle [OF assms(1)] assms(2) by blast
qed

text \<open>A step of the loop replaces a process by its children: smaller in the multiset extension.\<close>

lemma queue_decreases:
  assumes "(root, x) \<in> (child_rel procs)\<^sup>*"
  shows "(mset (rest @ children_of procs x), mset (x # rest)) \<in> mult (below procs root)"
proof -
  have "\<forall>k \<in># mset (children_of procs x). \<exists>j \<in># {#x#}. (k, j) \<in> below procs root"
    using assms set_children_of [of procs x] by (auto simp: below_def)
  from one_step_implies_mult [OF _ this, of "mset rest"] show ?thesis by simp
qed

lemma descend_returns:
  assumes wf: "pids_distinct procs" "(root, root) \<notin> (child_rel procs)\<^sup>+"
    and "\<forall>x \<in> set queue. (root, x) \<in> (child_rel procs)\<^sup>+"
  shows "\<exists>res. descend procs queue acc = Some res"
  using wf_mult [OF wf_below [OF wf]] assms(3)
proof (induction "mset queue" arbitrary: queue acc rule: wf_induct_rule)
  case less
  show ?case
  proof (cases queue)
    case Nil
    then show ?thesis by (subst descend.simps) simp
  next
    case (Cons x rest)
    with less.prems have x: "(root, x) \<in> (child_rel procs)\<^sup>+" by simp
    then obtain p where p: "proc_lookup procs x = Some p" using lookup_child by (meson tranclD2)
    have "\<forall>y \<in> set (rest @ children_of procs x). (root, y) \<in> (child_rel procs)\<^sup>+"
      using less.prems Cons x set_children_of [of procs x] by (auto intro: trancl_into_trancl)
    moreover have "(mset (rest @ children_of procs x), mset queue) \<in> mult (below procs root)"
      unfolding Cons by (rule queue_decreases [OF trancl_into_rtrancl [OF x]])
    ultimately have "\<exists>res. descend procs (rest @ children_of procs x) (proc_store p acc) = Some res" by (intro less.hyps)
    then show ?thesis using Cons p by (subst descend.simps) simp
  qed
qed

text \<open>What it returns, and that it cannot return from a cycle.\<close>

definition reached :: "procInfo list \<Rightarrow> int list \<Rightarrow> procInfo set" where
  "reached procs queue = {p \<in> set procs. \<exists>x \<in> set queue. (x, p_pid p) \<in> (child_rel procs)\<^sup>*}"

lemma reached_step:
  assumes "pids_distinct procs" "proc_lookup procs x = Some p"
  shows "reached procs (x # rest) = insert p (reached procs (rest @ children_of procs x))"
proof -
  have p: "p \<in> set procs" "p_pid p = x" using assms lookup_some by auto
  have "(x, y) \<in> (child_rel procs)\<^sup>* \<longleftrightarrow> y = x \<or> (\<exists>z \<in> set (children_of procs x). (z, y) \<in> (child_rel procs)\<^sup>*)" for y
    using set_children_of [of procs x] by (auto elim: converse_rtranclE intro: converse_rtrancl_into_rtrancl)
  with p pid_inj [OF assms(1)] show ?thesis by (auto simp: reached_def)
qed

lemma reached_skip: "proc_lookup procs x = None \<Longrightarrow> reached procs (x # rest) \<subseteq> reached procs rest \<union> reached procs (children_of procs x)"
proof
  fix p assume n: "proc_lookup procs x = None" and "p \<in> reached procs (x # rest)"
  then have p: "p \<in> set procs" "(\<exists>y \<in> set rest. (y, p_pid p) \<in> (child_rel procs)\<^sup>*) \<or> (x, p_pid p) \<in> (child_rel procs)\<^sup>*"
    by (auto simp: reached_def)
  from n p(1) have "p_pid p \<noteq> x" by (auto simp: proc_lookup_def find_None_iff)
  with p show "p \<in> reached procs rest \<union> reached procs (children_of procs x)"
    using set_children_of [of procs x] by (auto simp: reached_def elim: converse_rtranclE)
qed

lemma descend_result:
  assumes wf: "pids_distinct procs" and "descend procs queue acc = Some res"
    and "set acc \<subseteq> set procs" "pids_distinct acc" "\<forall>x \<in> set queue. \<exists>p. proc_lookup procs x = Some p"
  shows "set res = set acc \<union> reached procs queue \<and> pids_distinct res \<and> (\<forall>x \<in> set queue. (x, x) \<notin> (child_rel procs)\<^sup>+)"
proof -
  let ?P = "\<lambda>procs' queue acc res. procs' = procs \<longrightarrow> set acc \<subseteq> set procs \<longrightarrow> pids_distinct acc \<longrightarrow>
    (\<forall>x \<in> set queue. \<exists>p. proc_lookup procs x = Some p) \<longrightarrow>
    set res = set acc \<union> reached procs queue \<and> pids_distinct res \<and> (\<forall>x \<in> set queue. (x, x) \<notin> (child_rel procs)\<^sup>+)"
  have "?P procs queue acc res"
  proof (rule descend.raw_induct [where P = ?P, OF _ assms(2)], intro impI)
    fix f procs' queue acc res
    assume IH: "\<And>procs' queue acc res. f procs' queue acc = Some res \<Longrightarrow> ?P procs' queue acc res"
      and eq: "(case queue of [] \<Rightarrow> Some acc
        | currPid # rest \<Rightarrow> (case proc_lookup procs' currPid of None \<Rightarrow> f procs' rest acc
           | Some p \<Rightarrow> f procs' (rest @ children_of procs' currPid) (proc_store p acc))) = Some res"
      and pr: "procs' = procs" and acc: "set acc \<subseteq> set procs" "pids_distinct acc" and q: "\<forall>x \<in> set queue. \<exists>p. proc_lookup procs x = Some p"
    show "set res = set acc \<union> reached procs queue \<and> pids_distinct res \<and> (\<forall>x \<in> set queue. (x, x) \<notin> (child_rel procs)\<^sup>+)"
    proof (cases queue)
      case Nil
      with eq acc show ?thesis by (simp add: reached_def)
    next
      case (Cons x rest)
      with q obtain p where p: "proc_lookup procs x = Some p" by auto
      with Cons eq pr have f: "f procs (rest @ children_of procs x) (proc_store p acc) = Some res" by simp
      have pp: "p \<in> set procs" "p_pid p = x" using p lookup_some [OF wf] by auto
      have st: "set (proc_store p acc) = insert p (set acc)"
        using acc(1) pid_inj [OF wf _ pp(1)] by (auto simp: set_proc_store)
      have "\<forall>y \<in> set (children_of procs x). \<exists>p. proc_lookup procs y = Some p"
        using lookup_child set_children_of [of procs x] by blast
      with q Cons have "\<forall>y \<in> set (rest @ children_of procs x). \<exists>p. proc_lookup procs y = Some p" by auto
      with IH [OF f] st acc pp store_distinct [OF acc(2)] have r: "set res = set (proc_store p acc) \<union> reached procs (rest @ children_of procs x)"
          "pids_distinct res" "\<forall>y \<in> set (rest @ children_of procs x). (y, y) \<notin> (child_rel procs)\<^sup>+"
        by auto
      have "(x, x) \<notin> (child_rel procs)\<^sup>+"
      proof
        assume "(x, x) \<in> (child_rel procs)\<^sup>+"
        then obtain y where "(x, y) \<in> child_rel procs" "(y, x) \<in> (child_rel procs)\<^sup>*" by (meson tranclD)
        moreover then have "(y, y) \<in> (child_rel procs)\<^sup>+" by (meson rtrancl_into_trancl1)
        ultimately show False using r(3) set_children_of [of procs x] by auto
      qed
      with r st reached_step [OF wf p, of rest] Cons show ?thesis by auto
    qed
  qed
  with assms(3-5) show ?thesis by blast
qed

lemma children_lookup: "\<forall>x \<in> set (children_of procs root). \<exists>p. proc_lookup procs x = Some p"
  using lookup_child set_children_of [of procs root] by blast

lemma reached_children: "reached procs (children_of procs root) = descendant_procs procs root"
  using set_children_of [of procs root]
  by (auto simp: reached_def descendant_procs_def intro: rtrancl_into_trancl2 dest: tranclD)

lemma findAllDescendants_correct:
  assumes wf: "pids_distinct procs" and "findAllDescendants procs root = Some res"
  shows "set res = descendant_procs procs root" "pids_distinct res" "(root, root) \<notin> (child_rel procs)\<^sup>+"
proof -
  have "pids_distinct []" by (simp add: pids_distinct_def)
  from descend_result [OF wf assms(2) [unfolded findAllDescendants_def] _ this children_lookup]
  have r: "set res = reached procs (children_of procs root)" "pids_distinct res"
    "\<forall>x \<in> set (children_of procs root). (x, x) \<notin> (child_rel procs)\<^sup>+" by simp_all
  then show "set res = descendant_procs procs root" "pids_distinct res" by (simp_all add: reached_children)
  show "(root, root) \<notin> (child_rel procs)\<^sup>+"
  proof
    assume "(root, root) \<in> (child_rel procs)\<^sup>+"
    then obtain y where "(root, y) \<in> child_rel procs" "(y, root) \<in> (child_rel procs)\<^sup>*" by (meson tranclD)
    moreover then have "(y, y) \<in> (child_rel procs)\<^sup>+" by (meson rtrancl_into_trancl1)
    ultimately show False using r(3) set_children_of [of procs root] by auto
  qed
qed

lemma findAllDescendants_returns:
  assumes "pids_distinct procs" "(root, root) \<notin> (child_rel procs)\<^sup>+"
  shows "\<exists>res. findAllDescendants procs root = Some res"
  unfolding findAllDescendants_def
  by (rule descend_returns [OF assms]) (use set_children_of [of procs root] in auto)

lemma getProcInfos_distinct:
  assumes "getProcInfos out = Inr procs"
  shows "pids_distinct procs"
proof -
  have "pids_distinct (fold (\<lambda>line ps. case proc_line line of None \<Rightarrow> ps | Some p \<Rightarrow> proc_store p ps) ls ps)" if "pids_distinct ps" for ls ps
    using that by (induction ls arbitrary: ps) (simp_all add: store_distinct split: option.split)
  moreover have "pids_distinct []" by (simp add: pids_distinct_def)
  ultimately show ?thesis using assms by (auto simp: getProcInfos_def Let_def split: sum.splits if_splits)
qed

lemma best_leaf_fold:
  "case fold best_leaf ps b of
     None \<Rightarrow> ps = [] \<and> b = None
   | Some m \<Rightarrow> m \<in> set ps \<union> set_option b \<and> (\<forall>q \<in> set ps \<union> set_option b. p_pid m \<le> p_pid q)"
proof (induction ps arbitrary: b)
  case (Cons p ps)
  from Cons [of "best_leaf p b"] show ?case
    by (cases b) (auto simp: best_leaf_def split: option.splits if_splits)
qed (simp split: option.split)

lemma group_fold:
  "fold (\<lambda>p g. if p_pgid p > g then p_pgid p else g) ps g = Max (insert g (p_pgid ` set ps))"
proof (induction ps arbitrary: g)
  case (Cons p ps)
  have "Max (insert (max g (p_pgid p)) (p_pgid ` set ps)) = Max (insert g (insert (p_pgid p) (p_pgid ` set ps)))"
  proof (cases "set ps = {}")
    case False
    then show ?thesis by (simp add: max.assoc)
  qed (simp add: max.commute)
  moreover have "(if p_pgid p > g then p_pgid p else g) = max g (p_pgid p)" by simp
  ultimately show ?case using Cons by simp
qed simp

text \<open>The leaves of a group of processes, as a set.\<close>

definition group_leaves :: "procInfo set \<Rightarrow> int \<Rightarrow> procInfo set" where
  "group_leaves D pgid =
     (let g = (if pgid = 0 then Max (insert 0 (p_pgid ` D)) else pgid)
      in {p \<in> D. p_pgid p = g \<and> \<not> (\<exists>q \<in> D. p_pgid q = g \<and> p_ppid q = p_pid p)})"

lemma leaves_of_group:
  "set (findLeafProcesses (filter (\<lambda>p. p_pgid p = group_of pgid procs) procs)) = group_leaves (set procs) pgid"
  by (auto simp: findLeafProcesses_def group_leaves_def group_of_def group_fold list_ex_iff Let_def)

section \<open>Properties\<close>

text \<open>
  C34. The search for the descendants of a process ends exactly when the process is not its own ancestor in
  the list of \<open>ps\<close>, and then returns exactly the proper descendants of the process: children, their
  children and so on, each once.
\<close>

theorem descendants_terminate:
  assumes "getProcInfos out = Inr procs"
  shows "(findAllDescendants procs root \<noteq> None \<longleftrightarrow> (root, root) \<notin> (child_rel procs)\<^sup>+)
    \<and> (\<forall>res. findAllDescendants procs root = Some res \<longrightarrow> set res = descendant_procs procs root \<and> distinct (map p_pid res))"
  using findAllDescendants_correct [OF getProcInfos_distinct [OF assms]]
    findAllDescendants_returns [OF getProcInfos_distinct [OF assms]]
  unfolding pids_distinct_def by blast

definition demo_ps :: string where
  "demo_ps = ''STAT PID PPID PGID COMMAND'' @ [CHR 0x0A] @ ''Ss 100 1 100 tsshd'' @ [CHR 0x0A] @ ''S 200 100 200 bash'' @ [CHR 0x0A]
     @ ''Z 201 200 201 gone'' @ [CHR 0x0A] @ ''S+ 300 200 300 vim a b'' @ [CHR 0x0A] @ ''S+ 301 200 300 sort'' @ [CHR 0x0A]"

theorem descendants_terminate_witness:
  "\<exists>procs res. getProcInfos (Inr demo_ps) = Inr procs \<and> findAllDescendants procs 100 = Some res
     \<and> map p_pid res = [200, 300, 301] \<and> set res = descendant_procs procs 100"
proof -
  have "case getProcInfos (Inr demo_ps) of Inl e \<Rightarrow> False | Inr procs \<Rightarrow>
      (case findAllDescendants procs 100 of None \<Rightarrow> False | Some res \<Rightarrow> map p_pid res = [200, 300, 301])" by code_simp
  then obtain procs res where r: "getProcInfos (Inr demo_ps) = Inr procs" "findAllDescendants procs 100 = Some res"
    "map p_pid res = [200, 300, 301]" by (auto split: sum.splits option.splits)
  from descendants_terminate [OF r(1), THEN conjunct2, rule_format, OF r(2)] have "set res = descendant_procs procs 100" ..
  with r show ?thesis by (intro exI conjI)
qed

text \<open>
  C33. The process in the foreground is determined by the process tree alone, not by the order in which the
  maps are walked: among the descendants of the daemon that belong to the given group (the largest one when
  none is given), it is the process with the smallest number that has no child in the group; without such a
  process the answer is an error.
\<close>

theorem foreground_process_determined:
  assumes "getProcInfos out = Inr procs" "(self, self) \<notin> (child_rel procs)\<^sup>+"
  shows "\<exists>r. getForegroundProcess (getProcInfos out) self pgid = Some r
    \<and> (case r of
         Inl e \<Rightarrow> group_leaves (descendant_procs procs self) pgid = {} \<and> e = ErrText ''no leaf process''
       | Inr name \<Rightarrow> \<exists>p \<in> group_leaves (descendant_procs procs self) pgid.
           name = p_name p \<and> (\<forall>q \<in> group_leaves (descendant_procs procs self) pgid. p_pid p \<le> p_pid q))"
proof -
  note wf = getProcInfos_distinct [OF assms(1)]
  from findAllDescendants_returns [OF wf assms(2)] obtain res where res: "findAllDescendants procs self = Some res" ..
  let ?ls = "findLeafProcesses (filter (\<lambda>p. p_pgid p = group_of pgid res) res)"
  have ls: "set ?ls = group_leaves (descendant_procs procs self) pgid"
    by (simp add: leaves_of_group findAllDescendants_correct(1) [OF wf res])
  show ?thesis
  proof (cases "fold best_leaf ?ls None")
    case None
    with best_leaf_fold [of ?ls None] have "?ls = []" by simp
    then have "group_leaves (descendant_procs procs self) pgid = {}" using ls by simp
    with None res assms(1) show ?thesis by (simp add: getForegroundProcess_def Let_def)
  next
    case (Some m)
    with best_leaf_fold [of ?ls None] have "m \<in> set ?ls" "\<forall>q \<in> set ?ls. p_pid m \<le> p_pid q" by simp_all
    with Some res assms(1) show ?thesis by (auto simp: getForegroundProcess_def Let_def ls)
  qed
qed

theorem foreground_process_determined_witness:
  "\<exists>procs p. getProcInfos (Inr demo_ps) = Inr procs
     \<and> getForegroundProcess (getProcInfos (Inr demo_ps)) 100 0 = Some (Inr ''vim a b'')
     \<and> p \<in> group_leaves (descendant_procs procs 100) 0 \<and> p_name p = ''vim a b''"
proof -
  have f: "getForegroundProcess (getProcInfos (Inr demo_ps)) 100 0 = Some (Inr ''vim a b'')" by code_simp
  have "case getProcInfos (Inr demo_ps) of Inl e \<Rightarrow> False | Inr procs \<Rightarrow> findAllDescendants procs 100 \<noteq> None" by code_simp
  then obtain procs res where r: "getProcInfos (Inr demo_ps) = Inr procs" "findAllDescendants procs 100 = Some res"
    by (auto split: sum.splits)
  from foreground_process_determined [OF r(1) findAllDescendants_correct(3) [OF getProcInfos_distinct [OF r(1)] r(2)], of 0] f r(1)
  show ?thesis by auto
qed

end
