(* ===== verification/ClientIO.thy ===== *)
theory ClientIO
  imports SessionInput
begin

text \<open>
  Input and output of a session on the side of the client (\<open>output.go\<close>, \<open>client.go\<close>): the output
  forwarder, which after a request to redraw drops everything up to a marker, and the input forwarder,
  which drops input while the server is away and announces the first input after that with the marker the
  server asked for.
\<close>

section \<open>Output\<close>

record clientOutputForwarder =
  of_marker :: "bytes option"
  of_cacheBuf :: bytes
  of_discardLines :: nat
  of_discardBytes :: nat
  of_reports :: "(nat \<times> nat) list"

definition count_newlines :: "bytes \<Rightarrow> nat" where
  "count_newlines b = length (filter (\<lambda>x. x = 0x0A) b)"

text \<open>
  A read while a marker is set. \<open>cb\<close>: there is a discard callback; \<open>late\<close> is a marker that another
  request stored after this one was loaded, so that clearing it fails.
\<close>

definition marker_chunk ::
  "bool \<Rightarrow> bytes \<Rightarrow> bytes option \<Rightarrow> bytes \<Rightarrow> clientOutputForwarder \<Rightarrow> writer \<Rightarrow>
    go_error option \<times> clientOutputForwarder \<times> writer" where
  "marker_chunk cb marker late buf f w =
     (let cache = of_cacheBuf f @ buf;
          count = (\<lambda>pos g. if cb then g\<lparr>of_discardLines := of_discardLines g + count_newlines (take pos cache),
                                        of_discardBytes := of_discardBytes g + pos\<rparr> else g)
      in (case index_sub cache marker of
            Some pos \<Rightarrow>
              let f1 = (count pos f)\<lparr>of_cacheBuf := drop (pos + length marker) cache\<rparr>
              in (case late of
                    Some m \<Rightarrow> (None, f1\<lparr>of_marker := Some m\<rparr>, w)
                  | None \<Rightarrow>
                      let f2 = f1\<lparr>of_marker := None, of_cacheBuf := [], of_discardLines := 0, of_discardBytes := 0,
                            of_reports := of_reports f1 @ (if cb then [(of_discardLines f1 + 1, of_discardBytes f1)] else [])\<rparr>
                      in (case writeAll (of_cacheBuf f1) w of (err, w') \<Rightarrow> (err, f2, w')))
          | None \<Rightarrow>
              let keepLen = length marker - 1; pos = length cache - keepLen
              in (None,
                  (if length cache > keepLen then (count pos f)\<lparr>of_cacheBuf := drop pos cache\<rparr> else f\<lparr>of_cacheBuf := cache\<rparr>)
                    \<lparr>of_marker := (case late of Some m \<Rightarrow> Some m | None \<Rightarrow> of_marker f)\<rparr>, w)))"

text \<open>A read in either mode; nothing was read with the error that ends the loop.\<close>

definition output_chunk ::
  "bool \<Rightarrow> bytes option \<Rightarrow> bytes \<Rightarrow> clientOutputForwarder \<Rightarrow> writer \<Rightarrow> go_error option \<times> clientOutputForwarder \<times> writer" where
  "output_chunk cb late buf f w =
     (if buf = [] then (None, f, w)
      else (case of_marker f of
          Some marker \<Rightarrow> marker_chunk cb marker late buf f w
        | None \<Rightarrow> (case writeAll buf w of (err, w') \<Rightarrow> (err, f, w'))))"

text \<open>The loop; \<open>lates\<close> are the late markers of the coming reads.\<close>

function client_forward ::
  "bool \<Rightarrow> bytes option list \<Rightarrow> reader \<Rightarrow> clientOutputForwarder \<Rightarrow> writer \<Rightarrow> clientOutputForwarder \<times> writer" where
  "client_forward cb lates r f w =
     (case rd_read 32768 r of
        ((buf, err), r') \<Rightarrow>
          (case output_chunk cb (case lates of [] \<Rightarrow> None | l # _ \<Rightarrow> l) buf f w of
             (e, f', w') \<Rightarrow> if e \<noteq> None \<or> err \<noteq> None then (f', w') else client_forward cb (tl lates) r' f' w'))"
  by pat_completeness auto
termination
proof (relation "measure (\<lambda>(cb, ls, r, f, w). length (rd_chunks r) + length (concat (rd_chunks r)))")
  fix cb :: bool and lates :: "bytes option list" and r x r' buf err y e z and f f' :: clientOutputForwarder and w w'
  assume "(x, r') = rd_read 32768 r" "(buf, err) = x" "\<not> (e \<noteq> None \<or> err \<noteq> None)"
  then show "((cb, tl lates, r', f', w'), cb, lates, r, f, w) \<in> measure (\<lambda>(cb, ls, r, f, w). length (rd_chunks r) + length (concat (rd_chunks r)))"
    using rd_read_decr [of 32767 r buf r'] by simp
qed simp

declare client_forward.simps [simp del]

section \<open>Input\<close>

text \<open>
  What happens to the input: the server's marker arrives (\<open>handleDiscardEvent\<close>) or the user types a
  buffer, when the server may be away: then input is kept until it is back, or dropped.
\<close>

record in_env =
  ie_timeout :: bool
  ie_keep :: bool
  ie_wait :: "go_error option"

datatype in_event = MarkerStored bytes | Typed bytes in_env

record client_input =
  ci_marker :: "bytes option"
  ci_stream :: writer
  ci_discarded :: "bytes list"
  ci_ended :: bool

definition typed_input :: "bytes \<Rightarrow> client_input \<Rightarrow> client_input" where
  "typed_input buf c =
     (case (case ci_marker c of None \<Rightarrow> (None, ci_stream c) | Some m \<Rightarrow> writeAll m (ci_stream c)) of
        (Some e, w) \<Rightarrow> c\<lparr>ci_marker := None, ci_stream := w, ci_ended := True\<rparr>
      | (None, w) \<Rightarrow>
          (case writeAll buf w of
             (Some e, w') \<Rightarrow> c\<lparr>ci_marker := None, ci_stream := w', ci_ended := True\<rparr>
           | (None, w') \<Rightarrow> c\<lparr>ci_marker := None, ci_stream := w'\<rparr>))"

definition client_forwardInput :: "in_event \<Rightarrow> client_input \<Rightarrow> client_input" where
  "client_forwardInput ev c =
     (case ev of
        MarkerStored m \<Rightarrow> c\<lparr>ci_marker := Some m\<rparr>
      | Typed buf e \<Rightarrow>
          if ci_ended c \<or> buf = [] then c
          else if ie_timeout e then
            if ie_keep e then
              if ie_wait e \<noteq> None then c\<lparr>ci_ended := True\<rparr> else typed_input buf c
            else c\<lparr>ci_discarded := ci_discarded c @ [buf]\<rparr>
          else typed_input buf c)"

section \<open>Requests to redraw\<close>

definition base64_char :: "nat \<Rightarrow> char" where
  "base64_char n =
     (if n < 26 then char_of (65 + n) else if n < 52 then char_of (71 + n) else if n < 62 then char_of (n - 4)
      else if n = 62 then CHR ''+'' else CHR ''/'')"

text \<open>\<open>base64.StdEncoding.EncodeToString\<close>.\<close>

fun base64_encode :: "nat list \<Rightarrow> string" where
  "base64_encode [] = []"
| "base64_encode [a] = [base64_char (a div 4), base64_char ((a mod 4) * 16), CHR ''='', CHR ''='']"
| "base64_encode [a, b] =
     [base64_char (a div 4), base64_char ((a mod 4) * 16 + b div 16), base64_char ((b mod 16) * 4), CHR ''='']"
| "base64_encode (a # b # c # r) =
     [base64_char (a div 4), base64_char ((a mod 4) * 16 + b div 16), base64_char ((b mod 16) * 4 + c div 64),
      base64_char (c mod 64)] @ base64_encode r"

definition redraw_marker :: "byte list \<Rightarrow> bytes" where
  "redraw_marker rnd = str_bytes (''[TSSHD-MARKER-'' @ base64_encode (map unat rnd) @ '']'')"

record redraw =
  rw_height :: int
  rw_width :: int
  rw_out :: "clientOutputForwarder option"
  rw_err :: "clientOutputForwarder option"

text \<open>\<open>rnd\<close>: the random bytes or the error of drawing them; \<open>sendErr\<close>: the error of the resize message.\<close>

definition RedrawScreen :: "bool \<Rightarrow> int \<Rightarrow> byte list result \<Rightarrow> go_error option \<Rightarrow> redraw \<Rightarrow> redraw \<times> bytes option result" where
  "RedrawScreen discardPreviousOutput protoVersion rnd sendErr s =
     (if rw_height s \<le> 0 \<or> rw_width s \<le> 0 then (s, Inl (ErrText ''invalid terminal size''))
      else if discardPreviousOutput \<and> protoVersion \<ge> 1 then
        (case rnd of
           Inl e \<Rightarrow> (s, Inl (ErrFlat ''generate discard marker failed'' e))
         | Inr bs \<Rightarrow>
             let m = redraw_marker bs; setm = map_option (\<lambda>f. f\<lparr>of_marker := Some m\<rparr>);
                 s' = s\<lparr>rw_out := setm (rw_out s), rw_err := setm (rw_err s)\<rparr>
             in (s', (case sendErr of Some e \<Rightarrow> Inl (ErrFlat ''send redraw message failed'' e) | None \<Rightarrow> Inr (Some m))))
      else (s, (case sendErr of Some e \<Rightarrow> Inl (ErrFlat ''send redraw message failed'' e) | None \<Rightarrow> Inr None)))"

section \<open>Lemmas\<close>

text \<open>What is dropped in front of the tail that is kept cannot hold the beginning of a marker.\<close>

lemma index_sub_tail:
  assumes "index_sub (a @ t) m = None" "a = [] \<or> length m \<le> Suc (length t)"
  shows "index_sub (a @ t @ b) m = map_option (\<lambda>j. length a + j) (index_sub (t @ b) m)"
  using assms
proof (induction a)
  case Nil
  then show ?case by (simp add: option.map_ident)
next
  case (Cons x a)
  have np: "\<not> has_prefix (x # a @ t) m" and n: "index_sub (a @ t) m = None" using Cons.prems(1) by (auto split: if_splits)
  have "length m \<le> length (x # a @ t)" using Cons.prems(2) by simp
  with np have "\<not> has_prefix (x # a @ t @ b) m" by (auto simp: has_prefix_def take_Cons')
  moreover have "index_sub (a @ t @ b) m = map_option (\<lambda>j. length a + j) (index_sub (t @ b) m)"
    using Cons.IH [OF n] Cons.prems(2) by auto
  ultimately show ?case by (simp add: option.map_comp comp_def)
qed

lemma index_sub_suffix: "index_sub (a @ t) m = None \<Longrightarrow> index_sub t m = None"
  unfolding index_sub_None by (metis append_assoc)

lemma count_newlines_append: "count_newlines (a @ b) = count_newlines a + count_newlines b"
  by (simp add: count_newlines_def)

text \<open>While the marker has not been seen: \<open>seen\<close> is everything read since it was set, \<open>gone\<close> what was cut off.\<close>

definition skipping :: "bytes \<Rightarrow> bytes \<Rightarrow> clientOutputForwarder \<Rightarrow> bool" where
  "skipping m seen f \<longleftrightarrow> of_marker f = Some m \<and> index_sub seen m = None \<and>
     (\<exists>gone. seen = gone @ of_cacheBuf f \<and> (gone = [] \<or> length m \<le> Suc (length (of_cacheBuf f)))
        \<and> of_discardBytes f = length gone \<and> of_discardLines f = count_newlines gone)"

lemma marker_chunk_skips:
  assumes sk: "skipping m seen f" and none: "index_sub (seen @ buf) m = None"
  obtains f' where "marker_chunk True m None buf f w = (None, f', w)" "skipping m (seen @ buf) f'" "of_reports f' = of_reports f"
proof -
  from sk obtain gone where g: "seen = gone @ of_cacheBuf f" "of_discardBytes f = length gone" "of_discardLines f = count_newlines gone"
    and m: "of_marker f = Some m" and keep: "gone = [] \<or> length m \<le> Suc (length (of_cacheBuf f))" by (auto simp: skipping_def)
  define cache where "cache = of_cacheBuf f @ buf"
  have seen: "seen @ buf = gone @ cache" by (simp add: g(1) cache_def)
  have n: "index_sub cache m = None" using none index_sub_suffix [of gone cache m] by (simp add: seen)
  define pos where "pos = length cache - (length m - 1)"
  show thesis
  proof (cases "length cache > length m - 1")
    case True
    let ?f = "f\<lparr>of_discardLines := of_discardLines f + count_newlines (take pos cache), of_discardBytes := of_discardBytes f + pos,
      of_cacheBuf := drop pos cache, of_marker := Some m\<rparr>"
    have pos: "pos \<le> length cache" "length m \<le> Suc (length (drop pos cache))" using True by (simp_all add: pos_def)
    have "seen @ buf = (gone @ take pos cache) @ drop pos cache" by (simp add: seen)
    moreover have "of_discardBytes ?f = length (gone @ take pos cache)" "of_discardLines ?f = count_newlines (gone @ take pos cache)"
      using pos(1) g(2,3) by (simp_all add: count_newlines_append)
    ultimately have "skipping m (seen @ buf) ?f"
      unfolding skipping_def using m none pos(2) by (intro conjI exI [of _ "gone @ take pos cache"]) simp_all
    moreover have "marker_chunk True m None buf f w = (None, ?f, w)"
      unfolding marker_chunk_def Let_def cache_def [symmetric] pos_def [symmetric] using n True m by simp
    ultimately show thesis using that [of ?f] by simp
  next
    case False
    have "gone = [] \<or> length m \<le> Suc (length cache)" using keep by (auto simp: cache_def)
    with g m none have "skipping m (seen @ buf) (f\<lparr>of_cacheBuf := cache, of_marker := Some m\<rparr>)"
      unfolding skipping_def by (intro conjI exI [of _ gone]) (simp_all add: cache_def)
    then show thesis using that [of "f\<lparr>of_cacheBuf := cache, of_marker := Some m\<rparr>"] n False m by (simp add: marker_chunk_def Let_def cache_def [symmetric])
  qed
qed

lemma found_split:
  assumes "index_sub acc m = Some (length pending)" "acc @ more' = pending @ m @ rest"
  obtains r1 where "acc = pending @ m @ r1" "r1 @ more' = rest"
proof -
  from index_sub_Some [OF assms(1)] have l: "length pending + length m \<le> length acc" by simp
  have "take (length pending + length m) (acc @ more') = pending @ m" unfolding assms(2) by simp
  with l have "take (length pending + length m) acc = pending @ m" by simp
  then have "acc = pending @ m @ drop (length pending + length m) acc" by (metis append_assoc append_take_drop_id)
  with assms(2) that [of "drop (length pending + length m) acc"] show thesis by (metis append_assoc same_append_eq)
qed

lemma marker_chunk_found:
  assumes sk: "skipping m seen f" and found: "index_sub (seen @ buf) m = Some (length pending)" and eq: "seen @ buf = pending @ m @ rest"
  shows "marker_chunk True m None buf f w =
    (case writeAll rest w of (err, w') \<Rightarrow>
       (err, f\<lparr>of_marker := None, of_cacheBuf := [], of_discardLines := 0, of_discardBytes := 0,
               of_reports := of_reports f @ [(count_newlines pending + 1, length pending)]\<rparr>, w'))"
proof -
  from sk obtain gone where g: "seen = gone @ of_cacheBuf f" "of_discardBytes f = length gone" "of_discardLines f = count_newlines gone"
    and m: "of_marker f = Some m" "index_sub seen m = None" and keep: "gone = [] \<or> length m \<le> Suc (length (of_cacheBuf f))"
    by (auto simp: skipping_def)
  define cache where "cache = of_cacheBuf f @ buf"
  from index_sub_tail [of gone "of_cacheBuf f" m buf] m(2) keep g(1) found
  obtain pos where pos: "index_sub cache m = Some pos" "length gone + pos = length pending" by (auto simp: cache_def)
  have sb: "gone @ cache = pending @ m @ rest" using eq g(1) by (simp add: cache_def)
  have "take (length pending) (gone @ cache) = gone @ take pos cache" unfolding pos(2) [symmetric] by simp
  then have p: "count_newlines pending = count_newlines gone + count_newlines (take pos cache)"
    unfolding sb by (simp add: count_newlines_append [symmetric])
  have "drop (length pending + length m) (gone @ cache) = drop (pos + length m) cache" unfolding pos(2) [symmetric] by simp
  then have r: "drop (pos + length m) cache = rest" unfolding sb by simp
  show ?thesis using pos(1) by (simp add: marker_chunk_def Let_def cache_def [symmetric] r p g(2,3) pos(2))
qed

lemma writeAll_all:
  assumes "w_reliable w"
  shows "\<exists>w'. writeAll b w = (None, w') \<and> w_reliable w' \<and> w_sink w' = w_sink w @ b"
proof -
  obtain e w' where w: "writeAll b w = (e, w')" by fastforce
  with writeAll_reliable [OF assms, of b] writeAll_sink [OF w] show ?thesis by auto
qed

lemma forward_step:
  assumes "rd_read 32768 r = ((buf, err), r')" "output_chunk cb (case ls of [] \<Rightarrow> None | l # _ \<Rightarrow> l) buf f w = (None, f1, w1)"
  shows "client_forward cb ls r f w = (if err = None then client_forward cb (tl ls) r' f1 w1 else (f1, w1))"
  using assms by (subst client_forward.simps) auto

lemma forward_plain:
  assumes "of_marker f = None" "w_reliable w"
  shows "\<exists>w'. client_forward cb ls r f w = (f, w') \<and> w_sink w' = w_sink w @ rd_bytes r"
  using assms
proof (induction "length (rd_chunks r) + length (concat (rd_chunks r))" arbitrary: r w ls rule: less_induct)
  case less
  obtain buf err r' where rd: "rd_read 32768 r = ((buf, err), r')" by (metis surj_pair)
  obtain w1 where wr: "writeAll buf w = (None, w1)" and ok: "w_reliable w1" "w_sink w1 = w_sink w @ buf"
    using writeAll_all [OF less.prems(2)] by blast
  have "buf = [] \<Longrightarrow> w1 = w" using wr by (simp add: writeAll.simps)
  then have "output_chunk cb (case ls of [] \<Rightarrow> None | l # _ \<Rightarrow> l) buf f w = (None, f, w1)"
    using wr less.prems(1) by (auto simp: output_chunk_def)
  note step = forward_step [OF rd this]
  show ?case
  proof (cases err)
    case None
    with rd_read_decr [of 32767 r buf r'] rd have "length (rd_chunks r') + length (concat (rd_chunks r')) < length (rd_chunks r) + length (concat (rd_chunks r))"
      by simp
    from less.hyps [OF this less.prems(1) ok(1), of "tl ls"] step None ok(2) rd_read_bytes(1) [OF rd] show ?thesis by auto
  qed (use step ok rd_read_bytes [OF rd] in auto)
qed

lemma forward_skips:
  assumes "skipping m seen f" "w_reliable w" "seen @ rd_bytes r = pending @ m @ rest"
    and "index_sub (pending @ m @ rest) m = Some (length pending)" "\<forall>l \<in> set ls. l = None"
  shows "\<exists>f' w'. client_forward True ls r f w = (f', w') \<and> w_sink w' = w_sink w @ rest \<and> of_marker f' = None
    \<and> of_reports f' = of_reports f @ [(count_newlines pending + 1, length pending)]"
  using assms
proof (induction "length (rd_chunks r) + length (concat (rd_chunks r))" arbitrary: r f ls seen rule: less_induct)
  case less
  obtain buf err r' where rd: "rd_read 32768 r = ((buf, err), r')" by (metis surj_pair)
  have bytes: "rd_bytes r = buf @ rd_bytes r'" "err \<noteq> None \<Longrightarrow> rd_bytes r' = []" using rd_read_bytes [OF rd] by auto
  have m: "of_marker f = Some m" "index_sub seen m = None" using less.prems(1) by (auto simp: skipping_def)
  have late: "(case ls of [] \<Rightarrow> None | l # _ \<Rightarrow> l) = None" "\<forall>l \<in> set (tl ls). l = None"
    using less.prems(5) by (cases ls; simp)+
  have cat: "(seen @ buf) @ rd_bytes r' = pending @ m @ rest" using less.prems(3) bytes(1) by simp
  have decr: "length (rd_chunks r') + length (concat (rd_chunks r')) < length (rd_chunks r) + length (concat (rd_chunks r))" if "err = None"
    using rd_read_decr [of 32767 r buf r'] rd that by simp
  show ?case
  proof (cases "index_sub (seen @ buf) m")
    case None
    have err: "err = None"
    proof (rule ccontr)
      assume "err \<noteq> None"
      with bytes(2) cat have "seen @ buf = pending @ m @ rest" by simp
      with None less.prems(4) show False by simp
    qed
    obtain f1 where f1: "marker_chunk True m None buf f w = (None, f1, w)" "skipping m (seen @ buf) f1" "of_reports f1 = of_reports f"
      by (rule marker_chunk_skips [OF less.prems(1) None])
    define f2 where "f2 = (if buf = [] then f else f1)"
    have "output_chunk True (case ls of [] \<Rightarrow> None | l # _ \<Rightarrow> l) buf f w = (None, f2, w)"
      using f1(1) m(1) late(1) by (simp add: output_chunk_def f2_def)
    from forward_step [OF rd this] err have "client_forward True ls r f w = client_forward True (tl ls) r' f2 w" by simp
    moreover have sk: "skipping m (seen @ buf) f2" and "of_reports f2 = of_reports f" using f1 less.prems(1) by (simp_all add: f2_def)
    ultimately show ?thesis using less.hyps [OF decr [OF err] sk less.prems(2) cat less.prems(4) late(2)] by simp
  next
    case (Some j)
    from index_sub_append [OF Some, of "rd_bytes r'"] cat less.prems(4) have j: "j = length pending" by simp
    obtain r1 where r1: "seen @ buf = pending @ m @ r1" "r1 @ rd_bytes r' = rest" by (rule found_split [OF Some [unfolded j] cat])
    have b: "buf \<noteq> []" using Some m(2) by auto
    obtain w1 where wr: "writeAll r1 w = (None, w1)" and ok: "w_reliable w1" "w_sink w1 = w_sink w @ r1"
      using writeAll_all [OF less.prems(2)] by blast
    let ?f = "f\<lparr>of_marker := None, of_cacheBuf := [], of_discardLines := 0, of_discardBytes := 0,
               of_reports := of_reports f @ [(count_newlines pending + 1, length pending)]\<rparr>"
    have "output_chunk True (case ls of [] \<Rightarrow> None | l # _ \<Rightarrow> l) buf f w = (None, ?f, w1)"
      using marker_chunk_found [OF less.prems(1) Some [unfolded j] r1(1), of w] wr b m(1) late(1) by (simp add: output_chunk_def)
    note step = forward_step [OF rd this]
    obtain w2 where "client_forward True (tl ls) r' ?f w1 = (?f, w2)" "w_sink w2 = w_sink w1 @ rd_bytes r'"
      using forward_plain [of ?f w1 True "tl ls" r'] ok(1) by auto
    with step ok(2) r1(2) bytes(2) show ?thesis by (cases "err = None") auto
  qed
qed

text \<open>What the input forwarder leaves on the stream when the server is there and the stream takes everything.\<close>

definition plain_input :: "in_event list \<Rightarrow> bool" where
  "plain_input evs \<longleftrightarrow> (\<forall>ev \<in> set evs. case ev of MarkerStored m \<Rightarrow> True | Typed b e \<Rightarrow> \<not> ie_timeout e \<or> ie_keep e \<and> ie_wait e = None)"

fun sent_bytes :: "bytes option \<Rightarrow> in_event list \<Rightarrow> bytes" where
  "sent_bytes m [] = []"
| "sent_bytes m (MarkerStored m' # evs) = sent_bytes (Some m') evs"
| "sent_bytes m (Typed b e # evs) =
     (if b = [] then sent_bytes m evs else (case m of None \<Rightarrow> [] | Some x \<Rightarrow> x) @ b @ sent_bytes None evs)"

lemma typed_input_sent:
  assumes "w_reliable (ci_stream c)" "\<not> ci_ended c"
  shows "\<exists>w. typed_input b c = c\<lparr>ci_marker := None, ci_stream := w\<rparr> \<and> w_reliable w
    \<and> w_sink w = w_sink (ci_stream c) @ (case ci_marker c of None \<Rightarrow> [] | Some x \<Rightarrow> x) @ b"
proof -
  obtain w1 where w1: "(case ci_marker c of None \<Rightarrow> (None, ci_stream c) | Some m \<Rightarrow> writeAll m (ci_stream c)) = (None, w1)"
    "w_reliable w1" "w_sink w1 = w_sink (ci_stream c) @ (case ci_marker c of None \<Rightarrow> [] | Some x \<Rightarrow> x)"
    using assms(1) writeAll_all [OF assms(1)] by (cases "ci_marker c") auto
  obtain w2 where "writeAll b w1 = (None, w2)" "w_reliable w2" "w_sink w2 = w_sink w1 @ b" using writeAll_all [OF w1(2)] by blast
  with w1 show ?thesis by (intro exI [of _ w2]) (simp add: typed_input_def)
qed

lemma client_input_sent:
  assumes "plain_input evs" "w_reliable (ci_stream c)" "\<not> ci_ended c"
  shows "w_sink (ci_stream (fold client_forwardInput evs c)) = w_sink (ci_stream c) @ sent_bytes (ci_marker c) evs"
  using assms
proof (induction evs arbitrary: c)
  case (Cons ev evs)
  show ?case
  proof (cases ev)
    case (MarkerStored m)
    with Cons.IH [of "c\<lparr>ci_marker := Some m\<rparr>"] Cons.prems show ?thesis by (simp add: client_forwardInput_def plain_input_def)
  next
    case (Typed b e)
    show ?thesis
    proof (cases "b = []")
      case True
      with Typed Cons.IH [of c] Cons.prems show ?thesis by (simp add: client_forwardInput_def plain_input_def)
    next
      case False
      from typed_input_sent [OF Cons.prems(2,3), of b] obtain w where w: "typed_input b c = c\<lparr>ci_marker := None, ci_stream := w\<rparr>"
        "w_reliable w" "w_sink w = w_sink (ci_stream c) @ (case ci_marker c of None \<Rightarrow> [] | Some x \<Rightarrow> x) @ b" by blast
      have "client_forwardInput ev c = c\<lparr>ci_marker := None, ci_stream := w\<rparr>"
        using Typed False Cons.prems(1,3) w(1) by (auto simp: client_forwardInput_def plain_input_def)
      with Cons.IH [of "c\<lparr>ci_marker := None, ci_stream := w\<rparr>"] Cons.prems w(2,3) Typed False show ?thesis
        by (simp add: plain_input_def)
    qed
  qed
qed simp

text \<open>The bytes typed, without the markers.\<close>

fun typed_bytes :: "in_event list \<Rightarrow> bytes" where
  "typed_bytes [] = []"
| "typed_bytes (MarkerStored m # evs) = typed_bytes evs"
| "typed_bytes (Typed b e # evs) = b @ typed_bytes evs"

fun no_marker :: "in_event list \<Rightarrow> bool" where
  "no_marker [] = True"
| "no_marker (MarkerStored m # evs) = False"
| "no_marker (Typed b e # evs) = no_marker evs"

lemma sent_no_marker: "no_marker evs \<Longrightarrow> sent_bytes None evs = typed_bytes evs"
  by (induction evs rule: no_marker.induct) simp_all

lemma sent_after_marker: "no_marker evs \<Longrightarrow> typed_bytes evs \<noteq> [] \<Longrightarrow> sent_bytes (Some m) evs = m @ typed_bytes evs"
  by (induction evs rule: no_marker.induct) (auto simp: sent_no_marker)

lemma sent_bytes_split:
  assumes "no_marker evs1" "no_marker evs2" "typed_bytes evs2 \<noteq> []"
  shows "sent_bytes None (evs1 @ MarkerStored m # evs2) = typed_bytes evs1 @ m @ typed_bytes evs2"
  using assms(1) by (induction evs1 rule: no_marker.induct) (auto simp: sent_after_marker [OF assms(2,3)])

definition one_line :: "char \<Rightarrow> bool" where
  "one_line c \<longleftrightarrow> c \<noteq> CHR 0x0A \<and> c \<noteq> CHR 0x0D"

lemma base64_one_line: "n < 64 \<Longrightarrow> one_line (base64_char n)"
proof -
  have "list_all (\<lambda>n. one_line (base64_char n)) [0..<64]" by code_simp
  then show "n < 64 \<Longrightarrow> one_line (base64_char n)" by (simp add: list_all_iff)
qed

lemma base64_encode_one_line: "\<forall>n \<in> set bs. n < 256 \<Longrightarrow> list_all one_line (base64_encode bs)"
proof (induction bs rule: base64_encode.induct)
  case (2 a)
  then have "a div 4 < 64" "(a mod 4) * 16 < 64" by auto
  then show ?case by (simp add: base64_one_line) (simp add: one_line_def)
next
  case (3 a b)
  then have "a div 4 < 64" "(a mod 4) * 16 + b div 16 < 64" "(b mod 16) * 4 < 64" by auto
  then show ?case by (simp add: base64_one_line) (simp add: one_line_def)
next
  case (4 a b c r)
  then have "a div 4 < 64" "(a mod 4) * 16 + b div 16 < 64" "(b mod 16) * 4 + c div 64 < 64" "c mod 64 < 64" by auto
  with 4 show ?case by (simp add: base64_one_line)
qed simp

lemma one_line_byte: "one_line c \<Longrightarrow> c2b c \<noteq> 0x0A \<and> c2b c \<noteq> 0x0D"
proof -
  have "c2b (CHR 0x0A) = 0x0A" "c2b (CHR 0x0D) = 0x0D" by code_simp+
  then show "one_line c \<Longrightarrow> c2b c \<noteq> 0x0A \<and> c2b c \<noteq> 0x0D"
    using str_bytes_inj [of "[c]" "[CHR 0x0A]"] str_bytes_inj [of "[c]" "[CHR 0x0D]"] by (auto simp: one_line_def str_bytes_def)
qed

lemma redraw_marker_one_line: "0x0A \<notin> set (redraw_marker rnd) \<and> 0x0D \<notin> set (redraw_marker rnd)"
proof -
  define line where "line = ''[TSSHD-MARKER-'' @ base64_encode (map unat rnd) @ '']''"
  have "\<forall>n \<in> set (map unat rnd). n < 256" using unat_bound [where 'a = 8] by auto
  from base64_encode_one_line [OF this] have "list_all one_line line" by (simp add: line_def one_line_def)
  then have "\<forall>c \<in> set line. c2b c \<noteq> 0x0A \<and> c2b c \<noteq> 0x0D" using one_line_byte by (simp add: list_all_iff)
  then show ?thesis unfolding redraw_marker_def str_bytes_def line_def [symmetric] by (auto simp: image_iff)
qed

section \<open>Properties\<close>

text \<open>
  C22. A redraw drops exactly the old output: when the output after a request to redraw is \<open>pending\<close>, the marker
  of the request and \<open>rest\<close>, cut into reads in any way, the caller receives \<open>rest\<close> and nothing of
  \<open>pending\<close>, the callback is told once how many lines and bytes were dropped, and the forwarder is back in its
  normal mode. The marker is one line of text whatever the random bytes are, so the server's caching by lines
  cannot tear it.
\<close>

theorem redraw_drops_old_output:
  assumes "of_marker f = Some m" "of_cacheBuf f = []" "of_discardLines f = 0" "of_discardBytes f = 0" "m = redraw_marker rnd"
    and "rd_bytes r = pending @ m @ rest" "index_sub (pending @ m @ rest) m = Some (length pending)" "w_reliable w"
  shows "(\<exists>f' w'. client_forward True [] r f w = (f', w') \<and> w_sink w' = w_sink w @ rest \<and> of_marker f' = None
    \<and> of_reports f' = of_reports f @ [(count_newlines pending + 1, length pending)])
    \<and> 0x0A \<notin> set m \<and> 0x0D \<notin> set m"
proof -
  have "m \<noteq> []" by (simp add: assms(5) redraw_marker_def str_bytes_def)
  then have "skipping m [] f" using assms(1-4) by (simp add: skipping_def count_newlines_def)
  from forward_skips [OF this assms(8) _ assms(7), of r "[]"] assms(6) redraw_marker_one_line [of rnd] show ?thesis
    unfolding assms(5) by simp
qed

definition demo_redraw :: "byte list" where "demo_redraw = [1, 2, 3, 250, 251]"

definition redraw_fwd :: clientOutputForwarder where
  "redraw_fwd = \<lparr>of_marker = Some (redraw_marker demo_redraw), of_cacheBuf = [], of_discardLines = 0, of_discardBytes = 0, of_reports = []\<rparr>"

theorem redraw_drops_old_output_witness:
  "\<exists>f' w'. client_forward True [] \<lparr>rd_chunks = [[65, 0x0A, 91], [66, 67] @ take 9 (redraw_marker demo_redraw),
       drop 9 (redraw_marker demo_redraw) @ [7], [8]], rd_end = ErrEOF\<rparr> redraw_fwd \<lparr>w_sink = [], w_sched = [WrOk 1]\<rparr> = (f', w')
     \<and> w_sink w' = [7, 8] \<and> of_reports f' = [(2, 5)]"
proof -
  let ?m = "redraw_marker demo_redraw"
  have "?m = take 9 ?m @ drop 9 ?m" by simp
  then have b: "rd_bytes \<lparr>rd_chunks = [[65, 0x0A, 91], [66, 67] @ take 9 ?m, drop 9 ?m @ [7], [8]], rd_end = ErrEOF\<rparr> = [65, 0x0A, 91, 66, 67] @ ?m @ [7, 8]"
    by (simp add: rd_bytes_def)
  have i: "index_sub ([65, 0x0A, 91, 66, 67] @ ?m @ [7, 8]) ?m = Some (length [65, 0x0A, 91, 66, 67 :: byte])" by code_simp
  have c: "count_newlines [65, 0x0A, 91, 66, 67] = 1" by code_simp
  have f: "of_marker redraw_fwd = Some ?m" "of_cacheBuf redraw_fwd = []" "of_discardLines redraw_fwd = 0" "of_discardBytes redraw_fwd = 0"
    "of_reports redraw_fwd = []" by (simp_all add: redraw_fwd_def)
  have "w_reliable \<lparr>w_sink = [], w_sched = [WrOk 1]\<rparr>" by (simp add: w_reliable_def)
  from redraw_drops_old_output [OF f(1-4) refl b i this] f(5) c show ?thesis by auto
qed

end
