(* ===== verification/ClientRequests.thy ===== *)
theory ClientRequests
  imports Machine Prelude
begin

text \<open>
  The requests of the client library (\<open>client.go\<close>): opening streams for sessions, connections, listeners
  and channels, closing them, attaching to a session, and the counter \<open>exitWG\<close> that \<open>Wait\<close> waits for. A
  stream is a number with the flag whether it is open; what the server answers is a parameter of each call.
\<close>

section \<open>State\<close>

text \<open>A connection, channel or listener with its stream, the datagram channel it registered, and whether it is open.\<close>

record conn_obj =
  ob_stream :: nat
  ob_chan :: "u64 option"
  ob_open :: bool

text \<open>
  A session with its number, its streams, the counter of the goroutines it waits for (\<open>exitWG\<close>, one until it has
  exited and one for each output forwarder) and how many forwarders are running.
\<close>

record client_session =
  se_id :: u64
  se_stream :: nat
  se_errStream :: "nat option"
  se_stdout :: bool
  se_wg :: int
  se_fwds :: nat
  se_started :: bool
  se_exited :: bool
  se_code :: int

record client =
  c_streams :: "bool list"
  c_chans :: "u64 list"
  c_objs :: "conn_obj list"
  c_sessions :: "client_session list"
  c_sessionMap :: "u64 \<Rightarrow> nat option"
  c_sessionID :: u64
  c_exitWG :: int
  c_panic :: bool

definition stream_Close :: "nat \<Rightarrow> client \<Rightarrow> client" where
  "stream_Close st c = c\<lparr>c_streams := (c_streams c)[st := False]\<rparr>"

definition wg_add :: "int \<Rightarrow> client \<Rightarrow> client" where
  "wg_add d c = c\<lparr>c_exitWG := c_exitWG c + d, c_panic := (c_panic c \<or> c_exitWG c + d < 0)\<rparr>"

section \<open>Streams\<close>

text \<open>What a new stream meets: the transport, sending the command and the server's answer.\<close>

record open_env =
  oe_open :: "go_error option"
  oe_send :: "go_error option"
  oe_reply :: "go_error option"

definition newStream :: "string \<Rightarrow> open_env \<Rightarrow> client \<Rightarrow> client \<times> nat result" where
  "newStream cmd e c =
     (case oe_open e of
        Some err \<Rightarrow> (c, Inl (ErrWrap (''new stream ['' @ cmd @ ''] failed'') err))
      | None \<Rightarrow>
          let st = length (c_streams c); c1 = c\<lparr>c_streams := c_streams c @ [True]\<rparr>
          in (case oe_send e of
                Some err \<Rightarrow> (stream_Close st c1, Inl (ErrWrap (''send command ['' @ cmd @ ''] failed'') err))
              | None \<Rightarrow>
                  (case oe_reply e of
                     Some err \<Rightarrow> (stream_Close st c1, Inl (ErrWrap (''new stream ['' @ cmd @ ''] error'') err))
                   | None \<Rightarrow> (c1, Inr st))))"

text \<open>
  Most requests send a message on the new stream and read the answer; the stream is closed when either
  fails.
\<close>

definition request :: "string \<Rightarrow> open_env \<Rightarrow> string \<Rightarrow> go_error option \<Rightarrow> go_error option \<Rightarrow> client \<Rightarrow> client \<times> nat result" where
  "request cmd e what sendErr respErr c =
     (case newStream cmd e c of
        (c1, Inl err) \<Rightarrow> (c1, Inl err)
      | (c1, Inr st) \<Rightarrow>
          (case sendErr of
             Some err \<Rightarrow> (stream_Close st c1, Inl (ErrWrap what err))
           | None \<Rightarrow> (case respErr of Some err \<Rightarrow> (stream_Close st c1, Inl err) | None \<Rightarrow> (c1, Inr st))))"

definition add_obj :: "nat \<Rightarrow> u64 option \<Rightarrow> client \<Rightarrow> client" where
  "add_obj st ch c = wg_add 1 (c\<lparr>c_objs := c_objs c @ [\<lparr>ob_stream = st, ob_chan = ch, ob_open = True\<rparr>]\<rparr>)"

definition simple_request ::
  "string \<Rightarrow> open_env \<Rightarrow> string \<Rightarrow> go_error option \<Rightarrow> go_error option \<Rightarrow> client \<Rightarrow> client \<times> go_error option" where
  "simple_request cmd e what sendErr respErr c =
     (case request cmd e what sendErr respErr c of
        (c1, Inl err) \<Rightarrow> (c1, Some err)
      | (c1, Inr st) \<Rightarrow> (add_obj st None c1, None))"

definition DialTimeout :: "open_env \<Rightarrow> go_error option \<Rightarrow> go_error option \<Rightarrow> client \<Rightarrow> client \<times> go_error option" where
  "DialTimeout e = simple_request ''dial'' e ''send dial message failed''"

definition Listen :: "open_env \<Rightarrow> go_error option \<Rightarrow> go_error option \<Rightarrow> client \<Rightarrow> client \<times> go_error option" where
  "Listen e = simple_request ''listen'' e ''send listen message failed''"

definition ListenUDP :: "open_env \<Rightarrow> go_error option \<Rightarrow> go_error option \<Rightarrow> client \<Rightarrow> client \<times> go_error option" where
  "ListenUDP e = simple_request ''listen-udp'' e ''send listen udp message failed''"

definition newChannel_Accept :: "open_env \<Rightarrow> go_error option \<Rightarrow> go_error option \<Rightarrow> client \<Rightarrow> client \<times> go_error option" where
  "newChannel_Accept e = simple_request ''accept'' e ''send accept message failed''"

text \<open>\<open>recvErr\<close>: the error of waiting for the number of an accepted connection.\<close>

definition listener_Accept ::
  "go_error option \<Rightarrow> open_env \<Rightarrow> go_error option \<Rightarrow> go_error option \<Rightarrow> client \<Rightarrow> client \<times> go_error option" where
  "listener_Accept recvErr e sendErr respErr c =
     (case recvErr of
        Some err \<Rightarrow> (c, Some (ErrWrap ''recv accept message failed'' err))
      | None \<Rightarrow> simple_request ''accept'' e ''send accept message failed'' sendErr respErr c)"

text \<open>
  The datagram connections register a channel with the forwarder, unless there is none or it is closed
  (\<open>fwd\<close>).
\<close>

definition add_chan :: "bool \<Rightarrow> u64 \<Rightarrow> client \<Rightarrow> client" where
  "add_chan fwd i c = (if fwd then c\<lparr>c_chans := c_chans c @ [i]\<rparr> else c)"

definition remove_chan :: "u64 option \<Rightarrow> client \<Rightarrow> client" where
  "remove_chan ch c = (case ch of None \<Rightarrow> c | Some i \<Rightarrow> c\<lparr>c_chans := removeAll i (c_chans c)\<rparr>)"

definition dialUDP ::
  "open_env \<Rightarrow> go_error option \<Rightarrow> u64 result \<Rightarrow> bool \<Rightarrow> go_error option \<Rightarrow> client \<Rightarrow> client \<times> go_error option" where
  "dialUDP e sendErr resp fwd readyErr c =
     (case request ''dial-udp'' e ''send dial udp message failed'' sendErr (case resp of Inl err \<Rightarrow> Some err | Inr i \<Rightarrow> None) c of
        (c1, Inl err) \<Rightarrow> (c1, Some err)
      | (c1, Inr st) \<Rightarrow>
          (case resp of
             Inl err \<Rightarrow> (c1, Some err)
           | Inr i \<Rightarrow>
               let c2 = add_chan fwd i c1; ch = (if fwd then Some i else None)
               in (case readyErr of
                     Some err \<Rightarrow> (remove_chan ch (stream_Close st c2), Some (ErrWrap ''send udp ready message failed'' err))
                   | None \<Rightarrow> (add_obj st ch c2, None))))"

definition AcceptUDP ::
  "u64 result \<Rightarrow> open_env \<Rightarrow> bool \<Rightarrow> go_error option \<Rightarrow> go_error option \<Rightarrow> client \<Rightarrow> client \<times> go_error option" where
  "AcceptUDP msg e fwd sendErr respErr c =
     (case msg of
        Inl err \<Rightarrow> (c, Some (ErrWrap ''recv accept udp message failed'' err))
      | Inr i \<Rightarrow>
          (case newStream ''accept-udp'' e c of
             (c1, Inl err) \<Rightarrow> (c1, Some err)
           | (c1, Inr st) \<Rightarrow>
               let c2 = add_chan fwd i c1
               in (case sendErr of
                     Some err \<Rightarrow> (stream_Close st c2, Some (ErrWrap ''send accept udp message failed'' err))
                   | None \<Rightarrow>
                       (case respErr of
                          Some err \<Rightarrow> (stream_Close st c2, Some err)
                        | None \<Rightarrow> (add_obj st (if fwd then Some i else None) c2, None)))))"

text \<open>\<open>Close\<close> of a connection, channel or listener.\<close>

definition obj_Close :: "nat \<Rightarrow> client \<Rightarrow> client" where
  "obj_Close k c =
     (if k < length (c_objs c) \<and> ob_open (c_objs c ! k) then
        let ob = c_objs c ! k
        in wg_add (-1) (remove_chan (ob_chan ob) (stream_Close (ob_stream ob)
             (c\<lparr>c_objs := (c_objs c)[k := ob\<lparr>ob_open := False\<rparr>]\<rparr>)))
      else c)"

section \<open>Sessions\<close>

definition NewSession :: "open_env \<Rightarrow> client \<Rightarrow> client \<times> nat result" where
  "NewSession e c =
     (case newStream ''session'' e c of
        (c1, Inl err) \<Rightarrow> (c1, Inl err)
      | (c1, Inr st) \<Rightarrow>
          let c2 = wg_add 1 c1; i = c_sessionID c2; x = length (c_sessions c2)
          in (c2\<lparr>c_sessionID := i + 1, c_sessionMap := (c_sessionMap c2)(i := Some x),
                c_sessions := c_sessions c2 @ [\<lparr>se_id = i, se_stream = st, se_errStream = None, se_stdout = False, se_wg = 1, se_fwds = 0, se_started = False, se_exited = False, se_code = 0\<rparr>]\<rparr>,
              Inr x))"

definition upd_session :: "nat \<Rightarrow> (client_session \<Rightarrow> client_session) \<Rightarrow> client \<Rightarrow> client" where
  "upd_session x f c = (if x < length (c_sessions c) then c\<lparr>c_sessions := (c_sessions c)[x := f (c_sessions c ! x)]\<rparr> else c)"

definition StdoutPipe :: "nat \<Rightarrow> client \<Rightarrow> client \<times> go_error option" where
  "StdoutPipe x c =
     (if x < length (c_sessions c) \<and> se_stdout (c_sessions c ! x) then (c, Some (ErrText ''stdout already set''))
      else (upd_session x (\<lambda>s. s\<lparr>se_stdout := True\<rparr>) c, None))"

text \<open>\<open>exitWG.Go\<close> with an output forwarder, and the end of that forwarder. A counter that becomes negative panics.\<close>

definition start_forwarder :: "nat \<Rightarrow> client \<Rightarrow> client" where
  "start_forwarder x = upd_session x (\<lambda>s. s\<lparr>se_wg := se_wg s + 1, se_fwds := Suc (se_fwds s)\<rparr>)"

definition session_done :: "nat \<Rightarrow> client \<Rightarrow> client" where
  "session_done x c =
     (upd_session x (\<lambda>s. s\<lparr>se_wg := se_wg s - 1\<rparr>) c)\<lparr>c_panic := (c_panic c \<or> (x < length (c_sessions c) \<and> se_wg (c_sessions c ! x) < 1))\<rparr>"

definition forwarder_end :: "nat \<Rightarrow> client \<Rightarrow> client" where
  "forwarder_end x c =
     (if x < length (c_sessions c) \<and> se_fwds (c_sessions c ! x) > 0
      then session_done x (upd_session x (\<lambda>s. s\<lparr>se_fwds := se_fwds s - 1\<rparr>) c) else c)"

definition startSession :: "nat \<Rightarrow> go_error option \<Rightarrow> go_error option \<Rightarrow> client \<Rightarrow> client \<times> go_error option" where
  "startSession x sendErr respErr c =
     (if x < length (c_sessions c) \<and> se_started (c_sessions c ! x) then (c, Some (ErrText ''session already started''))
      else
        let c1 = upd_session x (\<lambda>s. s\<lparr>se_started := True\<rparr>) c
        in (case sendErr of
              Some err \<Rightarrow> (c1, Some (ErrWrap ''send session message failed'' err))
            | None \<Rightarrow>
                (case respErr of
                   Some err \<Rightarrow> (c1, Some err)
                 | None \<Rightarrow> (if x < length (c_sessions c) \<and> se_stdout (c_sessions c ! x) then start_forwarder x c1 else c1, None))))"

definition Attach :: "nat \<Rightarrow> u64 \<Rightarrow> go_error option \<Rightarrow> go_error option \<Rightarrow> client \<Rightarrow> client \<times> go_error option" where
  "Attach x i sendErr respErr c =
     (let old = se_id (c_sessions c ! x);
          c1 = c\<lparr>c_sessionMap := ((c_sessionMap c)(i := Some x))(old := None)\<rparr>
      in startSession x sendErr respErr (upd_session x (\<lambda>s. s\<lparr>se_id := i\<rparr>) c1))"

definition StderrPipe :: "nat \<Rightarrow> open_env \<Rightarrow> go_error option \<Rightarrow> go_error option \<Rightarrow> client \<Rightarrow> client \<times> go_error option" where
  "StderrPipe x e sendErr respErr c =
     (if x < length (c_sessions c) \<and> se_errStream (c_sessions c ! x) \<noteq> None then (c, Some (ErrText ''stderr already set''))
      else (case request ''stderr'' e ''send stderr message failed'' sendErr respErr c of
          (c1, Inl err) \<Rightarrow> (c1, Some err)
        | (c1, Inr st) \<Rightarrow> (start_forwarder x (upd_session x (\<lambda>s. s\<lparr>se_errStream := Some st\<rparr>) c1), None)))"

definition handleExitEvent :: "u64 \<Rightarrow> int \<Rightarrow> client \<Rightarrow> client" where
  "handleExitEvent i code c =
     (case c_sessionMap c i of
        None \<Rightarrow> c
      | Some x \<Rightarrow>
          wg_add (-1) ((session_done x (upd_session x (\<lambda>s. s\<lparr>se_code := code, se_exited := True\<rparr>) c))\<lparr>c_sessionMap := (c_sessionMap c)(i := None)\<rparr>))"

text \<open>The stream of a session is closed by its \<open>Close\<close>, at the end of all its branches.\<close>

definition session_Close_stream :: "nat \<Rightarrow> client \<Rightarrow> client" where
  "session_Close_stream x c = (if x < length (c_sessions c) then stream_Close (se_stream (c_sessions c ! x)) c else c)"

section \<open>The machine\<close>

datatype client_act =
    CaSession open_env
  | CaDial open_env "go_error option" "go_error option"
  | CaListen open_env "go_error option" "go_error option"
  | CaListenUDP open_env "go_error option" "go_error option"
  | CaChannel open_env "go_error option" "go_error option"
  | CaAccept "go_error option" open_env "go_error option" "go_error option"
  | CaDialUDP open_env "go_error option" "u64 result" bool "go_error option"
  | CaAcceptUDP "u64 result" open_env bool "go_error option" "go_error option"
  | CaClose nat
  | CaStart nat "go_error option" "go_error option"
  | CaAttach nat u64 "go_error option" "go_error option"
  | CaStderr nat open_env "go_error option" "go_error option"
  | CaStdout nat
  | CaForwarderEnd nat
  | CaExit u64 int
  | CaSessionClose nat

definition client_exec :: "client_act \<Rightarrow> client \<Rightarrow> client option" where
  "client_exec a c =
     (if c_panic c then None
      else (case a of
          CaSession e \<Rightarrow> Some (fst (NewSession e c))
        | CaDial e s r \<Rightarrow> Some (fst (DialTimeout e s r c))
        | CaListen e s r \<Rightarrow> Some (fst (Listen e s r c))
        | CaListenUDP e s r \<Rightarrow> Some (fst (ListenUDP e s r c))
        | CaChannel e s r \<Rightarrow> Some (fst (newChannel_Accept e s r c))
        | CaAccept m e s r \<Rightarrow> Some (fst (listener_Accept m e s r c))
        | CaDialUDP e s r f rd \<Rightarrow> Some (fst (dialUDP e s r f rd c))
        | CaAcceptUDP m e f s r \<Rightarrow> Some (fst (AcceptUDP m e f s r c))
        | CaClose k \<Rightarrow> Some (obj_Close k c)
        | CaStart x s r \<Rightarrow> if x < length (c_sessions c) then Some (fst (startSession x s r c)) else None
        | CaAttach x i s r \<Rightarrow>
            if x < length (c_sessions c) then Some (fst (Attach x i s r c)) else None
        | CaStderr x e s r \<Rightarrow> if x < length (c_sessions c) then Some (fst (StderrPipe x e s r c)) else None
        | CaStdout x \<Rightarrow> Some (fst (StdoutPipe x c))
        | CaForwarderEnd x \<Rightarrow> Some (forwarder_end x c)
        | CaExit i code \<Rightarrow> Some (handleExitEvent i code c)
        | CaSessionClose x \<Rightarrow> Some (session_Close_stream x c)))"

definition new_client :: "u64 \<Rightarrow> client" where
  "new_client nextSessionID = \<lparr>c_streams = [], c_chans = [], c_objs = [], c_sessions = [], c_sessionMap = (\<lambda>_. None),
     c_sessionID = nextSessionID, c_exitWG = 0, c_panic = False\<rparr>"

text \<open>
  \<open>Attach\<close> does not test whether its session has exited. The runs in which no session is attached after its exit, and
  the machine that has only these.
\<close>

definition attach_live :: "client_act \<Rightarrow> client \<Rightarrow> bool" where
  "attach_live a c \<longleftrightarrow> (case a of CaAttach x i s r \<Rightarrow> x < length (c_sessions c) \<and> \<not> se_exited (c_sessions c ! x) | _ \<Rightarrow> True)"

fun attaches_live :: "client_act list \<Rightarrow> client \<Rightarrow> bool" where
  "attaches_live [] c \<longleftrightarrow> True"
| "attaches_live (a # acts) c \<longleftrightarrow>
     attach_live a c \<and> (case client_exec a c of None \<Rightarrow> True | Some c' \<Rightarrow> attaches_live acts c')"

definition live_exec :: "client_act \<Rightarrow> client \<Rightarrow> client option" where
  "live_exec a c = (if attach_live a c then client_exec a c else None)"

section \<open>Lemmas\<close>

lemma live_run:
  "run_acts client_exec acts c = Some c' \<Longrightarrow> attaches_live acts c \<Longrightarrow> run_acts live_exec acts c = Some c'"
  by (induction acts arbitrary: c) (auto simp: live_exec_def split: option.splits)

definition open_objs :: "client \<Rightarrow> nat" where
  "open_objs c = length (filter ob_open (c_objs c))"

definition live_sessions :: "client \<Rightarrow> nat" where
  "live_sessions c = length (filter (\<lambda>s. \<not> se_exited s) (c_sessions c))"

definition owned_stream :: "client \<Rightarrow> nat \<Rightarrow> bool" where
  "owned_stream c st \<longleftrightarrow> (\<exists>ob \<in> set (c_objs c). ob_open ob \<and> ob_stream ob = st)
     \<or> (\<exists>y < length (c_sessions c). se_stream (c_sessions c ! y) = st \<or> se_errStream (c_sessions c ! y) = Some st)"

text \<open>The counter counts, the map holds sessions that have not exited, and every open stream has an owner.\<close>

definition count_inv :: "client \<Rightarrow> bool" where
  "count_inv c \<longleftrightarrow> \<not> c_panic c \<and> c_exitWG c = int (open_objs c + live_sessions c)"

definition map_inv :: "client \<Rightarrow> bool" where
  "map_inv c \<longleftrightarrow> (\<forall>i x. c_sessionMap c i = Some x \<longrightarrow>
     x < length (c_sessions c) \<and> se_id (c_sessions c ! x) = i \<and> \<not> se_exited (c_sessions c ! x))"

definition wait_inv :: "client \<Rightarrow> bool" where
  "wait_inv c \<longleftrightarrow> (\<forall>y < length (c_sessions c).
     se_wg (c_sessions c ! y) = (if se_exited (c_sessions c ! y) then 0 else 1) + int (se_fwds (c_sessions c ! y)))"

definition stream_inv :: "client \<Rightarrow> bool" where
  "stream_inv c \<longleftrightarrow> (\<forall>st < length (c_streams c). c_streams c ! st \<longrightarrow> owned_stream c st)"

definition client_inv :: "client \<Rightarrow> bool" where
  "client_inv c \<longleftrightarrow> count_inv c \<and> map_inv c \<and> wait_inv c \<and> stream_inv c"



lemma newStream_cases:
  assumes "newStream cmd e c = (c1, r)"
  obtains (same) err where "c1 = c" "r = Inl err"
  | (failed) err where "c1 = c\<lparr>c_streams := c_streams c @ [False]\<rparr>" "r = Inl err"
  | (opened) "c1 = c\<lparr>c_streams := c_streams c @ [True]\<rparr>" "r = Inr (length (c_streams c))"
  using assms by (auto simp: newStream_def stream_Close_def Let_def split: option.splits)

lemma request_cases:
  assumes "request cmd e what s t c = (c1, r)"
  obtains (same) err where "c1 = c" "r = Inl err"
  | (failed) err where "c1 = c\<lparr>c_streams := c_streams c @ [False]\<rparr>" "r = Inl err"
  | (opened) "c1 = c\<lparr>c_streams := c_streams c @ [True]\<rparr>" "r = Inr (length (c_streams c))"
  using assms by (auto simp: request_def newStream_def stream_Close_def Let_def split: option.splits)

lemma closed_inv:
  assumes "client_inv c"
  shows "client_inv (c\<lparr>c_streams := c_streams c @ [False], c_chans := ch\<rparr>)"
    "client_inv (c\<lparr>c_chans := ch, c_streams := c_streams c @ [False]\<rparr>)"
proof -
  have "stream_inv (c\<lparr>c_streams := c_streams c @ [False], c_chans := ch\<rparr>)"
    using assms by (auto simp: client_inv_def stream_inv_def nth_append owned_stream_def less_Suc_eq)
  with assms show 1: "client_inv (c\<lparr>c_streams := c_streams c @ [False], c_chans := ch\<rparr>)"
    by (simp add: client_inv_def count_inv_def map_inv_def wait_inv_def open_objs_def live_sessions_def)
  have "c\<lparr>c_chans := ch, c_streams := c_streams c @ [False]\<rparr> = c\<lparr>c_streams := c_streams c @ [False], c_chans := ch\<rparr>" by simp
  then show "client_inv (c\<lparr>c_chans := ch, c_streams := c_streams c @ [False]\<rparr>)" using 1 by (rule ssubst)
qed

lemma closed_inv': "client_inv c \<Longrightarrow> client_inv (c\<lparr>c_streams := c_streams c @ [False]\<rparr>)"
  using closed_inv(1) [of c "c_chans c"] by simp

lemma add_obj_inv:
  assumes "client_inv c"
  shows "client_inv (add_obj (length (c_streams c)) ch (c\<lparr>c_streams := c_streams c @ [True], c_chans := chs\<rparr>))"
proof -
  let ?c = "add_obj (length (c_streams c)) ch (c\<lparr>c_streams := c_streams c @ [True], c_chans := chs\<rparr>)"
  have objs: "c_objs ?c = c_objs c @ [\<lparr>ob_stream = length (c_streams c), ob_chan = ch, ob_open = True\<rparr>]"
    "c_sessions ?c = c_sessions c" "c_sessionMap ?c = c_sessionMap c" "c_streams ?c = c_streams c @ [True]"
    "c_exitWG ?c = c_exitWG c + 1" "c_panic ?c = (c_panic c \<or> c_exitWG c + 1 < 0)"
    by (simp_all add: add_obj_def wg_add_def)
  have "stream_inv ?c" using assms
    unfolding client_inv_def stream_inv_def owned_stream_def objs by (auto simp: nth_append less_Suc_eq)
  moreover have "map_inv ?c" using assms by (simp add: client_inv_def map_inv_def objs)
  moreover have "wait_inv ?c" using assms by (simp add: client_inv_def wait_inv_def objs)
  moreover have "count_inv ?c" using assms by (auto simp: client_inv_def count_inv_def objs open_objs_def live_sessions_def)
  ultimately show ?thesis by (simp add: client_inv_def)
qed

lemma add_obj_inv': "client_inv c \<Longrightarrow> client_inv (add_obj (length (c_streams c)) ch (c\<lparr>c_streams := c_streams c @ [True]\<rparr>))"
  using add_obj_inv [of c ch "c_chans c"] by simp

lemma simple_request_inv:
  assumes "client_inv c"
  shows "client_inv (fst (simple_request cmd e what s r c))"
proof -
  obtain c1 res where q: "request cmd e what s r c = (c1, res)" by fastforce
  then show ?thesis
    by (cases rule: request_cases) (use assms closed_inv' add_obj_inv' q in \<open>simp_all add: simple_request_def\<close>)
qed

lemma dialUDP_inv:
  assumes "client_inv c"
  shows "client_inv (fst (dialUDP e s resp fwd ready c))"
proof -
  obtain c1 res where q: "request ''dial-udp'' e ''send dial udp message failed'' s (case resp of Inl err \<Rightarrow> Some err | Inr i \<Rightarrow> None) c = (c1, res)"
    by fastforce
  then show ?thesis
  proof (cases rule: request_cases)
    case opened
    then obtain i where i: "resp = Inr i" using q by (cases resp) (auto simp: request_def newStream_def Let_def split: option.splits)
    have cl: "client_inv (remove_chan ch (stream_Close (length (c_streams c)) (add_chan fwd i c1)))" for ch
      using closed_inv [OF assms] closed_inv' [OF assms] unfolding opened
      by (cases ch) (simp_all add: remove_chan_def stream_Close_def add_chan_def)
    have op: "client_inv (add_obj (length (c_streams c)) ch (add_chan fwd i c1))" for ch
      using add_obj_inv [OF assms] add_obj_inv' [OF assms] unfolding opened by (simp add: add_chan_def)
    from q i cl op opened(2) show ?thesis by (cases ready) (simp_all add: dialUDP_def Let_def)
  qed (use assms closed_inv' q in \<open>simp_all add: dialUDP_def\<close>)
qed

lemma AcceptUDP_inv:
  assumes "client_inv c"
  shows "client_inv (fst (AcceptUDP m e fwd s r c))"
proof (cases m)
  case (Inr i)
  obtain c1 res where q: "newStream ''accept-udp'' e c = (c1, res)" by fastforce
  then show ?thesis
  proof (cases rule: newStream_cases)
    case opened
    have cl: "client_inv (stream_Close (length (c_streams c)) (add_chan fwd i c1))"
      using closed_inv [OF assms] closed_inv' [OF assms] unfolding opened by (simp add: stream_Close_def add_chan_def)
    have op: "client_inv (add_obj (length (c_streams c)) ch (add_chan fwd i c1))" for ch
      using add_obj_inv [OF assms] add_obj_inv' [OF assms] unfolding opened by (simp add: add_chan_def)
    from q Inr cl op opened(2) show ?thesis by (cases s; cases r) (simp_all add: AcceptUDP_def Let_def)
  qed (use assms closed_inv' q Inr in \<open>simp_all add: AcceptUDP_def\<close>)
qed (use assms in \<open>simp add: AcceptUDP_def\<close>)

lemma filter_update:
  assumes "k < length xs" "P (xs ! k)" "\<not> P y"
  shows "length (filter P xs) = Suc (length (filter P (xs[k := y])))"
proof -
  have xs: "xs = take k xs @ xs ! k # drop (Suc k) xs" using assms(1) by (rule id_take_nth_drop)
  have u: "xs[k := y] = take k xs @ y # drop (Suc k) xs" using assms(1) by (rule upd_conv_take_nth_drop)
  show ?thesis using assms(2,3) by (subst xs, subst u) simp
qed

lemma filter_update_same:
  "P y = P (xs ! k) \<Longrightarrow> length (filter P (xs[k := y])) = length (filter P xs)"
proof (cases "k < length xs")
  case True
  assume p: "P y = P (xs ! k)"
  have xs: "xs = take k xs @ xs ! k # drop (Suc k) xs" using True by (rule id_take_nth_drop)
  have u: "xs[k := y] = take k xs @ y # drop (Suc k) xs" using True by (rule upd_conv_take_nth_drop)
  show ?thesis using p by (subst xs, subst u) simp
qed (simp add: list_update_beyond)

lemma obj_Close_inv:
  assumes inv: "client_inv c"
  shows "client_inv (obj_Close k c)"
proof (cases "k < length (c_objs c) \<and> ob_open (c_objs c ! k)")
  case True
  let ?ob = "c_objs c ! k" and ?c = "obj_Close k c"
  have c: "c_objs ?c = (c_objs c)[k := ?ob\<lparr>ob_open := False\<rparr>]" "c_sessions ?c = c_sessions c" "c_sessionMap ?c = c_sessionMap c"
    "c_streams ?c = (c_streams c)[ob_stream ?ob := False]" "c_exitWG ?c = c_exitWG c - 1" "c_panic ?c = (c_panic c \<or> c_exitWG c - 1 < 0)"
    using True by (simp_all add: obj_Close_def Let_def wg_add_def remove_chan_def stream_Close_def split: option.splits)
  have "open_objs c = Suc (open_objs ?c)" using filter_update [of k "c_objs c" ob_open] True by (simp add: open_objs_def c)
  then have "count_inv ?c" using inv by (auto simp: client_inv_def count_inv_def c live_sessions_def)
  moreover have "map_inv ?c" using inv by (simp add: client_inv_def map_inv_def c)
  moreover have "wait_inv ?c" using inv by (simp add: client_inv_def wait_inv_def c)
  moreover have "stream_inv ?c"
    unfolding stream_inv_def
  proof (intro allI impI)
    fix st assume "st < length (c_streams ?c)" "c_streams ?c ! st"
    then have st: "st < length (c_streams c)" "c_streams c ! st" "st \<noteq> ob_stream ?ob"
      using c(4) by (cases "st = ob_stream ?ob"; simp)+
    with inv have "owned_stream c st" by (simp add: client_inv_def stream_inv_def)
    moreover have "ob \<in> set (c_objs ?c)" if o: "ob \<in> set (c_objs c)" "ob_stream ob = st" for ob
    proof -
      obtain j where j: "j < length (c_objs c)" "ob = c_objs c ! j" using o(1) by (auto simp: in_set_conv_nth)
      with o(2) st(3) have "c_objs ?c ! j = ob" by (cases "j = k") (simp_all add: c)
      moreover have "j < length (c_objs ?c)" using j(1) by (simp add: c)
      ultimately show ?thesis using nth_mem by blast
    qed
    ultimately show "owned_stream ?c st" unfolding owned_stream_def c(2) by blast
  qed
  ultimately show ?thesis by (simp add: client_inv_def)
qed (use inv in \<open>auto simp: obj_Close_def\<close>)

lemma NewSession_inv:
  assumes inv: "client_inv c"
  shows "client_inv (fst (NewSession e c))"
proof -
  obtain c1 res where q: "newStream ''session'' e c = (c1, res)" by fastforce
  then show ?thesis
  proof (cases rule: newStream_cases)
    case opened
    let ?c = "fst (NewSession e c)"
    let ?s = "\<lparr>se_id = c_sessionID c, se_stream = length (c_streams c), se_errStream = None, se_stdout = False, se_wg = 1, se_fwds = 0, se_started = False, se_exited = False, se_code = 0\<rparr>"
    have c: "c_objs ?c = c_objs c" "c_sessions ?c = c_sessions c @ [?s]" "c_streams ?c = c_streams c @ [True]"
      "c_sessionMap ?c = (c_sessionMap c)(c_sessionID c := Some (length (c_sessions c)))"
      "c_exitWG ?c = c_exitWG c + 1" "c_panic ?c = (c_panic c \<or> c_exitWG c + 1 < 0)"
      using q opened by (simp_all add: NewSession_def Let_def wg_add_def)
    have "count_inv ?c" using inv by (auto simp: client_inv_def count_inv_def c open_objs_def live_sessions_def)
    moreover have "map_inv ?c" using inv by (auto simp: client_inv_def map_inv_def c nth_append less_SucI split: if_splits)
    moreover have "wait_inv ?c" using inv by (auto simp: client_inv_def wait_inv_def c nth_append less_Suc_eq)
    moreover have "stream_inv ?c" using inv
      unfolding client_inv_def stream_inv_def owned_stream_def c by (auto simp: nth_append less_Suc_eq)
    ultimately show ?thesis by (simp add: client_inv_def)
  qed (use inv closed_inv' q in \<open>simp_all add: NewSession_def\<close>)
qed

text \<open>An update of a session that keeps its number, its streams and whether it has exited.\<close>

lemma upd_session_inv:
  assumes inv: "client_inv c"
    and f: "se_id (f (c_sessions c ! x)) = se_id (c_sessions c ! x)" "se_exited (f (c_sessions c ! x)) = se_exited (c_sessions c ! x)"
      "se_stream (f (c_sessions c ! x)) = se_stream (c_sessions c ! x)" "se_errStream (f (c_sessions c ! x)) = se_errStream (c_sessions c ! x)"
      "se_wg (f (c_sessions c ! x)) - int (se_fwds (f (c_sessions c ! x))) = se_wg (c_sessions c ! x) - int (se_fwds (c_sessions c ! x))"
  shows "client_inv (upd_session x f c)"
proof (cases "x < length (c_sessions c)")
  case True
  let ?ss = "(c_sessions c)[x := f (c_sessions c ! x)]"
  have nth: "se_id (?ss ! y) = se_id (c_sessions c ! y)" "se_exited (?ss ! y) = se_exited (c_sessions c ! y)"
      "se_stream (?ss ! y) = se_stream (c_sessions c ! y)" "se_errStream (?ss ! y) = se_errStream (c_sessions c ! y)"
      "se_wg (?ss ! y) - int (se_fwds (?ss ! y)) = se_wg (c_sessions c ! y) - int (se_fwds (c_sessions c ! y))" for y
    using f by (cases "y = x"; cases "x < length (c_sessions c)"; simp add: list_update_beyond)+
  have "live_sessions (c\<lparr>c_sessions := ?ss\<rparr>) = live_sessions c"
    unfolding live_sessions_def by (simp add: filter_update_same f(2))
  then have "count_inv (c\<lparr>c_sessions := ?ss\<rparr>)" using inv by (simp add: client_inv_def count_inv_def open_objs_def)
  moreover have "map_inv (c\<lparr>c_sessions := ?ss\<rparr>)" using inv by (simp add: client_inv_def map_inv_def nth)
  moreover have "wait_inv (c\<lparr>c_sessions := ?ss\<rparr>)"
    unfolding wait_inv_def
  proof (intro allI impI)
    fix y assume "y < length (c_sessions (c\<lparr>c_sessions := ?ss\<rparr>))"
    with inv nth(2,5) [of y] show "se_wg (c_sessions (c\<lparr>c_sessions := ?ss\<rparr>) ! y) =
        (if se_exited (c_sessions (c\<lparr>c_sessions := ?ss\<rparr>) ! y) then 0 else 1) + int (se_fwds (c_sessions (c\<lparr>c_sessions := ?ss\<rparr>) ! y))"
      by (simp add: client_inv_def wait_inv_def)
  qed
  moreover have "owned_stream (c\<lparr>c_sessions := ?ss\<rparr>) st" if "owned_stream c st" for st
    using that by (simp add: owned_stream_def nth)
  then have "stream_inv (c\<lparr>c_sessions := ?ss\<rparr>)" using inv by (simp add: client_inv_def stream_inv_def)
  ultimately show ?thesis using True by (simp add: client_inv_def upd_session_def)
qed (use inv in \<open>simp add: upd_session_def\<close>)

lemma StdoutPipe_inv: "client_inv c \<Longrightarrow> client_inv (fst (StdoutPipe x c))"
  using upd_session_inv [of c "\<lambda>s. s\<lparr>se_stdout := True\<rparr>" x] by (simp add: StdoutPipe_def)

lemma start_forwarder_inv: "client_inv c \<Longrightarrow> client_inv (start_forwarder x c)"
  unfolding start_forwarder_def by (rule upd_session_inv) simp_all

lemma forwarder_end_inv:
  assumes inv: "client_inv c"
  shows "client_inv (forwarder_end x c)"
proof (cases "x < length (c_sessions c) \<and> se_fwds (c_sessions c ! x) > 0")
  case True
  with inv have "1 \<le> se_wg (c_sessions c ! x)" by (auto simp: client_inv_def wait_inv_def)
  with True inv have "forwarder_end x c = upd_session x (\<lambda>s. s\<lparr>se_fwds := se_fwds s - 1, se_wg := se_wg s - 1\<rparr>) c"
    by (simp add: forwarder_end_def session_done_def upd_session_def client_inv_def count_inv_def)
  also have "client_inv \<dots>" using inv True by (intro upd_session_inv) (simp_all add: of_nat_diff)
  finally show ?thesis .
qed (use inv in \<open>auto simp: forwarder_end_def\<close>)

lemma startSession_inv:
  assumes "client_inv c"
  shows "client_inv (fst (startSession x s r c))"
proof -
  have "client_inv (upd_session x (\<lambda>s. s\<lparr>se_started := True\<rparr>) c)" using assms by (intro upd_session_inv) simp_all
  with assms start_forwarder_inv [OF this] show ?thesis by (simp add: startSession_def Let_def split: option.splits)
qed

lemma StderrPipe_inv:
  assumes inv: "client_inv c" and x: "x < length (c_sessions c)"
  shows "client_inv (fst (StderrPipe x e s r c))"
proof (cases "se_errStream (c_sessions c ! x)")
  case None
  obtain c1 res where q: "request ''stderr'' e ''send stderr message failed'' s r c = (c1, res)" by fastforce
  then show ?thesis
  proof (cases rule: request_cases)
    case opened
    let ?ss = "(c_sessions c)[x := (c_sessions c ! x)\<lparr>se_errStream := Some (length (c_streams c))\<rparr>]"
    let ?c = "c\<lparr>c_streams := c_streams c @ [True], c_sessions := ?ss\<rparr>"
    have c: "fst (StderrPipe x e s r c) = start_forwarder x ?c" using q opened None x by (simp add: StderrPipe_def upd_session_def)
    have nth: "se_id (?ss ! y) = se_id (c_sessions c ! y)" "se_exited (?ss ! y) = se_exited (c_sessions c ! y)"
      "se_stream (?ss ! y) = se_stream (c_sessions c ! y)" "y \<noteq> x \<Longrightarrow> se_errStream (?ss ! y) = se_errStream (c_sessions c ! y)"
      "se_wg (?ss ! y) = se_wg (c_sessions c ! y)" "se_fwds (?ss ! y) = se_fwds (c_sessions c ! y)" for y
      using x by (cases "y = x"; simp)+
    have "live_sessions ?c = live_sessions c" unfolding live_sessions_def by (simp add: filter_update_same)
    then have "count_inv ?c" using inv by (simp add: client_inv_def count_inv_def open_objs_def)
    moreover have "map_inv ?c" using inv by (simp add: client_inv_def map_inv_def nth)
    moreover have "wait_inv ?c" using inv by (simp add: client_inv_def wait_inv_def nth)
    moreover have old: "owned_stream ?c st" if "owned_stream c st" for st
    proof -
      have "se_errStream (?ss ! y) = Some st" if "se_errStream (c_sessions c ! y) = Some st" for y
        using that None nth(4) [of y] by (cases "y = x") auto
      with \<open>owned_stream c st\<close> nth(3) show ?thesis unfolding owned_stream_def by auto
    qed
    have new: "owned_stream ?c (length (c_streams c))" unfolding owned_stream_def using x by auto
    have "stream_inv ?c"
      unfolding stream_inv_def
    proof (intro allI impI)
      fix st assume "st < length (c_streams ?c)" "c_streams ?c ! st"
      with inv old new show "owned_stream ?c st"
        by (cases "st < length (c_streams c)") (auto simp: client_inv_def stream_inv_def nth_append less_Suc_eq)
    qed
    ultimately show ?thesis unfolding c by (intro start_forwarder_inv) (simp add: client_inv_def)
  qed (use inv closed_inv' q None in \<open>simp_all add: StderrPipe_def\<close>)
qed (use inv x in \<open>simp add: StderrPipe_def\<close>)

lemma Attach_inv:
  assumes inv: "client_inv c" and x: "x < length (c_sessions c)" "\<not> se_exited (c_sessions c ! x)"
  shows "client_inv (fst (Attach x i s r c))"
proof -
  let ?old = "se_id (c_sessions c ! x)" and ?ss = "(c_sessions c)[x := (c_sessions c ! x)\<lparr>se_id := i\<rparr>]"
  let ?c = "c\<lparr>c_sessionMap := ((c_sessionMap c)(i := Some x))(?old := None), c_sessions := ?ss\<rparr>"
  have nth: "se_exited (?ss ! y) = se_exited (c_sessions c ! y)"
      "se_stream (?ss ! y) = se_stream (c_sessions c ! y)" "se_errStream (?ss ! y) = se_errStream (c_sessions c ! y)"
      "se_id (?ss ! y) = (if y = x then i else se_id (c_sessions c ! y))"
      "se_wg (?ss ! y) = se_wg (c_sessions c ! y)" "se_fwds (?ss ! y) = se_fwds (c_sessions c ! y)" for y
    using x(1) by (cases "y = x"; simp)+
  have "live_sessions ?c = live_sessions c" unfolding live_sessions_def by (simp add: filter_update_same)
  then have "count_inv ?c" using inv by (simp add: client_inv_def count_inv_def open_objs_def)
  moreover have "map_inv ?c" using inv x by (auto simp: client_inv_def map_inv_def nth split: if_splits)
  moreover have "wait_inv ?c" using inv by (simp add: client_inv_def wait_inv_def nth)
  moreover have "owned_stream ?c st" if "owned_stream c st" for st
    using that by (simp add: owned_stream_def nth)
  then have "stream_inv ?c" using inv by (simp add: client_inv_def stream_inv_def)
  ultimately have "client_inv ?c" by (simp add: client_inv_def)
  from startSession_inv [OF this] x show ?thesis by (simp add: Attach_def upd_session_def Let_def)
qed

lemma exit_inv:
  assumes inv: "client_inv c"
  shows "client_inv (handleExitEvent i code c)"
proof (cases "c_sessionMap c i")
  case (Some x)
  with inv have x: "x < length (c_sessions c)" "se_id (c_sessions c ! x) = i" "\<not> se_exited (c_sessions c ! x)"
    by (auto simp: client_inv_def map_inv_def)
  then have wg: "se_wg (c_sessions c ! x) = 1 + int (se_fwds (c_sessions c ! x))" using inv by (auto simp: client_inv_def wait_inv_def)
  let ?s = "(c_sessions c ! x)\<lparr>se_code := code, se_exited := True, se_wg := se_wg (c_sessions c ! x) - 1\<rparr>"
  let ?ss = "(c_sessions c)[x := ?s]" and ?c = "handleExitEvent i code c"
  have c: "c_objs ?c = c_objs c" "c_sessions ?c = ?ss" "c_streams ?c = c_streams c" "c_sessionMap ?c = (c_sessionMap c)(i := None)"
    "c_exitWG ?c = c_exitWG c - 1" "c_panic ?c = (c_panic c \<or> c_exitWG c - 1 < 0)"
    using Some x(1) wg by (simp_all add: handleExitEvent_def wg_add_def session_done_def upd_session_def)
  have nth: "se_exited (?ss ! y) = (y = x \<or> se_exited (c_sessions c ! y))" "se_id (?ss ! y) = se_id (c_sessions c ! y)"
      "se_stream (?ss ! y) = se_stream (c_sessions c ! y)" "se_errStream (?ss ! y) = se_errStream (c_sessions c ! y)" for y
    using x(1) by (cases "y = x"; simp)+
  have "live_sessions c = Suc (live_sessions ?c)" unfolding live_sessions_def c
    using filter_update [of x "c_sessions c" "\<lambda>s. \<not> se_exited s"] x by simp
  then have "count_inv ?c" using inv by (auto simp: client_inv_def count_inv_def open_objs_def c)
  moreover have "map_inv ?c" using inv x(2) by (auto simp: client_inv_def map_inv_def c nth)
  moreover have "wait_inv ?c" using inv wg x(1) unfolding client_inv_def wait_inv_def c by (auto simp: nth_list_update)
  moreover have "owned_stream ?c st" if "owned_stream c st" for st
    using that by (simp add: owned_stream_def nth c)
  then have "stream_inv ?c" using inv by (simp add: client_inv_def stream_inv_def c)
  ultimately show ?thesis by (simp add: client_inv_def)
qed (use inv in \<open>simp add: handleExitEvent_def\<close>)

lemma session_Close_stream_inv:
  assumes "client_inv c"
  shows "client_inv (session_Close_stream x c)"
proof -
  have "stream_inv (stream_Close st c)" for st
  proof -
    have "(c_streams c)[st := False] ! y \<Longrightarrow> c_streams c ! y" if "y < length (c_streams c)" for y using that by (cases "y = st") simp_all
    with assms show ?thesis by (simp add: client_inv_def stream_inv_def stream_Close_def owned_stream_def)
  qed
  with assms show ?thesis
    by (simp add: session_Close_stream_def client_inv_def stream_Close_def count_inv_def map_inv_def wait_inv_def open_objs_def live_sessions_def)
qed

lemma client_exec_inv:
  assumes inv: "client_inv c" and e: "live_exec a c = Some c'"
  shows "client_inv c'"
  using e NewSession_inv [OF inv] simple_request_inv [OF inv] dialUDP_inv [OF inv] AcceptUDP_inv [OF inv] obj_Close_inv [OF inv]
    startSession_inv [OF inv] Attach_inv [OF inv] StderrPipe_inv [OF inv] exit_inv [OF inv] session_Close_stream_inv [OF inv]
    StdoutPipe_inv [OF inv] forwarder_end_inv [OF inv] inv
  by (cases a) (auto simp: live_exec_def attach_live_def client_exec_def DialTimeout_def Listen_def ListenUDP_def newChannel_Accept_def listener_Accept_def
      split: if_splits option.splits)

interpretation client_requests: machine live_exec client_inv
  by unfold_locales (rule client_exec_inv)









lemma live_client_inv:
  assumes "run_acts client_exec acts (new_client first) = Some c" "attaches_live acts (new_client first)"
  shows "client_inv c"
proof -
  have "client_inv (new_client first)"
    by (simp add: client_inv_def count_inv_def map_inv_def wait_inv_def stream_inv_def new_client_def open_objs_def live_sessions_def)
  from client_requests.run_inv [OF this live_run [OF assms]] show ?thesis .
qed

section \<open>Properties\<close>


definition open_ok :: open_env where
  "open_ok = \<lparr>oe_open = None, oe_send = None, oe_reply = None\<rparr>"



text \<open>
  A session that is attached after its exit is counted twice. In every state the client can have reached, let a session
  that has exited be attached to another number, which succeeds in the session map even where the
  start is then refused, and let an exit for that number arrive. The counters of the client and of the session are then one too low:
  the client panics at once if nothing else is open or the session has no forwarder running, and otherwise \<open>Wait\<close> returns while
  something is still open.
\<close>

lemma attach_after_exit_miscounts:
  assumes "run_acts client_exec acts (new_client first) = Some c" "attaches_live acts (new_client first)"
    and "x < length (c_sessions c)" "se_exited (c_sessions c ! x)" "se_started (c_sessions c ! x)" "i \<noteq> se_id (c_sessions c ! x)"
    and "c' = handleExitEvent i code (fst (Attach x i s r c))"
  shows "c_exitWG c' = int (open_objs c' + live_sessions c') - 1
    \<and> se_wg (c_sessions c' ! x) = int (se_fwds (c_sessions c' ! x)) - 1
    \<and> (open_objs c' + live_sessions c' = 0 \<or> se_fwds (c_sessions c' ! x) = 0 \<longrightarrow> c_panic c')"
proof -
  have inv: "client_inv c" using live_client_inv [OF assms(1,2)] .
  let ?s = "(c_sessions c ! x)\<lparr>se_id := i, se_code := code, se_exited := True, se_wg := se_wg (c_sessions c ! x) - 1\<rparr>"
  have c': "c_sessions c' = (c_sessions c)[x := ?s]" "c_objs c' = c_objs c" "c_exitWG c' = c_exitWG c - 1"
    "c_panic c' = (c_panic c \<or> se_wg (c_sessions c ! x) < 1 \<or> c_exitWG c < 1)"
    using assms(3,5,6) unfolding assms(7)
    by (auto simp: Attach_def startSession_def handleExitEvent_def wg_add_def session_done_def upd_session_def Let_def)
  have wg: "se_wg (c_sessions c ! x) = int (se_fwds (c_sessions c ! x))" "c_exitWG c = int (open_objs c + live_sessions c)"
    using inv assms(3,4) by (auto simp: client_inv_def wait_inv_def count_inv_def)
  have "live_sessions c' = live_sessions c" "open_objs c' = open_objs c"
    using assms(4) by (simp_all add: live_sessions_def open_objs_def c' filter_update_same)
  with c' wg assms(3) show ?thesis by auto
qed

definition twice_acts :: "client_act list" where
  "twice_acts = [CaSession open_ok, CaStdout 0, CaStart 0 None None, CaExit 20 0, CaForwarderEnd 0]"

lemma attach_after_exit_miscounts_witness:
  "\<exists>c. run_acts client_exec twice_acts (new_client 20) = Some c \<and> c_panic (handleExitEvent 9 0 (fst (Attach 0 9 None None c)))"
proof -
  have "case run_acts client_exec twice_acts (new_client 20) of None \<Rightarrow> False
      | Some c \<Rightarrow> 0 < length (c_sessions c) \<and> se_exited (c_sessions c ! 0) \<and> se_started (c_sessions c ! 0) \<and> se_id (c_sessions c ! 0) = 20
          \<and> se_fwds (c_sessions (handleExitEvent 9 0 (fst (Attach 0 9 None None c))) ! 0) = 0"
    "attaches_live twice_acts (new_client 20)" by code_simp+
  then obtain c where c: "run_acts client_exec twice_acts (new_client 20) = Some c" "attaches_live twice_acts (new_client 20)"
      "0 < length (c_sessions c)" "se_exited (c_sessions c ! 0)" "se_started (c_sessions c ! 0)" "(9 :: u64) \<noteq> se_id (c_sessions c ! 0)"
      "se_fwds (c_sessions (handleExitEvent 9 0 (fst (Attach 0 9 None None c))) ! 0) = 0"
    by (auto split: option.splits)
  from attach_after_exit_miscounts [OF c(1-6) refl, of 0 None None] c show ?thesis by auto
qed

end
