(* ===== verification/Bus.thy ===== *)
theory Bus
  imports Sessions ClientRequests
begin

text \<open>
  The bus (\<open>bus.go\<close>, \<open>client.go\<close>): the stream on which a client and its server exchange commands with
  their messages for as long as they are connected. Both sides run a loop that receives a command, then its
  message, and calls a handler. The server's handlers change the sessions (\<open>Sessions\<close>), the client's handlers
  change its sessions (\<open>ClientRequests\<close>), its channels and its callbacks. JSON is a parameter of both loops, and
  so is what other goroutines do between two commands.
\<close>

section \<open>The server\<close>

record resizeMessage =
  rm_ID :: u64
  rm_Cols :: int
  rm_Rows :: int
  rm_Redraw :: bool
  rm_Marker :: "bytes option"

record settingsMessage =
  sm_KeepPendingInput :: "bool option"
  sm_KeepPendingOutput :: "bool option"

text \<open>How the server decodes the messages of its commands.\<close>

record server_json =
  sj_exit :: "bytes \<Rightarrow> u64 result"
  sj_resize :: "bytes \<Rightarrow> resizeMessage result"
  sj_alive :: "bytes \<Rightarrow> int result"
  sj_setting :: "bytes \<Rightarrow> settingsMessage result"
  sj_rekey :: "bytes \<Rightarrow> bytes result"
  sj_unknown :: "bytes \<Rightarrow> unit result"

datatype server_cmd =
    ScExit u64
  | ScResize resizeMessage
  | ScClose
  | ScAlive int
  | ScSetting settingsMessage
  | ScRekey bytes
  | ScDetach
  | ScFailed string go_error

text \<open>Receiving the message of a command: \<open>con\<close> is what it then is, \<open>what\<close> the text of the error.\<close>

definition recv_as :: "(string \<Rightarrow> go_error \<Rightarrow> 'c) \<Rightarrow> (bytes \<Rightarrow> 'm result) \<Rightarrow> ('m \<Rightarrow> 'c) \<Rightarrow> string \<Rightarrow> string \<Rightarrow> reader \<Rightarrow> 'c \<times> reader" where
  "recv_as failed unmarshal con what command r =
     (case recvMessage unmarshal r of
        (Inl e, r') \<Rightarrow> (failed command (ErrFlat what e), r')
      | (Inr m, r') \<Rightarrow> (con m, r'))"

definition handleUnknownEvent :: "(string \<Rightarrow> go_error \<Rightarrow> 'c) \<Rightarrow> (bytes \<Rightarrow> unit result) \<Rightarrow> string \<Rightarrow> reader \<Rightarrow> 'c \<times> reader" where
  "handleUnknownEvent failed unmarshal command r =
     recv_as failed unmarshal (\<lambda>_. failed command (ErrText (''unknown command: '' @ command)))
       (''recv message for unknown command ['' @ command @ ''] failed'') command r"

definition server_recv :: "server_json \<Rightarrow> string \<Rightarrow> reader \<Rightarrow> server_cmd \<times> reader" where
  "server_recv J command r =
     (if command = ''exit'' then recv_as ScFailed (sj_exit J) ScExit ''recv exit message failed'' command r
      else if command = ''resize'' then recv_as ScFailed (sj_resize J) ScResize ''recv resize message failed'' command r
      else if command = ''close'' then (ScClose, r)
      else if command = ''alive'' then recv_as ScFailed (sj_alive J) ScAlive ''recv alive message failed'' command r
      else if command = ''setting'' then recv_as ScFailed (sj_setting J) ScSetting ''recv settings message failed'' command r
      else if command = ''rekey'' then recv_as ScFailed (sj_rekey J) ScRekey ''recv rekey message failed'' command r
      else if command = ''detach'' then (ScDetach, r)
      else handleUnknownEvent ScFailed (sj_unknown J) command r)"

text \<open>
  The state of a server's bus: the sessions, what the server keeps for its client, the times it acknowledged, the
  rekey requests it took over and the commands it warned about.
\<close>

record bus_server =
  bs_sys :: sess_sys
  bs_keepPendingOutput :: bool
  bs_clientAliveTime :: int
  bs_acks :: "int list"
  bs_rekeys :: "bytes list"
  bs_warnings :: "string list"

text \<open>What a handler meets: the clock, sending the reply, resizing the terminal, and the rekeying.\<close>

record bus_env =
  be_now :: int
  be_send :: "go_error option"
  be_resize :: "go_error option"
  be_rekey :: "go_error option"

definition bs_warning :: "string \<Rightarrow> bus_server \<Rightarrow> bus_server" where
  "bs_warning command s = s\<lparr>bs_warnings := bs_warnings s @ [command]\<rparr>"

definition handleAliveEvent :: "bus_env \<Rightarrow> int \<Rightarrow> bus_server \<Rightarrow> bus_server \<times> go_error option" where
  "handleAliveEvent e time s =
     (let s1 = s\<lparr>bs_clientAliveTime := be_now e\<rparr>
      in (case be_send e of
            Some err \<Rightarrow> (s1, Some err)
          | None \<Rightarrow> (s1\<lparr>bs_acks := bs_acks s1 @ [time]\<rparr>, None)))"

definition bus_setting :: "nat \<Rightarrow> settingsMessage \<Rightarrow> bus_server \<Rightarrow> bus_server" where
  "bus_setting v msg s =
     (let s1 = s\<lparr>bs_sys := handleSettingEvent v (sm_KeepPendingInput msg) (bs_sys s)\<rparr>
      in (case sm_KeepPendingOutput msg of None \<Rightarrow> s1 | Some b \<Rightarrow> s1\<lparr>bs_keepPendingOutput := b\<rparr>))"

definition server_handle :: "nat \<Rightarrow> bus_env \<Rightarrow> server_cmd \<Rightarrow> bus_server \<Rightarrow> bus_server" where
  "server_handle v e cmd s =
     (case cmd of
        ScExit i \<Rightarrow> s\<lparr>bs_sys := closeSession i (bs_sys s)\<rparr>
      | ScResize m \<Rightarrow>
          (case Sessions.handleResizeEvent (be_resize e) v (rm_ID m) (rm_Cols m) (rm_Rows m) (rm_Redraw m) (rm_Marker m) (bs_sys s) of
             (sys, None) \<Rightarrow> s\<lparr>bs_sys := sys\<rparr>
           | (sys, Some err) \<Rightarrow> bs_warning ''resize'' (s\<lparr>bs_sys := sys\<rparr>))
      | ScClose \<Rightarrow> s\<lparr>bs_sys := handleCloseEvent (bs_sys s)\<rparr>
      | ScAlive time \<Rightarrow> (case handleAliveEvent e time s of (s1, None) \<Rightarrow> s1 | (s1, Some err) \<Rightarrow> bs_warning ''alive'' s1)
      | ScSetting m \<Rightarrow> bus_setting v m s
      | ScRekey pubKey \<Rightarrow>
          (case be_rekey e of None \<Rightarrow> s\<lparr>bs_rekeys := bs_rekeys s @ [pubKey]\<rparr> | Some err \<Rightarrow> bs_warning ''rekey'' s)
      | ScDetach \<Rightarrow> s\<lparr>bs_sys := handleDetachEvent v (bs_sys s)\<rparr>
      | ScFailed command err \<Rightarrow> bs_warning command s)"

text \<open>
  A read leaves no more to read than there was: \<open>rd_left\<close> counts the bytes and the chunks they come in.
\<close>

definition rd_left :: "reader \<Rightarrow> nat" where
  "rd_left r = length (rd_chunks r) + length (concat (rd_chunks r))"

lemma read_full_chunks_left:
  "read_full_chunks n acc e cs = (res, cs') \<Longrightarrow> length cs' + length (concat cs') \<le> length cs + length (concat cs)"
  by (induction n acc e cs rule: read_full_chunks.induct) (auto simp: Let_def split: if_splits)

lemma read_full_left: "read_full n r = (res, r') \<Longrightarrow> rd_left r' \<le> rd_left r"
  by (auto simp: read_full_def rd_left_def split: prod.splits dest: read_full_chunks_left)

lemma recvMessage_left: "recvMessage unmarshal r = (res, r') \<Longrightarrow> rd_left r' \<le> rd_left r"
  by (auto simp: recvMessage_def split: prod.splits sum.splits dest!: read_full_left)

lemma recvCommand_left: "recvCommand r = (Inr c, r') \<Longrightarrow> rd_left r' < rd_left r"
proof -
  assume r': "recvCommand r = (Inr c, r')"
  then obtain bs r1 n res where r1: "rd_read 1 r = ((bs, None), r1)" "read_full n r1 = (res, r')"
    by (auto simp: recvCommand_def split: prod.splits sum.splits option.splits)
  from rd_read_decr [of 0 r bs r1] r1(1) have "rd_left r1 < rd_left r" by (simp add: rd_left_def)
  with read_full_left [OF r1(2)] show ?thesis by simp
qed

lemma recv_as_left: "recv_as failed unmarshal con what c r = (m, r') \<Longrightarrow> rd_left r' \<le> rd_left r"
  by (auto simp: recv_as_def split: prod.splits sum.splits dest!: recvMessage_left)

lemma server_recv_left: "server_recv J c r = (m, r') \<Longrightarrow> rd_left r' \<le> rd_left r"
  by (auto simp: server_recv_def handleUnknownEvent_def split: if_splits dest: recv_as_left)

lemma server_next_left: "(Inr c, r1) = recvCommand r \<Longrightarrow> (m, r2) = server_recv J c r1 \<Longrightarrow> rd_left r2 < rd_left r"
  using recvCommand_left [of r c r1] server_recv_left [of J c r1 m r2] by simp

text \<open>
  The loop of the server \<open>v\<close>. \<open>others k\<close> is what the other goroutines do before the command number \<open>k\<close> is
  handled, \<open>env k\<close> what its handler meets. The \<open>close\<close> command ends the process.
\<close>

function server_handleBusEvent ::
  "server_json \<Rightarrow> nat \<Rightarrow> (nat \<Rightarrow> bus_env) \<Rightarrow> (nat \<Rightarrow> bus_server \<Rightarrow> bus_server) \<Rightarrow> nat \<Rightarrow> reader \<Rightarrow> bus_server \<Rightarrow> bus_server" where
  "server_handleBusEvent J v env others k r s =
     (case recvCommand r of
        (Inl e, r1) \<Rightarrow> let s1 = others k s in if IsClosedError (Some e) then s1 else bs_warning [] s1
      | (Inr command, r1) \<Rightarrow>
          let s1 = others k s
          in if g_active (bs_sys s1) \<noteq> Some v then s1
             else (case server_recv J command r1 of
                 (cmd, r2) \<Rightarrow>
                   if cmd = ScClose then server_handle v (env k) ScClose s1
                   else server_handleBusEvent J v env others (Suc k) r2 (server_handle v (env k) cmd s1)))"
  by pat_completeness auto
termination
  by (relation "measure (\<lambda>(J, v, env, others, k, r, s). rd_left r)")
    (auto dest: server_next_left)

declare server_handleBusEvent.simps [simp del]

section \<open>The client\<close>

record discardMessage =
  dm_Marker :: bytes
  dm_Input :: bytes
  dm_Lines :: u64
  dm_Bytes :: u64

record client_json =
  cj_quit :: "bytes \<Rightarrow> string result"
  cj_exit :: "bytes \<Rightarrow> (u64 \<times> int) result"
  cj_debug :: "bytes \<Rightarrow> (string \<times> int) result"
  cj_error :: "bytes \<Rightarrow> string result"
  cj_channel :: "bytes \<Rightarrow> (string \<times> u64) result"
  cj_alive :: "bytes \<Rightarrow> int result"
  cj_discard :: "bytes \<Rightarrow> discardMessage result"
  cj_rekey :: "bytes \<Rightarrow> bytes result"
  cj_detachAck :: "bytes \<Rightarrow> unit result"
  cj_unknown :: "bytes \<Rightarrow> unit result"

datatype client_cmd =
    CcQuit string
  | CcExit "u64 \<times> int"
  | CcDebug "string \<times> int"
  | CcError string
  | CcChannel "string \<times> u64"
  | CcAlive int
  | CcDiscard discardMessage
  | CcRekey bytes
  | CcDetachAck
  | CcFailed string go_error

definition client_recv :: "client_json \<Rightarrow> string \<Rightarrow> reader \<Rightarrow> client_cmd \<times> reader" where
  "client_recv J command r =
     (if command = ''quit'' then recv_as CcFailed (cj_quit J) CcQuit ''recv quit message failed'' command r
      else if command = ''exit'' then recv_as CcFailed (cj_exit J) CcExit ''recv exit message failed'' command r
      else if command = ''debug'' then recv_as CcFailed (cj_debug J) CcDebug ''recv debug message failed'' command r
      else if command = ''error'' then recv_as CcFailed (cj_error J) CcError ''recv error message failed'' command r
      else if command = ''channel'' then recv_as CcFailed (cj_channel J) CcChannel ''recv channel message failed'' command r
      else if command = ''alive'' then recv_as CcFailed (cj_alive J) CcAlive ''recv alive message failed'' command r
      else if command = ''discard'' then recv_as CcFailed (cj_discard J) CcDiscard ''recv discard message failed'' command r
      else if command = ''rekey'' then recv_as CcFailed (cj_rekey J) CcRekey ''recv rekey message failed'' command r
      else if command = ''detachAck'' then recv_as CcFailed (cj_detachAck J) (\<lambda>_. CcDetachAck) ''recv detach ack message failed'' command r
      else handleUnknownEvent CcFailed (cj_unknown J) command r)"

text \<open>
  The state of a client's bus. \<open>bc_ackChan\<close> is the channel of capacity one that the heartbeat reads,
  \<open>bc_detachAck\<close> the channel a \<open>Detach\<close> waits on (\<open>Some False\<close>: not closed yet), \<open>bc_markers\<close> the input
  markers of the sessions.
\<close>

record bus_client =
  bc_client :: client
  bc_closed :: bool
  bc_quited :: bool
  bc_busClosed :: bool
  bc_detachAck :: "nat option"
  bc_closedAcks :: "nat list"
  bc_handlers :: "string list"
  bc_offered :: "(string \<times> u64) list"
  bc_ackChan :: "int list"
  bc_discards :: "(bytes \<times> u64 \<times> u64) list"
  bc_markers :: "nat \<Rightarrow> bytes option"
  bc_rekeys :: "bytes list"
  bc_debugs :: "(int \<times> string) list"
  bc_quits :: "string list"
  bc_warnings :: "string list"
  bc_blocked :: bool

text \<open>Which callbacks the client has: for quitting, for discarded data and for debug messages.\<close>

record client_callbacks =
  cb_quit :: bool
  cb_discard :: bool
  cb_debug :: bool
  cb_crypto :: bool

definition bc_warning :: "string \<Rightarrow> bus_client \<Rightarrow> bus_client" where
  "bc_warning msg c = c\<lparr>bc_warnings := bc_warnings c @ [msg]\<rparr>"

definition handleQuitEvent :: "client_callbacks \<Rightarrow> string \<Rightarrow> bus_client \<Rightarrow> bus_client" where
  "handleQuitEvent cb msg c =
     (let c1 = c\<lparr>bc_quited := True\<rparr>
      in if cb_quit cb then c1\<lparr>bc_quits := bc_quits c1 @ [msg]\<rparr> else bc_warning (''quit due to '' @ msg) c1)"

definition client_exit :: "u64 \<Rightarrow> int \<Rightarrow> bus_client \<Rightarrow> bus_client" where
  "client_exit i code c =
     (let c1 = c\<lparr>bc_client := ClientRequests.handleExitEvent i code (bc_client c)\<rparr>
      in if c_sessionMap (bc_client c) i = None then bc_warning ''invalid or exited session id'' c1 else c1)"

definition handleDebugEvent :: "client_callbacks \<Rightarrow> int \<Rightarrow> string \<times> int \<Rightarrow> bus_client \<Rightarrow> bus_client" where
  "handleDebugEvent cb now msg c =
     (if \<not> cb_debug cb then c
      else c\<lparr>bc_debugs := bc_debugs c @ [(if snd msg = 0 then now else snd msg, ''[server] '' @ fst msg)]\<rparr>)"

definition handleChannelEvent :: "string \<times> u64 \<Rightarrow> bus_client \<Rightarrow> bus_client" where
  "handleChannelEvent msg c =
     (if fst msg \<in> set (bc_handlers c) then c\<lparr>bc_offered := bc_offered c @ [msg]\<rparr>
      else bc_warning (''channel ['' @ fst msg @ ''] has no handler'') c)"

text \<open>The send to the channel blocks while it is full.\<close>

definition client_alive :: "int \<Rightarrow> bus_client \<Rightarrow> bus_client" where
  "client_alive time c = (if bc_ackChan c = [] then c\<lparr>bc_ackChan := [time]\<rparr> else c\<lparr>bc_blocked := True\<rparr>)"

definition mapped_session :: "client \<Rightarrow> nat \<Rightarrow> bool" where
  "mapped_session c x \<longleftrightarrow> x < length (c_sessions c) \<and> c_sessionMap c (se_id (c_sessions c ! x)) = Some x"

definition handleDiscardEvent :: "client_callbacks \<Rightarrow> discardMessage \<Rightarrow> bus_client \<Rightarrow> bus_client" where
  "handleDiscardEvent cb msg c =
     (let c1 = (if cb_discard cb \<and> (dm_Input msg \<noteq> [] \<or> dm_Lines msg > 0 \<or> dm_Bytes msg > 0)
                then c\<lparr>bc_discards := bc_discards c @ [(dm_Input msg, dm_Lines msg, dm_Bytes msg)]\<rparr> else c)
      in if dm_Marker msg = [] then c1
         else c1\<lparr>bc_markers := (\<lambda>x. if mapped_session (bc_client c1) x then Some (dm_Marker msg) else bc_markers c1 x)\<rparr>)"

definition client_rekey :: "client_callbacks \<Rightarrow> go_error option \<Rightarrow> bytes \<Rightarrow> bus_client \<Rightarrow> bus_client" where
  "client_rekey cb err pubKey c =
     (if \<not> cb_crypto cb then c
      else (case err of None \<Rightarrow> c\<lparr>bc_rekeys := bc_rekeys c @ [pubKey]\<rparr> | Some _ \<Rightarrow> bc_warning ''rekey failed'' c))"

definition handleDetachAckEvent :: "bus_client \<Rightarrow> bus_client" where
  "handleDetachAckEvent c =
     (case bc_detachAck c of None \<Rightarrow> c | Some ch \<Rightarrow> c\<lparr>bc_closedAcks := ch # bc_closedAcks c, bc_detachAck := None\<rparr>)"

definition client_handle :: "client_callbacks \<Rightarrow> bus_env \<Rightarrow> client_cmd \<Rightarrow> bus_client \<Rightarrow> bus_client" where
  "client_handle cb e cmd c =
     (case cmd of
        CcQuit msg \<Rightarrow> handleQuitEvent cb msg c
      | CcExit m \<Rightarrow> client_exit (fst m) (snd m) c
      | CcDebug m \<Rightarrow> handleDebugEvent cb (be_now e) m c
      | CcError msg \<Rightarrow> bc_warning msg c
      | CcChannel m \<Rightarrow> handleChannelEvent m c
      | CcAlive time \<Rightarrow> client_alive time c
      | CcDiscard m \<Rightarrow> handleDiscardEvent cb m c
      | CcRekey pubKey \<Rightarrow> client_rekey cb (be_rekey e) pubKey c
      | CcDetachAck \<Rightarrow> handleDetachAckEvent c
      | CcFailed command err \<Rightarrow> bc_warning (err_text err) c)"

lemma client_recv_left: "client_recv J c r = (m, r') \<Longrightarrow> rd_left r' \<le> rd_left r"
  by (auto simp: client_recv_def handleUnknownEvent_def split: if_splits dest: recv_as_left)

lemma client_next_left: "(Inr c, r1) = recvCommand r \<Longrightarrow> (m, r2) = client_recv J c r1 \<Longrightarrow> rd_left r2 < rd_left r"
  using recvCommand_left [of r c r1] client_recv_left [of J c r1 m r2] by simp

definition client_bus_end :: "go_error \<Rightarrow> bus_client \<Rightarrow> bus_client" where
  "client_bus_end e c =
     (let c1 = (if \<not> bc_closed c \<and> \<not> bc_quited c then bc_warning (''recv bus command failed'' @ err_text e) c else c)
      in c1\<lparr>bc_busClosed := True\<rparr>)"

function client_handleBusEvent ::
  "client_json \<Rightarrow> client_callbacks \<Rightarrow> (nat \<Rightarrow> bus_env) \<Rightarrow> (nat \<Rightarrow> bus_client \<Rightarrow> bus_client) \<Rightarrow> nat \<Rightarrow> reader \<Rightarrow> bus_client \<Rightarrow> bus_client" where
  "client_handleBusEvent J cb env others k r c =
     (case recvCommand r of
        (Inl e, r1) \<Rightarrow> client_bus_end e (others k c)
      | (Inr command, r1) \<Rightarrow>
          (case client_recv J command r1 of
             (cmd, r2) \<Rightarrow>
               let c1 = client_handle cb (env k) cmd (others k c)
               in if bc_blocked c1 then c1 else client_handleBusEvent J cb env others (Suc k) r2 c1))"
  by pat_completeness auto
termination
  by (relation "measure (\<lambda>(J, cb, env, others, k, r, s). rd_left r)")
    (auto dest: client_next_left)

declare client_handleBusEvent.simps [simp del]

section \<open>Sending\<close>

text \<open>How the client encodes its messages, and how the server does.\<close>

record client_enc =
  ce_exit :: "u64 \<Rightarrow> bytes result"
  ce_resize :: "resizeMessage \<Rightarrow> bytes result"
  ce_alive :: "int \<Rightarrow> bytes result"
  ce_setting :: "settingsMessage \<Rightarrow> bytes result"
  ce_rekey :: "bytes \<Rightarrow> bytes result"

record server_enc =
  ve_quit :: "string \<Rightarrow> bytes result"
  ve_exit :: "u64 \<times> int \<Rightarrow> bytes result"
  ve_debug :: "string \<times> int \<Rightarrow> bytes result"
  ve_error :: "string \<Rightarrow> bytes result"
  ve_channel :: "string \<times> u64 \<Rightarrow> bytes result"
  ve_alive :: "int \<Rightarrow> bytes result"
  ve_discard :: "discardMessage \<Rightarrow> bytes result"
  ve_rekey :: "bytes \<Rightarrow> bytes result"
  ve_detachAck :: "unit \<Rightarrow> bytes result"

text \<open>A client that was detached sends nothing any more, and reports no error.\<close>

definition client_sendBusCommand :: "bool \<Rightarrow> string \<Rightarrow> writer \<Rightarrow> go_error option \<times> writer" where
  "client_sendBusCommand detached command w = (if detached then (None, w) else sendCommand command w)"

definition client_sendBusMessage :: "bool \<Rightarrow> ('m \<Rightarrow> bytes result) \<Rightarrow> string \<Rightarrow> 'm \<Rightarrow> writer \<Rightarrow> go_error option \<times> writer" where
  "client_sendBusMessage detached marshal command msg w = (if detached then (None, w) else sendCommandAndMessage marshal command msg w)"

text \<open>The commands a client sends; the notice of \<open>Detach\<close> is sent directly.\<close>

definition client_send :: "client_enc \<Rightarrow> bool \<times> server_cmd \<Rightarrow> writer \<Rightarrow> go_error option \<times> writer" where
  "client_send M x w =
     (case snd x of
        ScExit i \<Rightarrow> client_sendBusMessage (fst x) (ce_exit M) ''exit'' i w
      | ScResize m \<Rightarrow> client_sendBusMessage (fst x) (ce_resize M) ''resize'' m w
      | ScAlive t \<Rightarrow> client_sendBusMessage (fst x) (ce_alive M) ''alive'' t w
      | ScSetting m \<Rightarrow> client_sendBusMessage (fst x) (ce_setting M) ''setting'' m w
      | ScRekey p \<Rightarrow> client_sendBusMessage (fst x) (ce_rekey M) ''rekey'' p w
      | ScClose \<Rightarrow> client_sendBusCommand (fst x) ''close'' w
      | ScDetach \<Rightarrow> sendCommand ''detach'' w
      | ScFailed c e \<Rightarrow> (Some e, w))"

definition server_sendBusMessage :: "bool \<Rightarrow> ('m \<Rightarrow> bytes result) \<Rightarrow> string \<Rightarrow> 'm \<Rightarrow> writer \<Rightarrow> go_error option \<times> writer" where
  "server_sendBusMessage hasBus marshal command msg w =
     (if \<not> hasBus then (Some (ErrText ''bus stream is nil''), w) else sendCommandAndMessage marshal command msg w)"

definition server_send :: "server_enc \<Rightarrow> client_cmd \<Rightarrow> writer \<Rightarrow> go_error option \<times> writer" where
  "server_send M cmd w =
     (case cmd of
        CcQuit m \<Rightarrow> server_sendBusMessage True (ve_quit M) ''quit'' m w
      | CcExit m \<Rightarrow> server_sendBusMessage True (ve_exit M) ''exit'' m w
      | CcDebug m \<Rightarrow> server_sendBusMessage True (ve_debug M) ''debug'' m w
      | CcError m \<Rightarrow> server_sendBusMessage True (ve_error M) ''error'' m w
      | CcChannel m \<Rightarrow> server_sendBusMessage True (ve_channel M) ''channel'' m w
      | CcAlive m \<Rightarrow> server_sendBusMessage True (ve_alive M) ''alive'' m w
      | CcDiscard m \<Rightarrow> server_sendBusMessage True (ve_discard M) ''discard'' m w
      | CcRekey m \<Rightarrow> server_sendBusMessage True (ve_rekey M) ''rekey'' m w
      | CcDetachAck \<Rightarrow> server_sendBusMessage True (ve_detachAck M) ''detachAck'' () w
      | CcFailed c e \<Rightarrow> (Some e, w))"

section \<open>What the loops promise\<close>

text \<open>The loops on commands instead of bytes.\<close>

primrec server_run ::
  "nat \<Rightarrow> (nat \<Rightarrow> bus_env) \<Rightarrow> (nat \<Rightarrow> bus_server \<Rightarrow> bus_server) \<Rightarrow> go_error \<Rightarrow> server_cmd list \<Rightarrow> nat \<Rightarrow> bus_server \<Rightarrow> bus_server" where
  "server_run v env others e [] k s = (if IsClosedError (Some e) then others k s else bs_warning [] (others k s))"
| "server_run v env others e (cmd # cmds) k s =
     (if g_active (bs_sys (others k s)) \<noteq> Some v then others k s
      else if cmd = ScClose then server_handle v (env k) ScClose (others k s)
      else server_run v env others e cmds (Suc k) (server_handle v (env k) cmd (others k s)))"

primrec client_run ::
  "client_callbacks \<Rightarrow> (nat \<Rightarrow> bus_env) \<Rightarrow> (nat \<Rightarrow> bus_client \<Rightarrow> bus_client) \<Rightarrow> go_error \<Rightarrow> client_cmd list \<Rightarrow> nat \<Rightarrow> bus_client \<Rightarrow> bus_client" where
  "client_run cb env others e [] k c = client_bus_end e (others k c)"
| "client_run cb env others e (cmd # cmds) k c =
     (let c1 = client_handle cb (env k) cmd (others k c)
      in if bc_blocked c1 then c1 else client_run cb env others e cmds (Suc k) c1)"

text \<open>A decoder that undoes an encoder whose output fits the length field.\<close>

definition undoes :: "('m \<Rightarrow> bytes result) \<Rightarrow> (bytes \<Rightarrow> 'm result) \<Rightarrow> bool" where
  "undoes marshal unmarshal \<longleftrightarrow> (\<forall>m b. marshal m = Inr b \<longrightarrow> unmarshal b = Inr m \<and> length b < 2 ^ 32)"

definition server_json_ok :: "client_enc \<Rightarrow> server_json \<Rightarrow> bool" where
  "server_json_ok M J \<longleftrightarrow> undoes (ce_exit M) (sj_exit J) \<and> undoes (ce_resize M) (sj_resize J) \<and> undoes (ce_alive M) (sj_alive J)
     \<and> undoes (ce_setting M) (sj_setting J) \<and> undoes (ce_rekey M) (sj_rekey J)"

definition client_json_ok :: "server_enc \<Rightarrow> client_json \<Rightarrow> bool" where
  "client_json_ok M J \<longleftrightarrow> undoes (ve_quit M) (cj_quit J) \<and> undoes (ve_exit M) (cj_exit J) \<and> undoes (ve_debug M) (cj_debug J)
     \<and> undoes (ve_error M) (cj_error J) \<and> undoes (ve_channel M) (cj_channel J) \<and> undoes (ve_alive M) (cj_alive J)
     \<and> undoes (ve_discard M) (cj_discard J) \<and> undoes (ve_rekey M) (cj_rekey J) \<and> undoes (ve_detachAck M) (cj_detachAck J)"

text \<open>What reaches the server: everything, unless the client was detached; the notice of that reaches it.\<close>

definition delivered :: "(bool \<times> server_cmd) list \<Rightarrow> server_cmd list" where
  "delivered xs = map snd (filter (\<lambda>x. \<not> fst x \<or> snd x = ScDetach) xs)"

text \<open>The bytes \<open>f\<close> are received as the command \<open>m\<close>, whatever follows and whatever chunks they come in.\<close>

definition delivers :: "(string \<Rightarrow> reader \<Rightarrow> 'c \<times> reader) \<Rightarrow> bytes \<Rightarrow> 'c \<Rightarrow> bool" where
  "delivers recv f m \<longleftrightarrow> (\<forall>r rest. rd_wf r \<longrightarrow> rd_bytes r = f @ rest \<longrightarrow>
     (\<exists>c r1 r2. recvCommand r = (Inr c, r1) \<and> recv c r1 = (m, r2) \<and> rd_after r rest r2))"

lemma command_delivers:
  assumes "sendCommand c w = (None, w')" "recv c = (\<lambda>r. (m, r))"
  shows "\<exists>f. w_sink w' = w_sink w @ f \<and> delivers recv f m"
proof -
  from sendCommand_frame [OF assms(1)] have f: "w_sink w' = w_sink w @ command_frame c" "length c \<le> 255" by simp_all
  have "delivers recv (command_frame c) m"
    unfolding delivers_def
  proof (intro allI impI)
    fix r rest assume "rd_wf r" "rd_bytes r = command_frame c @ rest"
    with recvCommand_frame [OF f(2)] obtain r1 where "recvCommand r = (Inr c, r1)" "rd_after r rest r1" by blast
    with assms(2) show "\<exists>c r1 r2. recvCommand r = (Inr c, r1) \<and> recv c r1 = (m, r2) \<and> rd_after r rest r2" by auto
  qed
  with f(1) show ?thesis by blast
qed

lemma message_delivers:
  assumes "sendCommandAndMessage marshal c x w = (None, w')" "undoes marshal unmarshal"
    and "recv c = recv_as failed unmarshal con what c"
  shows "\<exists>f. w_sink w' = w_sink w @ f \<and> delivers recv f (con x)"
proof -
  from sendCommandAndMessage_frame [OF assms(1)] obtain b where b: "marshal x = Inr b" "length c \<le> 255"
    "w_sink w' = w_sink w @ command_frame c @ message_frame b" by blast
  from assms(2) b(1) have u: "unmarshal b = Inr x" "length b < 2 ^ 32" by (auto simp: undoes_def)
  have "delivers recv (command_frame c @ message_frame b) (con x)"
    unfolding delivers_def
  proof (intro allI impI)
    fix r rest assume r: "rd_wf r" "rd_bytes r = (command_frame c @ message_frame b) @ rest"
    from recvCommand_frame [OF b(2) r(1), of "message_frame b @ rest"] r(2) obtain r1 where r1: "recvCommand r = (Inr c, r1)"
      "rd_after r (message_frame b @ rest) r1" by auto
    from recvMessage_sent [where unmarshal = unmarshal, OF u rd_afterD(1) [OF r1(2)]] obtain r2 where "recvMessage unmarshal r1 = (Inr x, r2)" "rd_after r1 rest r2"
      by blast
    with r1 assms(3) rd_after_trans [OF r1(2)] show "\<exists>c r1 r2. recvCommand r = (Inr c, r1) \<and> recv c r1 = (con x, r2) \<and> rd_after r rest r2"
      by (auto simp: recv_as_def)
  qed
  with b(3) show ?thesis by blast
qed

text \<open>The messages each loop knows.\<close>

lemma server_recv_simps:
  "server_recv J ''exit'' = recv_as ScFailed (sj_exit J) ScExit ''recv exit message failed'' ''exit''"
  "server_recv J ''resize'' = recv_as ScFailed (sj_resize J) ScResize ''recv resize message failed'' ''resize''"
  "server_recv J ''alive'' = recv_as ScFailed (sj_alive J) ScAlive ''recv alive message failed'' ''alive''"
  "server_recv J ''setting'' = recv_as ScFailed (sj_setting J) ScSetting ''recv settings message failed'' ''setting''"
  "server_recv J ''rekey'' = recv_as ScFailed (sj_rekey J) ScRekey ''recv rekey message failed'' ''rekey''"
  "server_recv J ''close'' = (\<lambda>r. (ScClose, r))" "server_recv J ''detach'' = (\<lambda>r. (ScDetach, r))"
  by (simp_all add: server_recv_def fun_eq_iff)

lemma client_recv_simps:
  "client_recv J ''quit'' = recv_as CcFailed (cj_quit J) CcQuit ''recv quit message failed'' ''quit''"
  "client_recv J ''exit'' = recv_as CcFailed (cj_exit J) CcExit ''recv exit message failed'' ''exit''"
  "client_recv J ''debug'' = recv_as CcFailed (cj_debug J) CcDebug ''recv debug message failed'' ''debug''"
  "client_recv J ''error'' = recv_as CcFailed (cj_error J) CcError ''recv error message failed'' ''error''"
  "client_recv J ''channel'' = recv_as CcFailed (cj_channel J) CcChannel ''recv channel message failed'' ''channel''"
  "client_recv J ''alive'' = recv_as CcFailed (cj_alive J) CcAlive ''recv alive message failed'' ''alive''"
  "client_recv J ''discard'' = recv_as CcFailed (cj_discard J) CcDiscard ''recv discard message failed'' ''discard''"
  "client_recv J ''rekey'' = recv_as CcFailed (cj_rekey J) CcRekey ''recv rekey message failed'' ''rekey''"
  "client_recv J ''detachAck'' = recv_as CcFailed (cj_detachAck J) (\<lambda>_. CcDetachAck) ''recv detach ack message failed'' ''detachAck''"
  by (simp_all add: client_recv_def fun_eq_iff)

lemma client_send_delivers:
  assumes "server_json_ok M J" "client_send M x w = (None, w')" "\<not> fst x \<or> snd x = ScDetach"
  shows "\<exists>f. w_sink w' = w_sink w @ f \<and> delivers (server_recv J) f (snd x)"
proof -
  note u = assms(1) [unfolded server_json_ok_def]
  note defs = client_send_def client_sendBusMessage_def client_sendBusCommand_def
  note msg = message_delivers [of _ _ _ w w' _ "server_recv J" ScFailed]
  show ?thesis
  proof (cases "snd x")
    case (ScExit i)
    with assms(2,3) u show ?thesis using msg [OF _ _ server_recv_simps(1)] by (simp add: defs)
  next
    case (ScResize i)
    with assms(2,3) u show ?thesis using msg [OF _ _ server_recv_simps(2)] by (simp add: defs)
  next
    case (ScAlive i)
    with assms(2,3) u show ?thesis using msg [OF _ _ server_recv_simps(3)] by (simp add: defs)
  next
    case (ScSetting i)
    with assms(2,3) u show ?thesis using msg [OF _ _ server_recv_simps(4)] by (simp add: defs)
  next
    case (ScRekey i)
    with assms(2,3) u show ?thesis using msg [OF _ _ server_recv_simps(5)] by (simp add: defs)
  next
    case ScClose
    with assms(2,3) show ?thesis using command_delivers [where recv = "server_recv J", OF _ server_recv_simps(6)] by (simp add: defs)
  next
    case ScDetach
    with assms(2,3) show ?thesis using command_delivers [where recv = "server_recv J", OF _ server_recv_simps(7)] by (simp add: defs)
  next
    case (ScFailed c e)
    with assms(2) show ?thesis by (simp add: defs)
  qed
qed

lemma server_send_delivers:
  assumes "client_json_ok M J" "server_send M x w = (None, w')"
  shows "\<exists>f. w_sink w' = w_sink w @ f \<and> delivers (client_recv J) f x"
proof -
  note u = assms(1) [unfolded client_json_ok_def]
  note defs = server_send_def server_sendBusMessage_def
  note msg = message_delivers [of _ _ _ w w' _ "client_recv J" CcFailed]
  show ?thesis
  proof (cases x)
    case (CcQuit i)
    with assms(2) u show ?thesis using msg [OF _ _ client_recv_simps(1)] by (simp add: defs)
  next
    case (CcExit i)
    with assms(2) u show ?thesis using msg [OF _ _ client_recv_simps(2)] by (simp add: defs)
  next
    case (CcDebug i)
    with assms(2) u show ?thesis using msg [OF _ _ client_recv_simps(3)] by (simp add: defs)
  next
    case (CcError i)
    with assms(2) u show ?thesis using msg [OF _ _ client_recv_simps(4)] by (simp add: defs)
  next
    case (CcChannel i)
    with assms(2) u show ?thesis using msg [OF _ _ client_recv_simps(5)] by (simp add: defs)
  next
    case (CcAlive i)
    with assms(2) u show ?thesis using msg [OF _ _ client_recv_simps(6)] by (simp add: defs)
  next
    case (CcDiscard i)
    with assms(2) u show ?thesis using msg [OF _ _ client_recv_simps(7)] by (simp add: defs)
  next
    case (CcRekey i)
    with assms(2) u show ?thesis using msg [OF _ _ client_recv_simps(8)] by (simp add: defs)
  next
    case CcDetachAck
    with assms(2) u show ?thesis using msg [OF _ _ client_recv_simps(9)] by (simp add: defs)
  next
    case (CcFailed c e)
    with assms(2) show ?thesis by (simp add: defs)
  qed
qed

lemma dropped_send: "\<lbrakk>client_send M x w = (None, w'); fst x; snd x \<noteq> ScDetach\<rbrakk> \<Longrightarrow> w' = w"
  by (cases "snd x") (simp_all add: client_send_def client_sendBusMessage_def client_sendBusCommand_def)

lemma client_sends_deliver:
  assumes "server_json_ok M J"
  shows "send_many (client_send M) xs w = (None, w')
    \<Longrightarrow> \<exists>fs. w_sink w' = w_sink w @ concat fs \<and> list_all2 (delivers (server_recv J)) fs (delivered xs)"
proof (induction xs arbitrary: w)
  case Nil
  then show ?case by (intro exI [of _ "[]"]) (simp add: delivered_def)
next
  case (Cons x xs)
  then obtain w1 where w1: "client_send M x w = (None, w1)" "send_many (client_send M) xs w1 = (None, w')"
    by (auto split: prod.splits option.splits)
  from Cons.IH [OF w1(2)] obtain fs where fs: "w_sink w' = w_sink w1 @ concat fs" "list_all2 (delivers (server_recv J)) fs (delivered xs)"
    by blast
  show ?case
  proof (cases "\<not> fst x \<or> snd x = ScDetach")
    case True
    from client_send_delivers [OF assms w1(1) True] obtain f where "w_sink w1 = w_sink w @ f" "delivers (server_recv J) f (snd x)"
      by blast
    with fs True show ?thesis by (intro exI [of _ "f # fs"]) (auto simp: delivered_def)
  next
    case False
    with dropped_send [OF w1(1)] fs show ?thesis by (intro exI [of _ fs]) (simp add: delivered_def)
  qed
qed

lemma server_sends_deliver:
  assumes "client_json_ok M J"
  shows "send_many (server_send M) xs w = (None, w')
    \<Longrightarrow> \<exists>fs. w_sink w' = w_sink w @ concat fs \<and> list_all2 (delivers (client_recv J)) fs xs"
proof (induction xs arbitrary: w)
  case Nil
  then show ?case by (intro exI [of _ "[]"]) simp
next
  case (Cons x xs)
  then obtain w1 where w1: "server_send M x w = (None, w1)" "send_many (server_send M) xs w1 = (None, w')"
    by (auto split: prod.splits option.splits)
  from Cons.IH [OF w1(2)] obtain fs where fs: "w_sink w' = w_sink w1 @ concat fs" "list_all2 (delivers (client_recv J)) fs xs" by blast
  from server_send_delivers [OF assms w1(1)] obtain f where "w_sink w1 = w_sink w @ f" "delivers (client_recv J) f x" by blast
  with fs show ?case by (intro exI [of _ "f # fs"]) auto
qed

lemma delivers_next:
  assumes "delivers recv f m" "rd_wf r" "rd_bytes r = concat (f # fs)"
  obtains c r1 r2 where "recvCommand r = (Inr c, r1)" "recv c r1 = (m, r2)" "rd_wf r2" "rd_bytes r2 = concat fs" "rd_end r2 = rd_end r"
proof -
  from assms(1) [unfolded delivers_def, rule_format, OF assms(2), of "concat fs"] assms(3) obtain c r1 r2 where
    "recvCommand r = (Inr c, r1)" "recv c r1 = (m, r2)" "rd_after r (concat fs) r2" by auto
  with that rd_afterD assms(2) show ?thesis by blast
qed

lemma recvCommand_end: "rd_wf r \<Longrightarrow> rd_bytes r = [] \<Longrightarrow> recvCommand r = (Inl (ErrWrap ''recv command read length failed'' (rd_end r)), r)"
  by (cases "rd_chunks r") (auto simp: rd_wf_def rd_bytes_def recvCommand_def rd_read.simps)

text \<open>The error with which the loops see the end of the stream.\<close>

definition end_error :: "reader \<Rightarrow> go_error" where
  "end_error r = ErrWrap ''recv command read length failed'' (rd_end r)"

lemma server_loop_runs:
  "\<lbrakk>list_all2 (delivers (server_recv J)) fs cmds; rd_wf r; rd_bytes r = concat fs\<rbrakk>
    \<Longrightarrow> server_handleBusEvent J v env others k r s = server_run v env others (end_error r) cmds k s"
proof (induction fs cmds arbitrary: k r s rule: list_all2_induct)
  case Nil
  then show ?case using recvCommand_end [of r] by (simp add: server_handleBusEvent.simps [of J v env others k r s] end_error_def Let_def)
next
  case (Cons f fs cmd cmds)
  from delivers_next [OF Cons.hyps(1) Cons.prems] obtain c r1 r2 where r: "recvCommand r = (Inr c, r1)" "server_recv J c r1 = (cmd, r2)"
    "rd_wf r2" "rd_bytes r2 = concat fs" "rd_end r2 = rd_end r" by blast
  with Cons.IH [of r2 "Suc k"] show ?case
    by (simp add: server_handleBusEvent.simps [of J v env others k r s] end_error_def Let_def)
qed

lemma client_loop_runs:
  "\<lbrakk>list_all2 (delivers (client_recv J)) fs cmds; rd_wf r; rd_bytes r = concat fs\<rbrakk>
    \<Longrightarrow> client_handleBusEvent J cb env others k r c = client_run cb env others (end_error r) cmds k c"
proof (induction fs cmds arbitrary: k r c rule: list_all2_induct)
  case Nil
  then show ?case using recvCommand_end [of r] by (simp add: client_handleBusEvent.simps [of J cb env others k r c] end_error_def)
next
  case (Cons f fs cmd cmds)
  from delivers_next [OF Cons.hyps(1) Cons.prems] obtain d r1 r2 where r: "recvCommand r = (Inr d, r1)" "client_recv J d r1 = (cmd, r2)"
    "rd_wf r2" "rd_bytes r2 = concat fs" "rd_end r2 = rd_end r" by blast
  with Cons.IH [of r2 "Suc k"] show ?case
    by (simp add: client_handleBusEvent.simps [of J cb env others k r c] end_error_def Let_def)
qed

section \<open>Properties\<close>

text \<open>
  C6. The server's loop carries out exactly the commands its client sent. When sending a list of commands
  succeeds, however short the single writes were, and the bytes arrive in any chunks, the loop on bytes does what
  the loop on these commands does: one handler per command, in order, until the \<open>close\<close> command or another client
  took over, whatever the other goroutines do in between. Commands sent after \<open>Detach\<close> never arrive, except its own
  notice.
\<close>

theorem server_bus_refines:
  assumes "server_json_ok M J" "send_many (client_send M) xs w = (None, w')" "w_sink w = []"
    and "rd_wf r" "rd_bytes r = w_sink w'"
  shows "server_handleBusEvent J v env others 0 r s = server_run v env others (end_error r) (delivered xs) 0 s"
proof -
  from client_sends_deliver [OF assms(1,2)] assms(3) obtain fs where "w_sink w' = concat fs"
    "list_all2 (delivers (server_recv J)) fs (delivered xs)" by auto
  with server_loop_runs [of J fs "delivered xs" r] assms(4,5) show ?thesis by simp
qed

text \<open>A small encoding with which the properties can be evaluated.\<close>

definition put_time :: "int \<Rightarrow> bytes result" where
  "put_time t = (if 0 \<le> t \<and> t < 2 ^ 62 then Inr (put_u64 (word_of_nat (nat t))) else Inl ErrEOF)"

definition get_time :: "bytes \<Rightarrow> int result" where
  "get_time b = Inr (int (unat (get_u64 b)))"

definition refuse :: "'m \<Rightarrow> bytes result" where "refuse m = Inl ErrEOF"

definition tiny_client_enc :: client_enc where
  "tiny_client_enc = \<lparr>ce_exit = (\<lambda>i. Inr (put_u64 i)), ce_resize = refuse, ce_alive = put_time, ce_setting = refuse, ce_rekey = refuse\<rparr>"

definition tiny_server_json :: server_json where
  "tiny_server_json = \<lparr>sj_exit = (\<lambda>b. Inr (get_u64 b)), sj_resize = (\<lambda>_. Inl ErrEOF), sj_alive = get_time,
     sj_setting = (\<lambda>_. Inl ErrEOF), sj_rekey = Inr, sj_unknown = (\<lambda>_. Inr ())\<rparr>"

definition tiny_server_enc :: server_enc where
  "tiny_server_enc = \<lparr>ve_quit = refuse, ve_exit = refuse, ve_debug = refuse, ve_error = refuse,
     ve_channel = refuse, ve_alive = put_time, ve_discard = refuse, ve_rekey = refuse, ve_detachAck = (\<lambda>_. Inr [])\<rparr>"

definition tiny_client_json :: client_json where
  "tiny_client_json = \<lparr>cj_quit = (\<lambda>_. Inl ErrEOF), cj_exit = (\<lambda>_. Inl ErrEOF), cj_debug = (\<lambda>_. Inl ErrEOF), cj_error = (\<lambda>_. Inl ErrEOF),
     cj_channel = (\<lambda>_. Inl ErrEOF), cj_alive = get_time, cj_discard = (\<lambda>_. Inl ErrEOF), cj_rekey = Inr, cj_detachAck = (\<lambda>_. Inr ()),
     cj_unknown = (\<lambda>_. Inr ())\<rparr>"

lemma undoes_time: "undoes put_time get_time"
  by (auto simp: undoes_def put_time_def get_time_def length_put unsigned_of_int take_bit_int_eq_self split: if_splits)

lemma undoes_refuse: "undoes refuse unmarshal"
  by (simp add: undoes_def refuse_def)

lemma tiny_json: "server_json_ok tiny_client_enc tiny_server_json" "client_json_ok tiny_server_enc tiny_client_json"
  by (simp_all add: server_json_ok_def client_json_ok_def tiny_client_enc_def tiny_server_json_def tiny_server_enc_def
      tiny_client_json_def undoes_time undoes_refuse) (simp_all add: undoes_def length_put)

definition bus_demo_env :: "nat \<Rightarrow> bus_env" where
  "bus_demo_env k = \<lparr>be_now = int k, be_send = None, be_resize = None, be_rekey = None\<rparr>"

definition bus_demo_server :: bus_server where
  "bus_demo_server = \<lparr>bs_sys = \<lparr>g_attachable = True, g_kcp = True, g_active = Some 0, g_busClosing = False, g_socketName = None,
     g_servers = [\<lparr>v_serving = True, v_bus = True, v_keepPendingInput = False\<rparr>], g_sessions = [], g_map = (\<lambda>_. None), g_maxID = 0,
     g_markerIndex = 0, g_nextCancel = 0, g_cancelled = [], g_sent = []\<rparr>, bs_keepPendingOutput = False, bs_clientAliveTime = 0,
     bs_acks = [], bs_rekeys = [], bs_warnings = []\<rparr>"

definition bus_demo_sends :: "(bool \<times> server_cmd) list" where
  "bus_demo_sends = [(False, ScAlive 5), (False, ScExit 7), (False, ScAlive 300), (True, ScAlive 6), (True, ScDetach)]"

definition bus_demo_reader :: "bytes \<Rightarrow> reader" where
  "bus_demo_reader b = \<lparr>rd_chunks = map (\<lambda>x. [x]) b, rd_end = ErrEOF\<rparr>"

lemma bus_demo_reader_bytes: "rd_wf (bus_demo_reader b)" "rd_bytes (bus_demo_reader b) = b"
  by (auto simp: bus_demo_reader_def rd_wf_def rd_bytes_def)

theorem server_bus_refines_witness:
  "\<exists>w'. send_many (client_send tiny_client_enc) bus_demo_sends \<lparr>w_sink = [], w_sched = [WrOk 2, WrOk 1]\<rparr> = (None, w')
     \<and> bs_acks (server_handleBusEvent tiny_server_json 0 bus_demo_env (\<lambda>_ s. s) 0 (bus_demo_reader (w_sink w')) bus_demo_server) = [5, 300]
     \<and> g_sent (bs_sys (server_handleBusEvent tiny_server_json 0 bus_demo_env (\<lambda>_ s. s) 0 (bus_demo_reader (w_sink w')) bus_demo_server))
        = [(0, BusDetachAck)]"
proof -
  have "fst (send_many (client_send tiny_client_enc) bus_demo_sends \<lparr>w_sink = [], w_sched = [WrOk 2, WrOk 1]\<rparr>) = None" by code_simp
  then obtain w' where w': "send_many (client_send tiny_client_enc) bus_demo_sends \<lparr>w_sink = [], w_sched = [WrOk 2, WrOk 1]\<rparr> = (None, w')"
    by (metis prod.collapse)
  let ?s = "server_run 0 bus_demo_env (\<lambda>_ s. s) (ErrWrap ''recv command read length failed'' ErrEOF) (delivered bus_demo_sends) 0 bus_demo_server"
  have "end_error (bus_demo_reader (w_sink w')) = ErrWrap ''recv command read length failed'' ErrEOF"
    by (simp add: end_error_def bus_demo_reader_def)
  with server_bus_refines [OF tiny_json(1) w' _ bus_demo_reader_bytes]
  have "server_handleBusEvent tiny_server_json 0 bus_demo_env (\<lambda>_ s. s) 0 (bus_demo_reader (w_sink w')) bus_demo_server = ?s" by simp
  moreover have "bs_acks ?s = [5, 300]" "g_sent (bs_sys ?s) = [(0, BusDetachAck)]" by code_simp+
  ultimately show ?thesis using w' by auto
qed

text \<open>
  C23. The client's loop carries out exactly the commands its server sent, in order and one handler per command,
  whatever chunks the bytes arrive in and whatever the other goroutines do in between, until the stream ends; then the
  bus is marked closed. It stays at the acknowledgement of a heartbeat for which the channel has no room.
\<close>

theorem client_bus_refines:
  assumes "client_json_ok M J" "send_many (server_send M) xs w = (None, w')" "w_sink w = []"
    and "rd_wf r" "rd_bytes r = w_sink w'"
  shows "client_handleBusEvent J cb env others 0 r c = client_run cb env others (end_error r) xs 0 c"
proof -
  from server_sends_deliver [OF assms(1,2)] assms(3) obtain fs where "w_sink w' = concat fs"
    "list_all2 (delivers (client_recv J)) fs xs" by auto
  with client_loop_runs [of J fs xs r] assms(4,5) show ?thesis by simp
qed

definition bus_demo_client :: bus_client where
  "bus_demo_client = \<lparr>bc_client = new_client 1, bc_closed = False, bc_quited = False, bc_busClosed = False, bc_detachAck = Some 3,
     bc_closedAcks = [], bc_handlers = [], bc_offered = [], bc_ackChan = [], bc_discards = [], bc_markers = (\<lambda>_. None), bc_rekeys = [],
     bc_debugs = [], bc_quits = [], bc_warnings = [], bc_blocked = False\<rparr>"

definition bus_demo_callbacks :: client_callbacks where
  "bus_demo_callbacks = \<lparr>cb_quit = True, cb_discard = True, cb_debug = False, cb_crypto = True\<rparr>"

theorem client_bus_refines_witness:
  "\<exists>w'. send_many (server_send tiny_server_enc) [CcAlive 5, CcDetachAck] \<lparr>w_sink = [], w_sched = [WrOk 2, WrOk 1]\<rparr> = (None, w')
     \<and> bc_ackChan (client_handleBusEvent tiny_client_json bus_demo_callbacks bus_demo_env (\<lambda>_ s. s) 0 (bus_demo_reader (w_sink w')) bus_demo_client) = [5]
     \<and> bc_closedAcks (client_handleBusEvent tiny_client_json bus_demo_callbacks bus_demo_env (\<lambda>_ s. s) 0 (bus_demo_reader (w_sink w')) bus_demo_client) = [3]"
proof -
  let ?w = "\<lparr>w_sink = [], w_sched = [WrOk 2, WrOk 1]\<rparr>" and ?e = "ErrWrap ''recv command read length failed'' ErrEOF"
  have "fst (send_many (server_send tiny_server_enc) [CcAlive 5, CcDetachAck] ?w) = None" by code_simp
  then obtain w' where w': "send_many (server_send tiny_server_enc) [CcAlive 5, CcDetachAck] ?w = (None, w')" by (metis prod.collapse)
  let ?c = "client_run bus_demo_callbacks bus_demo_env (\<lambda>_ s. s) ?e [CcAlive 5, CcDetachAck] 0 bus_demo_client"
  have "end_error (bus_demo_reader (w_sink w')) = ?e" by (simp add: end_error_def bus_demo_reader_def)
  with client_bus_refines [OF tiny_json(2) w' _ bus_demo_reader_bytes]
  have "client_handleBusEvent tiny_client_json bus_demo_callbacks bus_demo_env (\<lambda>_ s. s) 0 (bus_demo_reader (w_sink w')) bus_demo_client = ?c" by simp
  moreover have "bc_ackChan ?c = [5]" "bc_closedAcks ?c = [3]" by code_simp+
  ultimately show ?thesis using w' by auto
qed

end
