(* ===== verification/ClientControl.thy ===== *)
theory ClientControl
  imports Bus Checker "HOL-Library.Sublist"
begin

text \<open>
  How the client library watches and ends its connection (\<open>client.go\<close>, \<open>doWithTimeout\<close> of \<open>comm.go\<close>): the
  heartbeat over the bus, the goroutine that looks for a new path when the heartbeat fails, detaching from a
  server, and closing clients and sessions. Times are in milliseconds.
\<close>

section \<open>The heartbeat\<close>

text \<open>
  The client and its server with the heartbeats on the bus between them: \<open>hb_up\<close> and \<open>hb_down\<close> are the \<open>alive\<close>
  messages under way. \<open>hb_waiting\<close>: \<open>keepAlive\<close> waits for the acknowledgement; \<open>hb_updates\<close> are the times it
  passed to the checker, \<open>hb_sent\<close> those it sent.
\<close>

record heartbeat =
  hb_client :: bus_client
  hb_server :: bus_server
  hb_detached :: bool
  hb_up :: "int list"
  hb_down :: "int list"
  hb_waiting :: bool
  hb_done :: bool
  hb_sent :: "int list"
  hb_updates :: "int list"

datatype hb_act = HbTick int "go_error option" | HbServer bus_env | HbClient | HbAck | HbClose | HbDetach

text \<open>A tick of the timer: the heartbeat is sent, unless the client was detached, and its acknowledgement awaited.\<close>

definition keepAlive_tick :: "int \<Rightarrow> go_error option \<Rightarrow> heartbeat \<Rightarrow> heartbeat" where
  "keepAlive_tick aliveTime sendErr s =
     (if bc_closed (hb_client s) then s\<lparr>hb_done := True\<rparr>
      else (let s1 = s\<lparr>hb_waiting := True\<rparr>
        in if hb_detached s \<or> sendErr \<noteq> None then s1
           else s1\<lparr>hb_up := hb_up s1 @ [aliveTime], hb_sent := hb_sent s1 @ [aliveTime]\<rparr>))"

definition keepAlive_ack :: "heartbeat \<Rightarrow> heartbeat option" where
  "keepAlive_ack s =
     (case bc_ackChan (hb_client s) of
        [] \<Rightarrow> None
      | ackTime # rest \<Rightarrow>
          Some (s\<lparr>hb_client := (hb_client s)\<lparr>bc_ackChan := rest\<rparr>, hb_waiting := False, hb_updates := hb_updates s @ [ackTime]\<rparr>))"

definition hb_exec :: "hb_act \<Rightarrow> heartbeat \<Rightarrow> heartbeat option" where
  "hb_exec a s =
     (case a of
        HbTick aliveTime sendErr \<Rightarrow> if hb_waiting s \<or> hb_done s then None else Some (keepAlive_tick aliveTime sendErr s)
      | HbServer e \<Rightarrow>
          (case hb_up s of
             [] \<Rightarrow> None
           | time # rest \<Rightarrow>
               let s1 = fst (handleAliveEvent e time (hb_server s))
               in Some (s\<lparr>hb_up := rest, hb_server := s1, hb_down := hb_down s @ drop (length (bs_acks (hb_server s))) (bs_acks s1)\<rparr>))
      | HbClient \<Rightarrow>
          (case hb_down s of
             [] \<Rightarrow> None
           | time # rest \<Rightarrow> Some (s\<lparr>hb_down := rest, hb_client := client_alive time (hb_client s)\<rparr>))
      | HbAck \<Rightarrow> if hb_waiting s then keepAlive_ack s else None
      | HbClose \<Rightarrow> Some (s\<lparr>hb_client := (hb_client s)\<lparr>bc_closed := True\<rparr>\<rparr>)
      | HbDetach \<Rightarrow> Some (s\<lparr>hb_detached := True\<rparr>))"

definition new_heartbeat :: "bus_client \<Rightarrow> bus_server \<Rightarrow> heartbeat" where
  "new_heartbeat c v = \<lparr>hb_client = c, hb_server = v, hb_detached = False, hb_up = [], hb_down = [], hb_waiting = False, hb_done = False,
     hb_sent = [], hb_updates = []\<rparr>"

section \<open>Looking for a new path\<close>

text \<open>
  The goroutine of \<open>tryToReconnect\<close>, one access to a checker or to the flag of the client per step; it sleeps
  between the steps. \<open>RcTransient\<close> and \<open>RcDropped\<close> are the second tests of its two waiting loops, \<open>RcOpen\<close> that
  of the condition of its main loop, \<open>RcFailed\<close> the test after a failed renewal.
\<close>

datatype recon_why = WhyRecovered | WhyClosed | WhyProxy

datatype recon_pc =
    RcServer | RcTransient | RcProxy | RcTop | RcOpen | RcRenew | RcFailed go_error | RcRenewed | RcDropped | RcReturn recon_why

record reconnect =
  rc_pc :: recon_pc
  rc_error :: "go_error option"

text \<open>
  \<open>proxy\<close>: the checker of the proxy client, if there is one: whether it timed out and whether waiting for it ended
  with an error. \<open>renew\<close>: the result of \<open>renewTransportPath\<close>.
\<close>

definition tryToReconnect :: "bool \<Rightarrow> bool \<Rightarrow> bool \<Rightarrow> (bool \<times> bool) option \<Rightarrow> go_error option \<Rightarrow> reconnect \<Rightarrow> reconnect option" where
  "tryToReconnect serverTimeout activeTimeout closed proxy renew s =
     (case rc_pc s of
        RcServer \<Rightarrow> Some (s\<lparr>rc_pc := (if serverTimeout then RcProxy else RcTransient)\<rparr>)
      | RcTransient \<Rightarrow> Some (s\<lparr>rc_pc := (if activeTimeout then RcServer else RcReturn WhyRecovered)\<rparr>)
      | RcProxy \<Rightarrow>
          Some (s\<lparr>rc_pc := (case proxy of
              None \<Rightarrow> RcTop
            | Some (timeout, failed) \<Rightarrow> if timeout \<and> failed then RcReturn WhyProxy else RcTop)\<rparr>)
      | RcTop \<Rightarrow> Some (s\<lparr>rc_pc := (if activeTimeout then RcOpen else RcReturn WhyRecovered)\<rparr>)
      | RcOpen \<Rightarrow> Some (s\<lparr>rc_pc := (if closed then RcReturn WhyClosed else RcRenew)\<rparr>)
      | RcRenew \<Rightarrow>
          (case renew of
             Some err \<Rightarrow> Some (s\<lparr>rc_pc := RcFailed err\<rparr>)
           | None \<Rightarrow> Some (s\<lparr>rc_pc := RcRenewed, rc_error := None\<rparr>))
      | RcFailed err \<Rightarrow> Some (if closed then s\<lparr>rc_pc := RcReturn WhyClosed\<rparr> else s\<lparr>rc_pc := RcTop, rc_error := Some err\<rparr>)
      | RcRenewed \<Rightarrow> Some (s\<lparr>rc_pc := (if activeTimeout then RcDropped else RcReturn WhyRecovered)\<rparr>)
      | RcDropped \<Rightarrow> Some (s\<lparr>rc_pc := (if serverTimeout then RcTop else RcRenewed)\<rparr>)
      | RcReturn why \<Rightarrow> None)"

text \<open>The error of the client, or of the last proxy client in the chain that has one.\<close>

fun GetLastReconnectError :: "go_error option \<Rightarrow> go_error option list \<Rightarrow> go_error option" where
  "GetLastReconnectError err [] = err"
| "GetLastReconnectError err (e # proxies) = GetLastReconnectError (case e of None \<Rightarrow> err | Some _ \<Rightarrow> e) proxies"

text \<open>
  The goroutine beside the two checkers it asks: the checker of the server's packets and that of the heartbeat. A
  timeout of the latter starts it. \<open>rx_log\<close> records, in order, the answers it got from the two and the results of its
  attempts at a new path.
\<close>

datatype recon_obs = SawServer bool | SawActive bool | Renewal "go_error option"

record recon_sys =
  rx_server :: tc_sys
  rx_active :: tc_sys
  rx_closed :: bool
  rx_rc :: reconnect
  rx_log :: "recon_obs list"

definition recon_sees :: "go_error option \<Rightarrow> recon_sys \<Rightarrow> recon_obs list" where
  "recon_sees renew s =
     (let pc = rc_pc (rx_rc s)
      in if pc = RcServer \<or> pc = RcDropped then [SawServer (isTimeout (sys_tc (rx_server s)))]
         else if pc = RcTransient \<or> pc = RcTop \<or> pc = RcRenewed then [SawActive (isTimeout (sys_tc (rx_active s)))]
         else if pc = RcRenew then [Renewal renew] else [])"

datatype recon_act = RxServer tc_act | RxActive tc_act | RxClose | RxStep "(bool \<times> bool) option" "go_error option"

definition recon_exec :: "recon_act \<Rightarrow> recon_sys \<Rightarrow> recon_sys option" where
  "recon_exec a s =
     (case a of
        RxServer b \<Rightarrow> map_option (\<lambda>c. s\<lparr>rx_server := c\<rparr>) (tc_exec b (rx_server s))
      | RxActive b \<Rightarrow> map_option (\<lambda>c. s\<lparr>rx_active := c\<rparr>) (tc_exec b (rx_active s))
      | RxClose \<Rightarrow> Some (s\<lparr>rx_closed := True\<rparr>)
      | RxStep proxy renew \<Rightarrow>
          map_option (\<lambda>c. s\<lparr>rx_rc := c, rx_log := rx_log s @ recon_sees renew s\<rparr>)
            (tryToReconnect (isTimeout (sys_tc (rx_server s))) (isTimeout (sys_tc (rx_active s))) (rx_closed s) proxy renew (rx_rc s)))"

section \<open>Bounded waits\<close>







section \<open>Detaching and closing\<close>













definition kX11ChannelType :: string where "kX11ChannelType = ''x11''"

definition kAgentChannelType :: string where "kAgentChannelType = ''auth-agent@openssh.com''"

text \<open>\<open>HandleChannelOpen\<close>: whether a channel is returned; each type is handed out once.\<close>

definition HandleChannelOpen :: "string \<Rightarrow> bus_client \<Rightarrow> bus_client \<times> bool" where
  "HandleChannelOpen channelType c =
     (if channelType \<in> set (bc_handlers c) then (c, False)
      else if channelType \<in> {kAgentChannelType, kX11ChannelType} then (c\<lparr>bc_handlers := channelType # bc_handlers c\<rparr>, True)
      else (bc_warning (''channel type ['' @ channelType @ ''] is not supported yet'') c, False))"

section \<open>Lemmas: the heartbeat\<close>

text \<open>The heartbeats under way, the oldest first.\<close>

definition in_flight :: "heartbeat \<Rightarrow> int list" where
  "in_flight s = bc_ackChan (hb_client s) @ hb_down s @ hb_up s"

definition hb_inv :: "heartbeat \<Rightarrow> bool" where
  "hb_inv s \<longleftrightarrow> \<not> bc_blocked (hb_client s) \<and>
     (\<exists>rest. hb_sent s = hb_updates s @ rest \<and> length rest \<le> 1 \<and> (in_flight s = [] \<or> in_flight s = rest) \<and> (\<not> hb_waiting s \<longrightarrow> rest = []))"

lemma hb_invI:
  assumes "\<not> bc_blocked (hb_client s)" "hb_sent s = hb_updates s @ rest" "length rest \<le> 1"
    and "in_flight s = [] \<or> in_flight s = rest" "\<not> hb_waiting s \<Longrightarrow> rest = []"
  shows "hb_inv s"
  unfolding hb_inv_def using assms by blast

lemma hb_tick_inv:
  assumes "hb_inv s" "\<not> hb_waiting s"
  shows "hb_inv (keepAlive_tick t err s)"
proof -
  from assms have s: "\<not> bc_blocked (hb_client s)" "hb_sent s = hb_updates s" "in_flight s = []" by (auto simp: hb_inv_def)
  show ?thesis
  proof (cases "bc_closed (hb_client s) \<or> hb_detached s \<or> err \<noteq> None")
    case True
    with s show ?thesis by (intro hb_invI [where rest = "[]"]) (auto simp: keepAlive_tick_def in_flight_def Let_def)
  next
    case False
    with s show ?thesis by (intro hb_invI [where rest = "[t]"]) (auto simp: keepAlive_tick_def in_flight_def Let_def)
  qed
qed

lemma hb_step_inv:
  assumes "hb_inv s" "hb_exec a s = Some s'"
  shows "hb_inv s'"
proof -
  from assms(1) obtain rest where s: "\<not> bc_blocked (hb_client s)" "hb_sent s = hb_updates s @ rest" "length rest \<le> 1"
    "in_flight s = [] \<or> in_flight s = rest" "\<not> hb_waiting s \<Longrightarrow> rest = []" by (auto simp: hb_inv_def)
  show ?thesis
  proof (cases a)
    case (HbTick t err)
    with assms hb_tick_inv show ?thesis by (auto simp: hb_exec_def split: if_splits)
  next
    case (HbServer e)
    then obtain t up where u: "hb_up s = t # up" using assms(2) by (auto simp: hb_exec_def split: list.splits)
    with s(3,4) have f: "bc_ackChan (hb_client s) = []" "hb_down s = []" "up = []" "rest = [t]" by (auto simp: in_flight_def append_eq_Cons_conv)
    from HbServer u assms(2) f have "s' = s\<lparr>hb_up := [], hb_server := hb_server s', hb_down := hb_down s'\<rparr> \<and> (hb_down s' = [t] \<or> hb_down s' = [])"
      by (auto simp: hb_exec_def handleAliveEvent_def Let_def split: option.splits)
    then obtain d v where s': "s' = s\<lparr>hb_up := [], hb_server := v, hb_down := d\<rparr>" "d = [t] \<or> d = []" by blast
    show ?thesis unfolding s'(1) by (rule hb_invI [where rest = rest]) (use s s'(2) f in \<open>auto simp: in_flight_def\<close>)
  next
    case HbClient
    then obtain t d where u: "hb_down s = t # d" using assms(2) by (auto simp: hb_exec_def split: list.splits)
    with s(3,4) have f: "bc_ackChan (hb_client s) = []" "hb_up s = []" "d = []" "rest = [t]" by (auto simp: in_flight_def append_eq_Cons_conv)
    with HbClient u assms(2) have s': "s' = s\<lparr>hb_down := [], hb_client := (hb_client s)\<lparr>bc_ackChan := [t]\<rparr>\<rparr>"
      by (auto simp: hb_exec_def client_alive_def)
    show ?thesis unfolding s' by (rule hb_invI [where rest = rest]) (use s f in \<open>auto simp: in_flight_def\<close>)
  next
    case HbAck
    then obtain t r where u: "hb_waiting s" "bc_ackChan (hb_client s) = t # r"
      using assms(2) by (auto simp: hb_exec_def keepAlive_ack_def split: if_splits list.splits)
    with s(3,4) have f: "r = []" "hb_down s = []" "hb_up s = []" "rest = [t]" by (auto simp: in_flight_def)
    with HbAck u assms(2) have s': "s' = s\<lparr>hb_client := (hb_client s)\<lparr>bc_ackChan := []\<rparr>, hb_waiting := False, hb_updates := hb_updates s @ [t]\<rparr>"
      by (auto simp: hb_exec_def keepAlive_ack_def)
    show ?thesis unfolding s' by (rule hb_invI [where rest = "[]"]) (use s f in \<open>auto simp: in_flight_def\<close>)
  qed (use assms in \<open>auto simp: hb_exec_def hb_inv_def in_flight_def\<close>)
qed

interpretation heartbeats: machine hb_exec hb_inv
  by unfold_locales (rule hb_step_inv)

text \<open>A heartbeat that got lost ends the heartbeat: no other is ever sent, and the goroutine never ends.\<close>

definition hb_lost :: "heartbeat \<Rightarrow> bool" where
  "hb_lost s \<longleftrightarrow> hb_waiting s \<and> \<not> hb_done s \<and> in_flight s = []"

interpretation lost_heartbeats: machine hb_exec hb_lost
  by unfold_locales (auto simp: hb_lost_def hb_exec_def in_flight_def keepAlive_ack_def split: hb_act.splits list.splits if_splits)

lemma lost_heartbeat_never_ends:
  assumes "\<not> hb_waiting s" "\<not> hb_done s" "in_flight s = []" "\<not> bc_closed (hb_client s)"
    and "hb_detached s \<or> err \<noteq> None" "run_acts hb_exec acts (keepAlive_tick t err s) = Some s'"
  shows "hb_waiting s' \<and> \<not> hb_done s' \<and> in_flight s' = []"
proof -
  have "hb_lost (keepAlive_tick t err s)" using assms(1-5) by (auto simp: hb_lost_def keepAlive_tick_def in_flight_def Let_def)
  from lost_heartbeats.run_inv [OF this assms(6)] show ?thesis by (simp add: hb_lost_def)
qed

section \<open>Lemmas: bounded waits\<close>











section \<open>Lemmas: looking for a new path\<close>

lemma tc_done_frozen: "tc_exec a s = Some s' \<Longrightarrow> sys_hpc s = HDone \<Longrightarrow> sys_hpc s' = HDone \<and> isTimeout (sys_tc s') = isTimeout (sys_tc s)"
  using same_core_ops by (auto simp: tc_exec_def handleEvent_finish_def isTimeout_def same_core_def split: tc_act.splits if_splits)

text \<open>
  Whether the path is lost as far as the answers tell: the last answer about the server's packets is that they timed
  out, and no renewal has succeeded since.
\<close>

definition path_lost :: "recon_obs list \<Rightarrow> bool" where
  "path_lost log = fold (\<lambda>obs lost. case obs of SawServer b \<Rightarrow> b | Renewal None \<Rightarrow> False | _ \<Rightarrow> lost) log False"

lemma path_lost_snoc [simp]:
  "path_lost (log @ [obs]) = (case obs of SawServer b \<Rightarrow> b | Renewal None \<Rightarrow> False | _ \<Rightarrow> path_lost log)"
  by (cases obs) (simp_all add: path_lost_def split: option.split)

text \<open>Every renewal in the log was made on a lost path and right after the heartbeat was still in timeout.\<close>

definition renewals_ok :: "recon_obs list \<Rightarrow> bool" where
  "renewals_ok log \<longleftrightarrow> (\<forall>xs r ys. log = xs @ Renewal r # ys \<longrightarrow> path_lost xs \<and> suffix [SawActive True] xs)"

lemma renewals_ok_snoc [simp]:
  "renewals_ok (log @ [obs]) \<longleftrightarrow>
     renewals_ok log \<and> (case obs of Renewal r \<Rightarrow> path_lost log \<and> suffix [SawActive True] log | _ \<Rightarrow> True)"
proof -
  have "log @ [obs] = xs @ Renewal r # ys \<longleftrightarrow> (ys = [] \<and> xs = log \<and> obs = Renewal r) \<or> (\<exists>zs. ys = zs @ [obs] \<and> log = xs @ Renewal r # zs)"
    for xs r ys by (cases ys rule: rev_cases) auto
  then show ?thesis unfolding renewals_ok_def by (cases obs) auto
qed

definition recon_inv :: "recon_sys \<Rightarrow> bool" where
  "recon_inv s \<longleftrightarrow> renewals_ok (rx_log s)
     \<and> (case rc_pc (rx_rc s) of
          RcProxy \<Rightarrow> path_lost (rx_log s)
        | RcTop \<Rightarrow> path_lost (rx_log s)
        | RcOpen \<Rightarrow> path_lost (rx_log s) \<and> suffix [SawActive True] (rx_log s)
        | RcRenew \<Rightarrow> path_lost (rx_log s) \<and> suffix [SawActive True] (rx_log s)
        | RcFailed err \<Rightarrow> path_lost (rx_log s)
        | RcReturn WhyClosed \<Rightarrow> rx_closed s
        | RcReturn WhyRecovered \<Rightarrow> suffix [SawActive False] (rx_log s)
        | _ \<Rightarrow> True)"

lemma recon_inv_keep:
  "recon_inv s \<Longrightarrow> rx_log s' = rx_log s \<Longrightarrow> rx_rc s' = rx_rc s \<Longrightarrow> (rx_closed s \<Longrightarrow> rx_closed s') \<Longrightarrow> recon_inv s'"
  unfolding recon_inv_def by (cases "rc_pc (rx_rc s)") (simp_all split: recon_why.splits)

lemma recon_step_inv:
  assumes "recon_inv s" "recon_exec a s = Some s'"
  shows "recon_inv s'"
proof (cases a)
  case (RxStep proxy renew)
  with assms show ?thesis
    by (cases "rc_pc (rx_rc s)")
      (auto simp: recon_exec_def recon_inv_def recon_sees_def tryToReconnect_def Let_def split: option.splits prod.splits)
qed (use assms(2) in \<open>auto simp: recon_exec_def intro: recon_inv_keep [OF assms(1)]\<close>)

interpretation reconnects: machine recon_exec recon_inv
  by unfold_locales (rule recon_step_inv)

text \<open>A closed client whose checkers have stopped, with a heartbeat in timeout and server packets that are not.\<close>

definition spinning :: "recon_sys \<Rightarrow> bool" where
  "spinning s \<longleftrightarrow> rx_closed s \<and> sys_hpc (rx_server s) = HDone \<and> sys_hpc (rx_active s) = HDone
     \<and> isTimeout (sys_tc (rx_active s)) \<and> \<not> isTimeout (sys_tc (rx_server s))
     \<and> rc_pc (rx_rc s) \<in> {RcServer, RcTransient, RcRenewed, RcDropped}"

lemma spinning_step: "spinning s \<Longrightarrow> recon_exec a s = Some s' \<Longrightarrow> spinning s'"
  by (auto simp: spinning_def recon_exec_def tryToReconnect_def dest: tc_done_frozen split: recon_act.splits)

interpretation spinnings: machine recon_exec spinning
  by unfold_locales (rule spinning_step)

section \<open>Properties\<close>

text \<open>
  C25. The heartbeat keeps in step. In every interleaving of the timer, the server, the client's bus loop and the
  heartbeat goroutine, at most one heartbeat is under way, so the bus loop never blocks on handing over an
  acknowledgement; and the times the checker is told are exactly the times the client sent itself, in that order and
  with at most the last one missing.
\<close>

theorem heartbeat_in_step:
  assumes "run_acts hb_exec acts (new_heartbeat c v) = Some s" "bc_ackChan c = []" "\<not> bc_blocked c"
  shows "\<not> bc_blocked (hb_client s) \<and> length (in_flight s) \<le> 1
    \<and> (hb_sent s = hb_updates s \<or> (\<exists>t. hb_sent s = hb_updates s @ [t]))"
proof -
  have "hb_inv (new_heartbeat c v)" using assms(2,3) by (simp add: hb_inv_def new_heartbeat_def in_flight_def)
  from heartbeats.run_inv [OF this assms(1)] obtain rest where "\<not> bc_blocked (hb_client s)" "hb_sent s = hb_updates s @ rest"
    "length rest \<le> 1" "in_flight s = [] \<or> in_flight s = rest" by (auto simp: hb_inv_def)
  then show ?thesis by (cases rest) auto
qed

definition beat_acts :: "hb_act list" where
  "beat_acts = [HbTick 10 None, HbServer (bus_demo_env 0), HbClient, HbAck, HbTick 20 None, HbServer (bus_demo_env 1)]"

theorem heartbeat_in_step_witness:
  "\<exists>s. run_acts hb_exec beat_acts (new_heartbeat bus_demo_client bus_demo_server) = Some s \<and> hb_sent s = [10, 20]
     \<and> hb_updates s = [10] \<and> hb_down s = [20] \<and> \<not> bc_blocked (hb_client s)"
proof -
  have "case run_acts hb_exec beat_acts (new_heartbeat bus_demo_client bus_demo_server) of None \<Rightarrow> False
      | Some s \<Rightarrow> hb_sent s = [10, 20] \<and> hb_updates s = [10] \<and> hb_down s = [20]" by code_simp
  then obtain s where s: "run_acts hb_exec beat_acts (new_heartbeat bus_demo_client bus_demo_server) = Some s"
    "hb_sent s = [10, 20]" "hb_updates s = [10]" "hb_down s = [20]" by (auto split: option.splits)
  have "bc_ackChan bus_demo_client = []" "\<not> bc_blocked bus_demo_client" by (simp_all add: bus_demo_client_def)
  from heartbeat_in_step [OF s(1) this] s show ?thesis by blast
qed





text \<open>
  C26. A client looks for a new path only when the path is lost, and stops only when it has a reason to. In every
  schedule of the two checkers and of the goroutine that a timeout of the heartbeat started, each attempt at a new
  path is made right after the heartbeat was found still in timeout, and on a lost path: the goroutine's last answer
  about the packets of the server was that they had timed out, and no earlier attempt has succeeded since that answer.
  The goroutine gives up as recovered only on finding the heartbeat not in timeout, and as closed only if the client is.
\<close>

theorem reconnect_only_when_lost:
  assumes "run_acts recon_exec acts \<lparr>rx_server = vs, rx_active = va, rx_closed = False,
      rx_rc = \<lparr>rc_pc = RcServer, rc_error = err\<rparr>, rx_log = []\<rparr> = Some s"
  shows "(\<forall>xs r ys. rx_log s = xs @ Renewal r # ys \<longrightarrow> path_lost xs \<and> suffix [SawActive True] xs)
    \<and> (rc_pc (rx_rc s) = RcReturn WhyRecovered \<longrightarrow> suffix [SawActive False] (rx_log s))
    \<and> (rc_pc (rx_rc s) = RcReturn WhyClosed \<longrightarrow> rx_closed s)"
proof -
  have "recon_inv \<lparr>rx_server = vs, rx_active = va, rx_closed = False, rx_rc = \<lparr>rc_pc = RcServer, rc_error = err\<rparr>, rx_log = []\<rparr>"
    by (simp add: recon_inv_def renewals_ok_def)
  from reconnects.run_inv [OF this assms] show ?thesis by (auto simp: recon_inv_def renewals_ok_def)
qed

text \<open>A checker that times out after a while.\<close>

definition timeout_acts :: "tc_act list" where
  "timeout_acts = [ATick 5000000, ACheck False, AOffer, AHandleFinish]"

definition recon_demo_acts :: "recon_act list" where
  "recon_demo_acts = map RxServer timeout_acts @ [RxStep None None, RxStep None None, RxStep None None, RxStep None None, RxStep None (Some ErrEOF),
     RxStep None None, RxStep None None, RxStep None None, RxStep None None]"

definition recon_demo :: "tc_sys \<Rightarrow> recon_sys" where
  "recon_demo va = \<lparr>rx_server = tc_start 1000000 0, rx_active = va, rx_closed = False, rx_rc = \<lparr>rc_pc = RcServer, rc_error = None\<rparr>, rx_log = []\<rparr>"

theorem reconnect_only_when_lost_witness:
  "\<exists>va s. run_acts tc_exec timeout_acts (tc_start 1000000 0) = Some va \<and> run_acts recon_exec recon_demo_acts (recon_demo va) = Some s
     \<and> rx_log s = [SawServer True, SawActive True, Renewal (Some ErrEOF), SawActive True, Renewal None]
     \<and> path_lost [SawServer True, SawActive True, Renewal (Some ErrEOF), SawActive True]"
proof -
  let ?xs = "[SawServer True, SawActive True, Renewal (Some ErrEOF), SawActive True]"
  have "case run_acts tc_exec timeout_acts (tc_start 1000000 0) of None \<Rightarrow> False
      | Some va \<Rightarrow> (case run_acts recon_exec recon_demo_acts (recon_demo va) of None \<Rightarrow> False | Some s \<Rightarrow> rx_log s = ?xs @ [Renewal None])"
    by code_simp
  then obtain va s where s: "run_acts tc_exec timeout_acts (tc_start 1000000 0) = Some va"
    "run_acts recon_exec recon_demo_acts (recon_demo va) = Some s" "rx_log s = ?xs @ Renewal None # []" by (auto split: option.splits)
  from reconnect_only_when_lost [OF s(2) [unfolded recon_demo_def], THEN conjunct1, rule_format, OF s(3)] s show ?thesis by auto
qed

text \<open>
  C40. Closing the client does not always end that goroutine. If the client is closed, and with it both checkers, at
  a moment when the heartbeat is in timeout but the packets of the server are not, while the goroutine waits for the
  one or the other to change, it goes on waiting for ever: neither of its two waiting loops looks whether the client is
  closed, and the checkers never change again.
\<close>

theorem closed_client_keeps_waiting:
  assumes "rx_closed s" "sys_hpc (rx_server s) = HDone" "sys_hpc (rx_active s) = HDone"
    and "isTimeout (sys_tc (rx_active s))" "\<not> isTimeout (sys_tc (rx_server s))"
    and "rc_pc (rx_rc s) \<in> {RcServer, RcTransient, RcRenewed, RcDropped}"
    and "run_acts recon_exec acts s = Some s'"
  shows "\<forall>why. rc_pc (rx_rc s') \<noteq> RcReturn why"
proof -
  have "spinning s" using assms(1-6) by (simp add: spinning_def)
  from spinnings.run_inv [OF this assms(7)] show ?thesis by (auto simp: spinning_def)
qed

definition spin_acts :: "recon_act list" where
  "spin_acts = map RxActive timeout_acts @ [RxStep None None, RxClose, RxServer AClose, RxServer (AHandle CaseClose), RxActive AClose,
     RxActive (AHandle CaseClose)]"

theorem closed_client_keeps_waiting_witness:
  "\<exists>s s'. run_acts recon_exec spin_acts (recon_demo (tc_start 1000000 0)) = Some s \<and> rx_closed s
     \<and> run_acts recon_exec (replicate 7 (RxStep None None)) s = Some s' \<and> (\<forall>why. rc_pc (rx_rc s') \<noteq> RcReturn why)"
proof -
  have "case run_acts recon_exec spin_acts (recon_demo (tc_start 1000000 0)) of None \<Rightarrow> False
      | Some s \<Rightarrow> rx_closed s \<and> sys_hpc (rx_server s) = HDone \<and> sys_hpc (rx_active s) = HDone \<and> isTimeout (sys_tc (rx_active s))
          \<and> \<not> isTimeout (sys_tc (rx_server s)) \<and> rc_pc (rx_rc s) = RcTransient
          \<and> run_acts recon_exec (replicate 7 (RxStep None None)) s \<noteq> None" by code_simp
  then obtain s s' where s: "run_acts recon_exec spin_acts (recon_demo (tc_start 1000000 0)) = Some s" "rx_closed s"
    "sys_hpc (rx_server s) = HDone" "sys_hpc (rx_active s) = HDone" "isTimeout (sys_tc (rx_active s))"
    "\<not> isTimeout (sys_tc (rx_server s))" "rc_pc (rx_rc s) = RcTransient" "run_acts recon_exec (replicate 7 (RxStep None None)) s = Some s'"
    by (auto split: option.splits)
  from closed_client_keeps_waiting [OF s(2-6) _ s(8)] s show ?thesis by auto
qed

end
