(* ===== verification/SessionStart.thy ===== *)
theory SessionStart
  imports Sessions ServerStreams SshdConfig Forward
begin

text \<open>
  Starting a session on the server (\<open>session.go\<close>): the environment and the command line of the command, the
  X11 and agent requests of the session (with the decisions of \<open>Forward\<close>), the message of the day, the streams for standard error, and the whole handler of a session stream, which starts a
  session or attaches to one. The sessions themselves are those of \<open>Sessions\<close>; what the operating system answers
  is a parameter.
\<close>

section \<open>The environment\<close>

definition kEnvTsshdBackground :: string where "kEnvTsshdBackground = ''TRZSZ-SSHD-BACKGROUND''"

text \<open>
  \<open>AcceptEnv\<close> split into patterns by \<open>shlex\<close> becomes an alternation of groups: it matches when one of the groups
  does. There is none when the setting is empty, cannot be split or has no pattern.
\<close>

definition acceptEnv_patterns :: "(string \<Rightarrow> string list result) \<Rightarrow> sshd_conf \<Rightarrow> string list" where
  "acceptEnv_patterns shlex_Split conf =
     (let acceptEnv = getSshdConfig conf ''AcceptEnv''
      in if acceptEnv = [] then []
         else (case shlex_Split acceptEnv of Inl e \<Rightarrow> [] | Inr patterns \<Rightarrow> patterns))"

definition env_accepted :: "string list \<Rightarrow> string \<Rightarrow> bool" where
  "env_accepted patterns name \<longleftrightarrow> name = ''TERM'' \<or> list_ex (\<lambda>p. wildcardMatch p name) patterns"

definition env_entry :: "string \<times> string \<Rightarrow> string" where
  "env_entry nv = fst nv @ ''='' @ snd nv"

text \<open>The name in an entry of \<open>os.Environ\<close>; \<open>None\<close> where there is no name before the equals sign.\<close>

definition environ_name :: "string \<Rightarrow> string option" where
  "environ_name env =
     (case index_elem env (CHR ''='') of
        None \<Rightarrow> None
      | Some pos \<Rightarrow> if pos = 0 then None else Some (trim_space (take pos env)))"

text \<open>\<open>envs\<close> are the variables of the message in the order the map yields them.\<close>

definition getEnvironments :: "(string \<Rightarrow> string list result) \<Rightarrow> sshd_conf \<Rightarrow> string list \<Rightarrow> (string \<times> string) list \<Rightarrow> string list" where
  "getEnvironments shlex_Split conf environ envs =
     (let patterns = acceptEnv_patterns shlex_Split conf;
          accepted = filter (\<lambda>nv. env_accepted patterns (fst nv)) envs
      in map env_entry accepted
         @ filter (\<lambda>env. case environ_name env of
               None \<Rightarrow> False
             | Some name \<Rightarrow> name \<noteq> kEnvTsshdBackground \<and> name \<notin> set (map fst accepted)) environ)"

section \<open>The command\<close>

record x11_request =
  xr_protocol :: string
  xr_cookie :: string
  xr_screen :: nat

record start_request =
  rq_start :: startMessage
  rq_attach :: bool
  rq_errID :: u64
  rq_shell :: bool
  rq_name :: string
  rq_args :: "string list"
  rq_envs :: "(string \<times> string) list"
  rq_subs :: string
  rq_x11 :: "x11_request option"
  rq_agent :: bool

text \<open>
  What the command line depends on: the split functions, the path of the configuration, \<open>exec.LookPath\<close>,
  \<open>shellescape.Quote\<close>, the user's shell and whether this is Windows.
\<close>

record start_host =
  sh_split :: "string \<Rightarrow> string list result"
  sh_confPath :: string
  sh_lookPath :: "string \<Rightarrow> bool"
  sh_quote :: "string \<Rightarrow> string"
  sh_shell :: "string result"
  sh_windows :: bool

record exec_cmd =
  x_path :: string
  x_argv :: "string list"
  x_env :: "string list option"

text \<open>White space of the regular expression \<open>\s\<close>.\<close>

definition re_space :: "char \<Rightarrow> bool" where
  "re_space c \<longleftrightarrow> c \<in> {CHR 0x09, CHR 0x0A, CHR 0x0C, CHR 0x0D, CHR '' ''}"

definition needs_shell :: "start_host \<Rightarrow> string \<Rightarrow> string list \<Rightarrow> bool" where
  "needs_shell h name args \<longleftrightarrow> name = ''cd'' \<or> \<not> sh_lookPath h name \<or> list_ex (\<lambda>a. has_prefix a ''~/'') args"

definition shell_line :: "start_host \<Rightarrow> string \<Rightarrow> string list \<Rightarrow> string" where
  "shell_line h name args = name @ concat (map (\<lambda>a. '' '' @ (if list_ex re_space a then sh_quote h a else a)) args)"

text \<open>\<open>filepath.Base\<close>.\<close>

definition base_name :: "string \<Rightarrow> string" where
  "base_name path =
     (if path = [] then ''.''
      else let p = rev (dropWhile (\<lambda>c. c = CHR ''/'') (rev path))
        in if p = [] then ''/'' else rev (takeWhile (\<lambda>c. c \<noteq> CHR ''/'') (rev p)))"

definition getSessionStartCmd :: "start_host \<Rightarrow> sshd_conf \<Rightarrow> string list \<Rightarrow> start_request \<Rightarrow> exec_cmd result" where
  "getSessionStartCmd h conf environ msg =
     (if rq_subs msg \<noteq> [] then
        (case getSubsystemCmd (sh_split h) (sh_confPath h) conf (rq_subs msg) of
           Inl e \<Rightarrow> Inl e
         | Inr (name, args) \<Rightarrow> Inr \<lparr>x_path = name, x_argv = name # args, x_env = None\<rparr>)
      else
        let envs = getEnvironments (sh_split h) conf environ (rq_envs msg)
        in if \<not> rq_shell msg then
             (let (name, args) =
                (if needs_shell h (rq_name msg) (rq_args msg)
                 then (if sh_windows h then (''cmd'', [''/c'', shell_line h (rq_name msg) (rq_args msg)])
                       else (''sh'', [''-c'', shell_line h (rq_name msg) (rq_args msg)]))
                 else (rq_name msg, rq_args msg))
              in Inr \<lparr>x_path = name, x_argv = name # args, x_env = Some envs\<rparr>)
           else (case sh_shell h of
               Inl e \<Rightarrow> Inl (ErrFlat ''get user shell failed'' e)
             | Inr shell \<Rightarrow>
                 Inr \<lparr>x_path = shell, x_argv = (if sh_windows h then [shell] else [''-'' @ base_name shell]), x_env = Some envs\<rparr>))"

text \<open>
  Appending to \<open>cmd.Env\<close>. A command without environment of its own inherits that of the server; once something is
  appended it has an environment, which then consists of just that. Of several entries for a variable the last one counts.
\<close>

definition add_env :: "string list \<Rightarrow> exec_cmd \<Rightarrow> exec_cmd" where
  "add_env es cmd = (if es = [] then cmd else cmd\<lparr>x_env := Some ((case x_env cmd of None \<Rightarrow> [] | Some l \<Rightarrow> l) @ es)\<rparr>)"


definition env_lookup :: "string list \<Rightarrow> string \<Rightarrow> string option" where
  "env_lookup es name =
     (case rev (filter (\<lambda>e. has_prefix e (name @ ''='')) es) of [] \<Rightarrow> None | e # _ \<Rightarrow> Some (drop (Suc (length name)) e))"

section \<open>The message of the day\<close>

text \<open>The lines of a file that end in a newline; what follows the last newline is not a line.\<close>

fun motd_lines :: "bytes \<Rightarrow> bytes \<Rightarrow> bytes list" where
  "motd_lines acc [] = []"
| "motd_lines acc (b # bs) = (if b = 0x0A then (acc @ [b]) # motd_lines [] bs else motd_lines (acc @ [b]) bs)"

definition motd_line :: "bytes \<Rightarrow> bytes" where
  "motd_line line =
     (if length line \<le> 1 then [0x0D, 0x0A]
      else if line ! (length line - 2) \<noteq> 0x0D then take (length line - 1) line @ [0x0D, 0x0A]
      else line)"

text \<open>\<open>file path\<close> is the content of a file that can be opened. Only the first of the paths is printed.\<close>

fun printMotd :: "(string \<Rightarrow> bytes option) \<Rightarrow> string list \<Rightarrow> bytes" where
  "printMotd file [] = []"
| "printMotd file (path # paths) =
     (case file path of
        None \<Rightarrow> printMotd file paths
      | Some content \<Rightarrow> concat (map motd_line (motd_lines [] content)))"

definition showMotd :: "(string \<Rightarrow> bytes option) \<Rightarrow> bytes" where
  "showMotd file = printMotd file [''/run/motd.dynamic'', ''/var/run/motd.dynamic''] @ printMotd file [''/etc/motd'']"

section \<open>The handlers\<close>

datatype start_reply = ReplySuccess | ReplyError int go_error

text \<open>
  The server's sessions with the streams for standard error: \<open>k_stderr\<close> is the map of those that no session has
  taken yet, \<open>k_ended\<close> those that were ended. \<open>k_listeners\<close> and \<open>k_agents\<close> are the X11 listeners and the agent sockets that are
  open, \<open>k_xauth\<close> the entries for displays; the code removes all three when the process exits and not before. \<open>k_cmds\<close> are the
  commands that were started and \<open>k_output\<close> what was written to a session's stream before its output.
\<close>

record start_sys =
  k_sys :: sess_sys
  k_stderr :: "u64 \<Rightarrow> nat option"
  k_ended :: "nat list"
  k_listeners :: "(string \<times> nat) list"
  k_agents :: "string list"
  k_xauth :: "(string \<times> string \<times> string) list"
  k_cmds :: "(u64 \<times> exec_cmd) list"
  k_output :: "(u64 \<times> bytes) list"

definition handleStderrEvent :: "u64 result \<Rightarrow> nat \<Rightarrow> go_error option \<Rightarrow> start_sys \<Rightarrow> start_sys \<times> start_reply list" where
  "handleStderrEvent recv stream ackErr s =
     (case recv of
        Inl e \<Rightarrow> (s, [ReplyError 0 (ErrFlat ''recv stderr message failed'' e)])
      | Inr i \<Rightarrow>
          (case newStderrStream i stream (k_stderr s) of
             Inl e \<Rightarrow> (s, [ReplyError 0 e])
           | Inr m \<Rightarrow> (s\<lparr>k_stderr := m\<rparr>, [ReplySuccess])))"

text \<open>
  What the handler of a session stream meets: the message, whether a middleware handles sessions, the system and the
  configuration the command is built with, what X11 and agent requests meet (whether forwarding is enabled, the host name,
  which networks work and which ports are free, \<open>xauth\<close>, the socket for an agent), starting the command, sending the
  acknowledgement, redrawing the screen when attaching, whether standard error is separate, and the files with the message of the day.
\<close>

record start_env =
  st_recv :: "start_request result"
  st_mw :: bool
  st_host :: start_host
  st_conf :: sshd_conf
  st_environ :: "string list"
  st_forwardings :: bool
  st_hostname :: string
  st_ok4 :: bool
  st_ok6 :: bool
  st_can :: "string \<Rightarrow> nat \<Rightarrow> bool"
  st_xauth :: "go_error option"
  st_agent :: "string result"
  st_start :: "go_error option"
  st_ack :: "go_error option"
  st_resize :: "go_error option"
  st_stderr :: bool
  st_motd :: "string \<Rightarrow> bytes option"

definition x11_granted :: "start_env \<Rightarrow> start_request \<Rightarrow> ((string \<times> nat) list \<times> string \<times> string) option" where
  "x11_granted e msg =
     (case rq_x11 msg of
        None \<Rightarrow> None
      | Some x \<Rightarrow> handleX11Request (st_forwardings e) (st_conf e) (st_hostname e) (st_ok4 e) (st_ok6 e) (st_can e) (xr_screen x))"

text \<open>The two requests of a session, with what they add to the environment.\<close>

definition session_x11 :: "start_env \<Rightarrow> start_request \<Rightarrow> start_sys \<Rightarrow> start_sys \<times> string list" where
  "session_x11 e msg s =
     (case x11_granted e msg of
        None \<Rightarrow> (s, [])
      | Some (ls, display, auth) \<Rightarrow>
          (s\<lparr>k_listeners := k_listeners s @ ls,
             k_xauth := (case (st_xauth e, rq_x11 msg) of
                 (None, Some x) \<Rightarrow> filter (\<lambda>a. fst a \<noteq> auth) (k_xauth s) @ [(auth, xr_protocol x, xr_cookie x)]
               | _ \<Rightarrow> k_xauth s)\<rparr>,
           [''DISPLAY='' @ display]))"

definition agent_granted :: "start_env \<Rightarrow> start_request \<Rightarrow> string option" where
  "agent_granted e msg = (if rq_agent msg then handleAgentRequest (st_forwardings e) (st_conf e) (st_agent e) else None)"

definition session_agent :: "start_env \<Rightarrow> start_request \<Rightarrow> start_sys \<Rightarrow> start_sys \<times> string list" where
  "session_agent e msg s =
     (case agent_granted e msg of
        None \<Rightarrow> (s, [])
      | Some agentPath \<Rightarrow> (s\<lparr>k_agents := k_agents s @ [agentPath]\<rparr>, [''SSH_AUTH_SOCK='' @ agentPath]))"

text \<open>
  \<open>attach\<close> runs the two parts of \<open>attachSession\<close> one after the other; its acknowledgement is the reply. Starting
  \<open>start\<close> ends with the goroutine that waits for the command.
\<close>

definition attach_request :: "nat \<Rightarrow> start_env \<Rightarrow> startMessage \<Rightarrow> sess_sys \<Rightarrow> sess_sys \<times> start_reply list" where
  "attach_request v e msg s =
     (case attach_find msg s of
        Inl (code, err) \<Rightarrow> (s, [ReplyError code (ErrFlat ''attach to session failed'' err)])
      | Inr x \<Rightarrow>
          (case attach_locked (st_ack e) (st_resize e) v msg x s of
             (s1, Some err) \<Rightarrow> (s1, [ReplyError 0 (ErrFlat ''attach to session failed'' err)])
           | (s1, None) \<Rightarrow> (cancellableWait x s1, [ReplySuccess])))"

text \<open>The command of a request; a middleware session has none.\<close>

definition request_cmd :: "start_env \<Rightarrow> start_request \<Rightarrow> exec_cmd option result" where
  "request_cmd e msg =
     (if st_mw e then Inr None
      else (case getSessionStartCmd (st_host e) (st_conf e) (st_environ e) msg of
          Inl err \<Rightarrow> Inl (ErrFlat ''build start command failed'' err)
        | Inr cmd \<Rightarrow> Inr (Some cmd)))"

text \<open>The handler from the new session on.\<close>

definition run_session :: "nat \<Rightarrow> start_env \<Rightarrow> start_request \<Rightarrow> exec_cmd option \<Rightarrow> nat \<Rightarrow> start_sys \<Rightarrow> start_sys \<times> start_reply list" where
  "run_session v e msg cmd x s =
     (let i = m_id (rq_start msg); (s1, envs1) = session_x11 e msg s; (s2, envs2) = session_agent e msg s1
      in (case st_start e of
            Some err \<Rightarrow> (s2\<lparr>k_sys := session_Close x (k_sys s2)\<rparr>, [ReplyError 0 err])
          | None \<Rightarrow>
              let s3 = s2\<lparr>k_sys := (if \<not> st_mw e \<and> m_pty (rq_start msg) then upd_sess x StartPty (k_sys s2) else k_sys s2),
                          k_cmds := k_cmds s2 @ (case cmd of None \<Rightarrow> [] | Some c \<Rightarrow> [(i, add_env (envs1 @ envs2) c)])\<rparr>
              in (case st_ack e of
                    Some err \<Rightarrow> (s3\<lparr>k_sys := session_Close x (k_sys s3)\<rparr>, [])
                  | None \<Rightarrow>
                      let sys = upd_sess x (forwardIO (g_attachable (k_sys s3)) v (st_stderr e)) (k_sys s3)
                      in (s3\<lparr>k_output := k_output s3 @ (if \<not> st_mw e \<and> rq_shell msg then [(i, showMotd (st_motd e))] else []),
                             k_sys := (if g_attachable sys then cancellableWait x sys else session_Close x sys)\<rparr>,
                          [ReplySuccess]))))"

definition start_request_new :: "nat \<Rightarrow> start_env \<Rightarrow> start_request \<Rightarrow> start_sys \<Rightarrow> start_sys \<times> start_reply list" where
  "start_request_new v e msg s =
     (case request_cmd e msg of
        Inl err \<Rightarrow> (s, [ReplyError 0 err])
      | Inr cmd \<Rightarrow>
          (case newSessionContext (st_mw e) v (rq_start msg) (k_sys s) of
             (sys, Inl err) \<Rightarrow> (s\<lparr>k_sys := sys\<rparr>, [ReplyError 0 err])
           | (sys, Inr x) \<Rightarrow> run_session v e msg cmd x (s\<lparr>k_sys := sys\<rparr>)))"

definition handleSessionEvent :: "nat \<Rightarrow> start_env \<Rightarrow> start_sys \<Rightarrow> start_sys \<times> start_reply list" where
  "handleSessionEvent v e s =
     (case st_recv e of
        Inl err \<Rightarrow> (s, [ReplyError 0 (ErrFlat ''recv start message failed'' err)])
      | Inr msg \<Rightarrow>
          let errID = (if rq_attach msg then rq_errID msg else m_id (rq_start msg));
              (es, m) = takeStderrStream errID (k_stderr s);
              s1 = s\<lparr>k_stderr := m\<rparr>;
              (s2, reply) = (if rq_attach msg
                then (case attach_request v e (rq_start msg) (k_sys s1) of (sys, r) \<Rightarrow> (s1\<lparr>k_sys := sys\<rparr>, r))
                else start_request_new v e msg s1)
          in (s2\<lparr>k_ended := (case es of None \<Rightarrow> k_ended s2 | Some st \<Rightarrow> st # k_ended s2)\<rparr>, reply))"

section \<open>Lemmas\<close>

lemma motd_lines_unterminated: "0x0A \<notin> set bs \<Longrightarrow> motd_lines acc bs = []"
  by (induction bs arbitrary: acc) auto

lemma motd_lines_append: "motd_lines acc (a @ 0x0A # b) = motd_lines acc (a @ [0x0A]) @ motd_lines [] b"
  by (induction a arbitrary: acc) auto

text \<open>The last line of a message of the day that does not end in a newline is not shown.\<close>

lemma motd_last_line_lost:
  assumes "file ''/etc/motd'' = Some (a @ 0x0A # b)" "0x0A \<notin> set b"
  shows "showMotd file = showMotd (file(''/etc/motd'' := Some (a @ [0x0A])))"
  using assms by (simp add: showMotd_def motd_lines_append [of "[]" a b] motd_lines_unterminated split: option.splits)

lemma upd_sess_map [simp]: "g_map (upd_sess x f s) = g_map s"
  by (simp add: upd_sess_def)

lemma cancellableWait_map [simp]: "g_map (cancellableWait x s) = g_map s"
  by (simp add: cancellableWait_def Let_def split: option.splits)

text \<open>Closing the session that was just added makes its number free again.\<close>

lemma new_session_closed:
  assumes "newSessionContext mw v msg s = (s1, Inr x)" "g_map s2 = g_map s1" "g_sessions s2 ! x = f (g_sessions s1 ! x)"
    and "\<And>se. s_closed (f se) = s_closed se" "\<And>se. s_id (f se) = s_id se"
  shows "g_map (session_Close x s2) = g_map s"
  using assms by (auto simp: newSessionContext_def session_Close_def new_session_def Let_def fun_upd_idem split: if_splits)

text \<open>What the two requests change.\<close>

lemma requests_state:
  assumes "session_x11 e msg s = (s1, envs1)" "session_agent e msg s1 = (s2, envs2)"
  shows "k_sys s2 = k_sys s" "k_stderr s2 = k_stderr s" "k_ended s2 = k_ended s" "k_cmds s2 = k_cmds s"
    and "k_listeners s2 = k_listeners s @ (case x11_granted e msg of None \<Rightarrow> [] | Some g \<Rightarrow> fst g)"
    and "k_agents s2 = k_agents s @ (case agent_granted e msg of None \<Rightarrow> [] | Some path \<Rightarrow> [path])"
    and "envs1 = (case x11_granted e msg of None \<Rightarrow> [] | Some g \<Rightarrow> [''DISPLAY='' @ fst (snd g)])"
    and "envs2 = (case agent_granted e msg of None \<Rightarrow> [] | Some path \<Rightarrow> [''SSH_AUTH_SOCK='' @ path])"
  using assms by (auto simp: session_x11_def session_agent_def split: option.splits)

lemma newSessionContext_added:
  assumes "newSessionContext mw v msg s = (s1, Inr x)"
  shows "x = length (g_sessions s)" "g_map s (m_id msg) = None" "g_attachable s1 = g_attachable s"
    "g_map s1 = (g_map s)(m_id msg := Some x)" "x < length (g_sessions s1)"
  using assms by (auto simp: newSessionContext_def Let_def split: if_splits)

lemma run_session_state:
  assumes n: "newSessionContext (st_mw e) v (rq_start msg) sys0 = (k_sys s, Inr x)" and r: "run_session v e msg cmd x s = (s', rs)"
  shows "length rs \<le> 1" "rs = [] \<Longrightarrow> st_ack e \<noteq> None" "rs \<noteq> [ReplySuccess] \<Longrightarrow> g_map (k_sys s') = g_map sys0"
    and "rs = [ReplySuccess] \<Longrightarrow> g_attachable sys0 \<Longrightarrow> g_map (k_sys s') = (g_map sys0)(m_id (rq_start msg) := Some (length (g_sessions sys0)))"
    and "k_stderr s' = k_stderr s" "k_ended s' = k_ended s"
    and "k_listeners s' = k_listeners s @ (case x11_granted e msg of None \<Rightarrow> [] | Some g \<Rightarrow> fst g)"
    and "k_agents s' = k_agents s @ (case agent_granted e msg of None \<Rightarrow> [] | Some path \<Rightarrow> [path])"
proof -
  note x = newSessionContext_added(1,3-5) [OF n]
  obtain s1 envs1 s2 envs2 where q: "session_x11 e msg s = (s1, envs1)" "session_agent e msg s1 = (s2, envs2)" by fastforce
  note q' = requests_state [OF q]
  define sys2 where "sys2 = (if \<not> st_mw e \<and> m_pty (rq_start msg) then upd_sess x StartPty (k_sys s) else k_sys s)"
  have s2: "g_map sys2 = g_map (k_sys s)" "g_attachable sys2 = g_attachable sys0" by (simp_all add: sys2_def upd_sess_def x(2))
  have c1: "g_map (session_Close x (k_sys s)) = g_map sys0" using new_session_closed [OF n, of "k_sys s" "\<lambda>se. se"] by simp
  have c2: "g_map (session_Close x sys2) = g_map sys0"
    using new_session_closed [OF n s2(1), of "if \<not> st_mw e \<and> m_pty (rq_start msg) then StartPty else (\<lambda>se. se)"] x(4)
    by (simp add: sys2_def upd_sess_def StartPty_def split: if_splits)
  note all = r [unfolded run_session_def Let_def q prod.case q'(1) sys2_def [symmetric]]
  show "length rs \<le> 1" "rs = [] \<Longrightarrow> st_ack e \<noteq> None" using all by (auto split: option.splits)
  show "rs \<noteq> [ReplySuccess] \<Longrightarrow> g_map (k_sys s') = g_map sys0" using all c1 c2 by (auto split: option.splits)
  show "rs = [ReplySuccess] \<Longrightarrow> g_attachable sys0 \<Longrightarrow> g_map (k_sys s') = (g_map sys0)(m_id (rq_start msg) := Some (length (g_sessions sys0)))"
    using all s2 x by (auto simp: upd_sess_def split: option.splits if_splits)
  show "k_stderr s' = k_stderr s" "k_ended s' = k_ended s"
    "k_listeners s' = k_listeners s @ (case x11_granted e msg of None \<Rightarrow> [] | Some g \<Rightarrow> fst g)"
    "k_agents s' = k_agents s @ (case agent_granted e msg of None \<Rightarrow> [] | Some path \<Rightarrow> [path])"
    using all q'(2,3,5,6) by (auto split: option.splits)
qed



lemma env_lookup_Nil [simp]: "env_lookup [] name = None"
  by (simp add: env_lookup_def)









section \<open>Properties\<close>


definition demo_conf :: sshd_conf where
  "demo_conf = \<lparr>sshdConfigMap = [''acceptenv'' \<mapsto> ''LANG LC_*''], sshdSubsystemMap = Map.empty\<rparr>"

definition split_blanks :: "string \<Rightarrow> string list result" where
  "split_blanks s = Inr (split_char (CHR '' '') s)"

definition demo_request :: start_request where
  "demo_request = \<lparr>rq_start = \<lparr>m_id = 4, m_pty = True, m_cols = 80, m_rows = 24\<rparr>, rq_attach = False, rq_errID = 0, rq_shell = True, rq_name = [],
     rq_args = [], rq_envs = [(''LANG'', ''de''), (''LD_PRELOAD'', ''x'')], rq_subs = [], rq_x11 = None, rq_agent = True\<rparr>"

definition demo_start_sys :: start_sys where
  "demo_start_sys = \<lparr>k_sys = (sess_init True True None)\<lparr>g_active := Some 0\<rparr>, k_stderr = [4 \<mapsto> 9], k_ended = [], k_listeners = [], k_agents = [],
     k_xauth = [], k_cmds = [], k_output = []\<rparr>"

definition demo_start_env :: "go_error option \<Rightarrow> start_env" where
  "demo_start_env err = \<lparr>st_recv = Inr demo_request, st_mw = False,
     st_host = \<lparr>sh_split = split_blanks, sh_confPath = [], sh_lookPath = (\<lambda>_. True), sh_quote = (\<lambda>s. s), sh_shell = Inr ''/bin/sh'', sh_windows = False\<rparr>,
     st_conf = demo_conf, st_environ = [''LANG=C'', ''PATH=/bin''], st_forwardings = True, st_hostname = [], st_ok4 = True, st_ok6 = False,
     st_can = (\<lambda>_ _. True), st_xauth = None, st_agent = Inr ''/run/agent'', st_start = err, st_ack = None, st_resize = None, st_stderr = False,
     st_motd = (\<lambda>_. None)\<rparr>"


text \<open>
  C21. A request to start a session is answered at most once, and what it leaves behind is known. The handler
  replies exactly once unless the acknowledgement itself could not be sent; if it did not report success, the
  table of sessions is as before, whether the command could not be built, the number was taken, the command did not
  start or the acknowledgement failed; after success on an attachable server the new session is in it under its number. The stream for
  standard error of that number is taken and ended in every case. The X11 listeners and the agent socket that the request was
  granted are open afterwards whether the command started or not; none are opened if the command could not be built or the number was taken.
\<close>

theorem start_request_answered:
  assumes "handleSessionEvent v e s = (s', rs)" "st_recv e = Inr msg" "\<not> rq_attach msg"
  shows "length rs \<le> 1 \<and> (rs = [] \<longrightarrow> st_ack e \<noteq> None) \<and> (rs \<noteq> [ReplySuccess] \<longrightarrow> g_map (k_sys s') = g_map (k_sys s))
    \<and> (rs = [ReplySuccess] \<and> g_attachable (k_sys s) \<longrightarrow>
         g_map (k_sys s) (m_id (rq_start msg)) = None \<and> g_map (k_sys s') = (g_map (k_sys s))(m_id (rq_start msg) := Some (length (g_sessions (k_sys s)))))
    \<and> k_stderr s' (m_id (rq_start msg)) = None
    \<and> (\<forall>st. k_stderr s (m_id (rq_start msg)) = Some st \<longrightarrow> st \<in> set (k_ended s'))
    \<and> (if (\<exists>cmd. request_cmd e msg = Inr cmd) \<and> g_map (k_sys s) (m_id (rq_start msg)) = None
       then k_listeners s' = k_listeners s @ (case x11_granted e msg of None \<Rightarrow> [] | Some g \<Rightarrow> fst g)
         \<and> k_agents s' = k_agents s @ (case agent_granted e msg of None \<Rightarrow> [] | Some path \<Rightarrow> [path])
       else k_listeners s' = k_listeners s \<and> k_agents s' = k_agents s)"
proof -
  obtain es m where t: "takeStderrStream (m_id (rq_start msg)) (k_stderr s) = (es, m)" by fastforce
  obtain s0 where s0: "start_request_new v e msg (s\<lparr>k_stderr := m\<rparr>) = (s0, rs)" and s': "s' = s0\<lparr>k_ended := (case es of None \<Rightarrow> k_ended s0 | Some st \<Rightarrow> st # k_ended s0)\<rparr>"
    using assms t by (auto simp: handleSessionEvent_def Let_def split: prod.splits)
  have m: "m (m_id (rq_start msg)) = None" "es = k_stderr s (m_id (rq_start msg))" using t by (auto simp: takeStderrStream_def split: option.splits)
  show ?thesis
  proof (cases "(\<exists>cmd. request_cmd e msg = Inr cmd) \<and> g_map (k_sys s) (m_id (rq_start msg)) = None")
    case True
    then obtain cmd sys x where n: "request_cmd e msg = Inr cmd" "newSessionContext (st_mw e) v (rq_start msg) (k_sys s) = (sys, Inr x)"
      by (auto simp: newSessionContext_def Let_def)
    with s0 have "run_session v e msg cmd x (s\<lparr>k_stderr := m, k_sys := sys\<rparr>) = (s0, rs)" by (simp add: start_request_new_def)
    from run_session_state [of e v msg "k_sys s" "s\<lparr>k_stderr := m, k_sys := sys\<rparr>" x cmd s0 rs] n this True m show ?thesis
      unfolding s' by (auto split: option.splits)
  next
    case False
    have "k_stderr s0 = m \<and> k_ended s0 = k_ended s \<and> k_listeners s0 = k_listeners s \<and> k_agents s0 = k_agents s \<and> k_sys s0 = k_sys s
        \<and> (\<exists>err. rs = [ReplyError 0 err])"
      using False s0 by (auto simp: start_request_new_def newSessionContext_def Let_def split: sum.splits if_splits)
    with False m show ?thesis unfolding s' by (auto split: option.splits)
  qed
qed

theorem start_request_answered_witness:
  "\<exists>s' s'' r. handleSessionEvent 0 (demo_start_env None) demo_start_sys = (s', [ReplySuccess]) \<and> g_map (k_sys s') 4 = Some 0
     \<and> handleSessionEvent 0 (demo_start_env (Some ErrEOF)) demo_start_sys = (s'', [ReplyError 0 r]) \<and> g_map (k_sys s'') 4 = None \<and> 9 \<in> set (k_ended s'')
     \<and> k_agents s'' = [''/run/agent'']"
proof -
  have "snd (handleSessionEvent 0 (demo_start_env None) demo_start_sys) = [ReplySuccess]"
    "snd (handleSessionEvent 0 (demo_start_env (Some ErrEOF)) demo_start_sys) = [ReplyError 0 ErrEOF]" by code_simp+
  then obtain s' s'' where s': "handleSessionEvent 0 (demo_start_env None) demo_start_sys = (s', [ReplySuccess])"
    and s'': "handleSessionEvent 0 (demo_start_env (Some ErrEOF)) demo_start_sys = (s'', [ReplyError 0 ErrEOF])" by (metis prod.collapse)
  have m: "st_recv (demo_start_env err) = Inr demo_request" "\<not> rq_attach demo_request" "m_id (rq_start demo_request) = 4" for err
    by (simp_all add: demo_start_env_def demo_request_def)
  have k: "g_attachable (k_sys demo_start_sys)" "g_map (k_sys demo_start_sys) 4 = None" "g_sessions (k_sys demo_start_sys) = []"
    "k_stderr demo_start_sys 4 = Some 9" "k_agents demo_start_sys = []" by (simp_all add: demo_start_sys_def sess_init_def)
  have "case request_cmd (demo_start_env (Some ErrEOF)) demo_request of Inl _ \<Rightarrow> False | Inr _ \<Rightarrow> True"
    "agent_granted (demo_start_env (Some ErrEOF)) demo_request = Some ''/run/agent''" by code_simp+
  then have c: "\<exists>cmd. request_cmd (demo_start_env (Some ErrEOF)) demo_request = Inr cmd"
    "agent_granted (demo_start_env (Some ErrEOF)) demo_request = Some ''/run/agent''" by (auto split: sum.splits)
  from start_request_answered [OF s' m(1,2)] m(3) k have "g_map (k_sys s') 4 = Some 0" by simp
  moreover from start_request_answered [OF s'' m(1,2)] m(3) k c have "g_map (k_sys s'') 4 = None" "9 \<in> set (k_ended s'')" "k_agents s'' = [''/run/agent'']"
    by auto
  ultimately show ?thesis using s' s'' by blast
qed

end
