(* ===== verification/Pacer.thy ===== *)
theory Pacer
  imports Complex_Main Prelude
begin

text \<open>
  The token bucket that paces the output of a KCP connection (\<open>wireRatePacer\<close> of \<open>output.go\<close>). Times are in
  nanoseconds, as \<open>time.Duration\<close> has them, and sleeping is cut to whole nanoseconds; the floating point
  numbers of the source are rational numbers here, so rounding of floating point arithmetic is not modelled.
\<close>

section \<open>The bucket\<close>

definition kWireAmpEstimate :: rat where "kWireAmpEstimate = 26 / 10"

definition kPacerTokenInterval :: int where "kPacerTokenInterval = 100000000"

definition kPacerMaxSleep :: int where "kPacerMaxSleep = 1000000000"

text \<open>\<open>Seconds\<close> of a duration.\<close>

definition Seconds :: "int \<Rightarrow> rat" where "Seconds d = of_int d / 1000000000"

record wireRatePacer =
  p_rate :: rat
  p_burst :: rat
  p_tok :: rat
  p_last :: "int option"

definition newWireRatePacer :: "u64 \<Rightarrow> wireRatePacer option" where
  "newWireRatePacer wireRateBPS =
     (if wireRateBPS = 0 then None
      else let rate = of_nat (unat wireRateBPS) / kWireAmpEstimate
        in Some \<lparr>p_rate = rate, p_burst = rate * Seconds kPacerTokenInterval, p_tok = 0, p_last = None\<rparr>)"

text \<open>
  The slices in which the debt is slept off: \<open>over k\<close> is by how much the sleep number \<open>k\<close> is too long. The
  result has the tokens and the time at the end. The nanoseconds of a debt are an unbounded integer here; the code
  converts them to 64 bits before it takes the minimum, which differs only for debts of more than 290 years.
\<close>

definition debt_sleep :: "rat \<Rightarrow> rat \<Rightarrow> int" where
  "debt_sleep rate deficit = min \<lfloor>deficit / rate * 1000000000\<rfloor> kPacerMaxSleep"

partial_function (option) pay_debt :: "rat \<Rightarrow> (nat \<Rightarrow> nat) \<Rightarrow> nat \<Rightarrow> rat \<Rightarrow> int \<Rightarrow> (rat \<times> int) option" where
  "pay_debt rate over k tok now =
     (if tok < - 1 / 2 then
        let deficit = - tok; sleep = debt_sleep rate deficit; paid = Seconds sleep * rate
        in pay_debt rate over (Suc k) (tok + min paid deficit) (now + sleep + int (over k))
      else Some (tok, now))"

declare pay_debt.simps [code]

text \<open>
  \<open>wait\<close>: the bucket after it and the time at which it returns. \<open>None\<close> means that it does not return.
\<close>

definition pacer_accrue :: "int \<Rightarrow> wireRatePacer \<Rightarrow> rat" where
  "pacer_accrue now p =
     (case p_last p of
        None \<Rightarrow> p_burst p
      | Some t0 \<Rightarrow> min (p_tok p + Seconds (now - t0) * p_rate p) (p_burst p))"

definition pacer_wait :: "int \<Rightarrow> (nat \<Rightarrow> nat) \<Rightarrow> int \<Rightarrow> wireRatePacer option \<Rightarrow> (wireRatePacer option \<times> int) option" where
  "pacer_wait n over now pacer =
     (case pacer of
        None \<Rightarrow> Some (None, now)
      | Some p \<Rightarrow>
          if n \<le> 0 then Some (Some p, now)
          else (case pay_debt (p_rate p) over 0 (pacer_accrue now p - of_int n) now of
              None \<Rightarrow> None
            | Some (tok, now') \<Rightarrow> Some (Some (p\<lparr>p_tok := max 0 tok, p_last := Some now'\<rparr>), now')))"

text \<open>
  The writers of a connection, one after the other because of the mutex: each waits before it writes its bytes.
  The result lists the bytes and the times at which they are released. A writer gets the mutex at least \<open>idle\<close>
  nanoseconds after the one before.
\<close>

fun release_all :: "(int \<times> nat \<times> (nat \<Rightarrow> nat)) list \<Rightarrow> int \<Rightarrow> wireRatePacer \<Rightarrow> (int \<times> int) list option" where
  "release_all [] now p = Some []"
| "release_all ((n, idle, over) # ws) now p =
     (case pacer_wait n over (now + int idle) (Some p) of
        Some (Some p', now') \<Rightarrow> map_option (Cons (n, now')) (release_all ws now' p')
      | _ \<Rightarrow> None)"

section \<open>Lemmas\<close>

lemma debt_sleep_bounds:
  assumes "0 < rate" "rate \<le> 500000000" "1 / 2 < deficit"
  shows "0 < debt_sleep rate deficit" "Seconds (debt_sleep rate deficit) * rate \<le> deficit"
    "debt_sleep rate deficit = kPacerMaxSleep \<or> deficit - Seconds (debt_sleep rate deficit) * rate \<le> 1 / 2"
proof -
  define x where "x = deficit / rate * 1000000000"
  have x: "deficit = x * rate / 1000000000" using assms(1) by (simp add: x_def)
  have "rate \<le> x * rate" using assms(2,3) x by simp
  then have x1: "1 \<le> x" using assms(1) by (simp add: mult_le_cancel_right1)
  have f: "1 \<le> \<lfloor>x\<rfloor>" "of_int \<lfloor>x\<rfloor> \<le> x" "x < of_int \<lfloor>x\<rfloor> + 1" using x1 floor_correct [of x] by (simp_all add: le_floor_iff)
  have d: "debt_sleep rate deficit = min \<lfloor>x\<rfloor> kPacerMaxSleep" by (simp add: debt_sleep_def x_def)
  show "0 < debt_sleep rate deficit" using f(1) by (simp add: d kPacerMaxSleep_def)
  have "debt_sleep rate deficit \<le> \<lfloor>x\<rfloor>" by (simp add: d)
  then have "of_int (debt_sleep rate deficit) \<le> x" using f(2) by (meson of_int_le_iff order_trans)
  then have "of_int (debt_sleep rate deficit) * rate \<le> deficit * 1000000000" using assms(1) by (simp add: x_def pos_le_divide_eq)
  then show "Seconds (debt_sleep rate deficit) * rate \<le> deficit" by (simp add: Seconds_def)
  show "debt_sleep rate deficit = kPacerMaxSleep \<or> deficit - Seconds (debt_sleep rate deficit) * rate \<le> 1 / 2"
  proof (cases "debt_sleep rate deficit = \<lfloor>x\<rfloor>")
    case True
    have "(x - of_int \<lfloor>x\<rfloor>) * rate \<le> 1 * 500000000" using f(3) f(2) assms by (intro mult_mono) auto
    moreover have "x * rate = deficit * 1000000000" using assms(1) by (simp add: x_def)
    ultimately have "deficit * 1000000000 - of_int \<lfloor>x\<rfloor> * rate \<le> 500000000" by (simp add: left_diff_distrib)
    then have "deficit - Seconds \<lfloor>x\<rfloor> * rate \<le> 1 / 2" by (simp add: Seconds_def field_simps)
    then show ?thesis unfolding True by simp
  next
    case False
    with d show ?thesis by (auto simp: min_def split: if_splits)
  qed
qed

lemma Seconds_add: "Seconds (a + b) = Seconds a + Seconds b"
  by (simp add: Seconds_def add_divide_distrib)

lemma Seconds_mono: "a \<le> b \<Longrightarrow> Seconds a \<le> Seconds b"
  by (simp add: Seconds_def divide_right_mono)

text \<open>Up to five hundred million bytes a second the debt is paid, and nothing more than the time slept for.\<close>

lemma pay_debt_returns:
  assumes r: "0 < rate" "rate \<le> 500000000"
  shows "- tok \<le> of_nat m * rate + 1 / 2 \<Longrightarrow> \<exists>tok' now'. pay_debt rate over k tok now = Some (tok', now') \<and> - 1 / 2 \<le> tok' \<and> now \<le> now'
    \<and> tok' \<le> tok + Seconds (now' - now) * rate \<and> (tok' = tok \<or> tok' \<le> 0)"
proof (induction m arbitrary: k tok now)
  case 0
  then show ?case by (intro exI [of _ tok] exI [of _ now]) (simp add: pay_debt.simps [of rate over k tok now] Seconds_def)
next
  case (Suc m)
  show ?case
  proof (cases "tok < - 1 / 2")
    case False
    then show ?thesis by (intro exI [of _ tok] exI [of _ now]) (simp add: pay_debt.simps [of rate over k tok now] Seconds_def)
  next
    case True
    let ?s = "debt_sleep rate (- tok)"
    have d: "1 / 2 < - tok" using True by simp
    note b = debt_sleep_bounds [OF r d]
    let ?tok = "tok + Seconds ?s * rate" and ?now = "now + ?s + int (over k)"
    have step: "pay_debt rate over k tok now = pay_debt rate over (Suc k) ?tok ?now"
      using True b(2) by (simp add: pay_debt.simps [of rate over k tok now] Let_def min_def)
    have "- ?tok \<le> of_nat m * rate + 1 / 2"
    proof (cases "?s = kPacerMaxSleep")
      case True
      then have "Seconds ?s = 1" by (simp add: Seconds_def kPacerMaxSleep_def)
      with Suc.prems show ?thesis by (simp add: algebra_simps)
    next
      case False
      with b(3) have "- ?tok \<le> 1 / 2" by simp
      moreover have "0 \<le> of_nat m * rate" using r(1) by simp
      ultimately show ?thesis by linarith
    qed
    from Suc.IH [OF this, of "Suc k" ?now] obtain tok' now' where t: "pay_debt rate over (Suc k) ?tok ?now = Some (tok', now')"
      "- 1 / 2 \<le> tok'" "?now \<le> now'" "tok' \<le> ?tok + Seconds (now' - ?now) * rate" "tok' = ?tok \<or> tok' \<le> 0" by blast
    have "Seconds ?s + Seconds (now' - ?now) \<le> Seconds (now' - now)"
      unfolding Seconds_add [symmetric] by (rule Seconds_mono) simp
    then have "(Seconds ?s + Seconds (now' - ?now)) * rate \<le> Seconds (now' - now) * rate" using r(1) by (simp add: mult_right_mono)
    then have "tok' \<le> tok + Seconds (now' - now) * rate" using t(4) by (simp add: algebra_simps)
    moreover have "now \<le> now'" using t(3) b(1) by linarith
    moreover have "tok' \<le> 0" using t(5) b(2) by auto
    ultimately show ?thesis using step t(1,2) by auto
  qed
qed

definition pacer_ok :: "wireRatePacer \<Rightarrow> bool" where
  "pacer_ok p \<longleftrightarrow> 0 < p_rate p \<and> p_rate p \<le> 500000000 \<and> 0 \<le> p_burst p \<and> 0 \<le> p_tok p \<and> p_tok p \<le> p_burst p"

text \<open>One wait: what is released is covered by the tokens and by the time, but for half a byte.\<close>

lemma pacer_wait_step:
  assumes ok: "pacer_ok p" and n: "0 < n" and t: "p_last p = Some t0" "t0 \<le> now"
  shows "\<exists>p' now'. pacer_wait n over now (Some p) = Some (Some p', now') \<and> pacer_ok p' \<and> p_rate p' = p_rate p \<and> p_burst p' = p_burst p
    \<and> p_last p' = Some now' \<and> now \<le> now' \<and> of_int n \<le> p_tok p + Seconds (now' - t0) * p_rate p + 1 / 2 - p_tok p'"
proof -
  let ?r = "p_rate p" and ?tok = "pacer_accrue now p - of_int n"
  have r: "0 < ?r" "?r \<le> 500000000" using ok by (simp_all add: pacer_ok_def)
  obtain m where "- ?tok / ?r < of_nat m" using reals_Archimedean2 by blast
  then have "- ?tok \<le> of_nat m * ?r + 1 / 2" using r(1) by (simp add: pos_divide_less_eq)
  from pay_debt_returns [OF r this, of over 0 now] obtain tok' now' where b: "pay_debt ?r over 0 ?tok now = Some (tok', now')" "- 1 / 2 \<le> tok'"
    "now \<le> now'" "tok' \<le> ?tok + Seconds (now' - now) * ?r" "tok' = ?tok \<or> tok' \<le> 0" by blast
  have acc: "pacer_accrue now p \<le> p_tok p + Seconds (now - t0) * ?r" "pacer_accrue now p \<le> p_burst p" using t(1) by (simp_all add: pacer_accrue_def)
  have "Seconds (now - t0) + Seconds (now' - now) = Seconds (now' - t0)" unfolding Seconds_add [symmetric] by simp
  then have sec: "Seconds (now - t0) * ?r + Seconds (now' - now) * ?r = Seconds (now' - t0) * ?r" by (simp add: distrib_right [symmetric])
  let ?p = "p\<lparr>p_tok := max 0 tok', p_last := Some now'\<rparr>"
  have "max 0 tok' \<le> p_burst p" using b(5) acc(2) ok n by (auto simp: pacer_ok_def)
  then have "pacer_ok ?p" using ok by (simp add: pacer_ok_def)
  moreover have "of_int n \<le> p_tok p + Seconds (now' - t0) * ?r + 1 / 2 - max 0 tok'"
    using b(2,4) acc(1) sec by (auto simp: max_def)
  ultimately show ?thesis using b(1,3) n by (intro exI [of _ ?p] exI [of _ now']) (simp add: pacer_wait_def)
qed

text \<open>The bytes released from one place of a list of releases to another.\<close>

definition released :: "(int \<times> int) list \<Rightarrow> rat" where
  "released rs = of_int (sum_list (map fst rs))"

lemma released_simps [simp]: "released [] = 0" "released (x # rs) = of_int (fst x) + released rs"
  by (simp_all add: released_def)

lemma release_window:
  assumes "pacer_ok p" "p_last p = Some t0" "t0 \<le> now" "\<forall>w \<in> set ws. 0 < fst w"
  shows "\<exists>rs. release_all ws now p = Some rs \<and> map fst rs = map fst ws
    \<and> (\<forall>j < length rs. released (take (Suc j) rs) \<le> p_tok p + Seconds (snd (rs ! j) - t0) * p_rate p + of_nat (Suc j) / 2)
    \<and> (\<forall>j < length rs. \<forall>i < j. released (drop (Suc i) (take (Suc j) rs))
         \<le> p_burst p + Seconds (snd (rs ! j) - snd (rs ! i)) * p_rate p + of_nat (j - i) / 2)"
  using assms
proof (induction ws arbitrary: now p t0)
  case Nil
  then show ?case by (intro exI [of _ "[]"]) simp
next
  case (Cons w ws)
  obtain n idle over where w: "w = (n, idle, over)" by (cases w) auto
  then have n: "0 < n" "t0 \<le> now + int idle" using Cons.prems by auto
  from pacer_wait_step [OF Cons.prems(1) n(1) Cons.prems(2) n(2), of over] obtain p' t1 where p': "pacer_wait n over (now + int idle) (Some p) = Some (Some p', t1)"
    "pacer_ok p'" "p_rate p' = p_rate p" "p_burst p' = p_burst p" "p_last p' = Some t1" "now + int idle \<le> t1"
    "of_int n \<le> p_tok p + Seconds (t1 - t0) * p_rate p + 1 / 2 - p_tok p'" by blast
  from Cons.IH [OF p'(2,5) order_refl] Cons.prems(4) obtain rs where rs: "release_all ws t1 p' = Some rs" "map fst rs = map fst ws"
    "\<And>j. j < length rs \<Longrightarrow> released (take (Suc j) rs) \<le> p_tok p' + Seconds (snd (rs ! j) - t1) * p_rate p + of_nat (Suc j) / 2"
    "\<And>j i. j < length rs \<Longrightarrow> i < j \<Longrightarrow> released (drop (Suc i) (take (Suc j) rs))
         \<le> p_burst p + Seconds (snd (rs ! j) - snd (rs ! i)) * p_rate p + of_nat (j - i) / 2" using p'(3,4) by auto
  have first: "released (take (Suc j) ((n, t1) # rs)) \<le> p_tok p + Seconds (snd (((n, t1) # rs) ! j) - t0) * p_rate p + of_nat (Suc j) / 2"
    if j: "j < Suc (length rs)" for j
  proof (cases j)
    case 0
    with p'(2,7) show ?thesis by (simp add: pacer_ok_def)
  next
    case (Suc j')
    with j rs(3) [of j'] p'(7) have "of_int n + released (take (Suc j') rs)
        \<le> p_tok p + (Seconds (t1 - t0) + Seconds (snd (rs ! j') - t1)) * p_rate p + of_nat (Suc j) / 2" by (simp add: algebra_simps add_divide_distrib)
    then show ?thesis using Suc unfolding Seconds_add [symmetric] by simp
  qed
  have window: "released (drop (Suc i) (take (Suc j) ((n, t1) # rs)))
      \<le> p_burst p + Seconds (snd (((n, t1) # rs) ! j) - snd (((n, t1) # rs) ! i)) * p_rate p + of_nat (j - i) / 2"
    if ij: "j < Suc (length rs)" "i < j" for i j
  proof -
    obtain j' where j': "j = Suc j'" using ij by (cases j) auto
    show ?thesis
    proof (cases i)
      case 0
      with j' ij rs(3) [of j'] p'(2,4) show ?thesis by (auto simp: pacer_ok_def)
    next
      case (Suc i')
      with j' ij rs(4) [of j' i'] show ?thesis by simp
    qed
  qed
  show ?case
    using p'(1) rs(1,2) w first window by (intro exI [of _ "(n, t1) # rs"]) simp
qed

text \<open>A new bucket is one with a full bucket at the time of its first use.\<close>

lemma release_new:
  assumes "p_last p = None" "p_tok p = 0" "0 < n"
  shows "release_all ((n, idle, over) # ws) now p = release_all ((n, idle, over) # ws) now (p\<lparr>p_tok := p_burst p, p_last := Some (now + int idle)\<rparr>)"
  using assms by (cases p) (auto simp: pacer_wait_def pacer_accrue_def Seconds_def split: option.splits)

text \<open>
  A debt of more than half a byte that is paid in less than a nanosecond is never paid: the loop sleeps for no
  time at all and stays where it is.
\<close>

lemma pay_debt_spins:
  assumes "0 < rate" "1 / 2 < - tok" "- tok * 1000000000 < rate"
  shows "pay_debt rate over k tok now = None"
proof (rule ccontr)
  let ?P = "\<lambda>rate over k tok now y. \<not> (0 < rate \<and> 1 / 2 < - tok \<and> - tok * 1000000000 < (rate :: rat))"
  assume "pay_debt rate over k tok now \<noteq> None"
  then obtain y where y: "pay_debt rate over k tok now = Some y" by blast
  have "?P rate over k tok now y"
  proof (rule pay_debt.raw_induct [where P = ?P, OF _ y])
    fix pay :: "rat \<Rightarrow> (nat \<Rightarrow> nat) \<Rightarrow> nat \<Rightarrow> rat \<Rightarrow> int \<Rightarrow> (rat \<times> int) option" and rate over k tok now y
    assume IH: "\<And>rate over k tok now y. pay rate over k tok now = Some y \<Longrightarrow> ?P rate over k tok now y"
      and step: "(if tok < - 1 / 2 then let deficit = - tok; sleep = debt_sleep rate deficit; paid = Seconds sleep * rate
          in pay rate over (Suc k) (tok + min paid deficit) (now + sleep + int (over k)) else Some (tok, now)) = Some y"
    show "?P rate over k tok now y"
    proof
      assume a: "0 < rate \<and> 1 / 2 < - tok \<and> - tok * 1000000000 < rate"
      then have "0 \<le> - tok / rate * 1000000000" "- tok / rate * 1000000000 < 1" by (simp_all add: field_simps)
      then have "debt_sleep rate (- tok) = 0" unfolding debt_sleep_def kPacerMaxSleep_def by (simp add: floor_eq_iff)
      with step a have "pay rate over (Suc k) tok (now + int (over k)) = Some y" by (simp add: Let_def Seconds_def min_def split: if_splits)
      from IH [OF this] a show False by blast
    qed
  qed
  with assms show False by blast
qed

text \<open>A new bucket, seen as a full one at the time of its first use.\<close>

lemma new_pacer:
  assumes "newWireRatePacer wire = Some p" "unat wire \<le> 1300000000" "0 < n"
  shows "pacer_ok (p\<lparr>p_tok := p_burst p, p_last := Some (now + int idle)\<rparr>)"
    "release_all ((n, idle, over) # ws) now p = release_all ((n, 0, over) # ws) (now + int idle) (p\<lparr>p_tok := p_burst p, p_last := Some (now + int idle)\<rparr>)"
proof -
  define m where "m = unat wire"
  have rate: "p_rate p = of_nat m / (26 / 10)" "p_burst p = p_rate p / 10" "p_last p = None" "p_tok p = 0" "wire \<noteq> 0"
    using assms(1) by (auto simp: m_def newWireRatePacer_def kWireAmpEstimate_def Seconds_def kPacerTokenInterval_def Let_def split: if_splits)
  have "0 < m" "m \<le> 1300000000" using assms(2) rate(5) by (simp_all add: m_def unat_gt_0)
  then have "(of_nat m :: rat) \<le> 1300000000" "(0 :: rat) < of_nat m" by simp_all
  then show "pacer_ok (p\<lparr>p_tok := p_burst p, p_last := Some (now + int idle)\<rparr>)" using rate(1,2) by (simp add: pacer_ok_def)
  show "release_all ((n, idle, over) # ws) now p = release_all ((n, 0, over) # ws) (now + int idle) (p\<lparr>p_tok := p_burst p, p_last := Some (now + int idle)\<rparr>)"
    using release_new [OF rate(3,4) assms(3)] by simp
qed

section \<open>Properties\<close>

text \<open>
  C12. The pacer keeps the output within its budget. For a wire budget of up to 1.3 gigabytes a second, every writer is
  let through in the end, whatever sizes the writes have and however late the sleeps end. From the first use on, the bytes
  released by any time are at most one burst plus the payload rate times the time, and between any two releases at most
  that for the time between them, up to half a byte for every write.
\<close>

theorem pacer_within_budget:
  assumes "newWireRatePacer wire = Some p" "unat wire \<le> 1300000000" "\<forall>x \<in> set (w # ws). 0 < fst x"
  shows "\<exists>rs. release_all (w # ws) now p = Some rs \<and> map fst rs = map fst (w # ws)
    \<and> (\<forall>j < length rs. released (take (Suc j) rs) \<le> p_burst p + Seconds (snd (rs ! j) - (now + int (fst (snd w)))) * p_rate p + of_nat (Suc j) / 2)
    \<and> (\<forall>j < length rs. \<forall>i < j. released (drop (Suc i) (take (Suc j) rs))
         \<le> p_burst p + Seconds (snd (rs ! j) - snd (rs ! i)) * p_rate p + of_nat (j - i) / 2)"
proof -
  obtain n idle over where w: "w = (n, idle, over)" by (cases w) auto
  with assms(3) have n: "0 < n" by simp
  note new = new_pacer [OF assms(1,2) n]
  show ?thesis
    using release_window [OF new(1) [of now idle], of "now + int idle" "now + int idle" "(n, 0, over) # ws"] new(2) [of idle over ws now] assms(3) w by simp
qed

definition demo_writes :: "(int \<times> nat \<times> (nat \<Rightarrow> nat)) list" where
  "demo_writes = [(1000, 5, \<lambda>_. 0), (32768, 0, \<lambda>k. k), (3000, 2000000000, \<lambda>_. 7), (200, 0, \<lambda>_. 0)]"

theorem pacer_within_budget_witness:
  "\<exists>p rs. newWireRatePacer 175000 = Some p \<and> release_all demo_writes 100 p = Some rs \<and> length rs = 4
     \<and> released (take 4 rs) \<le> p_burst p + Seconds (snd (rs ! 3) - 105) * p_rate p + 2"
proof -
  obtain p where p: "newWireRatePacer 175000 = Some p" by (simp add: newWireRatePacer_def)
  have "unat (175000 :: u64) \<le> 1300000000" "\<forall>x \<in> set demo_writes. 0 < fst x" by (simp_all add: demo_writes_def)
  from pacer_within_budget [OF p this(1), of "(1000, 5, \<lambda>_. 0)" "tl demo_writes" 100] this(2)
  obtain rs where rs: "release_all demo_writes 100 p = Some rs" "map fst rs = map fst demo_writes"
    "\<And>j. j < length rs \<Longrightarrow> released (take (Suc j) rs) \<le> p_burst p + Seconds (snd (rs ! j) - 105) * p_rate p + of_nat (Suc j) / 2"
    by (auto simp: demo_writes_def)
  have l: "length rs = 4" using arg_cong [OF rs(2), of length] by (simp add: demo_writes_def)
  with rs(3) [of 3] have "released (take 4 rs) \<le> p_burst p + Seconds (snd (rs ! 3) - 105) * p_rate p + 2" by (simp add: numeral_eq_Suc)
  with p rs(1) l show ?thesis by blast
qed

text \<open>
  The budget is not kept in every window, as the comment on the pacer has it, nor does it work at every rate. With
  the recommended wire budget, a first write of a full chunk waits and is then released at once, so that the bytes
  released at a single moment exceed one burst. And above 1.3 gigabytes a second there are writes that never get
  through: their debt takes less than a nanosecond, and the loop that pays it sleeps for no time at all.
\<close>

lemma pacer_limits:
  shows "(\<exists>p t. newWireRatePacer 175000 = Some p \<and> release_all [(32768, 0, over)] now p = Some [(32768, t)] \<and> p_burst p < released [(32768, t)])
    \<and> (\<exists>p. newWireRatePacer 2600000000000 = Some p \<and> p_last p = None \<and> release_all [(100000000001, 0, over)] now p = None)"
proof
  obtain p where p: "newWireRatePacer 175000 = Some p" by (simp add: newWireRatePacer_def)
  have u: "unat (175000 :: u64) \<le> 1300000000" by simp
  note new = new_pacer [OF p u, of 32768]
  from release_window [OF new(1) [of now 0], of "now + int 0" "now + int 0" "[(32768, 0, over)]"] new(2) [of 0 over "[]" now]
  have "p_burst p < 32768 \<and> (\<exists>t. release_all [(32768, 0, over)] now p = Some [(32768, t)])" using p
    by (auto simp: newWireRatePacer_def kWireAmpEstimate_def Seconds_def kPacerTokenInterval_def length_Suc_conv)
  with p show "\<exists>p t. newWireRatePacer 175000 = Some p \<and> release_all [(32768, 0, over)] now p = Some [(32768, t)] \<and> p_burst p < released [(32768, t)]"
    by auto
  obtain q where q: "newWireRatePacer 2600000000000 = Some q" by (simp add: newWireRatePacer_def)
  then have "p_rate q = 1000000000000" "p_burst q = 100000000000" "p_last q = None"
    by (auto simp: newWireRatePacer_def kWireAmpEstimate_def Seconds_def kPacerTokenInterval_def Let_def)
  with q pay_debt_spins [of "1000000000000" "- 1" over 0 "now + int 0"]
  show "\<exists>p. newWireRatePacer 2600000000000 = Some p \<and> p_last p = None \<and> release_all [(100000000001, 0, over)] now p = None"
    by (intro exI [of _ q]) (simp add: pacer_wait_def pacer_accrue_def)
qed

end
