(* ===== verification/Socket.thy ===== *)
theory Socket
  imports Codec
begin

text \<open>
  The local control socket (\<open>socket.go\<close>): a running server answers requests for information, for the screen of a
  session and for the data a new client needs to attach; the commands \<open>list\<close>, \<open>view\<close> and \<open>attach\<close> send them. A
  connection is a reader and a writer; finding and connecting the socket, the terminal emulation and the processes of
  a session are parameters.
\<close>

section \<open>The server\<close>

record screen =
  sc_title :: string
  sc_lines :: "string list"

text \<open>A session with its screen, if it has one, and the process group of its terminal, if it has one.\<close>

record sock_session =
  ks_id :: u64
  ks_screen :: "screen option"
  ks_pgid :: "int result option"

record socketInfo =
  si_startTime :: int
  si_sessionName :: string
  si_clientID :: u64

record baseInfo =
  bi_Time :: int
  bi_Name :: string
  bi_Sessions :: "(u64 \<times> string) list"

text \<open>\<open>fg\<close> is the name of the foreground process of a process group, empty if there is none.\<close>

definition session_title :: "(int \<Rightarrow> string) \<Rightarrow> sock_session \<Rightarrow> string" where
  "session_title fg sess =
     (let title = (case ks_screen sess of None \<Rightarrow> [] | Some sc \<Rightarrow> sc_title sc)
      in if title \<noteq> [] then title
         else fg (case ks_pgid sess of Some (Inr pgid) \<Rightarrow> pgid | _ \<Rightarrow> 0))"

definition conn_write :: "string \<Rightarrow> bytes \<Rightarrow> writer \<Rightarrow> go_error option \<times> writer" where
  "conn_write what b w = (case w_write b w of ((n, Some e), w') \<Rightarrow> (Some (ErrFlat what e), w') | ((n, None), w') \<Rightarrow> (None, w'))"

definition handleInfoRequest ::
  "(baseInfo \<Rightarrow> bytes result) \<Rightarrow> (int \<Rightarrow> string) \<Rightarrow> socketInfo \<Rightarrow> sock_session list \<Rightarrow> writer \<Rightarrow> go_error option \<times> writer" where
  "handleInfoRequest marshal fg info sessions w =
     (case marshal \<lparr>bi_Time = si_startTime info, bi_Name = si_sessionName info, bi_Sessions = map (\<lambda>s. (ks_id s, session_title fg s)) sessions\<rparr> of
        Inl e \<Rightarrow> (Some (ErrFlat ''json marshal base info failed'' e),
          snd (w_write (str_bytes (''ERROR: generate base info failed: '' @ err_text e @ [CHR 0x0A])) w))
      | Inr buf \<Rightarrow> conn_write ''write info response failed'' buf w)"

definition crlf :: string where "crlf = [CHR 0x0D, CHR 0x0A]"

fun write_lines :: "string list \<Rightarrow> writer \<Rightarrow> go_error option \<times> writer" where
  "write_lines [] w = (None, w)"
| "write_lines (line # contents) w =
     (case conn_write ''write view response failed'' (str_bytes (line @ crlf)) w of
        (Some e, w') \<Rightarrow> (Some e, w')
      | (None, w') \<Rightarrow> write_lines contents w')"

text \<open>What the answer to a request for a screen consists of.\<close>

definition view_lines :: "u64 \<Rightarrow> sock_session list \<Rightarrow> string list" where
  "view_lines i sessions =
     (case find (\<lambda>s. ks_id s = i) sessions of
        None \<Rightarrow> [''ERROR: session ['' @ nat_str (unat i) @ ''] not found'']
      | Some sess \<Rightarrow>
          (case ks_screen sess of
             None \<Rightarrow> [''ERROR: session ['' @ nat_str (unat i) @ ''] was not started with attachable support'']
           | Some sc \<Rightarrow> sc_lines sc))"

definition handleViewRequest :: "(bytes \<Rightarrow> u64 result) \<Rightarrow> sock_session list \<Rightarrow> reader \<Rightarrow> writer \<Rightarrow> go_error option \<times> writer" where
  "handleViewRequest unmarshal sessions r w =
     (case recvMessage unmarshal r of
        (Inl e, r') \<Rightarrow> (Some (ErrFlat ''recv view request failed'' e), w)
      | (Inr i, r') \<Rightarrow> write_lines (view_lines i sessions) w)"

text \<open>The client number is counted up, and zero is left out.\<close>

definition nextClientID :: "u64 \<Rightarrow> u64" where
  "nextClientID i = (let j = i + 1 in if j = 0 then j + 1 else j)"

definition handleAttachRequest :: "(u64 \<Rightarrow> bytes result) \<Rightarrow> socketInfo \<Rightarrow> writer \<Rightarrow> (go_error option \<times> writer) \<times> socketInfo" where
  "handleAttachRequest marshal info w =
     (let info' = info\<lparr>si_clientID := nextClientID (si_clientID info)\<rparr>
      in (case marshal (si_clientID info') of
            Inl e \<Rightarrow> (Some (ErrFlat ''json marshal server info failed'' e),
              snd (w_write (str_bytes (''ERROR: generate server info failed: '' @ err_text e @ [CHR 0x0A])) w))
          | Inr buf \<Rightarrow> conn_write ''write attach response failed'' (0x07 # buf @ [0x0A]) w,
          info'))"

record socket_json =
  kj_base :: "baseInfo \<Rightarrow> bytes result"
  kj_info :: "u64 \<Rightarrow> bytes result"
  kj_view :: "bytes \<Rightarrow> u64 result"

definition handleSocketConn ::
  "socket_json \<Rightarrow> (int \<Rightarrow> string) \<Rightarrow> sock_session list \<Rightarrow> socketInfo \<Rightarrow> reader \<Rightarrow> writer \<Rightarrow> (go_error option \<times> writer) \<times> socketInfo" where
  "handleSocketConn J fg sessions info r w =
     (case recvCommand r of
        (Inl e, r') \<Rightarrow> ((Some e, w), info)
      | (Inr cmd, r') \<Rightarrow>
          if cmd = ''info'' then (handleInfoRequest (kj_base J) fg info sessions w, info)
          else if cmd = ''view'' then (handleViewRequest (kj_view J) sessions r' w, info)
          else if cmd = ''attach'' then handleAttachRequest (kj_info J) info w
          else ((None, w), info))"

text \<open>
  The loop that accepts connections: what \<open>Accept\<close> returns, with the error of setting the deadline of a connection.
  A connection is closed by its handler only.
\<close>

datatype sock_accept = AcceptErr go_error | AcceptConn nat "go_error option"

datatype sock_event = SockWarning string | SockHandle nat | SockListenerClosed

fun accept_socket :: "sock_accept list \<Rightarrow> sock_event list" where
  "accept_socket [] = []"
| "accept_socket (AcceptErr e # _) =
     (if IsClosedError (Some e) then [] else [SockWarning ''socket server accept failed'']) @ [SockListenerClosed]"
| "accept_socket (AcceptConn c (Some e) # accepts) = SockWarning ''socket set deadline failed'' # accept_socket accepts"
| "accept_socket (AcceptConn c None # accepts) = SockHandle c # accept_socket accepts"

definition startSocketServer :: "int \<Rightarrow> u64 \<Rightarrow> go_error option \<Rightarrow> sock_accept list \<Rightarrow> socketInfo \<times> sock_event list" where
  "startSocketServer now clientID listenErr accepts =
     (\<lparr>si_startTime = now, si_sessionName = [], si_clientID = clientID\<rparr>,
      (case listenErr of Some e \<Rightarrow> [SockWarning ''socket server listen failed''] | None \<Rightarrow> accept_socket accepts))"

section \<open>The commands\<close>

definition kExitCodeListFailed :: int where "kExitCodeListFailed = 98"

definition kExitCodeViewFailed :: int where "kExitCodeViewFailed = 99"

definition kExitCodeAttachFailed :: int where "kExitCodeAttachFailed = 100"

text \<open>
  A connection to a server, as the client sees it: whether its deadline can be set, how its writes behave, and what
  is read from it after the bytes that were sent, with the error that ended the reading unless that is its regular end.
\<close>

record socket_conn =
  cn_deadlineErr :: "go_error option"
  cn_sched :: "wr_out list"
  cn_answer :: "bytes \<Rightarrow> bytes \<times> go_error option"

definition cn_writer :: "socket_conn \<Rightarrow> writer" where
  "cn_writer conn = \<lparr>w_sink = [], w_sched = cn_sched conn\<rparr>"

definition queryBaseInfo :: "(string \<Rightarrow> socket_conn result) \<Rightarrow> string \<Rightarrow> string result" where
  "queryBaseInfo connectSocket path =
     (case connectSocket path of
        Inl e \<Rightarrow> Inl (ErrFlat (''connect socket ['' @ path @ ''] failed'') e)
      | Inr conn \<Rightarrow>
          (case cn_deadlineErr conn of
             Some e \<Rightarrow> Inl (ErrFlat ''set attach deadline failed'' e)
           | None \<Rightarrow>
               (case sendCommand ''info'' (cn_writer conn) of
                  (Some e, w) \<Rightarrow> Inl (ErrFlat ''send info request failed'' e)
                | (None, w) \<Rightarrow>
                    (case cn_answer conn (w_sink w) of
                       (buf, Some e) \<Rightarrow> Inl (ErrFlat ''read info response failed'' e)
                     | (buf, None) \<Rightarrow> Inr (bytes_str buf)))))"

text \<open>The items of \<open>list\<close>: one for every socket, with the error in place of the answer where there is none.\<close>

definition list_items :: "(string \<Rightarrow> socket_conn result) \<Rightarrow> (int \<times> string) list \<Rightarrow> (int \<times> string) list" where
  "list_items connectSocket socketPaths =
     map (\<lambda>(pid, path). (pid, case queryBaseInfo connectSocket path of Inl e \<Rightarrow> err_text e | Inr info \<Rightarrow> info)) socketPaths"

text \<open>The exit code of a command and what it prints.\<close>

definition handleListCommand ::
  "((int \<times> string) list \<Rightarrow> bytes result) \<Rightarrow> (int \<times> string) list result \<Rightarrow> (string \<Rightarrow> socket_conn result) \<Rightarrow> (int \<times> go_error option) \<times> bytes" where
  "handleListCommand marshal listSocketPaths connectSocket =
     (case listSocketPaths of
        Inl e \<Rightarrow> ((kExitCodeListFailed, Some e), [])
      | Inr socketPaths \<Rightarrow>
          (case marshal (list_items connectSocket socketPaths) of
             Inl e \<Rightarrow> ((kExitCodeListFailed, Some (ErrWrap ''server items marshal failed'' e)), [])
           | Inr buf \<Rightarrow> ((0, None), buf @ str_bytes crlf)))"

text \<open>The common part of the next two commands, from connecting on; \<open>send\<close> sends the request.\<close>

definition talk ::
  "int \<Rightarrow> string \<Rightarrow> (string \<Rightarrow> socket_conn result) \<Rightarrow> string \<Rightarrow> (writer \<Rightarrow> go_error option \<times> writer) \<Rightarrow> (int \<times> go_error option) \<times> bytes" where
  "talk failed what connectSocket path send =
     (case connectSocket path of
        Inl e \<Rightarrow> ((failed, Some (ErrFlat (''connect socket ['' @ path @ ''] failed'') e)), [])
      | Inr conn \<Rightarrow>
          (case cn_deadlineErr conn of
             Some e \<Rightarrow> ((failed, Some (ErrFlat (''set '' @ what @ '' deadline failed'') e)), [])
           | None \<Rightarrow>
               (case send (cn_writer conn) of
                  (Some e, w) \<Rightarrow> ((failed, Some (ErrFlat (''send '' @ what @ '' request failed'') e)), [])
                | (None, w) \<Rightarrow>
                    (case cn_answer conn (w_sink w) of
                       (out, Some e) \<Rightarrow> ((failed, Some (ErrFlat (''copy '' @ what @ '' response failed'') e)), out)
                     | (out, None) \<Rightarrow> ((0, None), out)))))"

text \<open>The messages for a target that is no number leave out what the number parser says.\<close>

definition handleViewCommand ::
  "(u64 \<Rightarrow> bytes result) \<Rightarrow> (int \<Rightarrow> string result) \<Rightarrow> (string \<Rightarrow> socket_conn result) \<Rightarrow> string \<Rightarrow> (int \<times> go_error option) \<times> bytes" where
  "handleViewCommand marshal getSocketPath connectSocket pidAndSid =
     (case split_char (CHR ''.'') pidAndSid of
        [p, s] \<Rightarrow>
          (case parse_int 10 64 p of
             None \<Rightarrow> ((kExitCodeViewFailed, Some (ErrText (''invalid process id in view target ['' @ pidAndSid @ '']''))), [])
           | Some pid \<Rightarrow>
               (case parse_uint 10 64 s of
                  None \<Rightarrow> ((kExitCodeViewFailed, Some (ErrText (''invalid session id in view target ['' @ pidAndSid @ '']''))), [])
                | Some sid \<Rightarrow>
                    (case getSocketPath pid of
                       Inl e \<Rightarrow> ((kExitCodeViewFailed, Some e), [])
                     | Inr path \<Rightarrow>
                         talk kExitCodeViewFailed ''view'' connectSocket path
                           (sendCommandAndMessage marshal ''view'' (word_of_nat sid)))))
      | _ \<Rightarrow> ((kExitCodeViewFailed, Some (ErrText (''invalid view target ['' @ pidAndSid @ ''], expected <pid>.<sid>''))), []))"

definition handleAttachCommand ::
  "(int \<Rightarrow> string result) \<Rightarrow> (string \<Rightarrow> socket_conn result) \<Rightarrow> string \<Rightarrow> (int \<times> go_error option) \<times> bytes" where
  "handleAttachCommand getSocketPath connectSocket pidStr =
     (case parse_int 10 64 pidStr of
        None \<Rightarrow> ((kExitCodeAttachFailed, Some (ErrText (''invalid attach target ['' @ pidStr @ ''], expected <pid>:''))), [])
      | Some pid \<Rightarrow>
          (case getSocketPath pid of
             Inl e \<Rightarrow> ((kExitCodeAttachFailed, Some e), [])
           | Inr path \<Rightarrow> talk kExitCodeAttachFailed ''attach'' connectSocket path (sendCommand ''attach'')))"

section \<open>Both together\<close>

text \<open>
  A connection to a server: it reads the request in some chunks and its answer is what it has written by the
  time it closes the connection.
\<close>

definition serve :: "socket_json \<Rightarrow> (int \<Rightarrow> string) \<Rightarrow> sock_session list \<Rightarrow> socketInfo \<Rightarrow> (bytes \<Rightarrow> bytes list) \<Rightarrow> socket_conn" where
  "serve J fg sessions info chunks =
     \<lparr>cn_deadlineErr = None, cn_sched = [],
      cn_answer = (\<lambda>req. (w_sink (snd (fst (handleSocketConn J fg sessions info \<lparr>rd_chunks = chunks req, rd_end = ErrEOF\<rparr>
        \<lparr>w_sink = [], w_sched = []\<rparr>))), None))\<rparr>"

text \<open>Chunks that make up the bytes.\<close>

definition chunking :: "(bytes \<Rightarrow> bytes list) \<Rightarrow> bool" where
  "chunking chunks \<longleftrightarrow> (\<forall>b. concat (chunks b) = b \<and> [] \<notin> set (chunks b))"

section \<open>Lemmas\<close>

lemma write_open: "w_sched w = [] \<Longrightarrow> w_write b w = ((length b, None), w\<lparr>w_sink := w_sink w @ b\<rparr>)"
  by (simp add: w_write_def)

lemma write_lines_open:
  "w_sched w = [] \<Longrightarrow> write_lines ls w = (None, w\<lparr>w_sink := w_sink w @ str_bytes (concat (map (\<lambda>l. l @ crlf) ls))\<rparr>)"
  by (induction ls arbitrary: w) (simp_all add: conn_write_def write_open str_bytes_def)

lemma split_two: "c \<notin> set a \<Longrightarrow> c \<notin> set b \<Longrightarrow> split_char c (a @ c # b) = [a, b]"
proof -
  have one: "c \<notin> set b \<Longrightarrow> split_char c b = [b]" for b by (induction b) auto
  show "c \<notin> set a \<Longrightarrow> c \<notin> set b \<Longrightarrow> split_char c (a @ c # b) = [a, b]" by (induction a) (auto simp: one)
qed

lemma nat_str_no_dot: "CHR ''.'' \<notin> set (nat_str n)"
  using nat_str_digits [of "CHR ''.''" n] by (auto simp: digit_val_def)

text \<open>The numbers of clients: a cycle through all numbers but zero.\<close>

lemma nextClientID_unat:
  assumes "i \<noteq> 0"
  shows "unat (nextClientID i) = unat i mod (2 ^ 64 - 1) + 1"
proof (cases "i + 1 = 0")
  case True
  then have "i = - 1" by (simp add: eq_neg_iff_add_eq_0)
  then show ?thesis by (simp add: nextClientID_def unsigned_minus_1_eq_mask mask_eq_exp_minus_1)
next
  case False
  have m: "unat (i + 1) = (unat i + 1) mod 2 ^ 64" by (simp add: unat_word_ariths)
  moreover have "unat i + 1 \<noteq> 2 ^ 64" using m False by (metis mod_self unat_eq_zero)
  moreover have "unat i < 2 ^ 64" using unat_bound [of i] by simp
  ultimately have u: "unat (i + 1) = unat i + 1" by simp
  have "unat (i + 1) < 2 ^ 64" using unat_bound [of "i + 1"] by simp
  with u have "unat i < 2 ^ 64 - 1" by simp
  with u False show ?thesis by (simp add: nextClientID_def Let_def)
qed

lemma nextClientID_ne: "i \<noteq> 0 \<Longrightarrow> nextClientID i \<noteq> 0"
  using nextClientID_unat [of i] by (metis Suc_eq_plus1 nat.simps(3) unat_0)

lemma nextClientID_cycle:
  assumes "i \<noteq> 0"
  shows "(nextClientID ^^ n) i \<noteq> 0 \<and> unat ((nextClientID ^^ n) i) = (unat i - 1 + n) mod (2 ^ 64 - 1) + 1"
proof (induction n)
  case 0
  have "0 < unat i" using assms by (simp add: unat_gt_0)
  moreover have "unat i - 1 < 2 ^ 64 - 1" using unat_bound [of i] by (simp add: calculation diff_less_mono)
  ultimately show ?case using assms by simp
next
  case (Suc n)
  then have "unat (nextClientID ((nextClientID ^^ n) i)) = ((unat i - 1 + n) mod (2 ^ 64 - 1) + 1) mod (2 ^ 64 - 1) + 1"
    using nextClientID_unat by metis
  also have "\<dots> = (unat i - 1 + Suc n) mod (2 ^ 64 - 1) + 1" by (simp add: mod_Suc_eq)
  finally show ?case using Suc nextClientID_ne by simp
qed

lemma shifted_mod_ne:
  assumes "0 < d" "d < (m :: nat)"
  shows "(x + d) mod m \<noteq> x mod m"
proof
  assume "(x + d) mod m = x mod m"
  then have "m dvd d" using mod_eq_dvd_iff_nat [of x "x + d" m] by simp
  with assms show False by (auto dest: dvd_imp_le)
qed

text \<open>The server after a number of requests to attach.\<close>

definition after_attaches :: "(u64 \<Rightarrow> bytes result) \<Rightarrow> nat \<Rightarrow> socketInfo \<Rightarrow> socketInfo" where
  "after_attaches marshal n info = ((\<lambda>i. snd (handleAttachRequest marshal i \<lparr>w_sink = [], w_sched = []\<rparr>)) ^^ n) info"

lemma after_attaches_id: "si_clientID (after_attaches marshal n info) = (nextClientID ^^ n) (si_clientID info)"
  by (induction n) (simp_all add: after_attaches_def handleAttachRequest_def Let_def)

text \<open>A connection whose deadline cannot be set is never given to a handler, which is what closes connections.\<close>

lemma deadline_failure_leaks:
  assumes "AcceptConn c None \<notin> set accepts"
  shows "SockHandle c \<notin> set (snd (startSocketServer now clientID listenErr accepts))"
proof -
  have "SockHandle c \<notin> set (accept_socket accepts)"
    using assms by (induction accepts rule: accept_socket.induct) auto
  then show ?thesis by (simp add: startSocketServer_def split: option.splits)
qed

section \<open>Properties\<close>

text \<open>
  Clients that attach get numbers of their own: the number handed out is never zero, which is reserved, also when
  the counter wraps around, and two requests get the same number only if at least \<open>2 ^ 64 - 1\<close> requests lie between
  them. The answer to a request contains the number that was handed out for it.
\<close>

lemma attach_ids_fresh:
  assumes "si_clientID info \<noteq> 0" "j < k" "k - j < 2 ^ 64 - 1"
  shows "si_clientID (after_attaches marshal k info) \<noteq> 0
    \<and> si_clientID (after_attaches marshal k info) \<noteq> si_clientID (after_attaches marshal j info)
    \<and> (\<forall>b. marshal (si_clientID (after_attaches marshal (Suc k) info)) = Inr b \<longrightarrow>
         w_sink (snd (fst (handleAttachRequest marshal (after_attaches marshal k info) \<lparr>w_sink = [], w_sched = []\<rparr>))) = 0x07 # b @ [0x0A])"
proof -
  note c = nextClientID_cycle [OF assms(1)]
  have "(unat (si_clientID info) - 1 + j + (k - j)) mod (2 ^ 64 - 1) \<noteq> (unat (si_clientID info) - 1 + j) mod (2 ^ 64 - 1)"
    using assms(2,3) by (intro shifted_mod_ne) simp_all
  then have "unat ((nextClientID ^^ k) (si_clientID info)) \<noteq> unat ((nextClientID ^^ j) (si_clientID info))"
    using c [of k] c [of j] assms(2) by simp
  then have "(nextClientID ^^ k) (si_clientID info) \<noteq> (nextClientID ^^ j) (si_clientID info)" by metis
  moreover have "w_sink (snd (fst (handleAttachRequest marshal (after_attaches marshal k info) \<lparr>w_sink = [], w_sched = []\<rparr>))) = 0x07 # b @ [0x0A]"
    if "marshal (si_clientID (after_attaches marshal (Suc k) info)) = Inr b" for b
    using that by (simp add: handleAttachRequest_def after_attaches_id conn_write_def write_open)
  ultimately show ?thesis using c [of k] by (simp add: after_attaches_id)
qed

definition demo_socket :: socketInfo where
  "demo_socket = \<lparr>si_startTime = 0, si_sessionName = [], si_clientID = - 1\<rparr>"

lemma attach_ids_fresh_witness:
  "si_clientID (after_attaches (\<lambda>i. Inr (put_u64 i)) 1 demo_socket) = 1
   \<and> si_clientID (after_attaches (\<lambda>i. Inr (put_u64 i)) 1 demo_socket) \<noteq> si_clientID (after_attaches (\<lambda>i. Inr (put_u64 i)) 0 demo_socket)"
proof -
  have "si_clientID demo_socket \<noteq> 0" by (simp add: demo_socket_def)
  from attach_ids_fresh [OF this, of 0 1 "\<lambda>i. Inr (put_u64 i)"] show ?thesis
    by (simp add: after_attaches_id nextClientID_def demo_socket_def)
qed

text \<open>
  The command that shows a screen shows it. For every process and session number, the target they are written as
  is taken apart into them, and over any chunking of the connection the command prints the lines of the
  screen of that session of the server, each ended by carriage return and newline, or the line that says why there
  is none, and exits with code zero.
\<close>

lemma view_shows_screen:
  assumes "0 \<le> pid" "pid < 2 ^ 63" "getSocketPath pid = Inr path" "connectSocket path = Inr (serve J fg sessions info chunks)" "chunking chunks"
    and "marshal sid = Inr b" "kj_view J b = Inr sid" "length b < 2 ^ 32"
  shows "handleViewCommand marshal getSocketPath connectSocket (int_str pid @ ''.'' @ nat_str (unat sid))
    = ((0, None), str_bytes (concat (map (\<lambda>l. l @ crlf) (view_lines sid sessions))))"
proof -
  let ?w = "\<lparr>w_sink = [], w_sched = []\<rparr> :: writer"
  have str: "int_str pid = nat_str (nat pid)" using assms(1) by (simp add: int_str_def)
  have split: "split_char (CHR ''.'') (int_str pid @ ''.'' @ nat_str (unat sid)) = [nat_str (nat pid), nat_str (unat sid)]"
    using split_two [OF nat_str_no_dot nat_str_no_dot] by (simp add: str)
  have p: "parse_int 10 64 (nat_str (nat pid)) = Some pid"
  proof -
    have "nat pid < 2 ^ 63" using assms(1,2) by (simp add: nat_less_iff)
    moreover obtain c t where ct: "nat_str (nat pid) = c # t" by (cases "nat_str (nat pid)") auto
    moreover have "c \<noteq> CHR ''-''" "c \<noteq> CHR ''+''" using nat_str_digits [of c "nat pid"] ct by (auto simp: digit_val_def)
    ultimately show ?thesis using assms(1) digits_val_nat_str [of "nat pid"] by (simp add: parse_int_def)
  qed
  have s: "parse_uint 10 64 (nat_str (unat sid)) = Some (unat sid)" using unat_bound [of sid] by (intro parse_uint_nat_str) simp
  obtain w1 where w1: "sendCommandAndMessage marshal ''view'' sid ?w = (None, w1)"
  proof -
    have "w_reliable ?w" by (simp add: w_reliable_def)
    then obtain w1 where "writeAll (command_frame ''view'' @ message_frame b) ?w = (None, w1)"
      using writeAll_reliable [of ?w "command_frame ''view'' @ message_frame b"] by (metis prod.collapse)
    then have "sendCommandAndMessage marshal ''view'' sid ?w = (None, w1)"
      using assms(6) by (simp add: sendCommandAndMessage_def command_frame_def message_frame_def)
    with that show ?thesis by blast
  qed
  then have sink: "w_sink w1 = command_frame ''view'' @ message_frame b" using sendCommandAndMessage_frame [OF w1] assms(6) by auto
  let ?r = "\<lparr>rd_chunks = chunks (w_sink w1), rd_end = ErrEOF\<rparr>"
  have r: "rd_wf ?r" "rd_bytes ?r = command_frame ''view'' @ message_frame b" using assms(5) sink by (simp_all add: chunking_def rd_wf_def rd_bytes_def)
  then obtain r1 where r1: "recvCommand ?r = (Inr ''view'', r1)" "rd_after ?r (message_frame b) r1" using recvCommand_frame [of "''view''" ?r] by auto
  then obtain r2 where "recvMessage (kj_view J) r1 = (Inr sid, r2)"
    using recvMessage_sent [of "kj_view J" b sid r1 "[]", OF assms(7,8)] rd_afterD(1) [OF r1(2)] by auto
  with r1 have "cn_answer (serve J fg sessions info chunks) (w_sink w1) = (str_bytes (concat (map (\<lambda>l. l @ crlf) (view_lines sid sessions))), None)"
    by (simp add: serve_def handleSocketConn_def handleViewRequest_def write_lines_open)
  moreover have "cn_deadlineErr (serve J fg sessions info chunks) = None" "cn_writer (serve J fg sessions info chunks) = ?w"
    by (simp_all add: serve_def cn_writer_def)
  ultimately show ?thesis using split p s w1 assms(3,4) by (simp add: handleViewCommand_def talk_def)
qed

definition demo_sessions :: "sock_session list" where
  "demo_sessions = [\<lparr>ks_id = 3, ks_screen = Some \<lparr>sc_title = ''vi'', sc_lines = [''ab'', ''c'']\<rparr>, ks_pgid = None\<rparr>]"

definition demo_socket_json :: socket_json where
  "demo_socket_json = \<lparr>kj_base = (\<lambda>_. Inl ErrEOF), kj_info = (\<lambda>i. Inr (put_u64 i)), kj_view = (\<lambda>b. Inr (get_u64 b))\<rparr>"

lemma view_shows_screen_witness:
  "handleViewCommand (\<lambda>i. Inr (put_u64 i)) (\<lambda>_. Inr ''s'') (\<lambda>_. Inr (serve demo_socket_json (\<lambda>_. []) demo_sessions demo_socket (map (\<lambda>x. [x])))) ''77.3''
     = ((0, None), str_bytes (''ab'' @ crlf @ ''c'' @ crlf))"
proof -
  have c: "chunking (map (\<lambda>x. [x]))" by (auto simp: chunking_def)
  have t: "int_str 77 @ CHR ''.'' # nat_str 3 = ''77.3''" by code_simp
  have v: "view_lines 3 demo_sessions = [''ab'', ''c'']" by (simp add: view_lines_def demo_sessions_def)
  show ?thesis
    using view_shows_screen [of 77 "\<lambda>_. Inr ''s''" "''s''" "\<lambda>_. Inr (serve demo_socket_json (\<lambda>_. []) demo_sessions demo_socket (map (\<lambda>x. [x])))"
        demo_socket_json "\<lambda>_. []" demo_sessions demo_socket "map (\<lambda>x. [x])" "\<lambda>i. Inr (put_u64 i)" 3 "put_u64 3"] c
    by (simp add: t v demo_socket_json_def length_put)
qed

end
