(* ===== verification/Transport.thy ===== *)
theory Transport
  imports Datagram Startup Rekey
begin

text \<open>
  Setting up the transport (\<open>service.go\<close>, \<open>proto.go\<close>): the addresses a server listens on, the secrets it prints for
  its client in hexadecimal and how the client reads them back, the sizes of packets and of the datagrams in them,
  and the goroutine of an accepted connection. KCP, smux, QUIC and TLS are third-party code: their results are parameters.
\<close>

section \<open>Hexadecimal\<close>

definition hex_char :: "nat \<Rightarrow> char" where
  "hex_char n = (if n < 10 then char_of (48 + n) else char_of (87 + n))"

text \<open>\<open>fmt.Sprintf\<close> with \<open>%x\<close> of bytes.\<close>

definition hex_encode :: "bytes \<Rightarrow> string" where
  "hex_encode bs = concat (map (\<lambda>b. [hex_char (unat b div 16), hex_char (unat b mod 16)]) bs)"

definition hex_val :: "char \<Rightarrow> nat option" where
  "hex_val c =
     (let n = of_char c :: nat
      in if 48 \<le> n \<and> n \<le> 57 then Some (n - 48) else if 97 \<le> n \<and> n \<le> 102 then Some (n - 87)
         else if 65 \<le> n \<and> n \<le> 70 then Some (n - 55) else None)"

text \<open>\<open>hex.DecodeString\<close>.\<close>

fun hex_DecodeString :: "string \<Rightarrow> bytes result" where
  "hex_DecodeString [] = Inr []"
| "hex_DecodeString [c] =
     Inl (if hex_val c = None then ErrText ''encoding/hex: invalid byte'' else ErrText ''encoding/hex: odd length hex string'')"
| "hex_DecodeString (c # d # s) =
     (case (hex_val c, hex_val d) of
        (Some a, Some b) \<Rightarrow> (case hex_DecodeString s of Inl e \<Rightarrow> Inl e | Inr bs \<Rightarrow> Inr (word_of_nat (16 * a + b) # bs))
      | _ \<Rightarrow> Inl (ErrText ''encoding/hex: invalid byte''))"

section \<open>Sizes\<close>

definition kDefaultMTU :: u16 where "kDefaultMTU = 1400"

definition kQuicMinMTU :: u16 where "kQuicMinMTU = 1200"

definition kQuicMaxMTU :: u16 where "kQuicMaxMTU = 1452"

definition kQuicShortHeaderSize :: u16 where "kQuicShortHeaderSize = 37"

text \<open>The largest datagram of a QUIC connection with this packet size, and of a KCP connection with this size of out-of-band data.\<close>

definition newQuicDatagramConn :: "u16 \<Rightarrow> u16" where
  "newQuicDatagramConn initialPacketSize = initialPacketSize - kQuicShortHeaderSize - of_nat kUdpForwardChannelIdSize"

definition newKcpDatagramConn :: "int \<Rightarrow> u16" where
  "newKcpDatagramConn oobMaxSize = word_of_int oobMaxSize - of_nat kUdpForwardChannelIdSize"

text \<open>The buffer for datagrams of a KCP connection holds 1024; more are dropped.\<close>

definition datagramHandler :: "bytes \<Rightarrow> bytes list \<Rightarrow> bytes list" where
  "datagramHandler buf ch = (if length ch < 1024 then ch @ [buf] else ch)"

text \<open>The packet size a client asks for: the server's, or what fits a datagram of the client it runs through, or the default.\<close>

definition client_packet_size :: "u16 \<Rightarrow> u16 option \<Rightarrow> u16" where
  "client_packet_size mtu proxyMax = (if mtu \<noteq> 0 then mtu else (case proxyMax of Some m \<Rightarrow> m | None \<Rightarrow> kDefaultMTU))"

definition server_packet_size :: "u16 \<Rightarrow> u16" where
  "server_packet_size mtu = (if mtu > 0 then mtu else kDefaultMTU)"

section \<open>Secrets\<close>

definition kUdpModeKCP :: string where "kUdpModeKCP = ''KCP''"

definition kUdpModeQUIC :: string where "kUdpModeQUIC = ''QUIC''"

definition kRekeyTimeThreshold :: int where "kRekeyTimeThreshold = 3600000000000"

definition kRekeyBytesThreshold :: u64 where "kRekeyBytesThreshold = 1073741824"

record serverInfo =
  nf_ServerVer :: string
  nf_ProtoVer :: int
  nf_Port :: nat
  nf_Mode :: string
  nf_Pass :: string
  nf_Salt :: string
  nf_ServerCert :: string
  nf_ClientCert :: string
  nf_ClientKey :: string
  nf_ProxyKey :: string
  nf_ClientID :: u64
  nf_ServerID :: u64
  nf_ProxyMode :: string
  nf_MTU :: u16

text \<open>
  What the libraries answer on the server: random bytes, the KCP and the QUIC listener, two generated pairs of a
  certificate and a key, and the packet size that \<open>Listen\<close> writes back into its configuration.
\<close>

record server_env =
  se_randPass :: "bytes result"
  se_randSalt :: "bytes result"
  se_serveErr :: "go_error option"
  se_serverPair :: "(bytes \<times> bytes) result"
  se_clientPair :: "(bytes \<times> bytes) result"
  se_pairErr :: "go_error option"
  se_listenErr :: "go_error option"
  se_validate :: "u16 \<Rightarrow> u16"

definition listenKCP ::
  "('k, 's, 'p) prims \<Rightarrow> ('k \<Rightarrow> nat \<times> nat) \<Rightarrow> server_env \<Rightarrow> int \<Rightarrow> serverInfo \<Rightarrow> bool \<Rightarrow> (('k, 's) rotatingCrypto \<times> serverInfo) result" where
  "listenKCP P sizes env now info delegToProxy =
     (case se_randPass env of
        Inl e \<Rightarrow> Inl (ErrFlat ''rand pass failed'' e)
      | Inr pass \<Rightarrow>
          (case se_randSalt env of
             Inl e \<Rightarrow> Inl (ErrFlat ''rand salt failed'' e)
           | Inr salt \<Rightarrow>
               (case newRotatingCrypto P sizes pass salt 0 0 delegToProxy now of
                  Inl e \<Rightarrow> Inl (ErrWrap ''new rotating crypto failed'' e)
                | Inr crypto \<Rightarrow>
                    (case se_serveErr env of
                       Some e \<Rightarrow> Inl (ErrFlat ''kcp serve conn failed'' e)
                     | None \<Rightarrow> Inr (crypto, info\<lparr>nf_Mode := kUdpModeKCP, nf_Pass := hex_encode pass, nf_Salt := hex_encode salt\<rparr>)))))"

text \<open>Certificates and keys are in PEM; the last field says whether path MTU discovery is disabled.\<close>

record quic_server =
  qs_cert :: bytes
  qs_key :: bytes
  qs_clientCA :: bytes
  qs_packetSize :: u16
  qs_fixedMTU :: bool

record quic_client =
  qc_cert :: bytes
  qc_key :: bytes
  qc_rootCA :: bytes
  qc_maxDatagram :: u16
  qc_fixedMTU :: bool

definition listenQUIC :: "server_env \<Rightarrow> serverInfo \<Rightarrow> u16 \<Rightarrow> (quic_server \<times> serverInfo) result" where
  "listenQUIC env info mtu =
     (case se_serverPair env of
        Inl e \<Rightarrow> Inl e
      | Inr (serverCertPEM, serverKeyPEM) \<Rightarrow>
          (case se_clientPair env of
             Inl e \<Rightarrow> Inl e
           | Inr (clientCertPEM, clientKeyPEM) \<Rightarrow>
               (case se_pairErr env of
                  Some e \<Rightarrow> Inl (ErrFlat ''x509 key pair failed'' e)
                | None \<Rightarrow>
                    (case se_listenErr env of
                       Some e \<Rightarrow> Inl (ErrFlat ''quic listen failed'' e)
                     | None \<Rightarrow>
                         Inr (\<lparr>qs_cert = serverCertPEM, qs_key = serverKeyPEM, qs_clientCA = clientCertPEM,
                                qs_packetSize = se_validate env (server_packet_size mtu), qs_fixedMTU = (mtu > 0)\<rparr>,
                              info\<lparr>nf_Mode := kUdpModeQUIC, nf_ServerCert := hex_encode serverCertPEM,
                                nf_ClientCert := hex_encode clientCertPEM, nf_ClientKey := hex_encode clientKeyPEM\<rparr>)))))"

text \<open>
  What the libraries answer on the client: the out-of-band size of a KCP connection with a given packet size, and the
  packet size that \<open>Dial\<close> writes back. \<open>ce_proxyMax\<close> is the largest datagram of the client it runs through.
\<close>

record client_env =
  ce_remoteAddr :: string
  ce_connErr :: "go_error option"
  ce_smuxErr :: "go_error option"
  ce_pairErr :: "go_error option"
  ce_dialErr :: "go_error option"
  ce_proxyMax :: "u16 option"
  ce_oobMaxSize :: "u16 \<Rightarrow> int"
  ce_validate :: "u16 \<Rightarrow> u16"

text \<open>The result has the largest datagram. The message for a salt that cannot be decoded names the password, as in the code.\<close>

definition newKcpClient ::
  "('k, 's, 'p) prims \<Rightarrow> ('k \<Rightarrow> nat \<times> nat) \<Rightarrow> client_env \<Rightarrow> int \<Rightarrow> serverInfo \<Rightarrow> (('k, 's) rotatingCrypto \<times> u16) result" where
  "newKcpClient P sizes env now info =
     (case hex_DecodeString (nf_Pass info) of
        Inl e \<Rightarrow> Inl (ErrWrap (''decode pass ['' @ nf_Pass info @ ''] failed'') e)
      | Inr pass \<Rightarrow>
          (case hex_DecodeString (nf_Salt info) of
             Inl e \<Rightarrow> Inl (ErrWrap (''decode salt ['' @ nf_Pass info @ ''] failed'') e)
           | Inr salt \<Rightarrow>
               (case newRotatingCrypto P sizes pass salt kRekeyBytesThreshold kRekeyTimeThreshold False now of
                  Inl e \<Rightarrow> Inl (ErrWrap ''new rotating crypto failed'' e)
                | Inr crypto \<Rightarrow>
                    (case ce_connErr env of
                       Some e \<Rightarrow> Inl (ErrWrap (''kcp new conn ['' @ ce_remoteAddr env @ ''] failed'') e)
                     | None \<Rightarrow>
                         (case ce_smuxErr env of
                            Some e \<Rightarrow> Inl (ErrWrap ''kcp smux client failed'' e)
                          | None \<Rightarrow> Inr (crypto, newKcpDatagramConn (ce_oobMaxSize env (client_packet_size (nf_MTU info) (ce_proxyMax env)))))))))"

definition newQuicClient :: "client_env \<Rightarrow> serverInfo \<Rightarrow> quic_client result" where
  "newQuicClient env info =
     (case hex_DecodeString (nf_ServerCert info) of
        Inl e \<Rightarrow> Inl (ErrWrap (''decode server cert ['' @ nf_ServerCert info @ ''] failed'') e)
      | Inr serverCert \<Rightarrow>
          (case hex_DecodeString (nf_ClientCert info) of
             Inl e \<Rightarrow> Inl (ErrWrap (''decode client cert ['' @ nf_ClientCert info @ ''] failed'') e)
           | Inr clientCert \<Rightarrow>
               (case hex_DecodeString (nf_ClientKey info) of
                  Inl e \<Rightarrow> Inl (ErrWrap (''decode client key ['' @ nf_ClientKey info @ ''] failed'') e)
                | Inr clientKey \<Rightarrow>
                    (case ce_pairErr env of
                       Some e \<Rightarrow> Inl (ErrWrap ''x509 key pair failed'' e)
                     | None \<Rightarrow>
                         (case ce_dialErr env of
                            Some e \<Rightarrow> Inl (ErrWrap (''quic dail ['' @ ce_remoteAddr env @ ''] failed'') e)
                          | None \<Rightarrow> Inr \<lparr>qc_cert = clientCert, qc_key = clientKey, qc_rootCA = serverCert,
                              qc_maxDatagram = newQuicDatagramConn (ce_validate env (client_packet_size (nf_MTU info) (ce_proxyMax env))),
                              qc_fixedMTU = (nf_MTU info \<noteq> 0 \<or> ce_proxyMax env \<noteq> None)\<rparr>)))))"

text \<open>The client that the mode of the server asks for.\<close>

datatype ('k, 's) proto_client = KcpClient "('k, 's) rotatingCrypto" u16 | QuicClient quic_client

definition newProtoClient ::
  "('k, 's, 'p) prims \<Rightarrow> ('k \<Rightarrow> nat \<times> nat) \<Rightarrow> client_env \<Rightarrow> int \<Rightarrow> serverInfo \<Rightarrow> ('k, 's) proto_client result" where
  "newProtoClient P sizes env now info =
     (if nf_Mode info = [] then Inl (ErrText ''Please upgrade tsshd'')
      else if nf_Mode info = kUdpModeKCP then
        (case newKcpClient P sizes env now info of Inl e \<Rightarrow> Inl e | Inr (crypto, m) \<Rightarrow> Inr (KcpClient crypto m))
      else if nf_Mode info = kUdpModeQUIC then
        (case newQuicClient env info of Inl e \<Rightarrow> Inl e | Inr c \<Rightarrow> Inr (QuicClient c))
      else Inl (ErrText (''unknown tsshd mode: '' @ nf_Mode info)))"

text \<open>
  The server: \<open>freePort\<close> is the port of \<open>listenOnFreePort\<close>, \<open>startProxy\<close> what the proxy adds to the information,
  \<open>marshal\<close> the JSON encoder. The result has the listener that is served.
\<close>

datatype ('k, 's) proto_server = KcpServer "('k, 's) rotatingCrypto" | QuicServer quic_server

definition kTsshdVersion :: string where "kTsshdVersion = ''0.1.9''"

definition kTsshdProtocol :: int where "kTsshdProtocol = 2"

definition initServer ::
  "('k, 's, 'p) prims \<Rightarrow> ('k \<Rightarrow> nat \<times> nat) \<Rightarrow> server_env \<Rightarrow> int \<Rightarrow> nat result \<Rightarrow> (serverInfo \<Rightarrow> serverInfo result)
   \<Rightarrow> (serverInfo \<Rightarrow> string result) \<Rightarrow> tsshdArgs \<Rightarrow> (('k, 's) proto_server \<times> serverInfo \<times> string) result" where
  "initServer P sizes env now freePort startProxy marshal args =
     (case freePort of
        Inl e \<Rightarrow> Inl e
      | Inr port \<Rightarrow>
          (case startProxy \<lparr>nf_ServerVer = kTsshdVersion, nf_ProtoVer = kTsshdProtocol, nf_Port = port, nf_Mode = [],
                  nf_Pass = [], nf_Salt = [], nf_ServerCert = [], nf_ClientCert = [], nf_ClientKey = [], nf_ProxyKey = [],
                  nf_ClientID = 0, nf_ServerID = 0, nf_ProxyMode = [], nf_MTU = a_MTU args\<rparr> of
             Inl e \<Rightarrow> Inl e
           | Inr info \<Rightarrow>
               (case (if a_KCP args
                      then (case listenKCP P sizes env now info (a_Attachable args) of
                              Inl e \<Rightarrow> Inl e | Inr (crypto, info') \<Rightarrow> Inr (KcpServer crypto, info'))
                      else (case listenQUIC env info (a_MTU args) of
                              Inl e \<Rightarrow> Inl e | Inr (q, info') \<Rightarrow> Inr (QuicServer q, info'))) of
                  Inl e \<Rightarrow> Inl e
                | Inr (server, info') \<Rightarrow>
                    (case marshal info' of
                       Inl e \<Rightarrow> Inl (ErrFlat ''json marshal failed'' e)
                     | Inr infoStr \<Rightarrow> Inr (server, info', infoStr)))))"

section \<open>Addresses\<close>

text \<open>An IP by what \<open>To4\<close> and \<open>To16\<close> say of it, and an address of an interface by its Go type.\<close>

datatype ip = IP4 string | IP6 string | BadIP

datatype iface_addr = IPNet ip | IPAddr ip | OtherAddr

type_synonym udp_addr = "ip \<times> string"

text \<open>\<open>listenTCP\<close> and \<open>listenUDP\<close> say whether listening on the address, then closed again, succeeds.\<close>

definition canListenOnIP :: "tsshdArgs \<Rightarrow> (udp_addr \<Rightarrow> bool) \<Rightarrow> (udp_addr \<Rightarrow> bool) \<Rightarrow> udp_addr \<Rightarrow> bool" where
  "canListenOnIP args listenTCP listenUDP a = (if a_TCP args then listenTCP a else listenUDP a)"

definition ssh_addr :: "string \<Rightarrow> string option" where
  "ssh_addr sshConnection =
     (let tokens = str_fields sshConnection
      in if length tokens \<ge> 3 then
           (let ip0 = tokens ! 2; ip = (if has_prefix (to_lower ip0) ''::ffff:'' then drop 7 ip0 else ip0)
            in Some (if \<not> has_prefix ip ''['' \<and> CHR '':'' \<in> set ip then ''['' @ ip @ '']:0'' else ip @ '':0''))
         else None)"

definition addListenableAddr :: "tsshdArgs \<Rightarrow> (udp_addr \<Rightarrow> bool) \<Rightarrow> string \<Rightarrow> ip \<Rightarrow> udp_addr list" where
  "addListenableAddr args canListen zone a =
     (let ipv4Only = a_IPv4 args \<and> \<not> a_IPv6 args; ipv6Only = \<not> a_IPv4 args \<and> a_IPv6 args
      in case a of
           IP4 _ \<Rightarrow> if ipv6Only then [] else if canListen (a, []) then [(a, [])] else []
         | IP6 _ \<Rightarrow> if ipv4Only then [] else if canListen (a, zone) then [(a, zone)] else []
         | BadIP \<Rightarrow> [])"

definition iface_addrs :: "tsshdArgs \<Rightarrow> (udp_addr \<Rightarrow> bool) \<Rightarrow> string \<times> iface_addr list result \<Rightarrow> udp_addr list" where
  "iface_addrs args canListen i =
     (case snd i of
        Inl _ \<Rightarrow> []
      | Inr as \<Rightarrow> concat (map (\<lambda>a. case a of IPNet v \<Rightarrow> addListenableAddr args canListen (fst i) v
                                           | IPAddr v \<Rightarrow> addListenableAddr args canListen (fst i) v
                                           | OtherAddr \<Rightarrow> []) as))"

text \<open>\<open>resolve\<close> is the resolver, \<open>ifaces\<close> are the interfaces with their addresses.\<close>

definition getUdpAddrs ::
  "tsshdArgs \<Rightarrow> string \<Rightarrow> (string \<Rightarrow> udp_addr result) \<Rightarrow> (udp_addr \<Rightarrow> bool) \<Rightarrow> (string \<times> iface_addr list result) list result
   \<Rightarrow> udp_addr list result" where
  "getUdpAddrs args sshConnection resolve canListen ifaces =
     (case (case ssh_addr sshConnection of
              None \<Rightarrow> None
            | Some addr \<Rightarrow> (case resolve addr of Inr a \<Rightarrow> if canListen a then Some a else None | Inl _ \<Rightarrow> None)) of
        Some a \<Rightarrow> Inr [a]
      | None \<Rightarrow>
          let udpAddrs = (case ifaces of Inl _ \<Rightarrow> [] | Inr is \<Rightarrow> concat (map (iface_addrs args canListen) is))
          in if udpAddrs = [] then (case resolve '':0'' of Inl e \<Rightarrow> Inl e | Inr a \<Rightarrow> Inr [a]) else Inr udpAddrs)"

section \<open>Connections\<close>

text \<open>
  The goroutine of an accepted connection: \<open>activeServing\<close> is whether the active server serves a client,
  \<open>server\<close> whether \<open>newSshUdpServer\<close> made one, \<open>streams\<close> are the streams until accepting fails with \<open>err\<close>.
\<close>

datatype conn_event =
  SetWindowSize int int | SetNoDelay int int int int | SetWriteDelay bool | SetMtu u16
| HandleStream nat | ConnWarning string | CloseConn

definition accept_streams :: "string \<Rightarrow> nat list \<Rightarrow> go_error \<Rightarrow> conn_event list" where
  "accept_streams what streams err = map HandleStream streams @ (if IsClosedError (Some err) then [] else [ConnWarning what])"

definition handleKcpConn :: "tsshdArgs \<Rightarrow> bool \<Rightarrow> go_error option \<Rightarrow> bool \<Rightarrow> nat list \<Rightarrow> go_error \<Rightarrow> conn_event list" where
  "handleKcpConn args activeServing smuxErr server streams err =
     (if \<not> a_Attachable args \<and> activeServing then []
      else [SetWindowSize 1024 1024, SetNoDelay 1 10 2 1, SetWriteDelay False, SetMtu (server_packet_size (a_MTU args))]
        @ (if smuxErr \<noteq> None then [ConnWarning ''kcp smux server failed'']
           else if \<not> server then [] else accept_streams ''kcp smux accept stream failed'' streams err))
     @ [CloseConn]"

definition handleQuicConn :: "tsshdArgs \<Rightarrow> bool \<Rightarrow> bool \<Rightarrow> nat list \<Rightarrow> go_error \<Rightarrow> conn_event list" where
  "handleQuicConn args activeServing server streams err =
     (if \<not> a_Attachable args \<and> activeServing then []
      else if \<not> server then [] else accept_streams ''quic accept stream failed'' streams err)
     @ [CloseConn]"

section \<open>Lemmas\<close>

lemma hex_val_char: "n < 16 \<Longrightarrow> hex_val (hex_char n) = Some n"
  by (auto simp: hex_val_def hex_char_def Let_def)

lemma hex_DecodeString_encode: "hex_DecodeString (hex_encode bs) = Inr bs"
proof (induction bs)
  case (Cons b bs)
  have "unat b < 256" using unat_bound [of b] by simp
  then have "unat b div 16 < 16" by (simp add: less_mult_imp_div_less)
  with Cons show ?case by (simp add: hex_encode_def hex_val_char)
qed (simp add: hex_encode_def)

text \<open>A client with no failure of its libraries.\<close>

definition client_ok :: "client_env \<Rightarrow> bool" where
  "client_ok env \<longleftrightarrow> ce_connErr env = None \<and> ce_smuxErr env = None \<and> ce_pairErr env = None \<and> ce_dialErr env = None"

text \<open>
  The two ends fit: both KCP ends hold the same key under the same salt and use it; of the QUIC ends each presents
  the certificate that the other one requires.
\<close>

fun ends_fit :: "(bytes \<times> bytes) result \<Rightarrow> ('k, 's) proto_server \<Rightarrow> ('k, 's) proto_client \<Rightarrow> bool" where
  "ends_fit pair (KcpServer s) (KcpClient c m) \<longleftrightarrow>
     gcmList c = gcmList s \<and> length (gcmList s) = 1 \<and> activeIdx c = activeIdx s \<and> activeIdx s = 0 \<and> keySalt c = keySalt s"
| "ends_fit pair (QuicServer s) (QuicClient c) \<longleftrightarrow>
     qc_rootCA c = qs_cert s \<and> qc_cert c = qs_clientCA s \<and> pair = Inr (qc_cert c, qc_key c)"
| "ends_fit pair _ _ \<longleftrightarrow> False"

lemma newRotatingCrypto_same:
  assumes "newRotatingCrypto P sizes pass salt bt tt d now = Inr s"
  shows "\<exists>c. newRotatingCrypto P sizes' pass salt bt' tt' d' now' = Inr c \<and> gcmList c = gcmList s \<and> length (gcmList s) = 1
    \<and> activeIdx c = activeIdx s \<and> activeIdx s = 0 \<and> keySalt c = keySalt s"
  using assms by (auto simp: newRotatingCrypto_def installKey_def Let_def split: sum.splits)

lemma kcp_ends:
  assumes "listenKCP P sizes env now info d = Inr (s, info')" "client_ok ce"
  shows "\<exists>c. newProtoClient P sizes' ce now' info' = Inr c \<and> ends_fit (se_clientPair env) (KcpServer s) c"
proof -
  obtain pass salt where
    s: "newRotatingCrypto P sizes pass salt 0 0 d now = Inr s"
    and i: "info' = info\<lparr>nf_Mode := kUdpModeKCP, nf_Pass := hex_encode pass, nf_Salt := hex_encode salt\<rparr>"
    using assms(1) by (auto simp: listenKCP_def split: sum.splits option.splits)
  from newRotatingCrypto_same [OF s, of sizes' kRekeyBytesThreshold kRekeyTimeThreshold False now']
  obtain c where c: "newRotatingCrypto P sizes' pass salt kRekeyBytesThreshold kRekeyTimeThreshold False now' = Inr c"
      "ends_fit (se_clientPair env) (KcpServer s) (KcpClient c m)" for m by auto
  with i assms(2) show ?thesis
    by (simp add: newProtoClient_def newKcpClient_def hex_DecodeString_encode client_ok_def kUdpModeKCP_def)
qed

lemma quic_ends:
  assumes "listenQUIC env info mtu = Inr (s, info')" "client_ok ce"
  shows "\<exists>c. newProtoClient P sizes' ce now' info' = Inr c \<and> ends_fit (se_clientPair env) (QuicServer s) c"
proof -
  obtain sc sk cc ck where "se_clientPair env = Inr (cc, ck)" "qs_cert s = sc" "qs_clientCA s = cc"
    and "info' = info\<lparr>nf_Mode := kUdpModeQUIC, nf_ServerCert := hex_encode sc, nf_ClientCert := hex_encode cc, nf_ClientKey := hex_encode ck\<rparr>"
    using assms(1) by (auto simp: listenQUIC_def split: sum.splits option.splits prod.splits)
  with assms(2) show ?thesis
    by (simp add: newProtoClient_def newQuicClient_def hex_DecodeString_encode client_ok_def kUdpModeQUIC_def kUdpModeKCP_def)
qed

section \<open>Properties\<close>

text \<open>
  C13. A client that is given the information the server printed, and whose libraries do not fail, gets a connection of
  the server's mode that fits the server: with KCP both ends start from the same key and salt, with QUIC
  each end presents the certificate the other requires and the client has the key of its own. The secrets survive
  the way through their hexadecimal text, whatever the random values are.
\<close>

theorem client_joins_server:
  assumes "initServer P sizes env now freePort startProxy marshal args = Inr (server, info, infoStr)" "client_ok ce"
  shows "\<exists>c. newProtoClient P sizes' ce now' info = Inr c \<and> ends_fit (se_clientPair env) server c"
  using assms kcp_ends [OF _ assms(2)] quic_ends [OF _ assms(2)]
  by (auto simp: initServer_def split: sum.splits if_splits prod.splits)

definition demo_server_env :: server_env where
  "demo_server_env = \<lparr>se_randPass = Inr [0xA7], se_randSalt = Inr [3, 255], se_serveErr = None, se_serverPair = Inr ([1], [2]),
     se_clientPair = Inr ([3], [4]), se_pairErr = None, se_listenErr = None, se_validate = (\<lambda>n. n)\<rparr>"

definition demo_client_env :: client_env where
  "demo_client_env = \<lparr>ce_remoteAddr = [], ce_connErr = None, ce_smuxErr = None, ce_pairErr = None, ce_dialErr = None,
     ce_proxyMax = None, ce_oobMaxSize = (\<lambda>n. uint n - 24), ce_validate = (\<lambda>n. max 1200 (min 1452 n))\<rparr>"

text \<open>The witness has a KCP server.\<close>

theorem client_joins_server_witness:
  "\<exists>server info c. initServer demo_prims (\<lambda>_. (0, 1)) demo_server_env 0 (Inr 61001) Inr (\<lambda>_. Inr []) (no_args\<lparr>a_KCP := True\<rparr>)
      = Inr (server, info, []) \<and> nf_Pass info = ''a7'' \<and> nf_Salt info = ''03ff''
    \<and> newProtoClient demo_prims (\<lambda>_. (0, 1)) demo_client_env 5 info = Inr c \<and> ends_fit (Inr ([3], [4])) server c"
proof -
  let ?r = "initServer demo_prims (\<lambda>_. (0, 1)) demo_server_env 0 (Inr 61001) Inr (\<lambda>_. Inr []) (no_args\<lparr>a_KCP := True\<rparr>)"
  have "case ?r of Inl _ \<Rightarrow> False | Inr (server, info, infoStr) \<Rightarrow> infoStr = [] \<and> nf_Pass info = ''a7'' \<and> nf_Salt info = ''03ff''"
    by code_simp
  then obtain server info where r: "?r = Inr (server, info, [])" "nf_Pass info = ''a7''" "nf_Salt info = ''03ff''"
    by (auto split: sum.splits)
  have "client_ok demo_client_env" by (simp add: client_ok_def demo_client_env_def)
  from client_joins_server [OF r(1) this, of "\<lambda>_. (0, 1)" 5] r show ?thesis
    by (auto simp: demo_server_env_def)
qed

text \<open>
  A chain of QUIC clients that take the packet size from the client before: \<open>Listen\<close> and \<open>Dial\<close> keep packet sizes
  between 1200 and 1452. The list has each client's packet size, from the outermost on.
\<close>

fun nested_sizes :: "(u16 \<Rightarrow> u16) \<Rightarrow> u16 option \<Rightarrow> nat \<Rightarrow> u16 list" where
  "nested_sizes validate proxyMax 0 = []"
| "nested_sizes validate proxyMax (Suc n) =
     (let size = validate (client_packet_size 0 proxyMax) in size # nested_sizes validate (Some (newQuicDatagramConn size)) n)"

definition clamps :: "(u16 \<Rightarrow> u16) \<Rightarrow> bool" where
  "clamps validate \<longleftrightarrow> (\<forall>n. n \<noteq> 0 \<longrightarrow> validate n = max kQuicMinMTU (min kQuicMaxMTU n))"

text \<open>Each packet fits a datagram of the client before. With the default size this holds for five clients and for no more.\<close>

fun nested_fit :: "u16 list \<Rightarrow> bool" where
  "nested_fit (a # b # xs) \<longleftrightarrow> b \<le> newQuicDatagramConn a \<and> nested_fit (b # xs)"
| "nested_fit _ \<longleftrightarrow> True"

lemma nested_packets_fit:
  assumes "clamps validate"
  shows "nested_fit (nested_sizes validate None n) \<longleftrightarrow> n \<le> 5"
proof -
  have v: "validate 1400 = 1400" "validate 1355 = 1355" "validate 1310 = 1310" "validate 1265 = 1265" "validate 1220 = 1220"
      "validate 1175 = 1200"
    using assms by (simp_all add: clamps_def kQuicMinMTU_def kQuicMaxMTU_def)
  note unfold = Let_def client_packet_size_def kDefaultMTU_def newQuicDatagramConn_def kQuicShortHeaderSize_def
    kUdpForwardChannelIdSize_def v
  show ?thesis
  proof (cases "n \<le> 5")
    case True
    then consider "n = 0" | "n = 1" | "n = 2" | "n = 3" | "n = 4" | "n = 5" by linarith
    then show ?thesis by cases (simp_all add: unfold eval_nat_numeral)
  next
    case False
    then obtain m where "n = 6 + m" using le_Suc_ex [of 6 n] by auto
    then have "n = Suc (Suc (Suc (Suc (Suc (Suc m)))))" by simp
    with False show ?thesis by (simp add: unfold)
  qed
qed

definition demo_info :: serverInfo where
  "demo_info = \<lparr>nf_ServerVer = [], nf_ProtoVer = 2, nf_Port = 61001, nf_Mode = kUdpModeQUIC, nf_Pass = [], nf_Salt = [],
     nf_ServerCert = ''01'', nf_ClientCert = ''03'', nf_ClientKey = ''04'', nf_ProxyKey = [], nf_ClientID = 0, nf_ServerID = 0,
     nf_ProxyMode = [], nf_MTU = 100\<rparr>"

text \<open>
  The largest datagram of a QUIC connection does not wrap around, whatever packet size other than zero is asked for: with what the
  library makes of the size, the packet holds the datagram, the channel number and the header, and a datagram has at least 1155 bytes.
\<close>

lemma datagram_fits_packet:
  assumes "clamps (ce_validate env)" "newQuicClient env info = Inr c" "client_packet_size (nf_MTU info) (ce_proxyMax env) \<noteq> 0"
  shows "unat (qc_maxDatagram c) + 8 + 37 = unat (ce_validate env (client_packet_size (nf_MTU info) (ce_proxyMax env)))
    \<and> 1155 \<le> unat (qc_maxDatagram c)"
proof -
  let ?n = "client_packet_size (nf_MTU info) (ce_proxyMax env)"
  define v where "v = ce_validate env ?n"
  have c: "qc_maxDatagram c = v - 37 - 8"
    using assms(2) by (auto simp: v_def newQuicClient_def newQuicDatagramConn_def kQuicShortHeaderSize_def
      kUdpForwardChannelIdSize_def split: sum.splits option.splits)
  have "1200 \<le> v" using assms(1,3) by (simp add: v_def clamps_def kQuicMinMTU_def)
  then have "1200 \<le> unat v" by (simp add: word_le_nat_alt)
  then have "unat (v - 45) = unat v - 45" by (simp add: unat_sub word_le_nat_alt)
  moreover have "v - 37 - 8 = v - 45" by simp
  ultimately show ?thesis using c \<open>1200 \<le> unat v\<close> unfolding v_def [symmetric] by simp
qed

text \<open>The witness asks for a packet of 100 bytes.\<close>

lemma datagram_fits_packet_witness:
  "\<exists>c. newQuicClient demo_client_env demo_info = Inr c \<and> 1155 \<le> unat (qc_maxDatagram c)"
proof -
  obtain c where c: "newQuicClient demo_client_env demo_info = Inr c"
    by (auto simp: newQuicClient_def demo_client_env_def demo_info_def hex_val_def)
  have "clamps (ce_validate demo_client_env)" "client_packet_size (nf_MTU demo_info) (ce_proxyMax demo_client_env) \<noteq> 0"
    by (simp_all add: clamps_def demo_client_env_def demo_info_def client_packet_size_def kQuicMinMTU_def kQuicMaxMTU_def)
  from datagram_fits_packet [OF this(1) c this(2)] c show ?thesis by blast
qed

end
