(* ===== verification/Spec2Isabelle.thy ===== *)
theory Spec2Isabelle
  imports Codec Sessions ServerStreams StreamSwap CheckerSwap Output_Inv SshdConfig Startup ProxyClient ProxyTcp
    PacketConn Forward Processes ClientIO ClientControl SessionStart Pacer Socket Transport
begin

text \<open>
  \<^bold>\<open>tsshd\<close> is a remote shell server over UDP together with its client library (Go, \<open>src/tsshd\<close>). A server is started
  over SSH, prints the data a client needs to reach it, and from then on talks to that client, and in attachable mode to
  its successors, over KCP or QUIC. Below the transport a pair of proxies moves the traffic between network paths; above
  it every session, forwarded connection or listener has a stream of its own, and one stream, the bus, carries commands
  in both directions for as long as the client is connected.

  \<^bold>\<open>Conventions.\<close> A struct is a record with the fields of the source under a short prefix, an enumeration or a position
  in a function a datatype. A fallible function returns \<open>'a result\<close>, with the error left (\<open>go_error\<close> keeps the wrapping
  chain). Machine integers that can wrap are words, times are integers in the unit of the source. Code that is not in the
  repository (KCP, smux, QUIC, TLS, AES-GCM, ECDH, HKDF, JSON, \<open>shlex\<close>, the terminal emulator) and the answers of the
  operating system are parameters; what is assumed of them is a named hypothesis (\<open>prims_ok\<close>, \<open>server_json_ok\<close>,
  \<open>client_json_ok\<close>, \<open>clamps\<close>) for which a witness gives an instance. Concurrent code is a machine: \<open>exec a s\<close> performs one
  action of one goroutine, \<open>run_acts exec acts s\<close> a schedule of them, and a property holds after every schedule.

  \<^bold>\<open>Foundations.\<close>
  \<^item> \<open>Prelude\<close> has bytes, big-endian integers, slices, errors and shared lemmas; \<open>Go_Strings\<close> the functions of \<open>strings\<close> and
    \<open>strconv\<close>, on ASCII; \<open>Machine\<close> the schedules, with the locales \<open>machine\<close> (an invariant of every step holds after
    every schedule) and \<open>progress_machine\<close> (so does a relation between earlier and later states).
  \<^item> \<open>Codec\<close> (\<open>proto.go\<close>, \<open>proxy.go\<close>): commands, messages, replies and 16-bit frames over readers and writers that split
    the data arbitrarily. The locales \<open>framed\<close> and \<open>framed_channel\<close> say what a frame format promises; the three formats
    are its interpretations.

  \<^bold>\<open>The way of the packets.\<close>
  \<^item> \<open>Startup\<close> (\<open>main.go\<close>, \<open>service.go\<close>, \<open>comm.go\<close>): command line, order of the start-up decisions, watchdog, ports, versions.
  \<^item> \<open>Transport\<close> (\<open>service.go\<close>, \<open>proto.go\<close>): addresses, printed secrets, packet sizes, accepted connections; a client that is
    given what the server printed gets a connection that uses the server's keys.
  \<^item> \<open>Rekey\<close> (\<open>rekey.go\<close> and the rekey messages of \<open>bus.go\<close> and \<open>client.go\<close>): the key lists of both sides, over a network that
    loses, duplicates, reorders and forges; the two sides never lose a common key, and keys never go back.
  \<^item> \<open>ProxyServer\<close> and \<open>ProxyTcp\<close> (\<open>proxy_server.go\<close>): clients, serial numbers, authentication, address maps, handshakes. What
    is delivered was authenticated, and serial numbers cannot be replayed. \<open>ProxyClient\<close> (\<open>proxy_client.go\<close>): renewing the
    path, and the two sides together.

  \<^bold>\<open>Sessions on the server.\<close>
  \<^item> \<open>ServerStreams\<close> (\<open>server.go\<close>, \<open>bus.go\<close>): the goroutines of the streams of one client, and their end.
  \<^item> \<open>SessionStart\<close> (\<open>session.go\<close>): environment, command line, X11 and agent requests, message of the day and the handler of a
    session stream; every request gets one answer, and a command the environment that the configuration allows.
  \<^item> \<open>Sessions\<close> (\<open>session.go\<close>, \<open>attach.go\<close>, \<open>server.go\<close>, \<open>bus.go\<close>): which client owns which session, in every order of activating,
    attaching, detaching, resizing and closing. \<open>SessionInput\<close>: the input of a session and its discard marker.
  \<^item> \<open>StreamSwap\<close> and \<open>CheckerSwap\<close> (\<open>attach.go\<close>): the streams and the timeout checker of a session while the client behind
    them is replaced. \<open>Checker\<close> (\<open>comm.go\<close>): the checker itself, interleaved at its atomic accesses.
  \<^item> \<open>Output\<close>, \<open>Output_Props\<close>, \<open>Output_Inv\<close> (\<open>output.go\<close>): the output forwarder with its cache for absent clients; what it takes
    in is sent in order or counted as given up, and the cache stays bounded. The locale \<open>cache_invariant\<close> is the contract
    between the cache and the handlers. \<open>Tmux\<close> (\<open>tmuxcc.go\<close>) is the control mode, \<open>Pacer\<close> the token bucket.
  \<^item> \<open>Socket\<close> (\<open>socket.go\<close>): the control socket with its three requests and commands. \<open>Processes\<close> (\<open>comm.go\<close>, \<open>utils_unix.go\<close>): the
    processes of a session.

  \<^bold>\<open>Forwarding.\<close>
  \<^item> \<open>SshdConfig\<close> (\<open>sshd_config.go\<close>) reads the options, \<open>UnixFiles\<close> (\<open>utils_unix.go\<close>, \<open>forward.go\<close>, \<open>comm.go\<close>) has the files of
    sockets, and \<open>Forward\<close> (\<open>forward.go\<close>, \<open>datagram.go\<close>, \<open>session.go\<close>) what is allowed, dialled, listened on, accepted and copied.
  \<^item> \<open>Datagram\<close> and \<open>PacketConn\<close> (\<open>datagram.go\<close>): channels of datagrams, one session for each peer, and connections that use
    datagrams and the reliable stream side by side.

  \<^bold>\<open>The client library.\<close>
  \<^item> \<open>ClientRequests\<close> (\<open>client.go\<close>): every request, and what it leaves open. \<open>ClientIO\<close> (\<open>client.go\<close>, \<open>output.go\<close>): input and
    output of a session.
  \<^item> \<open>Bus\<close> (\<open>bus.go\<close>, \<open>client.go\<close>): the two command loops; each refines the list of commands the other side sent.
  \<^item> \<open>ClientControl\<close> (\<open>client.go\<close>): heartbeat, looking for a new path, detaching and closing.

  This theory has the properties that span components: discarding stale input from the keyboard to the command, and the
  graceful detach.

  \<^bold>\<open>Loops and bounds.\<close> Loops are recursive functions with termination proofs. Two may run for ever in the code and are
  partial functions, where \<open>None\<close> is not returning: \<open>Processes.descend\<close>, with \<open>descendants_terminate\<close> on when it returns, and
  \<open>Pacer.pay_debt\<close>, with \<open>pacer_within_budget\<close> for rates at which it does. A wait that another goroutine must end is
  \<open>None\<close> of a step, or \<open>Blocked\<close> in \<open>Output\<close>, whose other goroutines act through a finite script. No function has fuel.

  \<^bold>\<open>Where the model is coarser than the code.\<close>
  \<^item> The operations of the UDP front end are single steps, and its compare-and-swaps compare addresses, not pointers.
    \<open>close_race_keeps_address\<close> shows what a finer interleaving can do.
  \<^item> In \<open>Rekey\<close> a step that would derive a key a second time is not taken: keys are assumed fresh.
  \<^item> Floating point numbers of the pacer are rationals, and its durations do not overflow.
  \<^item> Strings are ASCII: case folding, white space and the dot of a pattern are those of single bytes.
  \<^item> A slice is the list of its elements, without sharing of the array. Counters of \<open>Output\<close> are unbounded.
  \<^item> A task with a time limit is its result and its duration; the output forwarders that \<open>Detach\<close> waits for are the times
    at which they end, what they deliver is in \<open>ClientIO\<close>.

  \<^bold>\<open>Not modelled.\<close> Sessions of installed middleware (\<open>middleware.go\<close>) beyond the flag that there is a handler; transport
  statistics (\<open>stats.go\<close>); help, version and the fork into the background (\<open>main.go\<close>, \<open>version.go\<close>); Windows and other
  platforms; running \<open>xauth\<close> and \<open>ps\<close>; finding the files of the configuration; dialling in \<open>proxy_client.go\<close>; generating
  certificates; debug output. These only call the system or libraries, or print.
\<close>

section \<open>Across components\<close>

definition demo_env_in :: in_env where "demo_env_in = \<lparr>ie_timeout = False, ie_keep = False, ie_wait = None\<rparr>"

definition demo_client_in :: client_input where
  "demo_client_in = \<lparr>ci_marker = None, ci_stream = \<lparr>w_sink = [], w_sched = [WrOk 2]\<rparr>, ci_discarded = [], ci_ended = False\<rparr>"

text \<open>
  C5. Discarding the input typed during an outage works from the keyboard to the command: let the client's input
  forwarder send what was typed before the server's marker arrived (\<open>old\<close>) and after it (\<open>new\<close>), and let the
  server receive the stream in any chunks while it looks for the marker. If writing does not fail, something is typed
  after the marker (which is sent together with it) and the marker occurs in what was sent nowhere before its own place,
  then the command receives exactly what was typed after the marker arrived, and the old input is
  reported as dropped.
\<close>

theorem discard_end_to_end:
  assumes "plain_input (old @ MarkerStored m # new)" "no_marker old" "no_marker new" "typed_bytes new \<noteq> []"
    and "w_reliable (ci_stream c)" "\<not> ci_ended c" "ci_marker c = None" "w_sink (ci_stream c) = []"
    and "i_server s = Some v" "i_marker s = Some (n, m)" "i_discarded s = []" "\<not> i_ended s" "w_reliable (i_stdin s)" "m \<noteq> []"
    and "concat bufs = w_sink (ci_stream (fold client_forwardInput (old @ MarkerStored m # new) c))"
    and "index_sub (typed_bytes old @ m @ typed_bytes new) m = Some (length (typed_bytes old))"
  shows "w_sink (i_stdin (forward_all bufs s)) = w_sink (i_stdin s) @ typed_bytes new
    \<and> i_reports (forward_all bufs s) = i_reports s @ (if typed_bytes old = [] then [] else [(v, typed_bytes old)])
    \<and> i_marker (forward_all bufs s) = None"
proof -
  have "concat bufs = typed_bytes old @ m @ typed_bytes new"
    using client_input_sent [OF assms(1,5,6)] assms(15) sent_bytes_split [OF assms(2-4)] assms(7,8) by simp
  moreover have "index_sub [] m = None" using assms(14) by simp
  ultimately obtain w where w: "forward_all bufs s = s\<lparr>i_stdin := w, i_marker := None, i_discarded := [],
        i_reports := i_reports s @ (if typed_bytes old = [] then [] else [(v, typed_bytes old)])\<rparr>"
    "w_sink w = w_sink (i_stdin s) @ typed_bytes new"
    using discard_run [OF assms(9,10,12,13), of bufs "typed_bytes old" "typed_bytes new"] assms(11,16) by auto
  then show ?thesis by simp
qed

theorem discard_end_to_end_witness:
  "w_sink (i_stdin (forward_all [[1, 255], [255, 192], [193, 7], [8, 9]] demo_session)) = [7, 8, 9]
   \<and> i_reports (forward_all [[1, 255], [255, 192], [193, 7], [8, 9]] demo_session) = [(1, [1, 255])]"
proof -
  let ?old = "[Typed [1] demo_env_in, Typed [255] demo_env_in]" and ?new = "[Typed [7, 8] demo_env_in, Typed [9] demo_env_in]"
  let ?m = "[255, 192, 193] :: bytes" and ?bufs = "[[1, 255], [255, 192], [193, 7], [8, 9]] :: bytes list"
  have p: "plain_input (?old @ MarkerStored ?m # ?new)" by (simp add: plain_input_def demo_env_in_def)
  have b: "concat ?bufs = w_sink (ci_stream (fold client_forwardInput (?old @ MarkerStored ?m # ?new) demo_client_in))" by code_simp
  have i: "index_sub (typed_bytes ?old @ ?m @ typed_bytes ?new) ?m = Some (length (typed_bytes ?old))" by (simp add: has_prefix_def)
  have c: "w_reliable (ci_stream demo_client_in)" "\<not> ci_ended demo_client_in" "ci_marker demo_client_in = None"
    "w_sink (ci_stream demo_client_in) = []" by (simp_all add: demo_client_in_def w_reliable_def)
  have s: "i_server demo_session = Some 1" "i_marker demo_session = Some (0, ?m)" "i_discarded demo_session = []"
    "\<not> i_ended demo_session" "w_reliable (i_stdin demo_session)" "w_sink (i_stdin demo_session) = []" "i_reports demo_session = []"
    by (simp_all add: demo_session_def w_reliable_def)
  from discard_end_to_end [OF p _ _ _ c s(1-5) _ b i] s(6,7) show ?thesis by simp
qed



end
